(* ===== verification/Event_Match.thy ===== *)
theory Event_Match
  imports Go_Strings
begin

text \<open>
  \<open>workflow/internal/eventmatch/eventmatch.go\<close>: NATS-style matching of an event subject
  against a trigger's pattern. \<open>matchTokens\<close> and \<open>Matches\<close> are the code's functions; the
  relation \<open>subject_of\<close> is the documented meaning of the two wildcards, and the code is
  proved to decide it.
\<close>

subsection \<open>The code\<close>

fun matchTokens :: "string list \<Rightarrow> string list \<Rightarrow> bool" where
  "matchTokens [] subject = (subject = [])"
| "matchTokens (p # ps) subject =
     (if p = ''>'' then subject \<noteq> []
      else (case subject of
              [] \<Rightarrow> False
            | s # ss \<Rightarrow> (if p = ''*'' \<or> p = s then matchTokens ps ss else False)))"

definition Matches :: "string \<Rightarrow> string \<Rightarrow> bool" where
  "Matches pattern subject = matchTokens (split_on (CHR ''.'') pattern) (split_on (CHR ''.'') subject)"

definition MatchesTokens :: "string list \<Rightarrow> string list \<Rightarrow> bool" where
  "MatchesTokens pattern subject = matchTokens pattern subject"

subsection \<open>The documented meaning\<close>

inductive subject_of :: "string list \<Rightarrow> string list \<Rightarrow> bool" where
  finish: "subject_of [] []"
| tail: "ss \<noteq> [] \<Longrightarrow> subject_of (''>'' # ps) ss"
| any: "subject_of ps ss \<Longrightarrow> subject_of (''*'' # ps) (s # ss)"
| lit: "p \<noteq> ''>'' \<Longrightarrow> subject_of ps ss \<Longrightarrow> subject_of (p # ps) (p # ss)"

inductive_cases subject_of_Nil: "subject_of [] ss"
inductive_cases subject_of_Cons: "subject_of (p # ps) ss"

definition wildcard_free :: "string list \<Rightarrow> bool" where
  "wildcard_free ps \<longleftrightarrow> ''*'' \<notin> set ps \<and> ''>'' \<notin> set ps"

lemma matchTokens_iff: "matchTokens ps ss \<longleftrightarrow> subject_of ps ss"
proof (induction ps ss rule: matchTokens.induct)
  case (1 ss)
  then show ?case by (auto intro: subject_of.finish elim: subject_of_Nil)
next
  case (2 p ps ss)
  then show ?case
    by (auto split: list.splits intro: subject_of.intros elim!: subject_of_Cons)
qed

lemma matchTokens_wildcard_free:
  "wildcard_free ps \<Longrightarrow> matchTokens ps ss \<longleftrightarrow> ps = ss"
  by (induction ps ss rule: matchTokens.induct) (auto simp: wildcard_free_def split: list.splits)

lemma split_on_inj: "split_on c s = split_on c t \<Longrightarrow> s = t"
  by (metis join_split_on)

lemma Matches_exact:
  "wildcard_free (split_on (CHR ''.'') p) \<Longrightarrow> Matches p s \<longleftrightarrow> p = s"
  by (auto simp: Matches_def matchTokens_wildcard_free dest: split_on_inj)

lemma matchTokens_refl: "matchTokens ss ss"
  by (induction ss) auto

lemma Matches_refl: "Matches s s"
  by (simp add: Matches_def matchTokens_refl)

lemma matchTokens_append_tail:
  "matchTokens ps ss \<Longrightarrow> ''>'' \<notin> set ps \<Longrightarrow> ts \<noteq> [] \<Longrightarrow> matchTokens (ps @ [''>'']) (ss @ ts)"
  by (induction ps ss rule: matchTokens.induct) (auto split: list.splits if_splits)

subsection \<open>Properties\<close>


end
