(* ===== verification/Float64.thy ===== *)
theory Float64
  imports Complex_Main Go_Strings "HOL-Library.Log_Nat"
begin

text \<open>
  Go's \<open>float64\<close>, as far as the program computes with it: conversion from \<open>int\<close>,
  comparison, the four operations and rounding used by the expression functions, reading
  a decimal (\<open>strconv.ParseFloat\<close>) and printing the shortest decimal that reads back
  (\<open>strconv.FormatFloat(_, 'f', -1, 64)\<close> and the \<open>%v\<close> verb).

  A finite value is a sign and a magnitude, an exact rational; every operation computes
  the exact rational result and rounds it once, to nearest with ties to even, to 53
  significant bits (fewer for subnormals), which is what IEEE 754 prescribes. The sign is
  kept apart from the magnitude so that negative zero exists.
\<close>

datatype f64 = FNaN | FInf bool | FFin bool rat

subsection \<open>Rounding\<close>

definition pow2 :: "int \<Rightarrow> rat" where
  "pow2 e = (if 0 \<le> e then 2 ^ nat e else 1 / 2 ^ nat (- e))"

definition pow10 :: "int \<Rightarrow> rat" where
  "pow10 e = (if 0 \<le> e then 10 ^ nat e else 1 / 10 ^ nat (- e))"

text \<open>The binary exponent of a positive rational: \<open>2^e \<le> r < 2^(e+1)\<close>.\<close>

definition rat_exp :: "rat \<Rightarrow> int" where
  "rat_exp r =
     (let (n, d) = quotient_of r;
          e = bitlen n - bitlen d
      in if pow2 e \<le> r then e else e - 1)"

definition round_half_even :: "rat \<Rightarrow> int" where
  "round_half_even r =
     (let f = \<lfloor>r\<rfloor>; d = r - of_int f
      in if d < 1 / 2 then f else if d > 1 / 2 then f + 1 else if even f then f else f + 1)"

text \<open>The unit in the last place of a magnitude; \<open>-1074\<close> is the subnormal one.\<close>

definition ulp_exp :: "rat \<Rightarrow> int" where
  "ulp_exp m = max (rat_exp m) (-1022) - 52"

definition round_f64 :: "bool \<Rightarrow> rat \<Rightarrow> f64" where
  "round_f64 neg m =
     (if m = 0 then FFin neg 0
      else (let u = pow2 (ulp_exp m); v = of_int (round_half_even (m / u)) * u
            in if 1024 \<le> rat_exp v then FInf neg else FFin neg v))"

definition f_of_rat :: "bool \<Rightarrow> rat \<Rightarrow> f64" where
  "f_of_rat zero_neg r = round_f64 (if r = 0 then zero_neg else r < 0) \<bar>r\<bar>"

definition f_of_int :: "int \<Rightarrow> f64" where
  "f_of_int i = f_of_rat False (of_int i)"

fun f_val :: "f64 \<Rightarrow> rat" where
  "f_val (FFin neg m) = (if neg then - m else m)"
| "f_val _ = 0"

subsection \<open>Comparison and classification\<close>

fun is_nan :: "f64 \<Rightarrow> bool" where
  "is_nan FNaN = True"
| "is_nan _ = False"

fun is_inf :: "f64 \<Rightarrow> bool" where
  "is_inf (FInf _) = True"
| "is_inf _ = False"

fun is_fin :: "f64 \<Rightarrow> bool" where
  "is_fin (FFin _ _) = True"
| "is_fin _ = False"

fun sign_bit :: "f64 \<Rightarrow> bool" where
  "sign_bit FNaN = False"
| "sign_bit (FInf s) = s"
| "sign_bit (FFin s _) = s"

text \<open>A NaN is neither equal to, below nor above anything.\<close>

fun f_lt :: "f64 \<Rightarrow> f64 \<Rightarrow> bool" where
  "f_lt FNaN _ = False"
| "f_lt _ FNaN = False"
| "f_lt (FInf a) (FInf b) = (a \<and> \<not> b)"
| "f_lt (FInf a) (FFin _ _) = a"
| "f_lt (FFin _ _) (FInf b) = (\<not> b)"
| "f_lt (FFin a x) (FFin b y) = (f_val (FFin a x) < f_val (FFin b y))"

fun f_eq :: "f64 \<Rightarrow> f64 \<Rightarrow> bool" where
  "f_eq (FInf a) (FInf b) = (a = b)"
| "f_eq (FFin a x) (FFin b y) = (f_val (FFin a x) = f_val (FFin b y))"
| "f_eq _ _ = False"

definition f_le :: "f64 \<Rightarrow> f64 \<Rightarrow> bool" where
  "f_le x y \<longleftrightarrow> f_lt x y \<or> f_eq x y"

lemma f_lt_irrefl [simp]: "\<not> f_lt x x"
  by (cases x) auto

lemma f_lt_asym: "f_lt x y \<Longrightarrow> \<not> f_lt y x"
  by (cases x; cases y) auto

lemma f_lt_trans: "f_lt x y \<Longrightarrow> f_lt y z \<Longrightarrow> f_lt x z"
  by (cases x; cases y; cases z) (auto split: if_splits)

lemma f_eq_sym: "f_eq x y = f_eq y x"
  by (cases x; cases y) auto

lemma f_eq_refl: "f_eq x x \<longleftrightarrow> \<not> is_nan x"
  by (cases x) auto

lemma f_trichotomy: "\<not> is_nan x \<Longrightarrow> \<not> is_nan y \<Longrightarrow> f_lt x y \<or> f_eq x y \<or> f_lt y x"
  by (cases x; cases y) auto

lemma f_lt_not_eq: "f_lt x y \<Longrightarrow> \<not> f_eq x y"
  by (cases x; cases y) auto

subsection \<open>Arithmetic\<close>

definition f_zero :: f64 where
  "f_zero = FFin False 0"

fun f_neg :: "f64 \<Rightarrow> f64" where
  "f_neg FNaN = FNaN"
| "f_neg (FInf s) = FInf (\<not> s)"
| "f_neg (FFin s m) = FFin (\<not> s) m"

fun f_add :: "f64 \<Rightarrow> f64 \<Rightarrow> f64" where
  "f_add FNaN _ = FNaN"
| "f_add _ FNaN = FNaN"
| "f_add (FInf a) (FInf b) = (if a = b then FInf a else FNaN)"
| "f_add (FInf a) (FFin _ _) = FInf a"
| "f_add (FFin _ _) (FInf b) = FInf b"
| "f_add (FFin a x) (FFin b y) = f_of_rat (a \<and> b) (f_val (FFin a x) + f_val (FFin b y))"

definition f_sub :: "f64 \<Rightarrow> f64 \<Rightarrow> f64" where
  "f_sub x y = f_add x (f_neg y)"

fun f_mul :: "f64 \<Rightarrow> f64 \<Rightarrow> f64" where
  "f_mul FNaN _ = FNaN"
| "f_mul _ FNaN = FNaN"
| "f_mul (FInf a) (FInf b) = FInf (a \<noteq> b)"
| "f_mul (FInf a) (FFin b y) = (if y = 0 then FNaN else FInf (a \<noteq> b))"
| "f_mul (FFin a x) (FInf b) = (if x = 0 then FNaN else FInf (a \<noteq> b))"
| "f_mul (FFin a x) (FFin b y) = round_f64 (a \<noteq> b) (x * y)"

fun f_div :: "f64 \<Rightarrow> f64 \<Rightarrow> f64" where
  "f_div FNaN _ = FNaN"
| "f_div _ FNaN = FNaN"
| "f_div (FInf a) (FInf b) = FNaN"
| "f_div (FInf a) (FFin b y) = FInf (a \<noteq> b)"
| "f_div (FFin a x) (FInf b) = FFin (a \<noteq> b) 0"
| "f_div (FFin a x) (FFin b y) =
     (if y = 0 then (if x = 0 then FNaN else FInf (a \<noteq> b)) else round_f64 (a \<noteq> b) (x / y))"

text \<open>\<open>math.Min\<close> and \<open>math.Max\<close>, with their special cases for infinities, NaN and zeros.\<close>

definition f_min :: "f64 \<Rightarrow> f64 \<Rightarrow> f64" where
  "f_min x y =
     (if x = FInf True \<or> y = FInf True then FInf True
      else if is_nan x \<or> is_nan y then FNaN
      else if f_eq x f_zero \<and> f_eq x y then (if sign_bit x then x else y)
      else if f_lt x y then x else y)"

definition f_max :: "f64 \<Rightarrow> f64 \<Rightarrow> f64" where
  "f_max x y =
     (if x = FInf False \<or> y = FInf False then FInf False
      else if is_nan x \<or> is_nan y then FNaN
      else if f_eq x f_zero \<and> f_eq x y then (if sign_bit x then y else x)
      else if f_lt y x then x else y)"

text \<open>\<open>math.Round\<close> (halves away from zero), \<open>math.Trunc\<close> and \<open>math.Abs\<close>.\<close>

fun f_round :: "f64 \<Rightarrow> f64" where
  "f_round (FFin s m) = round_f64 s (of_int \<lfloor>m + 1 / 2\<rfloor>)"
| "f_round x = x"

fun f_trunc :: "f64 \<Rightarrow> f64" where
  "f_trunc (FFin s m) = round_f64 s (of_int \<lfloor>m\<rfloor>)"
| "f_trunc x = x"

fun f_abs :: "f64 \<Rightarrow> f64" where
  "f_abs FNaN = FNaN"
| "f_abs (FInf _) = FInf False"
| "f_abs (FFin _ m) = FFin False m"

subsection \<open>Decimal text\<close>

text \<open>The digit counts \<open>FormatFloat\<close> prints: \<open>10^(k-1) \<le> m < 10^k\<close>.\<close>

fun frac_zeros :: "nat \<Rightarrow> rat \<Rightarrow> nat" where
  "frac_zeros 0 m = 0"
| "frac_zeros (Suc fuel) m = (if 1 \<le> m * 10 then 0 else Suc (frac_zeros fuel (m * 10)))"

definition dec_exp :: "rat \<Rightarrow> int" where
  "dec_exp m = (if 1 \<le> m then int (length (digits_of \<lfloor>m\<rfloor>)) else - int (frac_zeros 400 m))"

text \<open>
  The shortest decimal \<open>c * 10^e\<close> that rounds back to the value, the closest one where
  two are as short: 17 digits always suffice.
\<close>

definition reads_back :: "rat \<Rightarrow> rat \<Rightarrow> bool" where
  "reads_back m c = (round_f64 False c = FFin False m)"

definition short_at :: "rat \<Rightarrow> int \<Rightarrow> int option" where
  "short_at m e =
     (let u = pow10 e; lo = \<lfloor>m / u\<rfloor>; hi = lo + 1;
          lo_ok = reads_back m (of_int lo * u); hi_ok = reads_back m (of_int hi * u);
          dlo = m - of_int lo * u; dhi = of_int hi * u - m
      in if lo_ok \<and> hi_ok then Some (if dlo < dhi \<or> (dlo = dhi \<and> even lo) then lo else hi)
         else if lo_ok then Some lo else if hi_ok then Some hi else None)"

fun shortest_from :: "nat \<Rightarrow> rat \<Rightarrow> int \<Rightarrow> int \<times> int" where
  "shortest_from 0 m e = (\<lfloor>m / pow10 e\<rfloor>, e)"
| "shortest_from (Suc fuel) m e =
     (case short_at m e of Some c \<Rightarrow> (c, e) | None \<Rightarrow> shortest_from fuel m (e - 1))"

function strip_zeros :: "int \<Rightarrow> int \<Rightarrow> int \<times> int" where
  "strip_zeros c e = (if 0 < c \<and> c mod 10 = 0 then strip_zeros (c div 10) (e + 1) else (c, e))"
  by pat_completeness auto
termination by (relation "measure (\<lambda>(c, e). nat c)") auto

declare strip_zeros.simps [simp del]

definition shortest_decimal :: "rat \<Rightarrow> int \<times> int" where
  "shortest_decimal m =
     (if m = 0 then (0, 0)
      else (case shortest_from 17 m (dec_exp m - 1) of (c, e) \<Rightarrow> strip_zeros c e))"

definition plain_decimal :: "int \<Rightarrow> int \<Rightarrow> string" where
  "plain_decimal c e =
     (let ds = digits_of c; n = int (length ds)
      in if 0 \<le> e then ds @ replicate (nat e) (CHR ''0'')
         else if - e < n then take (nat (n + e)) ds @ ''.'' @ drop (nat (n + e)) ds
         else ''0.'' @ replicate (nat (- e - n)) (CHR ''0'') @ ds)"

definition sci_decimal :: "int \<Rightarrow> int \<Rightarrow> string" where
  "sci_decimal c e =
     (let ds = digits_of c; x = int (length ds) - 1 + e; xs = digits_of \<bar>x\<bar>
      in (case ds of
            [] \<Rightarrow> []
          | d # rest \<Rightarrow> d # (if rest = [] then [] else ''.'' @ rest))
         @ ''e'' @ (if x < 0 then ''-'' else ''+'')
         @ (if length xs < 2 then CHR ''0'' # xs else xs))"

text \<open>\<open>strconv.FormatFloat(x, 'f', -1, 64)\<close>.\<close>

fun format_f :: "f64 \<Rightarrow> string" where
  "format_f FNaN = ''NaN''"
| "format_f (FInf s) = (if s then ''-Inf'' else ''+Inf'')"
| "format_f (FFin s m) =
     (if s then ''-'' else '''') @ (case shortest_decimal m of (c, e) \<Rightarrow> plain_decimal c e)"

text \<open>
  \<open>fmt.Sprintf("%v", x)\<close>, which is the verb \<open>g\<close> with the shortest precision: scientific
  notation is used when the decimal exponent is below -4 or at least 6, the precision the
  shortest form decides with.
\<close>

fun format_v :: "f64 \<Rightarrow> string" where
  "format_v FNaN = ''NaN''"
| "format_v (FInf s) = (if s then ''-Inf'' else ''+Inf'')"
| "format_v (FFin s m) =
     (if s then ''-'' else '''') @
     (case shortest_decimal m of (c, e) \<Rightarrow>
        let x = int (length (digits_of c)) - 1 + e
        in if x < -4 \<or> 6 \<le> x then sci_decimal c e else plain_decimal c e)"

subsection \<open>Integers up to \<open>2^53\<close> are exact\<close>

lemma round_half_even_int [simp]: "round_half_even (of_int z) = z"
  by (simp add: round_half_even_def Let_def)

lemma bitlen_one: "bitlen (1::int) = 1"
  by (simp add: bitlen_def compute_floorlog)

lemma rat_exp_of_int: "0 < k \<Longrightarrow> rat_exp (of_int k) = bitlen k - 1"
proof -
  assume k: "0 < k"
  then have "1 \<le> bitlen k" by (metis bitlen_nonneg bitlen_eq_zero_iff int_one_le_iff_zero_less order_le_less not_less)
  moreover have "k < 2 ^ nat (bitlen k)" using bitlen_bounds [OF k] by simp
  then have "(of_int k :: rat) < 2 ^ nat (bitlen k)" by (metis of_int_less_iff of_int_numeral of_int_power)
  moreover have "2 ^ nat (bitlen k - 1) \<le> (of_int k :: rat)"
    using bitlen_bounds [OF k] by (metis of_int_le_iff of_int_numeral of_int_power)
  ultimately show ?thesis
    by (simp add: rat_exp_def pow2_def Let_def quotient_of_int bitlen_one)
qed

lemma round_f64_int_exact:
  assumes "0 < k" and "k \<le> 2 ^ 53"
  shows "round_f64 neg (of_int k) = FFin neg (of_int k)"
proof -
  have b1: "1 \<le> bitlen k"
    using assms(1) by (metis bitlen_nonneg bitlen_eq_zero_iff int_one_le_iff_zero_less order_le_less not_less)
  have bounds: "2 ^ nat (bitlen k - 1) \<le> k" using bitlen_bounds [OF assms(1)] by simp
  have "(2::int) ^ nat (bitlen k - 1) \<le> 2 ^ 53" using bounds assms(2) by linarith
  then have "nat (bitlen k - 1) \<le> 53" by (rule power_le_imp_le_exp [rotated]) simp
  then have b2: "bitlen k \<le> 54" by linarith
  define u where "u = pow2 (ulp_exp (of_int k))"
  have ue: "ulp_exp (of_int k) = bitlen k - 53"
    using b1 by (simp add: ulp_exp_def rat_exp_of_int [OF assms(1)])
  have "\<exists>z. of_int k / u = of_int z"
  proof (cases "bitlen k = 54")
    case True
    then have "k = 2 ^ 53" using bounds assms(2) by simp
    then have "of_int k / u = of_int (2 ^ 52)" unfolding u_def ue True by (simp add: pow2_def)
    then show ?thesis by blast
  next
    case False
    then have "of_int k / u = of_int (k * 2 ^ nat (53 - bitlen k))"
      using b2 by (auto simp: u_def ue pow2_def)
    then show ?thesis by blast
  qed
  then obtain z where z: "of_int k / u = of_int z" by blast
  have "u \<noteq> 0" by (simp add: u_def pow2_def)
  then have "of_int (round_half_even (of_int k / u)) * u = of_int k"
    unfolding z round_half_even_int by (simp flip: z)
  moreover have "\<not> 1024 \<le> rat_exp (of_int k)" using b2 by (simp add: rat_exp_of_int [OF assms(1)])
  ultimately show ?thesis using assms(1)
    by (simp add: round_f64_def Let_def flip: u_def)
qed

lemma f_of_int_exact: "\<bar>i\<bar> \<le> 2 ^ 53 \<Longrightarrow> f_of_int i = FFin (i < 0) (of_int \<bar>i\<bar>)"
  by (cases "i = 0") (use round_f64_int_exact [of "\<bar>i\<bar>" "i < 0"] in
      \<open>auto simp: f_of_int_def f_of_rat_def round_f64_def\<close>)

lemma f_of_int_compare:
  assumes "\<bar>i\<bar> \<le> 2 ^ 53" and "\<bar>j\<bar> \<le> 2 ^ 53"
  shows "f_lt (f_of_int i) (f_of_int j) \<longleftrightarrow> i < j" and "f_eq (f_of_int i) (f_of_int j) \<longleftrightarrow> i = j"
proof -
  have v: "f_val (FFin (k < 0) (of_int \<bar>k\<bar>)) = of_int k" for k :: int by simp
  show "f_lt (f_of_int i) (f_of_int j) \<longleftrightarrow> i < j" "f_eq (f_of_int i) (f_of_int j) \<longleftrightarrow> i = j"
    unfolding f_of_int_exact [OF assms(1)] f_of_int_exact [OF assms(2)] f_lt.simps f_eq.simps v by simp_all
qed

lemma f_of_int_not_nan [simp]: "\<not> is_nan (f_of_int i)"
  by (auto simp: f_of_int_def f_of_rat_def round_f64_def Let_def)

end
