(* ===== verification/Go_Values.thy ===== *)
theory Go_Values
  imports Float64
begin

text \<open>
  The dynamic values (\<open>any\<close>) workflow data is made of, and the conversions package
  \<open>expression\<close> applies to them. \<open>VInt\<close> stands for Go's \<open>int\<close>, \<open>int32\<close> and \<open>int64\<close>, which every
  consumer treats alike; \<open>VOpen\<close> is \<open>OpenRecord\<close>; \<open>VOther\<close> is a value of another type (a
  \<open>time.Time\<close>), known by the type name \<open>%T\<close> and the text \<open>%v\<close> print for it. A map is an
  association list in the order the runtime iterates it.
\<close>

datatype val =
    VNil
  | VBool bool
  | VInt int
  | VFloat f64
  | VStr string
  | VList "val list"
  | VMap "(string \<times> val) list"
  | VOpen "(string \<times> val) list"
  | VOther string string

type_synonym obj = "(string \<times> val) list"

subsection \<open>Formatting\<close>

text \<open>\<open>fmt\<close> prints a map in the order of its keys.\<close>

fun insert_key :: "string \<times> 'a \<Rightarrow> (string \<times> 'a) list \<Rightarrow> (string \<times> 'a) list" where
  "insert_key x [] = [x]"
| "insert_key x (y # ys) = (if str_le (fst x) (fst y) then x # y # ys else y # insert_key x ys)"

definition sort_keys :: "(string \<times> 'a) list \<Rightarrow> (string \<times> 'a) list" where
  "sort_keys kvs = foldr insert_key kvs []"

lemma set_insert_key [simp]: "set (insert_key x ys) = insert x (set ys)"
  by (induction ys) auto

lemma set_sort_keys [simp]: "set (sort_keys kvs) = set kvs"
  by (induction kvs) (auto simp: sort_keys_def)

definition fmt_bool :: "bool \<Rightarrow> string" where
  "fmt_bool b = (if b then ''true'' else ''false'')"

definition fmt_map :: "(string \<times> string) list \<Rightarrow> string" where
  "fmt_map kvs =
     ''map['' @ join '' '' (map (\<lambda>(k, s). k @ '':'' @ s) (sort_keys kvs)) @ '']''"

text \<open>\<open>fmt.Sprintf("%v", v)\<close>.\<close>

fun fmt_v :: "val \<Rightarrow> string" where
  "fmt_v VNil = ''<nil>''"
| "fmt_v (VBool b) = fmt_bool b"
| "fmt_v (VInt i) = itoa i"
| "fmt_v (VFloat x) = format_v x"
| "fmt_v (VStr s) = s"
| "fmt_v (VList vs) = ''['' @ join '' '' (map fmt_v vs) @ '']''"
| "fmt_v (VMap kvs) = fmt_map (map (\<lambda>kv. (fst kv, fmt_v (snd kv))) kvs)"
| "fmt_v (VOpen kvs) = fmt_map (map (\<lambda>kv. (fst kv, fmt_v (snd kv))) kvs)"
| "fmt_v (VOther t s) = s"

text \<open>\<open>toString\<close> of \<open>resolver.go\<close>.\<close>

fun toString :: "val \<Rightarrow> string" where
  "toString (VStr s) = s"
| "toString (VInt i) = itoa i"
| "toString (VFloat x) = format_f x"
| "toString (VBool b) = fmt_bool b"
| "toString VNil = ''''"
| "toString v = fmt_v v"

subsection \<open>Conversions\<close>

text \<open>\<open>toFloat64\<close> of \<open>evaluator.go\<close>: text is never a number.\<close>

fun toFloat64 :: "val \<Rightarrow> f64 option" where
  "toFloat64 (VInt i) = Some (f_of_int i)"
| "toFloat64 (VFloat x) = Some x"
| "toFloat64 _ = None"

text \<open>\<open>truthy\<close> of \<open>compound.go\<close>.\<close>

definition truthy :: "val \<Rightarrow> bool" where
  "truthy v =
     (if v = VNil then False
      else (case v of
              VBool b \<Rightarrow> b
            | _ \<Rightarrow> (case toFloat64 v of
                      Some n \<Rightarrow> \<not> f_eq n f_zero
                    | None \<Rightarrow> (case v of VStr s \<Rightarrow> s \<noteq> '''' | _ \<Rightarrow> True))))"

lemma truthy_simps [simp]:
  "\<not> truthy VNil"
  "truthy (VBool b) = b"
  "truthy (VStr s) = (s \<noteq> [])"
  "truthy (VList vs)"
  "truthy (VMap kvs)"
  "truthy (VOpen kvs)"
  "truthy (VOther t s)"
  "truthy (VFloat x) = (\<not> f_eq x f_zero)"
  "truthy (VInt i) = (\<not> f_eq (f_of_int i) f_zero)"
  by (simp_all add: truthy_def)

lemma toFloat64_None_VNil [simp]: "toFloat64 VNil = None"
  by simp

subsection \<open>Errors of package \<open>expression\<close>\<close>

text \<open>
  One constructor per place the package makes an error; the constructors that take an
  error are the \<open>fmt.Errorf\<close> calls that wrap one with \<open>%w\<close>.
\<close>

datatype path_error =
    AccessOnNil string
  | IndexNonArray int
  | OutOfBounds int
  | KeyNotFound string
  | AccessOnType string

datatype xerr =
    UnknownOperator string
  | OperatorPanic string
  | RegexNotString
  | BadPattern string
  | NeedsList string
  | NeedsBounds
  | RangeNotArray
  | RangeLength nat
  | NoAssetBase string
  | UnknownSource string
  | LoadFailed string xerr
  | LoaderError string
  | PathNotFound path_error
  | UnterminatedString
  | BadNumber string
  | UnexpectedChar char
  | UnexpectedToken string
  | UnexpectedEnd
  | MissingColon
  | MissingParen
  | MissingCallParen string
  | UnknownFunction string
  | TooFewArgs string nat nat
  | TooManyArgs string nat nat
  | ParseFuel
  | FunctionCall xerr
  | ArgFailed string xerr
  | NotANumber string nat
  | NotWhole string nat
  | DivideByZero string
  | DigitsRange string
  | EmptyRange string
  | NotText string
  | TooLarge string
  | InCall string xerr
  | FieldFailed xerr
  | ValueFailed xerr
  | KeyFailed string xerr
  | IndexFailed nat xerr

text \<open>\<open>errors.Is(err, ErrPathNotFound)\<close> and \<open>errors.Is(err, ErrFunctionCall)\<close>.\<close>

fun is_path_not_found :: "xerr \<Rightarrow> bool" where
  "is_path_not_found (PathNotFound _) = True"
| "is_path_not_found (LoadFailed _ e) = is_path_not_found e"
| "is_path_not_found (FunctionCall e) = is_path_not_found e"
| "is_path_not_found (ArgFailed _ e) = is_path_not_found e"
| "is_path_not_found (InCall _ e) = is_path_not_found e"
| "is_path_not_found (FieldFailed e) = is_path_not_found e"
| "is_path_not_found (ValueFailed e) = is_path_not_found e"
| "is_path_not_found (KeyFailed _ e) = is_path_not_found e"
| "is_path_not_found (IndexFailed _ e) = is_path_not_found e"
| "is_path_not_found _ = False"

fun is_function_call :: "xerr \<Rightarrow> bool" where
  "is_function_call (FunctionCall _) = True"
| "is_function_call (ArgFailed _ _) = True"
| "is_function_call (LoadFailed _ e) = is_function_call e"
| "is_function_call (InCall _ e) = is_function_call e"
| "is_function_call (FieldFailed e) = is_function_call e"
| "is_function_call (ValueFailed e) = is_function_call e"
| "is_function_call (KeyFailed _ e) = is_function_call e"
| "is_function_call (IndexFailed _ e) = is_function_call e"
| "is_function_call _ = False"

end
