(* ===== verification/Operators.thy ===== *)
theory Operators
  imports Go_Values
begin

text \<open>
  \<open>shared/common/golang/conditions/operators.go\<close> (the operator spellings and the expected
  values they accept) and the operator half of \<open>workflow/internal/expression/evaluator.go\<close>
  and \<open>tree.go\<close> (\<open>EvaluateOperator\<close>, \<open>EvaluateAtomValue\<close>). Go's \<open>regexp.Compile\<close> is the
  parameter \<open>re\<close>: \<open>None\<close> for a pattern that does not compile, otherwise the matcher.
\<close>

type_synonym regexp = "string \<Rightarrow> (string \<Rightarrow> bool) option"

subsection \<open>Spellings\<close>

definition operators :: "(string \<times> string) list" where
  "operators =
    [(''eq'', ''eq''), (''=='', ''eq''), (''equals'', ''eq''),
     (''ne'', ''ne''), (''!='', ''ne''), (''not_equals'', ''ne''),
     (''gt'', ''gt''), (''>'', ''gt''), (''gte'', ''gte''), (''>='', ''gte''),
     (''lt'', ''lt''), (''<'', ''lt''), (''lte'', ''lte''), (''<='', ''lte''),
     (''contains'', ''contains''), (''starts_with'', ''starts_with''), (''ends_with'', ''ends_with''),
     (''in'', ''in''), (''not_in'', ''not_in''),
     (''exists'', ''exists''), (''not_exists'', ''not_exists''),
     (''regex'', ''regex''), (''matches'', ''regex''),
     (''between'', ''between''), (''range'', ''between'')]"

definition Canonical :: "string \<Rightarrow> string option" where
  "Canonical op = map_of operators op"

fun insert_str :: "string \<Rightarrow> string list \<Rightarrow> string list" where
  "insert_str x [] = [x]"
| "insert_str x (y # ys) = (if str_le x y then x # y # ys else y # insert_str x ys)"

definition Spellings :: "string list" where
  "Spellings = foldr insert_str (map fst operators) []"

text \<open>The canonical names, in the order of \<open>EvaluateOperator\<close>'s switch.\<close>

definition canonical_names :: "string list" where
  "canonical_names =
    [''eq'', ''ne'', ''gt'', ''gte'', ''lt'', ''lte'', ''contains'', ''starts_with'', ''ends_with'',
     ''in'', ''not_in'', ''exists'', ''not_exists'', ''regex'', ''between'']"

subsection \<open>Expected values\<close>

definition ValidateExpected :: "regexp \<Rightarrow> string \<Rightarrow> val \<Rightarrow> xerr option" where
  "ValidateExpected re canonical expected =
     (if canonical = ''regex'' then
        (case expected of
           VStr p \<Rightarrow> (if re p = None then Some (BadPattern p) else None)
         | _ \<Rightarrow> Some RegexNotString)
      else if canonical = ''in'' \<or> canonical = ''not_in'' then
        (case expected of VList _ \<Rightarrow> None | _ \<Rightarrow> Some (NeedsList canonical))
      else if canonical = ''between'' then
        (case expected of
           VList bounds \<Rightarrow> (if length bounds \<noteq> 2 then Some NeedsBounds else None)
         | _ \<Rightarrow> Some NeedsBounds)
      else None)"

definition compilePattern :: "regexp \<Rightarrow> val \<Rightarrow> (xerr, string \<Rightarrow> bool) res" where
  "compilePattern re expected =
     (case re (fmt_v expected) of
        None \<Rightarrow> Inl (BadPattern (fmt_v expected))
      | Some m \<Rightarrow> Inr m)"

definition rangeBounds :: "val \<Rightarrow> (xerr, val list) res" where
  "rangeBounds expected =
     (case expected of
        VList bounds \<Rightarrow> (if length bounds \<noteq> 2 then Inl (RangeLength (length bounds)) else Inr bounds)
      | _ \<Rightarrow> Inl RangeNotArray)"

definition checkExpected :: "regexp \<Rightarrow> string \<Rightarrow> val \<Rightarrow> xerr option" where
  "checkExpected re canonical expected =
     (if canonical = ''regex'' then
        (case compilePattern re expected of Inl e \<Rightarrow> Some e | Inr _ \<Rightarrow> None)
      else if canonical = ''between'' then
        (case rangeBounds expected of Inl e \<Rightarrow> Some e | Inr _ \<Rightarrow> None)
      else None)"

subsection \<open>The operators\<close>

definition equals :: "val \<Rightarrow> val \<Rightarrow> bool" where
  "equals a b =
     (if a = VNil \<and> b = VNil then True
      else if a = VNil \<or> b = VNil then False
      else (case (toFloat64 a, toFloat64 b) of
              (Some x, Some y) \<Rightarrow> f_eq x y
            | _ \<Rightarrow> fmt_v a = fmt_v b))"

definition compare :: "val \<Rightarrow> val \<Rightarrow> int" where
  "compare a b =
     (case (toFloat64 a, toFloat64 b) of
        (Some x, Some y) \<Rightarrow> (if f_lt x y then -1 else if f_lt y x then 1 else 0)
      | _ \<Rightarrow> str_compare (fmt_v a) (fmt_v b))"

definition containsCheck :: "val \<Rightarrow> val \<Rightarrow> bool" where
  "containsCheck actual expected = contains (fmt_v actual) (fmt_v expected)"

definition startsWithCheck :: "val \<Rightarrow> val \<Rightarrow> bool" where
  "startsWithCheck actual expected = has_prefix (fmt_v actual) (fmt_v expected)"

definition endsWithCheck :: "val \<Rightarrow> val \<Rightarrow> bool" where
  "endsWithCheck actual expected = has_suffix (fmt_v actual) (fmt_v expected)"

definition inCheck :: "val \<Rightarrow> val \<Rightarrow> bool" where
  "inCheck actual expected =
     (case expected of VList items \<Rightarrow> list_ex (equals actual) items | _ \<Rightarrow> False)"

definition regexCheck :: "regexp \<Rightarrow> val \<Rightarrow> val \<Rightarrow> (xerr, bool) res" where
  "regexCheck re actual expected =
     bind_res (compilePattern re expected) (\<lambda>m. Inr (m (fmt_v actual)))"

definition betweenCheck :: "val \<Rightarrow> val \<Rightarrow> (xerr, bool) res" where
  "betweenCheck actual expected =
     bind_res (rangeBounds expected) (\<lambda>bounds.
       let lo = bounds ! 0; hi = bounds ! 1 in
       if lo = VNil \<or> hi = VNil then Inr False
       else (case (toFloat64 actual, toFloat64 lo, toFloat64 hi) of
               (Some a, Some l, Some h) \<Rightarrow> Inr (f_le l a \<and> f_le a h)
             | _ \<Rightarrow> Inr (str_le (fmt_v lo) (fmt_v actual) \<and> str_le (fmt_v actual) (fmt_v hi))))"

text \<open>The switch of \<open>EvaluateOperator\<close> on the canonical name; its default panics.\<close>

definition eval_switch :: "regexp \<Rightarrow> string \<Rightarrow> string \<Rightarrow> val \<Rightarrow> val \<Rightarrow> (xerr, bool) res" where
  "eval_switch re op c actual expected =
     (if c = ''eq'' then Inr (equals actual expected)
      else if c = ''ne'' then Inr (\<not> equals actual expected)
      else if c = ''gt'' then Inr (compare actual expected > 0)
      else if c = ''gte'' then Inr (compare actual expected \<ge> 0)
      else if c = ''lt'' then Inr (compare actual expected < 0)
      else if c = ''lte'' then Inr (compare actual expected \<le> 0)
      else if c = ''contains'' then Inr (containsCheck actual expected)
      else if c = ''starts_with'' then Inr (startsWithCheck actual expected)
      else if c = ''ends_with'' then Inr (endsWithCheck actual expected)
      else if c = ''in'' then Inr (inCheck actual expected)
      else if c = ''not_in'' then Inr (\<not> inCheck actual expected)
      else if c = ''exists'' then Inr (actual \<noteq> VNil)
      else if c = ''not_exists'' then Inr (actual = VNil)
      else if c = ''regex'' then regexCheck re actual expected
      else if c = ''between'' then betweenCheck actual expected
      else Inl (OperatorPanic op))"

definition EvaluateOperator :: "regexp \<Rightarrow> string \<Rightarrow> val \<Rightarrow> val \<Rightarrow> (xerr, bool) res" where
  "EvaluateOperator re op actual expected =
     (case Canonical op of
        None \<Rightarrow> Inl (UnknownOperator op)
      | Some c \<Rightarrow> eval_switch re op c actual expected)"

text \<open>The operators an absent value is still handed to.\<close>

definition presence_operators :: "string list" where
  "presence_operators = [''eq'', ''ne'', ''in'', ''not_in'', ''exists'', ''not_exists'']"

definition EvaluateAtomValue :: "regexp \<Rightarrow> string \<Rightarrow> val \<Rightarrow> val \<Rightarrow> (xerr, bool) res" where
  "EvaluateAtomValue re op actual expected =
     (if actual = VNil then
        (case Canonical op of
           None \<Rightarrow> Inl (UnknownOperator op)
         | Some c \<Rightarrow>
             (case checkExpected re c expected of
                Some e \<Rightarrow> Inl e
              | None \<Rightarrow>
                  if c \<in> set presence_operators
                  then EvaluateOperator re op actual expected
                  else Inr False))
      else EvaluateOperator re op actual expected)"

subsection \<open>Lemmas\<close>

lemma operators_range: "(op, c) \<in> set operators \<Longrightarrow> c \<in> set canonical_names"
  by (auto simp: operators_def canonical_names_def)

lemma Canonical_range: "Canonical op = Some c \<Longrightarrow> c \<in> set canonical_names"
  unfolding Canonical_def by (rule operators_range [OF map_of_SomeD])

lemma canonical_fixed: "c \<in> set canonical_names \<Longrightarrow> Canonical c = Some c"
  unfolding canonical_names_def Canonical_def operators_def by (simp, elim disjE) simp_all

lemma Canonical_idem: "Canonical op = Some c \<Longrightarrow> Canonical c = Some c"
  by (blast intro: canonical_fixed Canonical_range)

lemma set_foldr_insert_str: "set (foldr insert_str xs []) = set xs"
proof -
  have "set (insert_str x ys) = insert x (set ys)" for x ys by (induction ys) auto
  then show ?thesis by (induction xs) auto
qed

lemma Spellings_iff: "op \<in> set Spellings \<longleftrightarrow> Canonical op \<noteq> None"
  unfolding Spellings_def set_foldr_insert_str Canonical_def by (simp add: map_of_eq_None_iff)

lemma canonical_cases [consumes 1, case_names eq ne gt gte lt lte contains starts_with ends_with
    elem not_in exists not_exists regex between]:
  assumes "c \<in> set canonical_names"
  obtains "c = ''eq''" | "c = ''ne''" | "c = ''gt''" | "c = ''gte''" | "c = ''lt''" | "c = ''lte''"
    | "c = ''contains''" | "c = ''starts_with''" | "c = ''ends_with''" | "c = ''in''" | "c = ''not_in''"
    | "c = ''exists''" | "c = ''not_exists''" | "c = ''regex''" | "c = ''between''"
proof -
  show thesis
    using assms unfolding canonical_names_def list.set insert_iff empty_iff
    by (elim disjE FalseE) (rule that; assumption)+
qed

lemma eval_switch_simps:
  "eval_switch re op ''eq'' a e = Inr (equals a e)"
  "eval_switch re op ''ne'' a e = Inr (\<not> equals a e)"
  "eval_switch re op ''gt'' a e = Inr (compare a e > 0)"
  "eval_switch re op ''gte'' a e = Inr (compare a e \<ge> 0)"
  "eval_switch re op ''lt'' a e = Inr (compare a e < 0)"
  "eval_switch re op ''lte'' a e = Inr (compare a e \<le> 0)"
  "eval_switch re op ''contains'' a e = Inr (containsCheck a e)"
  "eval_switch re op ''starts_with'' a e = Inr (startsWithCheck a e)"
  "eval_switch re op ''ends_with'' a e = Inr (endsWithCheck a e)"
  "eval_switch re op ''in'' a e = Inr (inCheck a e)"
  "eval_switch re op ''not_in'' a e = Inr (\<not> inCheck a e)"
  "eval_switch re op ''exists'' a e = Inr (a \<noteq> VNil)"
  "eval_switch re op ''not_exists'' a e = Inr (a = VNil)"
  "eval_switch re op ''regex'' a e = regexCheck re a e"
  "eval_switch re op ''between'' a e = betweenCheck a e"
  by (simp_all add: eval_switch_def)

lemma checkExpected_simps:
  "checkExpected re ''eq'' e = None" "checkExpected re ''ne'' e = None"
  "checkExpected re ''gt'' e = None" "checkExpected re ''gte'' e = None"
  "checkExpected re ''lt'' e = None" "checkExpected re ''lte'' e = None"
  "checkExpected re ''contains'' e = None" "checkExpected re ''starts_with'' e = None"
  "checkExpected re ''ends_with'' e = None" "checkExpected re ''in'' e = None"
  "checkExpected re ''not_in'' e = None" "checkExpected re ''exists'' e = None"
  "checkExpected re ''not_exists'' e = None"
  by (simp_all add: checkExpected_def)

lemma EvaluateOperator_known: "Canonical op = Some c \<Longrightarrow> EvaluateOperator re op a e = eval_switch re op c a e"
  by (simp add: EvaluateOperator_def)

lemma checkExpected_sound: "ValidateExpected re c e = None \<Longrightarrow> checkExpected re c e = None"
  by (cases e) (simp_all add: ValidateExpected_def checkExpected_def compilePattern_def rangeBounds_def
      split: option.splits if_splits, auto)

text \<open>The expected value alone decides whether an operator fails, and with which error.\<close>

lemma betweenCheck_error: "betweenCheck a e = Inl x \<longleftrightarrow> rangeBounds e = Inl x"
  by (auto simp: betweenCheck_def res_simps Let_def split: option.splits)

lemma regexCheck_error: "regexCheck re a e = Inl x \<longleftrightarrow> compilePattern re e = Inl x"
  by (auto simp: regexCheck_def res_simps)

lemma eval_switch_error:
  "c \<in> set canonical_names \<Longrightarrow> eval_switch re op c a e = Inl x \<longleftrightarrow> checkExpected re c e = Some x"
  by (cases c rule: canonical_cases)
    (simp_all add: eval_switch_simps checkExpected_simps betweenCheck_error regexCheck_error,
     simp_all add: checkExpected_def split: sum.splits)

lemma EvaluateOperator_error:
  "EvaluateOperator re op a e = Inl x \<longleftrightarrow>
     (case Canonical op of None \<Rightarrow> x = UnknownOperator op | Some c \<Rightarrow> checkExpected re c e = Some x)"
  by (cases "Canonical op")
    (auto simp: EvaluateOperator_def eval_switch_error [OF Canonical_range])

lemma EvaluateAtomValue_error:
  "EvaluateAtomValue re op a e = Inl x \<longleftrightarrow> EvaluateOperator re op a e = Inl x"
  by (cases "a = VNil"; cases "Canonical op")
    (auto simp: EvaluateAtomValue_def EvaluateOperator_error split: option.splits)

lemma str_le_antisym: "str_le a b \<Longrightarrow> str_le b a \<Longrightarrow> a = b"
  using str_less_linear str_le_iff by blast

lemma equals_refl: "(\<And>x. toFloat64 a = Some x \<Longrightarrow> \<not> is_nan x) \<Longrightarrow> equals a a"
  by (auto simp: equals_def f_eq_refl split: option.splits)

lemma equals_sym: "equals a b = equals b a"
  by (auto simp: equals_def f_eq_sym split: option.splits)

lemma compare_antisym: "compare b a = - compare a b"
  by (auto simp: compare_def f_lt_asym str_compare_sym [of "fmt_v a" "fmt_v b"] split: option.splits)

lemma compare_int:
  "\<bar>i\<bar> \<le> 2 ^ 53 \<Longrightarrow> \<bar>j\<bar> \<le> 2 ^ 53 \<Longrightarrow>
   compare (VInt i) (VInt j) = (if i < j then -1 else if j < i then 1 else 0)"
  by (simp add: compare_def f_of_int_compare)

lemma equals_int:
  "\<bar>i\<bar> \<le> 2 ^ 53 \<Longrightarrow> \<bar>j\<bar> \<le> 2 ^ 53 \<Longrightarrow> equals (VInt i) (VInt j) = (i = j)"
  by (simp add: equals_def f_of_int_compare)

lemma inCheck_VNil: "inCheck VNil (VList vs) \<longleftrightarrow> VNil \<in> set vs"
  by (auto simp: inCheck_def equals_def list_ex_iff)

text \<open>The outcome for an absent value, operator by operator.\<close>

definition absent_satisfies :: "string \<Rightarrow> val \<Rightarrow> bool" where
  "absent_satisfies c e =
     (if c = ''not_exists'' then True
      else if c = ''eq'' then e = VNil
      else if c = ''ne'' then e \<noteq> VNil
      else if c = ''in'' then inCheck VNil e
      else if c = ''not_in'' then \<not> inCheck VNil e
      else False)"

lemma presence_simps:
  "c \<in> set presence_operators \<longleftrightarrow>
   c = ''eq'' \<or> c = ''ne'' \<or> c = ''in'' \<or> c = ''not_in'' \<or> c = ''exists'' \<or> c = ''not_exists''"
  by (simp add: presence_operators_def)

lemma eval_switch_absent:
  "c \<in> set presence_operators \<Longrightarrow> eval_switch re op c VNil e = Inr (absent_satisfies c e)"
  unfolding presence_simps
  by (elim disjE) (simp_all add: eval_switch_simps absent_satisfies_def equals_def)

lemma absent_not_presence: "c \<notin> set presence_operators \<Longrightarrow> \<not> absent_satisfies c e"
  unfolding presence_simps by (simp add: absent_satisfies_def)

lemma EvaluateAtomValue_absent:
  "Canonical op = Some c \<Longrightarrow> checkExpected re c e = None \<Longrightarrow>
   EvaluateAtomValue re op VNil e = Inr (absent_satisfies c e)"
  by (simp add: EvaluateAtomValue_def EvaluateOperator_known eval_switch_absent absent_not_presence)

subsection \<open>Properties\<close>

text \<open>
  An atom fails to evaluate exactly when its operator is unknown or its expected value
  is one the operator cannot use, with that error: the value the field holds never decides
  whether a condition is broken, and the switch's panic is never reached.
\<close>

theorem atom_error_is_the_conditions_own:
  "EvaluateAtomValue re op actual expected = Inl x \<longleftrightarrow>
     (case Canonical op of
        None \<Rightarrow> x = UnknownOperator op
      | Some c \<Rightarrow> checkExpected re c expected = Some x)"
  by (simp add: EvaluateAtomValue_error EvaluateOperator_error)

text \<open>
  C8. A condition the db service accepts when it is saved (its operator has a canonical
  name and \<open>ValidateExpected\<close> finds no fault in its expected value) evaluates without error
  on every value the workflow service may later read, present or absent.
\<close>

theorem validated_atom_evaluates:
  assumes "Canonical op = Some c" and "ValidateExpected re c expected = None"
  shows "\<exists>b. EvaluateAtomValue re op actual expected = Inr b"
proof (cases "EvaluateAtomValue re op actual expected")
  case (Inl x)
  then show ?thesis
    using assms checkExpected_sound by (simp add: EvaluateAtomValue_error EvaluateOperator_error)
qed simp

theorem validated_atom_evaluates_witness:
  "\<exists>b. EvaluateAtomValue (\<lambda>_. None) ''range'' (VStr ''x'') (VList [VInt 1, VInt 5]) = Inr b"
  by (rule validated_atom_evaluates [where c = "''between''"])
    (simp_all add: Canonical_def operators_def ValidateExpected_def)

text \<open>
  An absent value satisfies only an operator about presence or difference:
  \<open>not_exists\<close>; \<open>eq\<close> and \<open>in\<close> against null; \<open>ne\<close> and \<open>not_in\<close> otherwise. Every other
  operator with a usable expected value is false of it, never an error.
\<close>

theorem absent_value_law:
  assumes "Canonical op = Some c" and "checkExpected re c expected = None"
  shows "EvaluateAtomValue re op VNil expected =
    Inr (c = ''not_exists'' \<or> c = ''eq'' \<and> expected = VNil \<or> c = ''ne'' \<and> expected \<noteq> VNil
      \<or> c = ''in'' \<and> inCheck VNil expected \<or> c = ''not_in'' \<and> \<not> inCheck VNil expected)"
  by (auto simp: EvaluateAtomValue_absent [OF assms] absent_satisfies_def)

theorem absent_value_law_witness:
  "EvaluateAtomValue (\<lambda>_. None) ''contains'' VNil (VStr ''nil'') = Inr False"
  by (subst absent_value_law [where c = "''contains''"])
    (simp_all add: Canonical_def operators_def checkExpected_def)

text \<open>
  On whole numbers up to \<open>2^53\<close> in magnitude, which a float64 holds exactly, the six
  comparison operators decide the integer comparison.
\<close>

theorem integer_comparison_exact:
  assumes "\<bar>i\<bar> \<le> 2 ^ 53" and "\<bar>j\<bar> \<le> 2 ^ 53"
  shows "EvaluateOperator re ''eq'' (VInt i) (VInt j) = Inr (i = j) \<and>
    EvaluateOperator re ''ne'' (VInt i) (VInt j) = Inr (i \<noteq> j) \<and>
    EvaluateOperator re ''gt'' (VInt i) (VInt j) = Inr (i > j) \<and>
    EvaluateOperator re ''gte'' (VInt i) (VInt j) = Inr (i \<ge> j) \<and>
    EvaluateOperator re ''lt'' (VInt i) (VInt j) = Inr (i < j) \<and>
    EvaluateOperator re ''lte'' (VInt i) (VInt j) = Inr (i \<le> j)"
proof -
  have known: "c \<in> set canonical_names \<Longrightarrow>
      EvaluateOperator re c (VInt i) (VInt j) = eval_switch re c c (VInt i) (VInt j)" for c
    by (simp add: EvaluateOperator_known canonical_fixed)
  show ?thesis
    by (simp add: known [unfolded canonical_names_def] eval_switch_simps equals_int [OF assms]
        compare_int [OF assms])
qed

theorem integer_comparison_exact_witness:
  "EvaluateOperator (\<lambda>_. None) ''lt'' (VInt 9007199254740991) (VInt 9007199254740992) = Inr True"
  using integer_comparison_exact [of 9007199254740991 9007199254740992 "\<lambda>_. None"] by simp

end
