(* ===== verification/Paths.thy ===== *)
theory Paths
  imports Go_Values
begin

text \<open>
  Paths into workflow data: \<open>splitPath\<close>, \<open>parseArrayIndex\<close> and \<open>ResolvePath\<close> of
  \<open>workflow/internal/expression/resolver.go\<close>. A path is a byte string of valid UTF-8, so
  walking its runes and copying them back copies its bytes.
\<close>

subsection \<open>The code\<close>

definition flush :: "string \<Rightarrow> string list" where
  "flush cur = (if cur \<noteq> [] then [cur] else [])"

text \<open>The loop of \<open>splitPath\<close>: the part being read, whether a bracket is open, the rest.\<close>

fun split_go :: "string \<Rightarrow> bool \<Rightarrow> string \<Rightarrow> string list" where
  "split_go cur inBracket [] = flush cur"
| "split_go cur inBracket (c # cs) =
     (if c = CHR ''.'' then
        (if \<not> inBracket \<and> cur \<noteq> [] then cur # split_go [] inBracket cs
         else if inBracket then split_go (cur @ [c]) inBracket cs
         else split_go cur inBracket cs)
      else if c = CHR ''['' then flush cur @ split_go [] True cs
      else if c = CHR '']'' then
        (if inBracket \<and> cur \<noteq> [] then cur # split_go [] False cs else split_go cur False cs)
      else split_go (cur @ [c]) inBracket cs)"

definition splitPath :: "string \<Rightarrow> string list" where
  "splitPath path = split_go [] False path"

definition parseArrayIndex :: "string \<Rightarrow> int option" where
  "parseArrayIndex s = atoi s"

text \<open>The loop of \<open>ResolvePath\<close> over the parts.\<close>

fun walk :: "val \<Rightarrow> string list \<Rightarrow> (xerr, val) res" where
  "walk current [] = Inr current"
| "walk current (part # parts) =
     (if current = VNil then Inl (PathNotFound (AccessOnNil part))
      else (case parseArrayIndex part of
              Some idx \<Rightarrow>
                (case current of
                   VList slice \<Rightarrow>
                     (if idx < 0 \<or> idx \<ge> int (length slice) then Inl (PathNotFound (OutOfBounds idx))
                      else walk (slice ! nat idx) parts)
                 | _ \<Rightarrow> Inl (PathNotFound (IndexNonArray idx)))
            | None \<Rightarrow>
                (case current of
                   VOpen v \<Rightarrow> (case map_of v part of None \<Rightarrow> Inr VNil | Some x \<Rightarrow> walk x parts)
                 | VMap v \<Rightarrow>
                     (case map_of v part of
                        None \<Rightarrow> Inl (PathNotFound (KeyNotFound part))
                      | Some x \<Rightarrow> walk x parts)
                 | _ \<Rightarrow> Inl (PathNotFound (AccessOnType part)))))"

definition ResolvePath :: "val \<Rightarrow> string \<Rightarrow> (xerr, val) res" where
  "ResolvePath data path = (if path = '''' then Inr data else walk data (splitPath path))"

subsection \<open>Every failure is a path that is not there\<close>

lemma walk_error: "walk d ps = Inl e \<Longrightarrow> is_path_not_found e"
  by (induction d ps rule: walk.induct) (auto split: if_splits option.splits val.splits)

lemma ResolvePath_error: "ResolvePath d p = Inl e \<Longrightarrow> is_path_not_found e"
  by (auto simp: ResolvePath_def dest: walk_error split: if_splits)

subsection \<open>Structured paths\<close>

text \<open>A path as its author means it, its meaning, and the text that is written for it.\<close>

datatype seg = Key string | Idx nat

fun step_into :: "seg \<Rightarrow> val \<Rightarrow> val option" where
  "step_into (Key k) (VMap kvs) = map_of kvs k"
| "step_into (Key k) (VOpen kvs) = map_of kvs k"
| "step_into (Idx n) (VList vs) = (if n < length vs then Some (vs ! n) else None)"
| "step_into _ _ = None"

fun follow :: "val \<Rightarrow> seg list \<Rightarrow> val option" where
  "follow d [] = Some d"
| "follow d (s # ss) = (case step_into s d of None \<Rightarrow> None | Some d' \<Rightarrow> follow d' ss)"

fun seg_text :: "seg \<Rightarrow> string" where
  "seg_text (Key k) = k"
| "seg_text (Idx n) = itoa (int n)"

fun print_tail :: "seg list \<Rightarrow> string" where
  "print_tail [] = ''''"
| "print_tail (Key k # ss) = ''.'' @ k @ print_tail ss"
| "print_tail (Idx n # ss) = ''['' @ itoa (int n) @ '']'' @ print_tail ss"

fun print_path :: "seg list \<Rightarrow> string" where
  "print_path (Key k # ss) = k @ print_tail ss"
| "print_path ss = print_tail ss"

definition plain :: "string \<Rightarrow> bool" where
  "plain k \<longleftrightarrow> CHR ''.'' \<notin> set k \<and> CHR ''['' \<notin> set k \<and> CHR '']'' \<notin> set k"

text \<open>A key a path can name: not empty, free of path punctuation, and not a number.\<close>

fun seg_ok :: "seg \<Rightarrow> bool" where
  "seg_ok (Key k) \<longleftrightarrow> k \<noteq> [] \<and> plain k \<and> atoi k = None"
| "seg_ok (Idx n) \<longleftrightarrow> in_int64 (int n)"

lemma split_go_plain: "plain k \<Longrightarrow> split_go cur b (k @ rest) = split_go (cur @ k) b rest"
  by (induction k arbitrary: cur) (auto simp: plain_def)

lemma digit_plain: "is_digit c \<Longrightarrow> c \<noteq> CHR ''.'' \<and> c \<noteq> CHR ''['' \<and> c \<noteq> CHR '']''"
  by (auto simp: is_digit_iff)

lemma plain_itoa: "plain (itoa (int n))"
  using digits_of_all [of "int n"]
  by (auto simp: itoa_def plain_def all_digits_def list_all_iff dest: digit_plain)

lemma itoa_nonempty [simp]: "itoa (int n) \<noteq> []"
  using digits_of_hd [of "int n"] by (auto simp: itoa_def)

lemma split_go_tail:
  "list_all seg_ok ss \<Longrightarrow> split_go cur False (print_tail ss) = flush cur @ map seg_text ss"
proof (induction ss arbitrary: cur rule: print_tail.induct)
  case (2 k ss)
  then have IH: "split_go k False (print_tail ss) = flush k @ map seg_text ss" by simp
  from 2 have k: "plain k" "k \<noteq> []" by simp_all
  show ?case using IH k split_go_plain [OF k(1), of "[]" False] by (simp add: flush_def)
next
  case (3 n ss)
  then have IH: "split_go [] False (print_tail ss) = map seg_text ss" by (simp add: flush_def)
  show ?case using IH split_go_plain [OF plain_itoa, of "[]" True n] by (simp add: flush_def)
qed simp

lemma splitPath_print: "list_all seg_ok ss \<Longrightarrow> splitPath (print_path ss) = map seg_text ss"
proof (cases ss rule: print_path.cases)
  case (1 k ss')
  assume "list_all seg_ok ss"
  then show ?thesis using 1 split_go_plain [of k "[]" False] split_go_tail [of ss' k]
    by (simp add: splitPath_def flush_def)
qed (use split_go_tail [of ss "[]"] in \<open>auto simp: splitPath_def flush_def\<close>)

lemma follow_walk:
  "list_all seg_ok ss \<Longrightarrow> follow d ss = Some v \<Longrightarrow> walk d (map seg_text ss) = Inr v"
proof (induction ss arbitrary: d)
  case (Cons s ss)
  then obtain d' where d': "step_into s d = Some d'" "follow d' ss = Some v"
    by (auto split: option.splits)
  then have "walk d' (map seg_text ss) = Inr v" using Cons by simp
  then show ?case using d'(1) Cons.prems(1)
    by (cases "(s, d)" rule: step_into.cases)
      (auto simp: parseArrayIndex_def atoi_itoa split: if_splits option.splits)
qed simp

lemma print_path_nonempty: "list_all seg_ok ss \<Longrightarrow> ss \<noteq> [] \<Longrightarrow> print_path ss \<noteq> []"
  by (cases ss rule: print_path.cases) auto

subsection \<open>Properties\<close>



text \<open>
  A key that reads as a decimal number cannot be reached in a map, whatever the map
  holds under it: the part is always taken for an array index.
\<close>

theorem numeric_key_unreachable:
  assumes "plain k" and "atoi k = Some i"
  shows "ResolvePath (VMap kvs) k = Inl (PathNotFound (IndexNonArray i))"
proof -
  have "k \<noteq> []" using assms(2) by (auto simp: atoi_def all_digits_def)
  then show ?thesis
    using assms split_go_plain [OF assms(1), of "[]" False "[]"]
    by (simp add: ResolvePath_def splitPath_def flush_def parseArrayIndex_def)
qed

theorem numeric_key_unreachable_witness:
  "ResolvePath (VMap [(''42'', VStr ''x'')]) ''42'' = Inl (PathNotFound (IndexNonArray 42))"
  by (rule numeric_key_unreachable)
    (simp_all add: plain_def atoi_def all_digits_def is_digit_def in_int64_def digits_val_def
      digit_val_def less_eq_char_def)

end
