(* ===== verification/Condition_Tree.thy ===== *)
theory Condition_Tree
  imports Operators Paths
begin

text \<open>
  \<open>workflow/internal/expression/tree.go\<close>: conditions held as data. The locale
  \<open>atom_evaluator\<close> is the interface \<open>EvaluateAtoms\<close> has to the code that decides its atoms:
  here \<open>Evaluate\<close>, which reads the data, and in the facts index a memo of earlier answers.
\<close>

subsection \<open>Trees\<close>

text \<open>A group is \<open>None\<close> when the Go slice is nil, which is not an empty slice.\<close>

datatype tree = Tree (All: "tree list option") (Any: "tree list option") (Not: "tree option")
  (Path: string) (Op: string) (Expected: val)

datatype treeKind = allNode | anyNode | notNode | atomNode

datatype terr =
    NotOneKind nat
  | EmptyGroup string
  | InGroup string nat terr
  | InNot terr
  | NoPath
  | UnknownOp string string
  | BadExpected string xerr
  | AtomError xerr

definition atom :: "string \<Rightarrow> string \<Rightarrow> val \<Rightarrow> tree" where
  "atom p op v = Tree None None None p op v"

definition is_atom :: "tree \<Rightarrow> bool" where
  "is_atom t \<longleftrightarrow> Path t \<noteq> '''' \<or> Op t \<noteq> '''' \<or> Expected t \<noteq> VNil"

definition kind :: "tree \<Rightarrow> (terr, treeKind) res" where
  "kind t =
     (let ks = (if All t \<noteq> None then [allNode] else []) @ (if Any t \<noteq> None then [anyNode] else [])
               @ (if Not t \<noteq> None then [notNode] else []) @ (if is_atom t then [atomNode] else [])
      in if length ks \<noteq> 1 then Inl (NotOneKind (length ks)) else Inr (last ks))"

subsection \<open>Validation\<close>

definition validateAtom :: "regexp \<Rightarrow> tree \<Rightarrow> terr option" where
  "validateAtom re t =
     (if Path t = '''' then Some NoPath
      else (case Canonical (Op t) of
              None \<Rightarrow> Some (UnknownOp (Path t) (Op t))
            | Some c \<Rightarrow>
                (case ValidateExpected re c (Expected t) of
                   Some e \<Rightarrow> Some (BadExpected (Path t) e)
                 | None \<Rightarrow> None)))"

fun Validate :: "regexp \<Rightarrow> tree \<Rightarrow> terr option"
and validate_group :: "regexp \<Rightarrow> string \<Rightarrow> nat \<Rightarrow> tree list \<Rightarrow> terr option" where
  "Validate re (Tree all any neg p op v) =
     (case kind (Tree all any neg p op v) of
        Inl e \<Rightarrow> Some e
      | Inr allNode \<Rightarrow>
          (case all of None \<Rightarrow> None
           | Some ts \<Rightarrow> (if ts = [] then Some (EmptyGroup ''all'') else validate_group re ''all'' 0 ts))
      | Inr anyNode \<Rightarrow>
          (case any of None \<Rightarrow> None
           | Some ts \<Rightarrow> (if ts = [] then Some (EmptyGroup ''any'') else validate_group re ''any'' 0 ts))
      | Inr notNode \<Rightarrow>
          (case neg of None \<Rightarrow> None | Some t \<Rightarrow> (case Validate re t of Some e \<Rightarrow> Some (InNot e) | None \<Rightarrow> None))
      | Inr atomNode \<Rightarrow> validateAtom re (Tree all any neg p op v))"
| "validate_group re name i [] = None"
| "validate_group re name i (t # ts) =
     (case Validate re t of
        Some e \<Rightarrow> Some (InGroup name i e)
      | None \<Rightarrow> validate_group re name (Suc i) ts)"

subsection \<open>Evaluation\<close>

type_synonym atom_eval = "tree \<Rightarrow> (terr, bool) res"

fun EvaluateAtoms :: "atom_eval \<Rightarrow> tree \<Rightarrow> (terr, bool) res"
and eval_all :: "atom_eval \<Rightarrow> tree list \<Rightarrow> (terr, bool) res"
and eval_any :: "atom_eval \<Rightarrow> tree list \<Rightarrow> (terr, bool) res" where
  "EvaluateAtoms evaluate (Tree all any neg p op v) =
     (case kind (Tree all any neg p op v) of
        Inl e \<Rightarrow> Inl e
      | Inr allNode \<Rightarrow> (case all of None \<Rightarrow> Inr True | Some ts \<Rightarrow> eval_all evaluate ts)
      | Inr anyNode \<Rightarrow> (case any of None \<Rightarrow> Inr False | Some ts \<Rightarrow> eval_any evaluate ts)
      | Inr notNode \<Rightarrow>
          (case neg of None \<Rightarrow> Inr True
           | Some t \<Rightarrow> bind_res (EvaluateAtoms evaluate t) (\<lambda>ok. Inr (\<not> ok)))
      | Inr atomNode \<Rightarrow> evaluate (Tree all any neg p op v))"
| "eval_all evaluate [] = Inr True"
| "eval_all evaluate (t # ts) =
     bind_res (EvaluateAtoms evaluate t) (\<lambda>ok. if \<not> ok then Inr False else eval_all evaluate ts)"
| "eval_any evaluate [] = Inr False"
| "eval_any evaluate (t # ts) =
     bind_res (EvaluateAtoms evaluate t) (\<lambda>ok. if ok then Inr True else eval_any evaluate ts)"

definition read_path :: "val \<Rightarrow> string \<Rightarrow> (terr, val) res" where
  "read_path data path =
     (case ResolvePath data path of
        Inl e \<Rightarrow> (if \<not> is_path_not_found e then Inl (AtomError e) else Inr VNil)
      | Inr v \<Rightarrow> Inr v)"

text \<open>The closure \<open>Evaluate\<close> hands to \<open>EvaluateAtoms\<close>.\<close>

definition evaluate_atom :: "regexp \<Rightarrow> val \<Rightarrow> atom_eval" where
  "evaluate_atom re data a =
     bind_res (read_path data (Path a)) (\<lambda>actual.
       case EvaluateAtomValue re (Op a) actual (Expected a) of Inl e \<Rightarrow> Inl (AtomError e) | Inr b \<Rightarrow> Inr b)"

definition EvaluateTree :: "regexp \<Rightarrow> tree \<Rightarrow> val \<Rightarrow> (terr, bool) res" where
  "EvaluateTree re t data = EvaluateAtoms (evaluate_atom re data) t"

subsection \<open>Meaning\<close>

text \<open>A tree as the boolean combination of its atoms.\<close>

fun holds :: "(tree \<Rightarrow> bool) \<Rightarrow> tree \<Rightarrow> bool" where
  "holds P (Tree all any neg p op v) =
     (case all of
        Some ts \<Rightarrow> list_all (holds P) ts
      | None \<Rightarrow> (case any of
          Some ts \<Rightarrow> list_ex (holds P) ts
        | None \<Rightarrow> (case neg of
            Some t \<Rightarrow> \<not> holds P t
          | None \<Rightarrow> P (Tree all any neg p op v))))"

lemma kind_cases:
  assumes "kind (Tree all any neg p op v) = Inr k"
  shows "(k = allNode \<and> all \<noteq> None \<and> any = None \<and> neg = None) \<or>
    (k = anyNode \<and> all = None \<and> any \<noteq> None \<and> neg = None) \<or>
    (k = notNode \<and> all = None \<and> any = None \<and> neg \<noteq> None) \<or>
    (k = atomNode \<and> all = None \<and> any = None \<and> neg = None \<and> is_atom (Tree all any neg p op v))"
  using assms by (auto simp: kind_def Let_def split: if_splits)

lemma validate_group_None: "validate_group re name i ts = None \<longleftrightarrow> (\<forall>t \<in> set ts. Validate re t = None)"
  by (induction ts arbitrary: i) (auto split: option.splits)

locale atom_evaluator =
  fixes evaluate :: atom_eval
    and valid :: "tree \<Rightarrow> bool"
    and decide :: "tree \<Rightarrow> bool"
  assumes evaluate_valid: "valid a \<Longrightarrow> evaluate a = Inr (decide a)"
begin

lemma eval_all_holds:
  "(\<And>t. t \<in> set ts \<Longrightarrow> EvaluateAtoms evaluate t = Inr (holds decide t)) \<Longrightarrow>
   eval_all evaluate ts = Inr (list_all (holds decide) ts)"
  by (induction ts) auto

lemma eval_any_holds:
  "(\<And>t. t \<in> set ts \<Longrightarrow> EvaluateAtoms evaluate t = Inr (holds decide t)) \<Longrightarrow>
   eval_any evaluate ts = Inr (list_ex (holds decide) ts)"
  by (induction ts) auto

lemma validated_holds:
  assumes "\<And>a. validateAtom re a = None \<Longrightarrow> valid a" and "Validate re t = None"
  shows "EvaluateAtoms evaluate t = Inr (holds decide t)"
  using assms(2)
proof (induction t)
  case (Tree all any neg p op v)
  then obtain k where k: "kind (Tree all any neg p op v) = Inr k" by (auto split: sum.splits)
  have IH: "EvaluateAtoms evaluate t = Inr (holds decide t)"
    if "Validate re t = None" "(\<exists>ts. all = Some ts \<and> t \<in> set ts) \<or> (\<exists>ts. any = Some ts \<and> t \<in> set ts) \<or> neg = Some t" for t
    using that Tree.IH by auto
  from kind_cases [OF k] show ?case
  proof (elim disjE conjE)
    assume c: "k = allNode" "all \<noteq> None" "any = None" "neg = None"
    then obtain ts where ts: "all = Some ts" by auto
    have "Validate re t = None" if "t \<in> set ts" for t
      using Tree.prems k c that by (auto simp: ts validate_group_None split: if_splits)
    then show ?thesis using k c IH by (simp add: ts eval_all_holds)
  next
    assume c: "k = anyNode" "all = None" "any \<noteq> None" "neg = None"
    then obtain ts where ts: "any = Some ts" by auto
    have "Validate re t = None" if "t \<in> set ts" for t
      using Tree.prems k c that by (auto simp: ts validate_group_None split: if_splits)
    then show ?thesis using k c IH by (simp add: ts eval_any_holds)
  next
    assume c: "k = notNode" "all = None" "any = None" "neg \<noteq> None"
    then obtain t where t: "neg = Some t" by auto
    have "Validate re t = None" using Tree.prems k c by (auto simp: t split: option.splits)
    then show ?thesis using k c IH by (simp add: t)
  next
    assume c: "k = atomNode" "all = None" "any = None" "neg = None"
    then show ?thesis using Tree.prems k assms(1) by (simp add: evaluate_valid)
  qed
qed

end

text \<open>The value an atom reads, and whether the atom is true of the data.\<close>

definition value_at :: "val \<Rightarrow> string \<Rightarrow> val" where
  "value_at data path = (case ResolvePath data path of Inr v \<Rightarrow> v | Inl _ \<Rightarrow> VNil)"

definition atom_true :: "regexp \<Rightarrow> val \<Rightarrow> tree \<Rightarrow> bool" where
  "atom_true re data a = (EvaluateAtomValue re (Op a) (value_at data (Path a)) (Expected a) = Inr True)"

lemma read_path_value: "read_path data path = Inr (value_at data path)"
  by (auto simp: read_path_def value_at_def dest: ResolvePath_error split: sum.splits)

lemma validateAtom_evaluates:
  "validateAtom re a = None \<Longrightarrow> \<exists>b. EvaluateAtomValue re (Op a) actual (Expected a) = Inr b"
proof (cases "EvaluateAtomValue re (Op a) actual (Expected a)")
  case (Inl x)
  assume "validateAtom re a = None"
  with Inl show ?thesis
    by (auto simp: EvaluateAtomValue_error EvaluateOperator_error validateAtom_def
        dest: checkExpected_sound split: if_splits option.splits)
qed simp

interpretation direct: atom_evaluator "evaluate_atom re data" "\<lambda>a. validateAtom re a = None" "atom_true re data"
  for re data
proof
  fix a assume "validateAtom re a = None"
  from validateAtom_evaluates [OF this] obtain b
    where "EvaluateAtomValue re (Op a) (value_at data (Path a)) (Expected a) = Inr b" by blast
  then show "evaluate_atom re data a = Inr (atom_true re data a)"
    by (simp add: evaluate_atom_def read_path_value atom_true_def)
qed

subsection \<open>Properties\<close>

text \<open>
  C1. A tree that validates evaluates, on any data, to the boolean combination of its atoms:
  the early exits of \<open>all\<close> and \<open>any\<close> hide no error, a missing path is a null, and no
  structural or operator error is left for evaluation to find.
\<close>

theorem validated_tree_means_its_atoms:
  assumes "Validate re t = None"
  shows "EvaluateTree re t data = Inr (holds (atom_true re data) t)"
  unfolding EvaluateTree_def by (rule direct.validated_holds [OF _ assms])

theorem validated_tree_means_its_atoms_witness:
  "EvaluateTree (\<lambda>_. None)
     (Tree (Some [atom ''n'' ''gt'' (VInt 3), Tree None None (Some (atom ''x'' ''exists'' VNil)) '''' '''' VNil])
        None None '''' '''' VNil)
     (VMap [(''n'', VInt 4)])
   = Inr (holds (atom_true (\<lambda>_. None) (VMap [(''n'', VInt 4)]))
       (Tree (Some [atom ''n'' ''gt'' (VInt 3), Tree None None (Some (atom ''x'' ''exists'' VNil)) '''' '''' VNil])
          None None '''' '''' VNil))"
  by (rule validated_tree_means_its_atoms)
    (simp add: kind_def is_atom_def atom_def validateAtom_def Canonical_def operators_def ValidateExpected_def Let_def)

end
