(* ===== verification/Functions.thy ===== *)
theory Functions
  imports Go_Values
begin

text \<open>
  \<open>workflow/internal/expression/functions.go\<close>: the expression language's fixed set of
  functions. What the package takes from Go's tables and from the outside is the record
  \<open>golib\<close>: the Unicode case mappings of text that is not ASCII, the regular expression
  compiler, and the random source, which is a function of how often it has been drawn from.
\<close>

record golib =
  regexp_compile :: "string \<Rightarrow> (string \<Rightarrow> bool) option"
  upper_unicode :: "string \<Rightarrow> string"
  lower_unicode :: "string \<Rightarrow> string"
  random_below :: "nat \<Rightarrow> int \<Rightarrow> int"

text \<open>A library for concrete inputs: every pattern matches its own text, and no text has letters outside ASCII.\<close>

definition ascii_lib :: golib where
  "ascii_lib = \<lparr>regexp_compile = (\<lambda>p. Some (\<lambda>s. s = p)), upper_unicode = (\<lambda>s. s), lower_unicode = (\<lambda>s. s),
     random_below = (\<lambda>k n. int k mod n)\<rparr>"

subsection \<open>Reading a number from text\<close>

definition scan_sign :: "string \<Rightarrow> bool \<times> string" where
  "scan_sign s =
     (case s of
        c # cs \<Rightarrow> (if c = CHR ''-'' then (True, cs) else if c = CHR ''+'' then (False, cs) else (False, s))
      | [] \<Rightarrow> (False, []))"

text \<open>\<open>strconv\<close> stops accumulating an exponent at 10000, far beyond the range of a float64.\<close>

definition exponent_val :: "string \<Rightarrow> int" where
  "exponent_val ds = foldl (\<lambda>e c. if e < 10000 then e * 10 + digit_val c else e) 0 ds"

definition scan_exponent :: "string \<Rightarrow> int option" where
  "scan_exponent s =
     (case s of
        [] \<Rightarrow> Some 0
      | c # cs \<Rightarrow>
          if c = CHR ''e'' \<or> c = CHR ''E'' then
            (case scan_sign cs of (neg, ds) \<Rightarrow>
               if all_digits ds then Some (if neg then - exponent_val ds else exponent_val ds) else None)
          else None)"

text \<open>The texts \<open>decimalNumber\<close> matches, with their sign, digits and decimal exponent.\<close>

definition scan_decimal :: "string \<Rightarrow> (bool \<times> int \<times> int) option" where
  "scan_decimal s =
     (case scan_sign s of (neg, r) \<Rightarrow>
        let whole = takeWhile is_digit r; r1 = dropWhile is_digit r;
            frac = (case r1 of c # t \<Rightarrow> if c = CHR ''.'' then takeWhile is_digit t else [] | [] \<Rightarrow> []);
            r2 = (case r1 of c # t \<Rightarrow> if c = CHR ''.'' then dropWhile is_digit t else r1 | [] \<Rightarrow> [])
        in if whole = [] \<and> frac = [] then None
           else (case scan_exponent r2 of
                   None \<Rightarrow> None
                 | Some e \<Rightarrow> Some (neg, digits_val (whole @ frac), e - int (length frac))))"

definition decimalNumber :: "string \<Rightarrow> bool" where
  "decimalNumber s \<longleftrightarrow> scan_decimal s \<noteq> None"

text \<open>\<open>strconv.ParseFloat\<close> on such a text; out of range is its error.\<close>

definition parse_float :: "string \<Rightarrow> f64 option" where
  "parse_float s =
     (case scan_decimal s of
        None \<Rightarrow> None
      | Some (neg, m, e) \<Rightarrow>
          (let x = round_f64 neg (of_int m * pow10 e) in if is_inf x then None else Some x))"

text \<open>
  \<open>strings.TrimSpace\<close>: the white space of Unicode as its UTF-8 byte sequences, the
  multi-byte ones given by their code points.
\<close>

definition bytes :: "int list \<Rightarrow> string" where
  "bytes = map char_of"

definition space_seqs :: "string list" where
  "space_seqs =
     map bytes ([[9], [10], [11], [12], [13], [32], [194, 133], [194, 160], [225, 154, 128]]
       @ map (\<lambda>i. [226, 128, 128 + i]) [0, 1, 2, 3, 4, 5, 6, 7, 8, 9, 10, 40, 41, 47]
       @ [[226, 129, 159], [227, 128, 128]])"

fun drop_seqs :: "nat \<Rightarrow> string list \<Rightarrow> string \<Rightarrow> string" where
  "drop_seqs 0 seqs s = s"
| "drop_seqs (Suc n) seqs s =
     (case find (\<lambda>p. prefix p s) seqs of None \<Rightarrow> s | Some p \<Rightarrow> drop_seqs n seqs (drop (length p) s))"

definition trim_space :: "string \<Rightarrow> string" where
  "trim_space s =
     (let t = drop_seqs (length s) space_seqs s
      in rev (drop_seqs (length t) (map rev space_seqs) (rev t)))"

subsection \<open>Arguments and results\<close>

definition maxWholeNumber :: int where
  "maxWholeNumber = 2 ^ 53"

definition resultDecimals :: nat where
  "resultDecimals = 10"

definition maxRoundDigits :: int where
  "maxRoundDigits = 10"

text \<open>\<open>index\<close> is the position of an argument the caller has checked to be there.\<close>

definition numberArg :: "string \<Rightarrow> val list \<Rightarrow> nat \<Rightarrow> (xerr, f64) res" where
  "numberArg name args index =
     (let n = (case args ! index of
                 VStr text \<Rightarrow> (let trimmed = trim_space text in
                                 if decimalNumber trimmed then parse_float trimmed else None)
               | v \<Rightarrow> toFloat64 v)
      in (case n of
            Some x \<Rightarrow> (if is_nan x \<or> is_inf x then Inl (NotANumber name (index + 1)) else Inr x)
          | None \<Rightarrow> Inl (NotANumber name (index + 1))))"

definition wholeNumberArg :: "string \<Rightarrow> val list \<Rightarrow> nat \<Rightarrow> (xerr, int) res" where
  "wholeNumberArg name args index =
     bind_res (numberArg name args index) (\<lambda>n.
       if \<not> f_eq n (f_trunc n) \<or> f_lt (f_of_int maxWholeNumber) (f_abs n)
       then Inl (NotWhole name (index + 1))
       else Inr \<lfloor>f_val n\<rfloor>)"

text \<open>Formatting with ten decimals and reading back: rounding to a multiple of \<open>10^-10\<close>.\<close>

definition withoutFloatNoise :: "f64 \<Rightarrow> f64" where
  "withoutFloatNoise n =
     (case n of
        FFin s m \<Rightarrow>
          (let cleaned = round_f64 s (of_int (round_half_even (m * 10 ^ resultDecimals)) / 10 ^ resultDecimals)
           in if is_inf cleaned then n else cleaned)
      | _ \<Rightarrow> n)"

definition arithmeticResult :: "string \<Rightarrow> f64 \<Rightarrow> (xerr, f64) res" where
  "arithmeticResult name result =
     (if is_nan result \<or> is_inf result then Inl (TooLarge name) else Inr (withoutFloatNoise result))"

subsection \<open>The functions\<close>

type_synonym fn_call = "golib \<Rightarrow> nat \<Rightarrow> string \<Rightarrow> val list \<Rightarrow> (xerr, val \<times> nat) res"

text \<open>A call yields its value and the number of random draws made so far.\<close>

definition pure_result :: "nat \<Rightarrow> (xerr, f64) res \<Rightarrow> (xerr, val \<times> nat) res" where
  "pure_result k r = bind_res r (\<lambda>x. Inr (VFloat x, k))"

fun fold_from :: "(f64 \<Rightarrow> f64 \<Rightarrow> f64) \<Rightarrow> string \<Rightarrow> val list \<Rightarrow> f64 \<Rightarrow> nat list \<Rightarrow> (xerr, f64) res" where
  "fold_from combine name args acc [] = Inr acc"
| "fold_from combine name args acc (i # idxs) =
     bind_res (numberArg name args i) (\<lambda>n. fold_from combine name args (combine acc n) idxs)"

definition fold_fn :: "(f64 \<Rightarrow> f64 \<Rightarrow> f64) \<Rightarrow> fn_call" where
  "fold_fn combine L k name args =
     pure_result k
       (bind_res (numberArg name args 0) (\<lambda>acc.
          bind_res (fold_from combine name args acc [1..<length args]) (arithmeticResult name)))"

definition callDivide :: fn_call where
  "callDivide L k name args =
     pure_result k
       (bind_res (numberArg name args 0) (\<lambda>dividend.
          bind_res (numberArg name args 1) (\<lambda>divisor.
            if f_eq divisor f_zero then Inl (DivideByZero name)
            else arithmeticResult name (f_div dividend divisor))))"

definition round_digits :: "string \<Rightarrow> val list \<Rightarrow> (xerr, nat) res" where
  "round_digits name args =
     (if length args > 1 then
        bind_res (wholeNumberArg name args 1) (\<lambda>d.
          if d < 0 \<or> d > maxRoundDigits then Inl (DigitsRange name) else Inr (nat d))
      else Inr 0)"

definition callRound :: fn_call where
  "callRound L k name args =
     pure_result k
       (bind_res (numberArg name args 0) (\<lambda>value.
          bind_res (round_digits name args) (\<lambda>digits.
            let scale = f_of_int (10 ^ digits)
            in arithmeticResult name
                 (f_div (f_round (withoutFloatNoise (f_mul value scale))) scale))))"

definition callRandom :: fn_call where
  "callRandom L k name args =
     bind_res (wholeNumberArg name args 0) (\<lambda>low.
       bind_res (wholeNumberArg name args 1) (\<lambda>high.
         if low > high then Inl (EmptyRange name)
         else Inr (VFloat (f_of_int (low + random_below L k (high - low + 1))), Suc k)))"

definition mapText :: "(golib \<Rightarrow> string \<Rightarrow> string) \<Rightarrow> fn_call" where
  "mapText transform L k name args =
     (case args ! 0 of
        VNil \<Rightarrow> Inr (VStr '''', k)
      | VMap _ \<Rightarrow> Inl (NotText name)
      | VOpen _ \<Rightarrow> Inl (NotText name)
      | VList _ \<Rightarrow> Inl (NotText name)
      | v \<Rightarrow> Inr (VStr (transform L (toString v)), k))"

definition is_ascii :: "char \<Rightarrow> bool" where
  "is_ascii c \<longleftrightarrow> (of_char c :: int) < 128"

definition ascii_upper :: "char \<Rightarrow> char" where
  "ascii_upper c = (if CHR ''a'' \<le> c \<and> c \<le> CHR ''z'' then char_of ((of_char c :: int) - 32) else c)"

definition ascii_lower :: "char \<Rightarrow> char" where
  "ascii_lower c = (if CHR ''A'' \<le> c \<and> c \<le> CHR ''Z'' then char_of ((of_char c :: int) + 32) else c)"

definition to_upper :: "golib \<Rightarrow> string \<Rightarrow> string" where
  "to_upper L s = (if list_all is_ascii s then map ascii_upper s else upper_unicode L s)"

definition to_lower :: "golib \<Rightarrow> string \<Rightarrow> string" where
  "to_lower L s = (if list_all is_ascii s then map ascii_lower s else lower_unicode L s)"

text \<open>The table; \<open>maxArgs = None\<close> is \<open>noArgLimit\<close>.\<close>

record func =
  minArgs :: nat
  maxArgs :: "nat option"
  fcall :: fn_call

definition fn :: "nat \<Rightarrow> nat option \<Rightarrow> fn_call \<Rightarrow> func" where
  "fn lo hi c = \<lparr>minArgs = lo, maxArgs = hi, fcall = c\<rparr>"

definition function_table :: "(string \<times> func) list" where
  "function_table =
    [(''add'', fn 2 None (fold_fn f_add)),
     (''subtract'', fn 2 (Some 2) (fold_fn f_sub)),
     (''multiply'', fn 2 None (fold_fn f_mul)),
     (''divide'', fn 2 (Some 2) callDivide),
     (''min'', fn 2 None (fold_fn f_min)),
     (''max'', fn 2 None (fold_fn f_max)),
     (''round'', fn 1 (Some 2) callRound),
     (''uppercase'', fn 1 (Some 1) (mapText to_upper)),
     (''lowercase'', fn 1 (Some 1) (mapText to_lower)),
     (''random'', fn 2 (Some 2) callRandom)]"

definition lookupFunction :: "string \<Rightarrow> nat \<Rightarrow> (xerr, func) res" where
  "lookupFunction name argCount =
     (case map_of function_table name of
        None \<Rightarrow> Inl (UnknownFunction name)
      | Some f \<Rightarrow>
          if argCount < minArgs f then Inl (TooFewArgs name (minArgs f) argCount)
          else (case maxArgs f of
                  Some hi \<Rightarrow> (if argCount > hi then Inl (TooManyArgs name hi argCount) else Inr f)
                | None \<Rightarrow> Inr f))"


subsection \<open>Whole numbers are exact\<close>

lemma f_add_int:
  "\<bar>a\<bar> \<le> 2 ^ 53 \<Longrightarrow> \<bar>b\<bar> \<le> 2 ^ 53 \<Longrightarrow> f_add (f_of_int a) (f_of_int b) = f_of_int (a + b)"
proof -
  assume "\<bar>a\<bar> \<le> 2 ^ 53" and "\<bar>b\<bar> \<le> 2 ^ 53"
  then have "f_add (f_of_int a) (f_of_int b) = f_of_rat (a < 0 \<and> b < 0) (of_int (a + b))"
    by (simp only: f_of_int_exact f_add.simps) (simp add: abs_if)
  also have "\<dots> = f_of_int (a + b)"
    unfolding f_of_int_def f_of_rat_def of_int_eq_0_iff by (cases "a < 0 \<and> b < 0") auto
  finally show ?thesis .
qed

lemma withoutFloatNoise_int: "\<bar>i\<bar> \<le> 2 ^ 53 \<Longrightarrow> withoutFloatNoise (f_of_int i) = f_of_int i"
proof -
  assume b: "\<bar>i\<bar> \<le> 2 ^ 53"
  have "round_half_even (of_int \<bar>i\<bar> * 10 ^ resultDecimals) = \<bar>i\<bar> * 10 ^ resultDecimals"
    using round_half_even_int [of "\<bar>i\<bar> * 10 ^ resultDecimals"] by (simp only: of_int_mult of_int_power of_int_numeral)
  moreover have "round_f64 (i < 0) (of_int \<bar>i\<bar>) = FFin (i < 0) (of_int \<bar>i\<bar>)"
    using b round_f64_int_exact [of "\<bar>i\<bar>"] by (cases "i = 0") (auto simp: round_f64_def)
  ultimately show ?thesis using b
    by (simp add: withoutFloatNoise_def f_of_int_exact resultDecimals_def Let_def)
qed

lemma f_of_int_fin: "\<bar>i\<bar> \<le> 2 ^ 53 \<Longrightarrow> is_fin (f_of_int i)"
  by (simp add: f_of_int_exact)

lemma fin_not: "is_fin x \<Longrightarrow> \<not> is_nan x \<and> \<not> is_inf x"
  by (cases x) auto

lemma not_nan_inf: "\<not> is_nan x \<Longrightarrow> \<not> is_inf x \<Longrightarrow> is_fin x"
  by (cases x) auto

lemma numberArg_int:
  "j < length xs \<Longrightarrow> \<bar>xs ! j\<bar> \<le> 2 ^ 53 \<Longrightarrow> numberArg name (map VInt xs) j = Inr (f_of_int (xs ! j))"
  using fin_not [OF f_of_int_fin] by (simp add: numberArg_def Let_def)

lemma fold_from_int:
  assumes "sum_list (map abs xs) \<le> 2 ^ 53" and "j \<le> length xs"
  shows "fold_from f_add name (map VInt xs) (f_of_int (sum_list (take j xs))) [j..<length xs]
    = Inr (f_of_int (sum_list xs))"
  using assms(2)
proof (induction "length xs - j" arbitrary: j)
  case (Suc n)
  then have j: "j < length xs" by simp
  have parts: "xs = take j xs @ xs ! j # drop (Suc j) xs" by (simp add: id_take_nth_drop [OF j, symmetric])
  have nn: "0 \<le> sum_list (map abs ys)" for ys :: "int list" by (induction ys) auto
  have tri: "\<bar>sum_list ys\<bar> \<le> sum_list (map abs ys)" for ys :: "int list" by (induction ys) auto
  have "sum_list (map abs (take j xs)) + \<bar>xs ! j\<bar> + sum_list (map abs (drop (Suc j) xs)) = sum_list (map abs xs)"
    by (subst (4) parts) (simp only: map_append sum_list_append list.map sum_list.Cons add.assoc)
  then have "\<bar>sum_list (take j xs)\<bar> \<le> 2 ^ 53" "\<bar>xs ! j\<bar> \<le> 2 ^ 53"
    using assms(1) nn [of "drop (Suc j) xs"] nn [of "take j xs"] tri [of "take j xs"] by linarith+
  then show ?case
    using Suc.hyps(1) [of "Suc j"] Suc.hyps(2) j
    by (simp add: upt_conv_Cons numberArg_int f_add_int take_Suc_conv_app_nth del: upt_Suc)
qed simp

lemma add_exact:
  assumes "xs \<noteq> []" and "sum_list (map abs xs) \<le> 2 ^ 53"
  shows "fold_fn f_add L k name (map VInt xs) = Inr (VFloat (f_of_int (sum_list xs)), k)"
proof -
  have nn: "0 \<le> sum_list (map abs ys)" for ys :: "int list" by (induction ys) auto
  have tri: "\<bar>sum_list ys\<bar> \<le> sum_list (map abs ys)" for ys :: "int list" by (induction ys) auto
  obtain y ys where xs: "xs = y # ys" using assms(1) by (cases xs) auto
  have b0: "\<bar>xs ! 0\<bar> \<le> 2 ^ 53" using assms(2) nn [of ys] by (simp add: xs)
  have "fold_from f_add name (map VInt xs) (f_of_int (sum_list (take 1 xs))) [1..<length xs]
      = Inr (f_of_int (sum_list xs))"
    by (rule fold_from_int [OF assms(2)]) (simp add: xs)
  moreover have "sum_list (take 1 xs) = xs ! 0" by (simp add: xs)
  moreover have sb: "\<bar>sum_list xs\<bar> \<le> 2 ^ 53" using assms(2) tri [of xs] by linarith
  ultimately show ?thesis
    using numberArg_int [of 0 xs name] b0 fin_not [OF f_of_int_fin [OF sb]]
    by (simp add: fold_fn_def pure_result_def arithmeticResult_def withoutFloatNoise_int xs)
qed

text \<open>
  Calling \<open>add\<close> on whole numbers whose magnitudes sum to at most \<open>2^53\<close> yields their
  exact sum, through the conversion to float64, the folding additions and the removal of
  float noise.
\<close>

theorem add_whole_numbers_exact:
  assumes "xs \<noteq> []" and "sum_list (map abs xs) \<le> 2 ^ 53"
  shows "fold_fn f_add L k name (map VInt xs) = Inr (VFloat (f_of_int (sum_list xs)), k)"
  using assms by (rule add_exact)

theorem add_whole_numbers_exact_witness:
  "fold_fn f_add ascii_lib 0 ''add'' (map VInt [9007199254740000, -3, 7]) = Inr (VFloat (f_of_int 9007199254740004), 0)"
  using add_whole_numbers_exact [of "[9007199254740000, -3, 7]" ascii_lib 0 "''add''"] by simp


subsection \<open>Results are finite\<close>

lemma round_f64_cases: "is_fin (round_f64 s m) \<or> is_inf (round_f64 s m)"
  by (simp add: round_f64_def Let_def)

lemma withoutFloatNoise_fin: "is_fin x \<Longrightarrow> is_fin (withoutFloatNoise x)"
  using round_f64_cases by (cases x) (auto simp: withoutFloatNoise_def Let_def)

lemma arithmeticResult_fin: "arithmeticResult name x = Inr y \<Longrightarrow> is_fin y"
  by (auto simp: arithmeticResult_def withoutFloatNoise_fin not_nan_inf split: if_splits)

definition finite_call :: "fn_call \<Rightarrow> bool" where
  "finite_call c \<longleftrightarrow>
     (\<forall>L k name args x k'. c L k name args = Inr (VFloat x, k') \<longrightarrow> is_fin x \<and> k' = k)"

lemma finite_callI:
  "(\<And>L k name args x k'. c L k name args = Inr (VFloat x, k') \<Longrightarrow> is_fin x \<and> k' = k) \<Longrightarrow> finite_call c"
  by (auto simp: finite_call_def)

lemma pure_result_fin:
  "pure_result k r = Inr (VFloat x, k') \<Longrightarrow> (\<And>y. r = Inr y \<Longrightarrow> is_fin y) \<Longrightarrow> is_fin x \<and> k' = k"
  by (auto simp: pure_result_def res_simps)

lemma finite_calls:
  "finite_call (fold_fn c)" "finite_call callDivide" "finite_call callRound" "finite_call (mapText t)"
proof -
  show "finite_call (fold_fn c)" unfolding fold_fn_def
    by (rule finite_callI, erule pure_result_fin) (auto simp: res_simps arithmeticResult_fin)
  show "finite_call callDivide" unfolding callDivide_def
    by (rule finite_callI, erule pure_result_fin) (auto simp: res_simps arithmeticResult_fin split: if_splits)
  show "finite_call callRound" unfolding callRound_def
    by (rule finite_callI, erule pure_result_fin) (auto simp: res_simps arithmeticResult_fin Let_def)
  show "finite_call (mapText t)"
    by (rule finite_callI) (simp add: mapText_def split: val.splits)
qed

lemma function_table_finite:
  "(name, f) \<in> set function_table \<Longrightarrow> name \<noteq> ''random'' \<Longrightarrow> finite_call (fcall f)"
  by (auto simp: function_table_def fn_def finite_calls)

text \<open>
  No function but \<open>random\<close> ever yields a NaN or an infinity, or draws a random number:
  an arithmetic result that is not finite is the call's error.
\<close>

theorem function_results_finite:
  assumes "lookupFunction name n = Inr f" and "name \<noteq> ''random''"
    and "fcall f L k name args = Inr (VFloat x, k')"
  shows "is_fin x \<and> k' = k"
proof -
  have "(name, f) \<in> set function_table"
    using assms(1) by (auto simp: lookupFunction_def split: option.splits if_splits dest: map_of_SomeD)
  from function_table_finite [OF this assms(2)] show ?thesis
    using assms(3) by (auto simp: finite_call_def)
qed

theorem function_results_finite_witness:
  "is_fin (f_of_int 5) \<and> (0::nat) = 0"
proof (rule function_results_finite [where L = ascii_lib and k = 0])
  show "lookupFunction ''add'' 2 = Inr (fn 2 None (fold_fn f_add))"
    by (simp add: lookupFunction_def function_table_def fn_def)
  show "fcall (fn 2 None (fold_fn f_add)) ascii_lib 0 ''add'' (map VInt [2, 3]) = Inr (VFloat (f_of_int 5), 0)"
    using add_exact [of "[2, 3]" ascii_lib 0 "''add''"] by (simp add: fn_def)
qed simp

subsection \<open>The random function\<close>

lemma wholeNumberArg_int:
  assumes "\<bar>i\<bar> \<le> 2 ^ 53" and "j < length args" and "args ! j = VInt i"
  shows "wholeNumberArg name args j = Inr i"
proof -
  have x: "f_of_int i = FFin (i < 0) (of_int \<bar>i\<bar>)" by (rule f_of_int_exact [OF assms(1)])
  have r: "round_f64 (i < 0) (of_int \<bar>i\<bar>) = FFin (i < 0) (of_int \<bar>i\<bar>)"
    using assms(1) round_f64_int_exact [of "\<bar>i\<bar>"] by (cases "i = 0") (auto simp: round_f64_def)
  have fl: "\<lfloor>rat_of_int \<bar>i\<bar>\<rfloor> = \<bar>i\<bar>" by (rule floor_of_int)
  have t: "f_trunc (f_of_int i) = f_of_int i" unfolding x f_trunc.simps fl r ..
  have m: "f_of_int maxWholeNumber = FFin False (of_int (2 ^ 53))"
    unfolding maxWholeNumber_def by (subst f_of_int_exact) simp_all
  have le: "rat_of_int \<bar>i\<bar> \<le> of_int (2 ^ 53)" using assms(1) by (simp only: of_int_le_iff)
  have "\<not> f_lt (f_of_int maxWholeNumber) (f_abs (f_of_int i))"
    unfolding m x f_abs.simps f_lt.simps f_val.simps if_False using le by linarith
  moreover have "f_val (f_of_int i) = of_int i" unfolding x f_val.simps by simp
  moreover have "f_eq (f_of_int i) (f_of_int i)" by (simp add: f_eq_refl)
  ultimately show ?thesis
    using assms(2,3) fin_not [OF f_of_int_fin [OF assms(1)]]
    by (simp add: wholeNumberArg_def numberArg_def Let_def t)
qed

text \<open>
  A call of \<open>random\<close> with whole bounds yields a whole number between them, both ends
  possible, given that the random source answers \<open>n\<close> with a number from 0 up to but
  not including \<open>n\<close>; it draws exactly once.
\<close>

theorem random_within_bounds:
  assumes "\<And>k n. 0 < n \<Longrightarrow> 0 \<le> random_below L k n \<and> random_below L k n < n"
    and "\<bar>lo\<bar> \<le> 2 ^ 53" and "\<bar>hi\<bar> \<le> 2 ^ 53" and "lo \<le> hi"
  shows "\<exists>r. callRandom L k name [VInt lo, VInt hi] = Inr (VFloat (f_of_int r), Suc k) \<and> lo \<le> r \<and> r \<le> hi"
  using assms(1) [of "hi - lo + 1" k] assms(4)
    exI [of "\<lambda>r. f_of_int (lo + random_below L k (hi - lo + 1)) = f_of_int r \<and> lo \<le> r \<and> r \<le> hi"
      "lo + random_below L k (hi - lo + 1)"]
    wholeNumberArg_int [OF assms(2), of 0 "[VInt lo, VInt hi]"]
    wholeNumberArg_int [OF assms(3), of 1 "[VInt lo, VInt hi]"]
  by (simp add: callRandom_def)

theorem random_within_bounds_witness:
  "\<exists>r. callRandom ascii_lib 4 ''random'' [VInt 1, VInt 6]
      = Inr (VFloat (f_of_int r), Suc 4) \<and> 1 \<le> r \<and> r \<le> 6"
  by (rule random_within_bounds) (simp_all add: ascii_lib_def)

end
