(* ===== verification/Grammar.thy ===== *)
theory Grammar
  imports Functions
begin

text \<open>
  The expression grammar of \<open>workflow/internal/expression/compound.go\<close>: the tokenizer, the
  precedence parser and its abstract syntax. The parser's position is the list of tokens
  left. Its functions call each other through the parameter \<open>rec\<close>, which takes the function
  to run and the tokens; \<open>parse\<close> ties the knot with fuel, and \<open>parse_enough_fuel\<close> shows that
  the fuel \<open>parse_tokens\<close> gives always suffices.
\<close>

subsection \<open>Tokens\<close>

datatype token =
    OperatorToken string
  | StringToken string
  | NumberToken string f64
  | ReferenceToken string

definition compoundCharacters :: string where
  "compoundCharacters = ''?:=!<>&|()'' @ [CHR 0x27, CHR 0x22]"

definition isCompound :: "string \<Rightarrow> bool" where
  "isCompound expr = contains_any expr compoundCharacters"

text \<open>Longest first.\<close>

definition operatorSpellings :: "string list" where
  "operatorSpellings =
    [''==='', ''!=='', ''=='', ''!='', ''>='', ''<='', ''&&'', ''||'', ''>'', ''<'', ''!'', ''?'', '':'',
     ''('', '')'', '','']"

definition operatorAliases :: "(string \<times> string) list" where
  "operatorAliases = [(''==='', ''==''), (''!=='', ''!='')]"

definition matchOperator :: "string \<Rightarrow> string" where
  "matchOperator rest =
     (case find (\<lambda>op. has_prefix rest op) operatorSpellings of None \<Rightarrow> '''' | Some op \<Rightarrow> op)"

definition isReferenceStart :: "char \<Rightarrow> bool" where
  "isReferenceStart c \<longleftrightarrow> c = CHR ''_'' \<or> c = CHR ''$'' \<or> (CHR ''a'' \<le> c \<and> c \<le> CHR ''z'')
     \<or> (CHR ''A'' \<le> c \<and> c \<le> CHR ''Z'')"

definition isReferenceChar :: "char \<Rightarrow> bool" where
  "isReferenceChar c \<longleftrightarrow> isReferenceStart c \<or> is_digit c \<or> c = CHR ''-'' \<or> c = CHR ''.''
     \<or> c = CHR ''['' \<or> c = CHR '']''"

definition is_quote :: "char \<Rightarrow> bool" where
  "is_quote c \<longleftrightarrow> c = CHR 0x27 \<or> c = CHR 0x22"

definition is_blank :: "char \<Rightarrow> bool" where
  "is_blank c \<longleftrightarrow> c = CHR '' '' \<or> c = CHR 0x09 \<or> c = CHR 0x0A"

definition number_char :: "char \<Rightarrow> bool" where
  "number_char c \<longleftrightarrow> is_digit c \<or> c = CHR ''.''"

definition starts_number :: "char \<Rightarrow> string \<Rightarrow> bool" where
  "starts_number c cs \<longleftrightarrow> is_digit c \<or> (c = CHR ''-'' \<and> (case cs of d # _ \<Rightarrow> is_digit d | [] \<Rightarrow> False))"

text \<open>The loop of \<open>tokenize\<close>, on the text from index \<open>i\<close>.\<close>

function tokenize :: "string \<Rightarrow> (xerr, token list) res" where
  "tokenize [] = Inr []"
| "tokenize (c # cs) =
     (if is_blank c then tokenize cs
      else if is_quote c then
        (case split2 c cs of
           (text, None) \<Rightarrow> Inl UnterminatedString
         | (text, Some rest) \<Rightarrow> bind_res (tokenize rest) (\<lambda>ts. Inr (StringToken text # ts)))
      else if starts_number c cs then
        (let text = c # takeWhile number_char cs
         in (case parse_float text of
               None \<Rightarrow> Inl (BadNumber text)
             | Some n \<Rightarrow> bind_res (tokenize (dropWhile number_char cs)) (\<lambda>ts. Inr (NumberToken text n # ts))))
      else if isReferenceStart c then
        bind_res (tokenize (dropWhile isReferenceChar cs))
          (\<lambda>ts. Inr (ReferenceToken (c # takeWhile isReferenceChar cs) # ts))
      else
        (let op = matchOperator (c # cs)
         in if op = '''' then Inl (UnexpectedChar c)
            else bind_res (tokenize (drop (length op - 1) cs))
              (\<lambda>ts. Inr (OperatorToken (case map_of operatorAliases op of Some a \<Rightarrow> a | None \<Rightarrow> op) # ts))))"
  by pat_completeness auto

lemma split2_length: "split2 c cs = (a, Some b) \<Longrightarrow> length b < length cs"
  by (induction cs arbitrary: a) (auto split: if_splits prod.splits)

termination tokenize
  by (relation "measure length")
    (auto simp: less_Suc_eq_le length_dropWhile_le le_imp_less_Suc dest: split2_length [OF sym])

subsection \<open>Syntax\<close>

datatype node =
    Literal val
  | Reference string
  | Negation node
  | Binary string node node
  | Conditional node node node
  | Call string "node list"

subsection \<open>Parser\<close>

type_synonym 'a parsed = "(xerr, 'a \<times> token list) res"

definition acceptOperator :: "string list \<Rightarrow> token list \<Rightarrow> (string \<times> token list) option" where
  "acceptOperator ops ts =
     (case ts of
        OperatorToken op # rest \<Rightarrow> (if List.member ops op then Some (op, rest) else None)
      | _ \<Rightarrow> None)"

text \<open>The binary levels, lowest precedence first: \<open>||\<close>, \<open>&&\<close>, equality, comparison.\<close>

definition level_ops :: "nat \<Rightarrow> string list" where
  "level_ops l =
     (if l = 0 then [''||''] else if l = 1 then [''&&''] else if l = 2 then [''=='', ''!='']
      else [''>'', ''>='', ''<'', ''<=''])"

text \<open>
  The parser's functions. \<open>Operand l\<close> is the operand function \<open>parseBinary\<close> is given at level
  \<open>l\<close>, \<open>More l left\<close> its loop with the tree built so far, \<open>CallArgs name args\<close> the loop of
  \<open>parseCall\<close> after the arguments read so far.
\<close>

datatype goal =
    Ternary
  | BinaryAt nat
  | Operand nat
  | More nat node
  | Unary
  | Primary
  | CallOpen string
  | CallArgs string "node list"

type_synonym rec_parse = "goal \<Rightarrow> token list \<Rightarrow> node parsed"

definition parseTernary :: "rec_parse \<Rightarrow> token list \<Rightarrow> node parsed" where
  "parseTernary rec ts =
     bind_res (rec (BinaryAt 0) ts) (\<lambda>(c, ts1).
       case acceptOperator [''?''] ts1 of
         None \<Rightarrow> Inr (c, ts1)
       | Some (_, ts2) \<Rightarrow>
           bind_res (rec Ternary ts2) (\<lambda>(t, ts3).
             case acceptOperator ['':''] ts3 of
               None \<Rightarrow> Inl MissingColon
             | Some (_, ts4) \<Rightarrow>
                 bind_res (rec Ternary ts4) (\<lambda>(e, ts5). Inr (Conditional c t e, ts5))))"

definition parseBinary :: "rec_parse \<Rightarrow> nat \<Rightarrow> token list \<Rightarrow> node parsed" where
  "parseBinary rec l ts = bind_res (rec (Operand l) ts) (\<lambda>(left, ts1). rec (More l left) ts1)"

definition binary_loop :: "rec_parse \<Rightarrow> nat \<Rightarrow> node \<Rightarrow> token list \<Rightarrow> node parsed" where
  "binary_loop rec l left ts =
     (case acceptOperator (level_ops l) ts of
        None \<Rightarrow> Inr (left, ts)
      | Some (op, ts1) \<Rightarrow>
          bind_res (rec (Operand l) ts1) (\<lambda>(right, ts2). rec (More l (Binary op left right)) ts2))"

definition operand :: "rec_parse \<Rightarrow> nat \<Rightarrow> token list \<Rightarrow> node parsed" where
  "operand rec l ts = (if l < 3 then rec (BinaryAt (Suc l)) ts else rec Unary ts)"

definition parseUnary :: "rec_parse \<Rightarrow> token list \<Rightarrow> node parsed" where
  "parseUnary rec ts =
     (case acceptOperator [''!''] ts of
        Some (_, ts1) \<Rightarrow> bind_res (rec Unary ts1) (\<lambda>(e, ts2). Inr (Negation e, ts2))
      | None \<Rightarrow> rec Primary ts)"

definition parsePrimary :: "rec_parse \<Rightarrow> token list \<Rightarrow> node parsed" where
  "parsePrimary rec toks =
     (case toks of
        [] \<Rightarrow> Inl UnexpectedEnd
      | tok # ts \<Rightarrow>
          (case tok of
             StringToken s \<Rightarrow> Inr (Literal (VStr s), ts)
           | NumberToken _ x \<Rightarrow> Inr (Literal (VFloat x), ts)
           | ReferenceToken r \<Rightarrow>
               if r = ''true'' then Inr (Literal (VBool True), ts)
               else if r = ''false'' then Inr (Literal (VBool False), ts)
               else if r = ''null'' then Inr (Literal VNil, ts)
               else (case acceptOperator [''(''] ts of
                       Some (_, ts1) \<Rightarrow> rec (CallOpen r) ts1
                     | None \<Rightarrow> Inr (Reference r, ts))
           | OperatorToken op \<Rightarrow>
               if op = ''('' then
                 bind_res (rec Ternary ts) (\<lambda>(inner, ts1).
                   case acceptOperator ['')''] ts1 of
                     None \<Rightarrow> Inl MissingParen
                   | Some (_, ts2) \<Rightarrow> Inr (inner, ts2))
               else Inl (UnexpectedToken op)))"

definition finish_call :: "string \<Rightarrow> node list \<Rightarrow> token list \<Rightarrow> node parsed" where
  "finish_call name args ts = bind_res (lookupFunction name (length args)) (\<lambda>_. Inr (Call name args, ts))"

definition parseCall :: "rec_parse \<Rightarrow> string \<Rightarrow> token list \<Rightarrow> node parsed" where
  "parseCall rec name ts =
     (case acceptOperator ['')''] ts of
        Some (_, ts1) \<Rightarrow> finish_call name [] ts1
      | None \<Rightarrow> rec (CallArgs name []) ts)"

definition call_loop :: "rec_parse \<Rightarrow> string \<Rightarrow> node list \<Rightarrow> token list \<Rightarrow> node parsed" where
  "call_loop rec name args ts =
     bind_res (rec Ternary ts) (\<lambda>(arg, ts1).
       case acceptOperator ['',''] ts1 of
         Some (_, ts2) \<Rightarrow> rec (CallArgs name (args @ [arg])) ts2
       | None \<Rightarrow>
           (case acceptOperator ['')''] ts1 of
              Some (_, ts2) \<Rightarrow> finish_call name (args @ [arg]) ts2
            | None \<Rightarrow> Inl (MissingCallParen name)))"

fun parse_step :: "rec_parse \<Rightarrow> rec_parse" where
  "parse_step rec Ternary ts = parseTernary rec ts"
| "parse_step rec (BinaryAt l) ts = parseBinary rec l ts"
| "parse_step rec (Operand l) ts = operand rec l ts"
| "parse_step rec (More l left) ts = binary_loop rec l left ts"
| "parse_step rec Unary ts = parseUnary rec ts"
| "parse_step rec Primary ts = parsePrimary rec ts"
| "parse_step rec (CallOpen name) ts = parseCall rec name ts"
| "parse_step rec (CallArgs name args) ts = call_loop rec name args ts"

primrec parse :: "nat \<Rightarrow> rec_parse" where
  "parse 0 g ts = Inl ParseFuel"
| "parse (Suc n) g ts = parse_step (parse n) g ts"

definition token_text :: "token \<Rightarrow> string" where
  "token_text t = (case t of OperatorToken s \<Rightarrow> s | StringToken s \<Rightarrow> s | NumberToken s _ \<Rightarrow> s | ReferenceToken s \<Rightarrow> s)"

definition parse_tokens :: "token list \<Rightarrow> (xerr, node) res" where
  "parse_tokens ts =
     bind_res (parse (16 * length ts + 16) Ternary ts) (\<lambda>(tree, rest).
       case rest of [] \<Rightarrow> Inr tree | t # _ \<Rightarrow> Inl (UnexpectedToken (token_text t)))"

definition parseGrammar :: "string \<Rightarrow> (xerr, node) res" where
  "parseGrammar expr = bind_res (tokenize expr) parse_tokens"

text \<open>\<open>callPattern\<close>: a reference, white space and an opening parenthesis, anywhere in the text.\<close>

definition regex_space :: "char \<Rightarrow> bool" where
  "regex_space c \<longleftrightarrow> List.member [CHR 0x09, CHR 0x0A, CHR 0x0C, CHR 0x0D, CHR '' ''] c"

definition call_at :: "string \<Rightarrow> bool" where
  "call_at s =
     (case s of
        [] \<Rightarrow> False
      | c # cs \<Rightarrow> isReferenceStart c \<and>
          (case dropWhile regex_space (dropWhile isReferenceChar cs) of
             d # _ \<Rightarrow> d = CHR ''(''
           | [] \<Rightarrow> False))"

definition callPattern :: "string \<Rightarrow> bool" where
  "callPattern s = list_ex call_at (suffixes s)"

definition parseCompound :: "string \<Rightarrow> (xerr, node) res" where
  "parseCompound expr =
     (case parseGrammar expr of
        Inl e \<Rightarrow> Inl (if callPattern expr then FunctionCall e else e)
      | Inr tree \<Rightarrow> Inr tree)"


subsection \<open>The parser consumes tokens, is monotone in its fuel, and has enough\<close>

lemma acceptOperator_Some:
  "acceptOperator ops ts = Some (op, rest) \<longleftrightarrow> ts = OperatorToken op # rest \<and> op \<in> set ops"
  by (auto simp: acceptOperator_def split: list.splits token.splits)

lemmas parser_defs = parseTernary_def parseBinary_def binary_loop_def operand_def parseUnary_def
  parsePrimary_def finish_call_def parseCall_def call_loop_def

fun consumed :: "goal \<Rightarrow> nat" where
  "consumed (More _ _) = 0"
| "consumed _ = 1"

lemma step_consumes:
  assumes "\<And>g ts e rest. rec g ts = Inr (e, rest) \<Longrightarrow> length rest + consumed g \<le> length ts"
    and "parse_step rec g ts = Inr (e, rest)"
  shows "length rest + consumed g \<le> length ts"
  using assms(2)
  by (cases g)
    (fastforce simp: parser_defs res_simps acceptOperator_Some
      split: option.splits prod.splits list.splits token.splits if_splits dest!: assms(1))+

lemma parse_consumes: "parse n g ts = Inr (e, rest) \<Longrightarrow> length rest + consumed g \<le> length ts"
proof (induction n arbitrary: g ts e rest)
  case (Suc n)
  then show ?case using step_consumes [of "parse n"] by simp
qed simp

definition res_le :: "(xerr, 'a) res \<Rightarrow> (xerr, 'a) res \<Rightarrow> bool" where
  "res_le r r' \<longleftrightarrow> r = Inl ParseFuel \<or> r' = r"

lemma res_le_refl [simp]: "res_le r r"
  by (simp add: res_le_def)

lemma res_le_bind:
  "res_le r r' \<Longrightarrow> (\<And>x. res_le (f x) (f' x)) \<Longrightarrow> res_le (bind_res r f) (bind_res r' f')"
  by (cases r) (auto simp: res_le_def)

lemma res_le_option:
  "res_le a a' \<Longrightarrow> (\<And>x y. res_le (f (x, y)) (f' (x, y))) \<Longrightarrow>
   res_le (case acceptOperator ops ts of None \<Rightarrow> a | Some p \<Rightarrow> f p)
     (case acceptOperator ops ts of None \<Rightarrow> a' | Some p \<Rightarrow> f' p)"
  by (auto split: option.split)

lemma step_mono:
  assumes "\<And>g ts. res_le (rec g ts) (rec' g ts)"
  shows "res_le (parse_step rec g ts) (parse_step rec' g ts)"
  by (cases g)
    (simp_all add: parser_defs split_beta,
     auto intro!: res_le_bind res_le_option assms split: list.splits token.splits)

lemma parse_Suc: "res_le (parse n g ts) (parse (Suc n) g ts)"
proof (induction n arbitrary: g ts)
  case (Suc n)
  show ?case
    using step_mono [of "parse n" "parse (Suc n)" g ts, OF Suc.IH] by simp
qed (simp add: res_le_def)

lemma parse_le: "n \<le> m \<Longrightarrow> res_le (parse n g ts) (parse m g ts)"
proof (induction m)
  case (Suc m)
  then show ?case
    using parse_Suc [of m g ts] by (cases "n = Suc m") (auto simp: res_le_def le_Suc_eq)
qed (simp add: res_le_def)

lemma parse_mono: "parse n g ts = Inr r \<Longrightarrow> n \<le> m \<Longrightarrow> parse m g ts = Inr r"
  using parse_le [of n m g ts] by (simp add: res_le_def)

text \<open>The fuel each function needs, on top of 16 for each token left.\<close>

fun need :: "goal \<Rightarrow> nat" where
  "need Ternary = 11"
| "need (BinaryAt l) = 10 - 2 * min l 3"
| "need (Operand l) = 9 - 2 * min l 3"
| "need (More _ _) = 1"
| "need Unary = 2"
| "need Primary = 1"
| "need (CallOpen _) = 13"
| "need (CallArgs _ _) = 12"

lemma lookupFunction_fuel: "lookupFunction name k \<noteq> Inl ParseFuel"
  by (simp add: lookupFunction_def split: option.splits)

lemma step_enough:
  assumes rec: "\<And>g ts. 16 * length ts + need g \<le> n \<Longrightarrow> rec g ts \<noteq> Inl ParseFuel"
    and consumes: "\<And>g ts e rest. rec g ts = Inr (e, rest) \<Longrightarrow> length rest + consumed g \<le> length ts"
    and n: "16 * length ts + need g \<le> Suc n"
  shows "parse_step rec g ts \<noteq> Inl ParseFuel"
proof
  assume *: "parse_step rec g ts = Inl ParseFuel"
  have rec': "n < 16 * length ts + need g" if "rec g ts = Inl ParseFuel" for g ts
    using rec [of ts g] that by linarith
  show False
    using * n
    by (cases g)
      (auto simp: parser_defs res_simps acceptOperator_Some lookupFunction_fuel min_def
        split: option.splits prod.splits list.splits token.splits if_splits
        dest!: rec' consumes)
qed

lemma parse_enough_fuel: "16 * length ts + need g \<le> n \<Longrightarrow> parse n g ts \<noteq> Inl ParseFuel"
proof (induction n arbitrary: g ts)
  case 0
  then show ?case by (cases g) auto
next
  case (Suc n)
  then show ?case using step_enough [of n "parse n", OF Suc.IH parse_consumes] by simp
qed

lemma tokenize_fuel: "tokenize s \<noteq> Inl ParseFuel"
  by (induction s rule: tokenize.induct) (auto simp: res_simps Let_def split: option.splits prod.splits)

lemma parse_tokens_fuel: "parse_tokens ts \<noteq> Inl ParseFuel"
  using parse_enough_fuel [of ts Ternary "16 * length ts + 16"]
  by (auto simp: parse_tokens_def res_simps split: list.splits prod.splits)

subsection \<open>Printing a syntax tree\<close>

definition node_level :: "node \<Rightarrow> nat" where
  "node_level e =
     (case e of
        Conditional _ _ _ \<Rightarrow> 0
      | Binary op _ _ \<Rightarrow>
          (if op = ''||'' then 1 else if op = ''&&'' then 2 else if op = ''=='' \<or> op = ''!='' then 3 else 4)
      | _ \<Rightarrow> 5)"

definition paren :: "bool \<Rightarrow> token list \<Rightarrow> token list" where
  "paren b ts = (if b then OperatorToken ''('' # ts @ [OperatorToken '')''] else ts)"

fun print_literal :: "val \<Rightarrow> token" where
  "print_literal (VStr s) = StringToken s"
| "print_literal (VFloat x) = NumberToken (format_f x) x"
| "print_literal (VBool b) = ReferenceToken (fmt_bool b)"
| "print_literal _ = ReferenceToken ''null''"

text \<open>The tokens of a tree, with the parentheses precedence and associativity call for and no others.\<close>

fun print_node :: "node \<Rightarrow> token list" where
  "print_node (Literal v) = [print_literal v]"
| "print_node (Reference r) = [ReferenceToken r]"
| "print_node (Negation e) = OperatorToken ''!'' # paren (node_level e < 5) (print_node e)"
| "print_node (Binary op a b) =
     (let k = node_level (Binary op a b) in
      paren (node_level a < k) (print_node a) @ OperatorToken op #
      paren (node_level b < Suc k) (print_node b))"
| "print_node (Conditional c t e) =
     paren (node_level c < 1) (print_node c) @ OperatorToken ''?'' # print_node t
     @ OperatorToken '':'' # print_node e"
| "print_node (Call name args) =
     ReferenceToken name # OperatorToken ''('' #
     join [OperatorToken '',''] (map print_node args) @ [OperatorToken '')'']"

definition print_at :: "nat \<Rightarrow> node \<Rightarrow> token list" where
  "print_at l e = paren (node_level e < l) (print_node e)"

text \<open>The trees the parser can build.\<close>

fun literal_ok :: "val \<Rightarrow> bool" where
  "literal_ok (VStr _) = True"
| "literal_ok (VFloat _) = True"
| "literal_ok (VBool _) = True"
| "literal_ok VNil = True"
| "literal_ok _ = False"

definition reserved :: "string list" where
  "reserved = [''true'', ''false'', ''null'']"

definition binary_operators :: "string list" where
  "binary_operators = concat (map level_ops [0, 1, 2, 3])"

fun node_ok :: "node \<Rightarrow> bool" where
  "node_ok (Literal v) = literal_ok v"
| "node_ok (Reference r) = (r \<notin> set reserved)"
| "node_ok (Negation e) = node_ok e"
| "node_ok (Binary op a b) = (op \<in> set binary_operators \<and> node_ok a \<and> node_ok b)"
| "node_ok (Conditional c t e) = (node_ok c \<and> node_ok t \<and> node_ok e)"
| "node_ok (Call name args) =
     ((\<exists>f. lookupFunction name (length args) = Inr f) \<and> list_all node_ok args)"

subsection \<open>Parsing what was printed\<close>

definition parses :: "goal \<Rightarrow> token list \<Rightarrow> node \<Rightarrow> token list \<Rightarrow> bool" where
  "parses g ts e rest \<longleftrightarrow> (\<exists>n. parse n g ts = Inr (e, rest))"

lemma parses_one:
  assumes "parses g ts e rest"
    and "\<And>n. parse n g ts = Inr (e, rest) \<Longrightarrow> parse_step (parse n) g' ts' = Inr (e', rest')"
  shows "parses g' ts' e' rest'"
  using assms by (metis parse.simps(2) parses_def)

lemma parses_two:
  assumes "parses g ts e rest" and "parses g2 ts2 e2 rest2"
    and "\<And>n. parse n g ts = Inr (e, rest) \<Longrightarrow> parse n g2 ts2 = Inr (e2, rest2) \<Longrightarrow>
           parse_step (parse n) g' ts' = Inr (e', rest')"
  shows "parses g' ts' e' rest'"
proof -
  obtain n m where "parse n g ts = Inr (e, rest)" "parse m g2 ts2 = Inr (e2, rest2)"
    using assms(1,2) by (auto simp: parses_def)
  then have "parse (max n m) g ts = Inr (e, rest)" "parse (max n m) g2 ts2 = Inr (e2, rest2)"
    by (auto intro: parse_mono)
  then have "parse (Suc (max n m)) g' ts' = Inr (e', rest')" using assms(3) by simp
  then show ?thesis unfolding parses_def by blast
qed

lemma parses_zero: "(\<And>n. parse_step (parse n) g ts = Inr (e, rest)) \<Longrightarrow> parses g ts e rest"
  by (auto simp: parses_def intro: exI [of _ "Suc 0"])

definition goal_at :: "nat \<Rightarrow> goal" where
  "goal_at l = (if l = 0 then Ternary else if l \<le> 4 then BinaryAt (l - 1) else Unary)"

text \<open>What may follow a tree printed at a level without being taken into it.\<close>

definition stops :: "nat \<Rightarrow> token list \<Rightarrow> bool" where
  "stops l rest =
     (case rest of
        OperatorToken op # _ \<Rightarrow>
          op \<noteq> ''('' \<and> (l = 0 \<longrightarrow> op \<noteq> ''?'') \<and> (\<forall>k \<in> {l..4}. 1 \<le> k \<longrightarrow> op \<notin> set (level_ops (k - 1)))
      | _ \<Rightarrow> True)"

lemma stops_mono: "stops l rest \<Longrightarrow> l \<le> m \<Longrightarrow> stops m rest"
  by (auto simp: stops_def split: list.splits token.splits)

lemma stops_accept:
  "stops l rest \<Longrightarrow> l \<le> k \<Longrightarrow> 1 \<le> k \<Longrightarrow> k \<le> 4 \<Longrightarrow> acceptOperator (level_ops (k - 1)) rest = None"
  by (auto simp: stops_def acceptOperator_def split: list.splits token.splits)

lemma stops_ternary: "stops 0 rest \<Longrightarrow> acceptOperator [''?''] rest = None"
  by (auto simp: stops_def acceptOperator_def split: list.splits token.splits)

lemma stops_call: "stops l rest \<Longrightarrow> acceptOperator [''(''] rest = None"
  by (auto simp: stops_def acceptOperator_def split: list.splits token.splits)

lemma parses_operand: "1 \<le> l \<Longrightarrow> l \<le> 4 \<Longrightarrow> parses (goal_at (Suc l)) ts e rest \<Longrightarrow> parses (Operand (l - 1)) ts e rest"
  by (erule parses_one) (auto simp: operand_def goal_at_def split: if_splits)

lemma parses_binary:
  assumes "1 \<le> l" "l \<le> 4" "parses (goal_at (Suc l)) ts e rest" "parses (More (l - 1) e) rest e' rest'"
  shows "parses (goal_at l) ts e' rest'"
  by (rule parses_two [OF parses_operand [OF assms(1-3)] assms(4)])
    (use assms(1,2) in \<open>auto simp: goal_at_def parseBinary_def\<close>)

lemma parses_more_stop: "1 \<le> l \<Longrightarrow> l \<le> 4 \<Longrightarrow> stops l rest \<Longrightarrow> parses (More (l - 1) e) rest e rest"
  using stops_accept [of l rest l] by (intro parses_zero) (simp add: binary_loop_def)

lemma parses_lift:
  "l \<le> 4 \<Longrightarrow> stops l rest \<Longrightarrow> parses (goal_at (Suc l)) ts e rest \<Longrightarrow> parses (goal_at l) ts e rest"
proof (cases "l = 0")
  case True
  assume "stops l rest" and p: "parses (goal_at (Suc l)) ts e rest"
  with True have "acceptOperator [''?''] rest = None" by (simp add: stops_ternary)
  then show ?thesis using True p
    by - (erule parses_one, simp add: goal_at_def parseTernary_def)
qed (use parses_binary parses_more_stop in auto)

lemma parses_lifts:
  "parses (goal_at k) ts e rest \<Longrightarrow> l \<le> k \<Longrightarrow> k \<le> 5 \<Longrightarrow> stops l rest \<Longrightarrow> parses (goal_at l) ts e rest"
proof (induction "k - l" arbitrary: l)
  case (Suc d)
  then have "parses (goal_at (Suc l)) ts e rest"
    using Suc.hyps(1) [of "Suc l"] stops_mono [of l rest "Suc l"] by simp
  then show ?case using Suc parses_lift [of l] by simp
qed simp

lemma parses_primary: "acceptOperator [''!''] ts = None \<Longrightarrow> parses Primary ts e rest \<Longrightarrow> parses (goal_at 5) ts e rest"
  by (erule parses_one) (simp add: goal_at_def parseUnary_def)

lemma stops_close: "stops l (OperatorToken '')'' # rest)"
  by (simp add: stops_def level_ops_def)

lemma stops_colon: "stops l (OperatorToken '':'' # rest)"
  by (simp add: stops_def level_ops_def)

lemma stops_comma: "stops l (OperatorToken '','' # rest)"
  by (simp add: stops_def level_ops_def)

lemma stops_question: "1 \<le> l \<Longrightarrow> stops l (OperatorToken ''?'' # rest)"
  by (simp add: stops_def level_ops_def)

text \<open>Where a tree parses at its own level, it parses printed at every level.\<close>

definition reparses :: "node \<Rightarrow> bool" where
  "reparses e \<longleftrightarrow> (\<forall>l rest. l \<le> 5 \<longrightarrow> stops l rest \<longrightarrow> parses (goal_at l) (print_at l e @ rest) e rest)"

lemma reparses_own:
  assumes k: "node_level e \<le> 5"
    and own: "\<And>rest. stops (node_level e) rest \<Longrightarrow> parses (goal_at (node_level e)) (print_node e @ rest) e rest"
  shows "reparses e"
proof -
  have below: "parses (goal_at l) (print_node e @ rest) e rest" if "l \<le> node_level e" "stops l rest" for l rest
    by (rule parses_lifts [OF own [OF stops_mono [OF that(2,1)]] that(1) k that(2)])
  have prim: "parses Primary (OperatorToken ''('' # print_node e @ OperatorToken '')'' # rest) e rest" for rest
    by (rule parses_one [OF below [OF le0 stops_close [of 0 rest]]])
      (simp add: goal_at_def parsePrimary_def acceptOperator_def)
  have "parses (goal_at 5) (paren True (print_node e) @ rest) e rest" for rest
    using parses_primary [OF _ prim [of rest]] by (simp add: paren_def acceptOperator_def)
  from parses_lifts [OF this _ order_refl]
  have above: "parses (goal_at l) (paren True (print_node e) @ rest) e rest" if "l \<le> 5" "stops l rest" for l rest
    using that by blast
  have "parses (goal_at l) (print_at l e @ rest) e rest" if "l \<le> 5" "stops l rest" for l rest
    using that below [of l rest] above [of l rest]
    by (cases "node_level e < l") (simp_all add: print_at_def, simp add: paren_def)
  then show ?thesis by (simp add: reparses_def)
qed

text \<open>A left operand is followed by its operator, which the loop takes.\<close>

definition continues :: "node \<Rightarrow> bool" where
  "continues e \<longleftrightarrow> (\<forall>l rest e' rest'. 1 \<le> l \<longrightarrow> l \<le> 4 \<longrightarrow> stops (Suc l) rest \<longrightarrow>
     parses (More (l - 1) e) rest e' rest' \<longrightarrow> parses (goal_at l) (print_at l e @ rest) e' rest')"

lemma continues_other:
  assumes "reparses e" and "1 \<le> l" "l \<le> 4" "node_level e \<noteq> l" "stops (Suc l) rest"
    and "parses (More (l - 1) e) rest e' rest'"
  shows "parses (goal_at l) (print_at l e @ rest) e' rest'"
proof -
  have "(node_level e < l) = (node_level e < Suc l)" using assms(4) by arith
  then have "print_at l e = print_at (Suc l) e" by (simp add: print_at_def)
  then show ?thesis
    using assms parses_binary [of l "print_at l e @ rest" e rest] by (auto simp: reparses_def)
qed


lemma reparses_primary:
  assumes "node_level e = 5" and "acceptOperator [''!''] (print_node e) = None" and "print_node e \<noteq> []"
    and "\<And>rest. acceptOperator [''(''] rest = None \<Longrightarrow> parses Primary (print_node e @ rest) e rest"
  shows "reparses e"
proof (rule reparses_own)
  fix rest assume "stops (node_level e) rest"
  then have p: "parses Primary (print_node e @ rest) e rest" by (intro assms(4)) (rule stops_call)
  have "acceptOperator [''!''] (print_node e @ rest) = None"
    using assms(2,3) by (cases "print_node e") (auto simp: acceptOperator_def split: token.splits if_splits)
  from parses_primary [OF this p]
  show "parses (goal_at (node_level e)) (print_node e @ rest) e rest" by (simp add: assms(1))
qed (simp add: assms(1))

lemma reparses_literal: "literal_ok v \<Longrightarrow> reparses (Literal v)"
  by (rule reparses_primary; (rule parses_zero)?)
    (cases v; auto simp: node_level_def acceptOperator_def parsePrimary_def fmt_bool_def)+

lemma reparses_reference: "r \<notin> set reserved \<Longrightarrow> reparses (Reference r)"
  by (rule reparses_primary; (rule parses_zero)?)
    (auto simp: node_level_def acceptOperator_def parsePrimary_def reserved_def)

lemma reparses_negation: "reparses e \<Longrightarrow> reparses (Negation e)"
proof (rule reparses_own)
  fix rest assume e: "reparses e" and "stops (node_level (Negation e)) rest"
  then have "parses (goal_at 5) (print_at 5 e @ rest) e rest" by (simp add: reparses_def node_level_def)
  then show "parses (goal_at (node_level (Negation e))) (print_node (Negation e) @ rest) (Negation e) rest"
    by (rule parses_one) (simp add: goal_at_def node_level_def parseUnary_def acceptOperator_def print_at_def)
qed (simp add: node_level_def)

lemma reparses_conditional:
  assumes "reparses c" "reparses t" "reparses e"
  shows "reparses (Conditional c t e)"
proof (rule reparses_own)
  fix rest assume "stops (node_level (Conditional c t e)) rest"
  then have s: "stops 0 rest" by (simp add: node_level_def)
  let ?e = "print_node e @ rest" let ?t = "print_node t @ OperatorToken '':'' # ?e"
  have 0: "print_at 0 x = print_node x" for x by (simp add: print_at_def paren_def)
  have c: "parses (BinaryAt 0) (print_at 1 c @ OperatorToken ''?'' # ?t) c (OperatorToken ''?'' # ?t)"
    using assms(1) stops_question [of 1 ?t] by (auto simp: reparses_def goal_at_def dest: spec [of _ 1])
  have t: "parses Ternary ?t t (OperatorToken '':'' # ?e)"
    using assms(2) stops_colon [of 0 ?e] by (auto simp: reparses_def goal_at_def 0 dest: spec [of _ 0])
  have e: "parses Ternary ?e e rest"
    using assms(3) s by (auto simp: reparses_def goal_at_def 0 dest: spec [of _ 0])
  from c t e obtain i j k where
    "parse i (BinaryAt 0) (print_at 1 c @ OperatorToken ''?'' # ?t) = Inr (c, OperatorToken ''?'' # ?t)"
    "parse j Ternary ?t = Inr (t, OperatorToken '':'' # ?e)" "parse k Ternary ?e = Inr (e, rest)"
    by (auto simp: parses_def)
  then have
    "parse (i + j + k) (BinaryAt 0) (print_at 1 c @ OperatorToken ''?'' # ?t) = Inr (c, OperatorToken ''?'' # ?t)"
    "parse (i + j + k) Ternary ?t = Inr (t, OperatorToken '':'' # ?e)"
    "parse (i + j + k) Ternary ?e = Inr (e, rest)"
    by (auto elim: parse_mono)
  then have "parse (Suc (i + j + k)) Ternary (print_node (Conditional c t e) @ rest)
      = Inr (Conditional c t e, rest)"
    by (simp add: parseTernary_def acceptOperator_def print_at_def)
  then have "parses Ternary (print_node (Conditional c t e) @ rest) (Conditional c t e) rest"
    unfolding parses_def by blast
  moreover have "node_level (Conditional c t e) = 0" by (simp add: node_level_def)
  ultimately show "parses (goal_at (node_level (Conditional c t e))) (print_node (Conditional c t e) @ rest)
      (Conditional c t e) rest" by (simp only: goal_at_def simp_thms if_True)
qed (simp add: node_level_def)

lemma binary_level:
  "op \<in> set binary_operators \<Longrightarrow>
   1 \<le> node_level (Binary op a b) \<and> node_level (Binary op a b) \<le> 4
     \<and> op \<in> set (level_ops (node_level (Binary op a b) - 1))
     \<and> (\<forall>l \<in> {Suc (node_level (Binary op a b))..4}. op \<notin> set (level_ops (l - 1))) \<and> op \<noteq> ''(''"
proof -
  have l: "l \<in> {n..4} \<longleftrightarrow> n \<le> l \<and> l \<le> (4::nat)" for l n by auto
  assume "op \<in> set binary_operators"
  then consider "op = ''||''" | "op = ''&&''" | "op = ''==''" | "op = ''!=''" | "op = ''>''" | "op = ''>=''"
    | "op = ''<''" | "op = ''<=''"
    by (auto simp: binary_operators_def level_ops_def)
  then show ?thesis by cases (auto simp: node_level_def level_ops_def split: if_splits)
qed

lemma continues_own:
  assumes op: "op \<in> set binary_operators" and a: "continues a" and b: "reparses b"
    and k: "k = node_level (Binary op a b)" and stop: "stops (Suc k) rest"
    and more: "parses (More (k - 1) (Binary op a b)) rest e' rest'"
  shows "parses (goal_at k) (print_node (Binary op a b) @ rest) e' rest'"
proof -
  note lv = binary_level [OF op, of a b, folded k]
  have "parses (goal_at (Suc k)) (print_at (Suc k) b @ rest) b rest"
    using b lv stop by (auto simp: reparses_def)
  then have b': "parses (Operand (k - 1)) (print_at (Suc k) b @ rest) b rest"
    using lv by (intro parses_operand) auto
  have "parses (More (k - 1) a) (OperatorToken op # print_at (Suc k) b @ rest) e' rest'"
    by (rule parses_two [OF b' more]) (use lv in \<open>simp add: binary_loop_def acceptOperator_def\<close>)
  moreover have "stops (Suc k) (OperatorToken op # print_at (Suc k) b @ rest)"
    using lv by (auto simp: stops_def)
  ultimately have "parses (goal_at k) (print_at k a @ OperatorToken op # print_at (Suc k) b @ rest) e' rest'"
    using a lv unfolding continues_def by blast
  then show ?thesis by (simp add: print_at_def Let_def flip: k)
qed


lemma reparses_ternary: "reparses e \<Longrightarrow> stops 0 rest \<Longrightarrow> parses Ternary (print_node e @ rest) e rest"
  by (auto simp: reparses_def goal_at_def print_at_def paren_def dest: spec [of _ 0])

lemma parses_args:
  assumes "\<And>a. a \<in> set args \<Longrightarrow> reparses a" and "args \<noteq> []"
    and "lookupFunction name (length (pre @ args)) = Inr f"
  shows "parses (CallArgs name pre)
    (join [OperatorToken '',''] (map print_node args) @ OperatorToken '')'' # rest) (Call name (pre @ args)) rest"
  using assms
proof (induction args arbitrary: pre)
  case (Cons a args)
  show ?case
  proof (cases args)
    case Nil
    have "parses Ternary (print_node a @ OperatorToken '')'' # rest) a (OperatorToken '')'' # rest)"
      using Cons.prems by (intro reparses_ternary stops_close) simp
    then show ?thesis
      by (rule parses_one) (use Nil Cons.prems in \<open>simp add: call_loop_def acceptOperator_def finish_call_def\<close>)
  next
    case (Cons b bs)
    let ?more = "join [OperatorToken '',''] (map print_node args) @ OperatorToken '')'' # rest"
    have "parses Ternary (print_node a @ OperatorToken '','' # ?more) a (OperatorToken '','' # ?more)"
      using Cons.prems by (intro reparses_ternary stops_comma) simp
    moreover have "parses (CallArgs name (pre @ [a])) ?more (Call name ((pre @ [a]) @ args)) rest"
      using Cons Cons.prems by (intro Cons.IH) auto
    ultimately show ?thesis
      by (rule parses_two) (use Cons in \<open>simp add: call_loop_def acceptOperator_def\<close>)
  qed
qed simp

lemma lookupFunction_name: "lookupFunction name k = Inr f \<Longrightarrow> name \<notin> set reserved"
  by (auto simp: lookupFunction_def function_table_def reserved_def split: option.splits)

lemma print_node_head: "print_node e \<noteq> [] \<and> acceptOperator ['')''] (print_node e @ rest) = None"
  by (induction e arbitrary: rest)
    (auto simp: acceptOperator_def paren_def Let_def split: token.splits, (case_tac x; simp)+)

lemma parses_call:
  assumes "\<And>a. a \<in> set args \<Longrightarrow> reparses a" and "lookupFunction name (length args) = Inr f"
  shows "parses (CallOpen name)
    (join [OperatorToken '',''] (map print_node args) @ OperatorToken '')'' # rest) (Call name args) rest"
proof (cases args)
  case Nil
  then show ?thesis using assms(2)
    by (intro parses_zero) (simp add: parseCall_def finish_call_def acceptOperator_def)
next
  case (Cons a as)
  then have "acceptOperator ['')''] (join [OperatorToken '',''] (map print_node args) @ OperatorToken '')'' # rest) = None"
    using print_node_head [of a] by (cases as) simp_all
  then show ?thesis
    by (intro parses_one [OF parses_args [of args name "[]"]])
      (use assms Cons in \<open>simp_all add: parseCall_def\<close>)
qed

lemma reparses_call:
  assumes "\<And>a. a \<in> set args \<Longrightarrow> reparses a" and "lookupFunction name (length args) = Inr f"
  shows "reparses (Call name args)"
proof (rule reparses_primary)
  fix rest
  show "parses Primary (print_node (Call name args) @ rest) (Call name args) rest"
    by (rule parses_one [OF parses_call [OF assms]])
      (use lookupFunction_name [OF assms(2)] in
        \<open>simp_all add: parsePrimary_def acceptOperator_def reserved_def\<close>)
qed (simp_all add: node_level_def acceptOperator_def)

lemma node_ok_reparses: "node_ok e \<Longrightarrow> reparses e \<and> continues e"
proof (induction e)
  case (Binary op a b)
  define k where "k = node_level (Binary op a b)"
  have op: "op \<in> set binary_operators" using Binary.prems by simp
  note lv = binary_level [OF op, of a b, folded k_def]
  have own: "parses (goal_at k) (print_node (Binary op a b) @ rest) e' rest'"
    if "stops (Suc k) rest" "parses (More (k - 1) (Binary op a b)) rest e' rest'" for rest e' rest'
    using continues_own [OF op _ _ k_def that] Binary by simp
  have r: "reparses (Binary op a b)"
  proof (rule reparses_own, fold k_def)
    fix rest assume s: "stops k rest"
    show "parses (goal_at k) (print_node (Binary op a b) @ rest) (Binary op a b) rest"
      using lv s stops_mono [OF s, of "Suc k"] by (intro own parses_more_stop) auto
  qed (use lv in auto)
  moreover have "continues (Binary op a b)"
    unfolding continues_def
  proof (intro allI impI)
    fix l rest e' rest'
    assume l: "1 \<le> l" "l \<le> 4" "stops (Suc l) rest" "parses (More (l - 1) (Binary op a b)) rest e' rest'"
    show "parses (goal_at l) (print_at l (Binary op a b) @ rest) e' rest'"
    proof (cases "k = l")
      case True
      then show ?thesis using own l by (simp add: print_at_def paren_def flip: k_def)
    next
      case False
      then show ?thesis using continues_other [OF r l(1,2) _ l(3,4)] by (simp flip: k_def)
    qed
  qed
  ultimately show ?case ..
qed (auto simp: continues_def node_level_def list_all_iff intro!: continues_other
      intro: reparses_literal reparses_reference reparses_negation reparses_conditional reparses_call)


lemma parses_fuel: "parses g ts e rest \<Longrightarrow> 16 * length ts + need g \<le> n \<Longrightarrow> parse n g ts = Inr (e, rest)"
proof -
  assume "parses g ts e rest" and n: "16 * length ts + need g \<le> n"
  then obtain m where m: "parse m g ts = Inr (e, rest)" by (auto simp: parses_def)
  show ?thesis
  proof (cases "m \<le> n")
    case False
    then show ?thesis
      using parse_le [of n m g ts] parse_enough_fuel [OF n] m by (auto simp: res_le_def)
  qed (use m parse_mono in blast)
qed

lemma parse_tokens_print: "node_ok e \<Longrightarrow> parse_tokens (print_node e) = Inr e"
  using parses_fuel [OF reparses_ternary [of e "[]"], of "16 * length (print_node e) + 16"]
    node_ok_reparses [of e]
  by (simp add: parse_tokens_def stops_def)

subsection \<open>Properties\<close>

text \<open>
  C4. Parsing the tokens of any expression tree, printed with the parentheses its
  precedence and associativity call for and no others, gives the tree back: the binary
  levels associate to the left, the ternary to the right, negation binds tighter than any
  of them, and a call's arguments are whole expressions.
\<close>

theorem parse_print_roundtrip:
  assumes "node_ok e"
  shows "parse_tokens (print_node e) = Inr e"
  using assms by (rule parse_tokens_print)

theorem parse_print_roundtrip_witness:
  "parse_tokens
     [OperatorToken ''('', ReferenceToken ''a'', OperatorToken ''||'', ReferenceToken ''b'', OperatorToken '')'',
      OperatorToken ''&&'', OperatorToken ''!'', ReferenceToken ''c'']
   = Inr (Binary ''&&'' (Binary ''||'' (Reference ''a'') (Reference ''b'')) (Negation (Reference ''c'')))"
  using parse_print_roundtrip [of "Binary ''&&'' (Binary ''||'' (Reference ''a'') (Reference ''b''))
      (Negation (Reference ''c''))"]
  by (simp add: reserved_def binary_operators_def level_ops_def node_level_def paren_def Let_def)

text \<open>
  C5. Parsing terminates on every expression with a tree or one of the code's own errors:
  the fuel given to the recursive descent is never used up.
\<close>

theorem parsing_terminates:
  "parseGrammar expr \<noteq> Inl ParseFuel"
  using tokenize_fuel [of expr] parse_tokens_fuel by (auto simp: parseGrammar_def res_simps)

end
