(* ===== verification/Resolver.thy ===== *)
theory Resolver
  imports Grammar Operators Paths
begin

text \<open>
  \<open>workflow/internal/expression/resolver.go\<close>, the evaluation half of \<open>compound.go\<close> and the
  conditions of \<open>evaluator.go\<close>. Evaluation passes the resolver along explicitly, because a
  lazy source is loaded and kept on its first use and the random source moves on with each
  draw. A lazy source's loader is code of the caller: a function of how many loads the
  resolver has made, so that it may answer differently each time it is asked. \<open>draws\<close> and
  \<open>calls\<close> (each load made, and whether it succeeded) only record what happened.
\<close>

type_synonym loader = "nat \<Rightarrow> (xerr, val) res"

record resolver =
  sources :: "string \<Rightarrow> val option"
  lazySources :: "string \<Rightarrow> loader option"
  assetURLBase :: string
  hasAssetURLBase :: bool
  draws :: nat
  calls :: "(string \<times> bool) list"

type_synonym 'a ev = "resolver \<Rightarrow> (xerr, 'a) res \<times> resolver"

definition bind_ev :: "'a ev \<Rightarrow> ('a \<Rightarrow> 'b ev) \<Rightarrow> 'b ev" where
  "bind_ev m f r = (case m r of (Inl e, r') \<Rightarrow> (Inl e, r') | (Inr a, r') \<Rightarrow> f a r')"

definition map_err :: "(xerr \<Rightarrow> xerr) \<Rightarrow> 'a ev \<Rightarrow> 'a ev" where
  "map_err w m r = (case m r of (Inl e, r') \<Rightarrow> (Inl (w e), r') | (Inr a, r') \<Rightarrow> (Inr a, r'))"

definition lift_res :: "(xerr, 'a) res \<Rightarrow> 'a ev" where
  "lift_res x r = (x, r)"

lemma bind_ev_cong [fundef_cong]:
  "m r = m' r' \<Longrightarrow> (\<And>a s. m' r' = (Inr a, s) \<Longrightarrow> f a s = g a s) \<Longrightarrow> bind_ev m f r = bind_ev m' g r'"
  by (auto simp: bind_ev_def split: prod.splits sum.splits)

lemma map_err_cong [fundef_cong]: "m r = m' r' \<Longrightarrow> map_err w m r = map_err w m' r'"
  by (simp add: map_err_def)

subsection \<open>Building a resolver\<close>

definition NewResolver :: resolver where
  "NewResolver =
     \<lparr>sources = (\<lambda>_. None), lazySources = (\<lambda>_. None), assetURLBase = '''', hasAssetURLBase = False,
      draws = 0, calls = []\<rparr>"

definition AddSource :: "string \<Rightarrow> val \<Rightarrow> resolver \<Rightarrow> resolver" where
  "AddSource name data r = r\<lparr>sources := (sources r)(name := Some data)\<rparr>"

text \<open>\<open>None\<close> is the panic on a name that is already a source.\<close>

definition AddLazySource :: "string \<Rightarrow> loader \<Rightarrow> resolver \<Rightarrow> resolver option" where
  "AddLazySource name load r =
     (if sources r name \<noteq> None then None
      else Some (r\<lparr>lazySources := (lazySources r)(name := Some load)\<rparr>))"

definition SetAssetURLBase :: "string \<Rightarrow> resolver \<Rightarrow> resolver" where
  "SetAssetURLBase base r = r\<lparr>assetURLBase := trim_right (CHR ''/'') base, hasAssetURLBase := True\<rparr>"

subsection \<open>References\<close>

definition reference_parts :: "string \<Rightarrow> string \<times> string" where
  "reference_parts expr =
     (case split2 (CHR ''.'') expr of (source, rest) \<Rightarrow>
        (source, case rest of None \<Rightarrow> '''' | Some path \<Rightarrow> path))"

text \<open>The data of a lazy source, loading and keeping it when it is not there yet.\<close>

definition load_lazy :: "string \<Rightarrow> loader \<Rightarrow> val ev" where
  "load_lazy source load r =
     (case sources r source of
        Some data \<Rightarrow> (Inr data, r)
      | None \<Rightarrow>
          (case load (length (calls r)) of
             Inl e \<Rightarrow> (Inl (LoadFailed source e), r\<lparr>calls := calls r @ [(source, False)]\<rparr>)
           | Inr data \<Rightarrow>
               (Inr data, r\<lparr>sources := (sources r)(source := Some data), calls := calls r @ [(source, True)]\<rparr>)))"

definition evaluateReference :: "string \<Rightarrow> val ev" where
  "evaluateReference expr r =
     (case reference_parts expr of (source, path) \<Rightarrow>
        (case lazySources r source of
           Some load \<Rightarrow>
             bind_ev (load_lazy source load) (\<lambda>data.
               lift_res (case ResolvePath data path of
                           Inl e \<Rightarrow> (if is_path_not_found e then Inr VNil else Inl e)
                         | Inr v \<Rightarrow> Inr v)) r
         | None \<Rightarrow>
             (case sources r source of
                None \<Rightarrow> (Inl (UnknownSource source), r)
              | Some data \<Rightarrow> (if path = '''' then Inr data else ResolvePath data path, r))))"

subsection \<open>Evaluation of a parsed expression\<close>

fun eval :: "golib \<Rightarrow> node \<Rightarrow> val ev"
and eval_args :: "golib \<Rightarrow> string \<Rightarrow> node list \<Rightarrow> val list ev" where
  "eval L (Literal v) r = (Inr v, r)"
| "eval L (Reference path) r =
     (case evaluateReference path r of
        (Inl e, r') \<Rightarrow> (if is_path_not_found e then Inr VNil else Inl e, r')
      | (Inr v, r') \<Rightarrow> (Inr v, r'))"
| "eval L (Negation n) r = bind_ev (eval L n) (\<lambda>v. lift_res (Inr (VBool (\<not> truthy v)))) r"
| "eval L (Binary op a b) r =
     bind_ev (eval L a) (\<lambda>left.
       if op = ''&&'' then (if \<not> truthy left then lift_res (Inr left) else eval L b)
       else if op = ''||'' then (if truthy left then lift_res (Inr left) else eval L b)
       else bind_ev (eval L b) (\<lambda>right.
              lift_res
                (if (left = VNil \<or> right = VNil) \<and> op \<noteq> ''=='' \<and> op \<noteq> ''!='' then Inr (VBool False)
                 else bind_res (EvaluateOperator (regexp_compile L) op left right) (\<lambda>t. Inr (VBool t))))) r"
| "eval L (Conditional c a b) r =
     bind_ev (eval L c) (\<lambda>v. if truthy v then eval L a else eval L b) r"
| "eval L (Call name args) r =
     bind_ev (eval_args L name args) (\<lambda>vs r1.
       case map_of function_table name of
         None \<Rightarrow> (Inl (UnknownFunction name), r1)
       | Some f \<Rightarrow>
           (case fcall f L (draws r1) name vs of
              Inl e \<Rightarrow> (Inl (FunctionCall e), r1)
            | Inr (v, k) \<Rightarrow> (Inr v, r1\<lparr>draws := k\<rparr>))) r"
| "eval_args L name [] r = (Inr [], r)"
| "eval_args L name (a # as) r =
     bind_ev (map_err (ArgFailed name) (eval L a)) (\<lambda>v.
       bind_ev (eval_args L name as) (\<lambda>vs. lift_res (Inr (v # vs)))) r"

definition evaluateCompound :: "golib \<Rightarrow> string \<Rightarrow> val ev" where
  "evaluateCompound L expr r =
     (case parseCompound expr of Inl e \<Rightarrow> (Inl e, r) | Inr tree \<Rightarrow> eval L tree r)"

subsection \<open>Strings\<close>

definition assetURLPrefix :: string where
  "assetURLPrefix = ''woofx3_asset_url:''"

definition assetMarkerPrefix :: string where
  "assetMarkerPrefix = ''asset:''"

fun close_val :: "val \<Rightarrow> val" where
  "close_val (VOpen kvs) = VMap kvs"
| "close_val v = v"

definition closeRecord :: "val ev \<Rightarrow> val ev" where
  "closeRecord m = bind_ev m (\<lambda>v. lift_res (Inr (close_val v)))"

definition evaluateExpression :: "golib \<Rightarrow> string \<Rightarrow> val ev" where
  "evaluateExpression L expr r =
     (case cut_prefix assetURLPrefix expr of
        Some rel \<Rightarrow>
          (if \<not> hasAssetURLBase r then Inl (NoAssetBase rel)
           else Inr (VStr (assetURLBase r @ ''/'' @ rel)), r)
      | None \<Rightarrow>
          if isCompound expr then evaluateCompound L expr r
          else closeRecord (evaluateReference expr) r)"

definition HasExpression :: "string \<Rightarrow> bool" where
  "HasExpression s = contains s ''${''"

text \<open>The loop of \<open>isFullExpression\<close>: no brace closes the first one before the end.\<close>

fun braces_close_at_end :: "int \<Rightarrow> string \<Rightarrow> bool" where
  "braces_close_at_end depth [] = True"
| "braces_close_at_end depth (c # cs) =
     (if c = CHR ''{'' then braces_close_at_end (depth + 1) cs
      else if c = CHR ''}'' then
        (if depth - 1 = 0 \<and> cs \<noteq> [] then False else braces_close_at_end (depth - 1) cs)
      else braces_close_at_end depth cs)"

definition isFullExpression :: "string \<Rightarrow> bool" where
  "isFullExpression s \<longleftrightarrow> has_prefix s ''${'' \<and> has_suffix s ''}'' \<and> braces_close_at_end 0 s"

text \<open>
  The matches of \<open>expressionPattern\<close>, leftmost first: a dollar and an opening brace, at least
  one byte that is not a closing brace, and the closing brace.
\<close>

datatype piece = Raw char | Token string

function pieces :: "string \<Rightarrow> piece list" where
  "pieces [] = []"
| "pieces (c # cs) =
     (case cut_prefix ''${'' (c # cs) of
        None \<Rightarrow> Raw c # pieces cs
      | Some rest \<Rightarrow>
          (let expr = takeWhile (\<lambda>x. x \<noteq> CHR ''}'') rest; after = dropWhile (\<lambda>x. x \<noteq> CHR ''}'') rest
           in if expr \<noteq> [] \<and> after \<noteq> [] then Token expr # pieces (tl after) else Raw c # pieces cs))"
  by pat_completeness auto

lemma pieces_shorter:
  "cut_prefix ''${'' s = Some rest \<Longrightarrow> length (dropWhile P rest) - Suc 0 < length s"
  using length_dropWhile_le [of P rest] by (auto simp: cut_prefix_Some_iff)

termination pieces
  by (relation "measure length") (auto simp del: cut_prefix.simps dest: pieces_shorter)

definition token_source :: "string \<Rightarrow> string" where
  "token_source expr = ''${'' @ expr @ ''}''"

text \<open>
  \<open>ReplaceAllStringFunc\<close> with the closure of \<open>ResolveString\<close>: the text made so far is the
  result, \<open>failed\<close> the first failed function call.
\<close>

fun resolve_pieces :: "golib \<Rightarrow> piece list \<Rightarrow> xerr option \<Rightarrow> resolver \<Rightarrow> string \<times> xerr option \<times> resolver" where
  "resolve_pieces L [] failed r = ([], failed, r)"
| "resolve_pieces L (Raw c # ps) failed r =
     (case resolve_pieces L ps failed r of (t, f, r') \<Rightarrow> (c # t, f, r'))"
| "resolve_pieces L (Token expr # ps) failed r =
     (case evaluateExpression L expr r of
        (Inl e, r1) \<Rightarrow>
          (case resolve_pieces L ps (if failed = None \<and> is_function_call e then Some e else failed) r1 of
             (t, f, r') \<Rightarrow> (token_source expr @ t, f, r'))
      | (Inr v, r1) \<Rightarrow>
          (case resolve_pieces L ps failed r1 of (t, f, r') \<Rightarrow> (toString v @ t, f, r')))"

definition ResolveString :: "golib \<Rightarrow> string \<Rightarrow> val ev" where
  "ResolveString L s r =
     (if \<not> HasExpression s then (Inr (VStr s), r)
      else if isFullExpression s then evaluateExpression L (butlast (drop 2 s)) r
      else (case resolve_pieces L (pieces s) None r of
              (t, None, r') \<Rightarrow> (Inr (VStr t), r')
            | (t, Some e, r') \<Rightarrow> (Inl e, r')))"

fun Resolve :: "golib \<Rightarrow> val \<Rightarrow> val ev"
and resolveMap :: "golib \<Rightarrow> obj \<Rightarrow> obj ev"
and resolveSlice :: "golib \<Rightarrow> nat \<Rightarrow> val list \<Rightarrow> val list ev" where
  "Resolve L (VStr s) r = ResolveString L s r"
| "Resolve L (VMap kvs) r = bind_ev (resolveMap L kvs) (\<lambda>m. lift_res (Inr (VMap m))) r"
| "Resolve L (VList vs) r = bind_ev (resolveSlice L 0 vs) (\<lambda>xs. lift_res (Inr (VList xs))) r"
| "Resolve L v r = (Inr v, r)"
| "resolveMap L [] r = (Inr [], r)"
| "resolveMap L ((k, v) # kvs) r =
     bind_ev (map_err (KeyFailed k) (Resolve L v)) (\<lambda>x.
       bind_ev (resolveMap L kvs) (\<lambda>m. lift_res (Inr ((k, x) # m)))) r"
| "resolveSlice L i [] r = (Inr [], r)"
| "resolveSlice L i (v # vs) r =
     bind_ev (map_err (IndexFailed i) (Resolve L v)) (\<lambda>x.
       bind_ev (resolveSlice L (Suc i) vs) (\<lambda>xs. lift_res (Inr (x # xs)))) r"

text \<open>\<open>ValidateFunctionCalls\<close>: the first bad call in a string's expressions.\<close>

definition has_prefix_of :: "string \<Rightarrow> string list \<Rightarrow> bool" where
  "has_prefix_of s ps = list_ex (has_prefix s) ps"

definition validate_piece :: "piece \<Rightarrow> xerr option" where
  "validate_piece p =
     (case p of
        Raw _ \<Rightarrow> None
      | Token expr \<Rightarrow>
          if has_prefix_of expr [assetURLPrefix, assetMarkerPrefix] then None
          else if \<not> callPattern expr then None
          else (case parseCompound expr of Inl e \<Rightarrow> Some (InCall expr e) | Inr _ \<Rightarrow> None))"

definition ValidateFunctionCalls :: "string \<Rightarrow> xerr option" where
  "ValidateFunctionCalls s = check_all validate_piece (pieces s)"

subsection \<open>Conditions\<close>

record condition =
  Field :: string
  Operator :: string
  Value :: val

definition Evaluate :: "golib \<Rightarrow> condition \<Rightarrow> bool ev" where
  "Evaluate L c =
     bind_ev (map_err FieldFailed (ResolveString L (Field c))) (\<lambda>fieldValue.
       bind_ev (case Value c of
                  VStr s \<Rightarrow> map_err ValueFailed (ResolveString L s)
                | VList vs \<Rightarrow> map_err ValueFailed (bind_ev (resolveSlice L 0 vs) (\<lambda>xs. lift_res (Inr (VList xs))))
                | v \<Rightarrow> lift_res (Inr v)) (\<lambda>expectedValue.
         lift_res (EvaluateAtomValue (regexp_compile L) (Operator c) fieldValue expectedValue)))"

fun evaluate_loop :: "golib \<Rightarrow> bool \<Rightarrow> condition list \<Rightarrow> bool ev" where
  "evaluate_loop L useOr [] r = (Inr (\<not> useOr), r)"
| "evaluate_loop L useOr (c # cs) r =
     bind_ev (Evaluate L c) (\<lambda>result.
       if useOr then (if result then lift_res (Inr True) else evaluate_loop L useOr cs)
       else (if \<not> result then lift_res (Inr False) else evaluate_loop L useOr cs)) r"

definition EvaluateMultiple :: "golib \<Rightarrow> condition list \<Rightarrow> string \<Rightarrow> bool ev" where
  "EvaluateMultiple L conditions logic r =
     (if conditions = [] then (Inr True, r)
      else evaluate_loop L (to_lower L logic = ''or'') conditions r)"


lemma bind_ev_simps [simp]:
  "bind_ev (lift_res (Inr a)) f = f a"
  "bind_ev (lift_res (Inl e)) f = lift_res (Inl e)"
  by (auto simp: bind_ev_def lift_res_def)

lemma fst_lift_res [simp]: "fst (lift_res x r) = x" and snd_lift_res [simp]: "snd (lift_res x r) = r"
  by (simp_all add: lift_res_def)

subsection \<open>A preorder every operation respects\<close>

text \<open>
  \<open>later r r'\<close>: the resolver \<open>r'\<close> can follow \<open>r\<close>. A source that is there keeps its data, the
  configuration stands, loads are only appended, and a load that succeeded is of a lazy
  source that was not there before and is there afterwards.
\<close>

definition lazy_ok :: "resolver \<Rightarrow> bool" where
  "lazy_ok r \<longleftrightarrow> distinct (map fst (filter snd (calls r)))
     \<and> (\<forall>(n, ok) \<in> set (calls r). ok \<longrightarrow> sources r n \<noteq> None)"

definition later :: "resolver \<Rightarrow> resolver \<Rightarrow> bool" where
  "later r r' \<longleftrightarrow> (\<forall>n d. sources r n = Some d \<longrightarrow> sources r' n = Some d)
     \<and> lazySources r' = lazySources r \<and> assetURLBase r' = assetURLBase r
     \<and> hasAssetURLBase r' = hasAssetURLBase r \<and> prefix (calls r) (calls r') \<and> (lazy_ok r \<longrightarrow> lazy_ok r')"

lemma later_refl [simp]: "later r r"
  by (simp add: later_def)

lemma later_trans: "later r s \<Longrightarrow> later s t \<Longrightarrow> later r t"
  by (auto simp: later_def intro: prefix_order.trans)

lemma later_draws [simp]: "later r (r\<lparr>draws := k\<rparr>)"
  by (simp add: later_def lazy_ok_def)

lemma later_bind:
  assumes "later r (snd (m r))" and "\<And>a s. later s (snd (f a s))"
  shows "later r (snd (bind_ev m f r))"
  using assms later_trans [OF assms(1) assms(2)]
  by (auto simp: bind_ev_def split: prod.split sum.split)

lemma later_map_err: "later r (snd (m r)) \<Longrightarrow> later r (snd (map_err w m r))"
  by (auto simp: map_err_def split: prod.split sum.split)

lemma later_load: "later r (snd (load_lazy source load r))"
  by (auto simp: load_lazy_def later_def lazy_ok_def split: option.split sum.split)

lemma later_reference: "later r (snd (evaluateReference expr r))"
  by (auto simp: evaluateReference_def intro!: later_bind later_load split: prod.split option.split)

lemma later_eval_args:
  "(\<And>n r. n \<in> set ns \<Longrightarrow> later r (snd (eval L n r))) \<Longrightarrow> later r (snd (eval_args L name ns r))"
  by (induction ns arbitrary: r) (auto intro!: later_bind later_map_err)

lemma later_eval: "later r (snd (eval L n r))"
proof (induction n arbitrary: r)
  case (Reference path)
  then show ?case using later_reference [of r path] by (auto split: prod.split sum.split)
next
  case (Call name args)
  then show ?case
    by (auto intro!: later_bind later_eval_args split: option.split sum.split)
qed (auto intro!: later_bind)

lemma later_compound: "later r (snd (evaluateCompound L expr r))"
  by (simp add: evaluateCompound_def later_eval split: sum.split)

lemma later_expression: "later r (snd (evaluateExpression L expr r))"
  by (auto simp: evaluateExpression_def closeRecord_def later_compound later_reference
      intro!: later_bind split: option.split)

lemma later_pieces: "later r (snd (snd (resolve_pieces L ps failed r)))"
proof (induction L ps failed r rule: resolve_pieces.induct)
  case (3 L expr ps failed r)
  then show ?case using later_expression [of r L expr]
    by (auto split: prod.splits sum.splits intro: later_trans)
qed (auto split: prod.splits)

lemma later_ResolveString: "later r (snd (ResolveString L s r))"
  using later_pieces [of r L "pieces s" None]
  by (auto simp: ResolveString_def later_expression split: prod.splits option.splits)

lemma later_resolveMap:
  "(\<And>p r. p \<in> set kvs \<Longrightarrow> later r (snd (Resolve L (snd p) r))) \<Longrightarrow> later r (snd (resolveMap L kvs r))"
  by (induction kvs arbitrary: r) (fastforce intro!: later_bind later_map_err)+

lemma later_resolveSlice:
  "(\<And>v r. v \<in> set vs \<Longrightarrow> later r (snd (Resolve L v r))) \<Longrightarrow> later r (snd (resolveSlice L i vs r))"
  by (induction vs arbitrary: i r) (auto intro!: later_bind later_map_err)

lemma later_Resolve: "later r (snd (Resolve L v r))"
proof (induction v arbitrary: r)
  case (VMap kvs)
  then show ?case by (auto intro!: later_bind later_resolveMap)
next
  case (VList vs)
  then show ?case by (auto intro!: later_bind later_resolveSlice)
qed (simp_all add: later_ResolveString)

lemmas later_intros = later_bind later_map_err later_Resolve later_ResolveString later_eval
  later_resolveSlice later_resolveMap


subsection \<open>What evaluation reads\<close>

text \<open>The sources a tree refers to, and the loads a computation may add.\<close>

fun node_sources :: "node \<Rightarrow> string set" where
  "node_sources (Literal v) = {}"
| "node_sources (Reference path) = {fst (reference_parts path)}"
| "node_sources (Negation n) = node_sources n"
| "node_sources (Binary op a b) = node_sources a \<union> node_sources b"
| "node_sources (Conditional c a b) = node_sources c \<union> node_sources a \<union> node_sources b"
| "node_sources (Call name args) = \<Union> (set (map node_sources args))"

definition loads_within :: "string set \<Rightarrow> resolver \<Rightarrow> resolver \<Rightarrow> bool" where
  "loads_within S r r' \<longleftrightarrow> fst ` set (calls r') \<subseteq> fst ` set (calls r) \<union> S"

lemma loads_within_refl [simp]: "loads_within S r r"
  by (auto simp: loads_within_def)

lemma loads_within_draws [simp]: "loads_within S r (r\<lparr>draws := k\<rparr>)"
  by (auto simp: loads_within_def)

lemma loads_within_trans: "loads_within S r s \<Longrightarrow> loads_within S s t \<Longrightarrow> loads_within S r t"
  unfolding loads_within_def by blast

lemma loads_within_bind:
  assumes "loads_within S r (snd (m r))" and "\<And>a s. loads_within S s (snd (f a s))"
  shows "loads_within S r (snd (bind_ev m f r))"
proof (cases "m r")
  case (Pair x s)
  with assms(1) have "loads_within S r s" by simp
  then show ?thesis
    using loads_within_trans [OF _ assms(2)] by (cases x) (simp_all add: bind_ev_def Pair)
qed

lemma loads_within_map_err: "loads_within S r (snd (m r)) \<Longrightarrow> loads_within S r (snd (map_err w m r))"
  by (auto simp: map_err_def split: prod.split sum.split)

lemma loads_within_reference:
  "fst (reference_parts path) \<in> S \<Longrightarrow> loads_within S r (snd (evaluateReference path r))"
  by (auto simp: evaluateReference_def load_lazy_def intro!: loads_within_bind
      split: prod.split option.split sum.split) (auto simp: loads_within_def)

lemma loads_within_args:
  "(\<And>n r. n \<in> set ns \<Longrightarrow> loads_within S r (snd (eval L n r))) \<Longrightarrow>
   loads_within S r (snd (eval_args L name ns r))"
  by (induction ns arbitrary: r) (auto intro!: loads_within_bind loads_within_map_err)

lemma loads_within_eval: "node_sources n \<subseteq> S \<Longrightarrow> loads_within S r (snd (eval L n r))"
proof (induction n arbitrary: r)
  case (Reference path)
  then show ?case
    using loads_within_reference [of path S r] by (auto split: prod.split sum.split)
next
  case (Call name args)
  then have "node_sources a \<subseteq> S" if "a \<in> set args" for a using that by auto
  with Call.IH show ?case
    by (auto intro!: loads_within_bind loads_within_args split: option.split sum.split)
qed (auto intro!: loads_within_bind)

subsection \<open>Errors of evaluation\<close>

definition errors_in :: "(xerr \<Rightarrow> bool) \<Rightarrow> 'a ev \<Rightarrow> bool" where
  "errors_in P m \<longleftrightarrow> (\<forall>r e. fst (m r) = Inl e \<longrightarrow> P e)"

lemma errors_in_bind: "errors_in P m \<Longrightarrow> (\<And>a. errors_in P (f a)) \<Longrightarrow> errors_in P (bind_ev m f)"
  unfolding errors_in_def
proof (intro allI impI)
  fix r e
  assume m: "\<forall>r e. fst (m r) = Inl e \<longrightarrow> P e" and f: "\<And>a. \<forall>r e. fst (f a r) = Inl e \<longrightarrow> P e"
    and b: "fst (bind_ev m f r) = Inl e"
  show "P e"
  proof (cases "m r")
    case (Pair x s)
    then show ?thesis using b m [rule_format, of r e] f [rule_format, of _ s e]
      by (cases x) (auto simp: bind_ev_def)
  qed
qed

lemma errors_in_lift: "(\<And>e. x = Inl e \<Longrightarrow> P e) \<Longrightarrow> errors_in P (lift_res x)"
  by (auto simp: errors_in_def)

definition present_error :: "xerr \<Rightarrow> bool" where
  "present_error e \<longleftrightarrow> \<not> is_path_not_found e"

lemma checkExpected_present: "checkExpected re c e = Some x \<Longrightarrow> \<not> is_path_not_found x"
  by (auto simp: checkExpected_def compilePattern_def rangeBounds_def
      split: if_splits sum.splits option.splits val.splits)

lemma EvaluateOperator_present: "EvaluateOperator re op a b = Inl e \<Longrightarrow> \<not> is_path_not_found e"
  by (auto simp: EvaluateOperator_error checkExpected_present split: option.splits)

lemma numberArg_present: "numberArg name args i = Inl e \<Longrightarrow> \<not> is_path_not_found e"
  by (auto simp: numberArg_def Let_def split: option.splits if_splits)

lemma wholeNumberArg_present: "wholeNumberArg name args i = Inl e \<Longrightarrow> \<not> is_path_not_found e"
  by (auto simp: wholeNumberArg_def res_simps numberArg_present split: if_splits)

lemma arithmeticResult_present: "arithmeticResult name x = Inl e \<Longrightarrow> \<not> is_path_not_found e"
  by (auto simp: arithmeticResult_def split: if_splits)

lemma fold_from_present: "fold_from c name args acc is = Inl e \<Longrightarrow> \<not> is_path_not_found e"
  by (induction c name args acc "is" rule: fold_from.induct) (auto simp: res_simps numberArg_present)

definition present_call :: "fn_call \<Rightarrow> bool" where
  "present_call c \<longleftrightarrow> (\<forall>L k name args e. c L k name args = Inl e \<longrightarrow> \<not> is_path_not_found e)"

lemmas present_facts = res_simps pure_result_def numberArg_present wholeNumberArg_present
  arithmeticResult_present fold_from_present

lemma present_calls:
  "present_call (fold_fn c)" "present_call callDivide" "present_call callRound" "present_call callRandom"
  "present_call (mapText t)"
proof -
  show "present_call (fold_fn c)" by (auto simp: present_call_def fold_fn_def present_facts)
  show "present_call callDivide" by (auto simp: present_call_def callDivide_def present_facts split: if_splits)
  show "present_call callRound"
    by (auto simp: present_call_def callRound_def round_digits_def present_facts Let_def split: if_splits)
  show "present_call callRandom" by (auto simp: present_call_def callRandom_def present_facts split: if_splits)
  show "present_call (mapText t)" by (auto simp: present_call_def mapText_def split: val.splits)
qed

lemma function_table_present: "map_of function_table name = Some f \<Longrightarrow> present_call (fcall f)"
  by (auto simp: function_table_def fn_def present_calls split: if_splits)

lemma errors_map_err: "errors_in P m \<Longrightarrow> (\<And>e. P e \<Longrightarrow> P (w e)) \<Longrightarrow> errors_in P (map_err w m)"
  unfolding errors_in_def
proof (intro allI impI)
  fix r e
  assume m: "\<forall>r e. fst (m r) = Inl e \<longrightarrow> P e" and w: "\<And>e. P e \<Longrightarrow> P (w e)"
    and b: "fst (map_err w m r) = Inl e"
  show "P e"
  proof (cases "m r")
    case (Pair x s)
    then show ?thesis using b m [rule_format, of r] w by (cases x) (auto simp: map_err_def)
  qed
qed

lemma eval_args_present:
  "(\<And>n. n \<in> set ns \<Longrightarrow> errors_in present_error (eval L n)) \<Longrightarrow> errors_in present_error (eval_args L name ns)"
proof (induction ns)
  case (Cons n ns)
  have "eval_args L name (n # ns) = bind_ev (map_err (ArgFailed name) (eval L n)) (\<lambda>v.
       bind_ev (eval_args L name ns) (\<lambda>vs. lift_res (Inr (v # vs))))"
    by (rule ext) simp
  with Cons show ?case
    by (auto intro!: errors_in_bind errors_map_err errors_in_lift simp: present_error_def)
qed (auto simp: errors_in_def)

lemma eval_present: "errors_in present_error (eval L n)"
proof (induction n)
  case (Literal v)
  then show ?case by (simp add: errors_in_def)
next
  case (Reference path)
  then show ?case by (auto simp: errors_in_def present_error_def split: prod.splits sum.splits if_splits)
next
  case (Negation n)
  have "eval L (Negation n) = bind_ev (eval L n) (\<lambda>v. lift_res (Inr (VBool (\<not> truthy v))))"
    by (rule ext) simp
  with Negation show ?case by (auto intro!: errors_in_bind errors_in_lift)
next
  case (Binary op a b)
  have "eval L (Binary op a b) = bind_ev (eval L a) (\<lambda>left.
       if op = ''&&'' then (if \<not> truthy left then lift_res (Inr left) else eval L b)
       else if op = ''||'' then (if truthy left then lift_res (Inr left) else eval L b)
       else bind_ev (eval L b) (\<lambda>right.
              lift_res
                (if (left = VNil \<or> right = VNil) \<and> op \<noteq> ''=='' \<and> op \<noteq> ''!='' then Inr (VBool False)
                 else bind_res (EvaluateOperator (regexp_compile L) op left right) (\<lambda>t. Inr (VBool t)))))"
    by (rule ext) simp
  with Binary show ?case
    by (auto intro!: errors_in_bind errors_in_lift
        simp: res_simps present_error_def EvaluateOperator_present split: if_splits)
next
  case (Conditional c a b)
  have "eval L (Conditional c a b) = bind_ev (eval L c) (\<lambda>v. if truthy v then eval L a else eval L b)"
    by (rule ext) simp
  with Conditional show ?case by (auto intro!: errors_in_bind)
next
  case (Call name args)
  have "errors_in present_error (eval_args L name args)" by (rule eval_args_present) (rule Call.IH)
  moreover have "eval L (Call name args) = bind_ev (eval_args L name args) (\<lambda>vs r1.
       case map_of function_table name of
         None \<Rightarrow> (Inl (UnknownFunction name), r1)
       | Some f \<Rightarrow>
           (case fcall f L (draws r1) name vs of
              Inl e \<Rightarrow> (Inl (FunctionCall e), r1)
            | Inr (v, k) \<Rightarrow> (Inr v, r1\<lparr>draws := k\<rparr>)))"
    by (rule ext) simp
  moreover have "errors_in present_error (\<lambda>r1.
       case map_of function_table name of
         None \<Rightarrow> (Inl (UnknownFunction name), r1)
       | Some f \<Rightarrow>
           (case fcall f L (draws r1) name vs of
              Inl e \<Rightarrow> (Inl (FunctionCall e), r1)
            | Inr (v, k) \<Rightarrow> (Inr v, r1\<lparr>draws := k\<rparr>)))" for vs
    using function_table_present [of name]
    by (auto simp: errors_in_def present_error_def present_call_def split: option.splits sum.splits)
  ultimately show ?case by (auto intro!: errors_in_bind)
qed

lemma resolve_pieces_call:
  "(\<And>x. failed = Some x \<Longrightarrow> is_function_call x) \<Longrightarrow>
   fst (snd (resolve_pieces L ps failed r)) = Some e \<Longrightarrow> is_function_call e"
proof (induction ps arbitrary: failed r)
  case (Cons p ps)
  show ?case
  proof (cases p)
    case (Raw c)
    with Cons.prems have "fst (snd (resolve_pieces L ps failed r)) = Some e" by (simp add: split_beta)
    then show ?thesis by (rule Cons.IH [rotated]) (rule Cons.prems)
  next
    case (Token expr)
    obtain x r1 where ev: "evaluateExpression L expr r = (x, r1)" by (cases "evaluateExpression L expr r")
    show ?thesis
    proof (cases x)
      case (Inl y)
      let ?f = "if failed = None \<and> is_function_call y then Some y else failed"
      from Cons.prems(2) have "fst (snd (resolve_pieces L ps ?f r1)) = Some e"
        by (simp add: Token ev Inl split_beta del: if_split)
      then show ?thesis by (rule Cons.IH [rotated]) (use Cons.prems(1) in \<open>auto split: if_splits\<close>)
    next
      case (Inr v)
      from Cons.prems(2) have "fst (snd (resolve_pieces L ps failed r1)) = Some e"
        by (simp add: Token ev Inr split_beta)
      then show ?thesis by (rule Cons.IH [rotated]) (rule Cons.prems)
    qed
  qed
qed simp

subsection \<open>Data without expressions\<close>

fun plain_data :: "val \<Rightarrow> bool" where
  "plain_data (VStr s) = (\<not> HasExpression s)"
| "plain_data (VMap kvs) = list_all (\<lambda>kv. plain_data (snd kv)) kvs"
| "plain_data (VList vs) = list_all plain_data vs"
| "plain_data v = True"

lemma resolveMap_plain:
  "(\<And>p r. p \<in> set kvs \<Longrightarrow> Resolve L (snd p) r = (Inr (snd p), r)) \<Longrightarrow> resolveMap L kvs r = (Inr kvs, r)"
proof (induction kvs arbitrary: r)
  case (Cons p kvs)
  then have "Resolve L (snd p) r = (Inr (snd p), r)" "resolveMap L kvs r = (Inr kvs, r)" by simp_all
  then show ?case by (cases p) (simp add: bind_ev_def map_err_def lift_res_def)
qed simp

lemma resolveSlice_plain:
  "(\<And>v r. v \<in> set vs \<Longrightarrow> Resolve L v r = (Inr v, r)) \<Longrightarrow> resolveSlice L i vs r = (Inr vs, r)"
  by (induction vs arbitrary: i r) (auto simp: bind_ev_def map_err_def lift_res_def)

lemma Resolve_plain: "plain_data v \<Longrightarrow> Resolve L v r = (Inr v, r)"
proof (induction v arbitrary: r)
  case (VMap kvs)
  then have "Resolve L (snd p) r' = (Inr (snd p), r')" if "p \<in> set kvs" for p r'
    using that by (cases p) (auto simp: list_all_iff)
  then show ?case by (simp add: bind_ev_def lift_res_def resolveMap_plain)
next
  case (VList vs)
  then have "Resolve L v r' = (Inr v, r')" if "v \<in> set vs" for v r' using that by (simp add: list_all_iff)
  then show ?case by (simp add: bind_ev_def lift_res_def resolveSlice_plain)
qed (simp_all add: ResolveString_def)

subsection \<open>Properties\<close>

definition resolve_all :: "golib \<Rightarrow> val list \<Rightarrow> resolver \<Rightarrow> resolver" where
  "resolve_all L vs r = fold (\<lambda>v r. snd (Resolve L v r)) vs r"

lemma later_resolve_all: "later r (resolve_all L vs r)"
  by (induction vs arbitrary: r) (auto simp: resolve_all_def intro: later_trans later_Resolve)

text \<open>
  C6. Whatever values a resolver resolves, in whatever order and however often they refer to
  it, a lazy source is loaded successfully at most once; and no source, loaded or given,
  ever changes its data while values are being resolved.
\<close>

theorem lazy_source_loaded_once:
  assumes "calls r = []"
  shows "distinct (map fst (filter snd (calls (resolve_all L vs r)))) \<and>
    (\<forall>n d. sources r n = Some d \<longrightarrow> sources (resolve_all L vs r) n = Some d)"
proof -
  have "lazy_ok r" using assms by (simp add: lazy_ok_def)
  with later_resolve_all [of r L vs] show ?thesis by (auto simp: later_def lazy_ok_def)
qed

theorem lazy_source_loaded_once_witness:
  "distinct (map fst (filter snd (calls (resolve_all ascii_lib [VStr ''${m.a}'', VStr ''x ${m.b}'']
     (NewResolver\<lparr>lazySources := (\<lambda>_. Some (\<lambda>_. Inr (VMap [])))\<rparr>)))))"
  using lazy_source_loaded_once
    [of "NewResolver\<lparr>lazySources := (\<lambda>_. Some (\<lambda>_. Inr (VMap [])))\<rparr>" ascii_lib "[VStr ''${m.a}'', VStr ''x ${m.b}'']"]
  by (simp add: NewResolver_def)

text \<open>
  Evaluating an expression loads no lazy source but those the expression refers to.
\<close>

theorem only_referenced_sources_load:
  "fst ` set (calls (snd (eval L n r))) \<subseteq> fst ` set (calls r) \<union> node_sources n"
  using loads_within_eval [of n "node_sources n" r L] by (simp add: loads_within_def)

text \<open>
  An expression with operators or calls never fails because a path is not there: such a
  reference is null. Its errors are unknown sources, failed loads, malformed operands and
  failed calls.
\<close>

theorem missing_paths_never_fail_an_expression:
  "fst (eval L n r) = Inl e \<Longrightarrow> \<not> is_path_not_found e"
  using eval_present [of L n] by (simp add: errors_in_def present_error_def)

theorem missing_paths_never_fail_an_expression_witness:
  "\<not> is_path_not_found (UnknownSource ''x'')"
  by (rule missing_paths_never_fail_an_expression [of ascii_lib "Reference ''x.y''" NewResolver])
    (simp add: evaluateReference_def reference_parts_def NewResolver_def)

text \<open>
  Text around expressions always resolves unless a function call in it fails: every
  other expression that cannot be evaluated stays in the text as it was written.
\<close>

theorem interpolation_fails_only_on_calls:
  assumes "\<not> isFullExpression s" and "fst (ResolveString L s r) = Inl e"
  shows "is_function_call e"
  using assms resolve_pieces_call [of None L "pieces s" r e]
  by (auto simp: ResolveString_def split: if_splits prod.splits option.splits)

theorem interpolation_fails_only_on_calls_witness:
  "is_function_call (FunctionCall (UnknownFunction ''f''))"
proof (rule interpolation_fails_only_on_calls [of "''hi ${f(1)}''" ascii_lib NewResolver])
  show "\<not> isFullExpression ''hi ${f(1)}''" by code_simp
  have "parseCompound ''f(1)'' = Inl (FunctionCall (UnknownFunction ''f''))" by code_simp
  moreover have "isCompound ''f(1)''" "cut_prefix assetURLPrefix ''f(1)'' = None" by code_simp+
  ultimately have "evaluateExpression ascii_lib ''f(1)'' NewResolver
      = (Inl (FunctionCall (UnknownFunction ''f'')), NewResolver)"
    by (simp add: evaluateExpression_def evaluateCompound_def)
  moreover have "pieces ''hi ${f(1)}'' = [Raw (CHR ''h''), Raw (CHR ''i''), Raw (CHR '' ''), Token ''f(1)'']"
    by code_simp
  moreover have "HasExpression ''hi ${f(1)}''" "\<not> isFullExpression ''hi ${f(1)}''" by code_simp+
  ultimately show "fst (ResolveString ascii_lib ''hi ${f(1)}'' NewResolver)
      = Inl (FunctionCall (UnknownFunction ''f''))"
    by (simp add: ResolveString_def)
qed

text \<open>
  Resolving data in which no string holds an expression gives the data back and leaves
  the resolver as it was: nothing is loaded, drawn or reformatted.
\<close>

theorem data_without_expressions_is_unchanged:
  assumes "plain_data v"
  shows "Resolve L v r = (Inr v, r)"
  using assms by (rule Resolve_plain)

theorem data_without_expressions_is_unchanged_witness:
  "Resolve ascii_lib (VMap [(''a'', VList [VInt 1, VStr ''$x'']), (''b'', VNil)]) NewResolver
   = (Inr (VMap [(''a'', VList [VInt 1, VStr ''$x'']), (''b'', VNil)]), NewResolver)"
  by (rule data_without_expressions_is_unchanged)
    (simp add: HasExpression_def contains_def sublist_code)

text \<open>
  A plain reference to a whole open record is handed back as a plain map, but the same
  reference inside an expression with an operator keeps the open record.
\<close>

theorem compound_keeps_open_record:
  assumes "lazySources r ''w'' = None" and "sources r ''w'' = Some (VOpen kvs)"
  shows "fst (evaluateExpression L ''w'' r) = Inr (VMap kvs)
    \<and> fst (evaluateExpression L ''w || 0'' r) = Inr (VOpen kvs)"
proof -
  have p: "parseCompound ''w || 0'' = Inr (Binary ''||'' (Reference ''w'') (Literal (VFloat f_zero)))"
    by code_simp
  have "\<not> isCompound ''w''" "isCompound ''w || 0''" "cut_prefix assetURLPrefix ''w'' = None"
    "cut_prefix assetURLPrefix ''w || 0'' = None" "reference_parts ''w'' = (''w'', '''')"
    by code_simp+
  with assms p show ?thesis
    by (simp add: evaluateExpression_def evaluateCompound_def closeRecord_def evaluateReference_def
        bind_ev_def lift_res_def)
qed

theorem compound_keeps_open_record_witness:
  "fst (evaluateExpression ascii_lib ''w || 0'' (AddSource ''w'' (VOpen [(''k'', VInt 1)]) NewResolver))
   = Inr (VOpen [(''k'', VInt 1)])"
  using compound_keeps_open_record [of "AddSource ''w'' (VOpen [(''k'', VInt 1)]) NewResolver" "[(''k'', VInt 1)]" ascii_lib]
  by (simp add: AddSource_def NewResolver_def)

end
