(* ===== verification/Workflow_Types.thy ===== *)
theory Workflow_Types
  imports Resolver
begin

text \<open>
  \<open>workflow/internal/types/types.go\<close>: the definitions a workflow is written in and the state
  of a run. Times are nanoseconds, the zero time is 0; a duration is a number of
  nanoseconds. A run's status is a datatype of the constants the engine assigns; the type of
  a task, a wait or a strategy comes from the definition as written, so it stays a string.
\<close>

type_synonym time = int
type_synonym duration = int

definition TaskTypeAction :: string where "TaskTypeAction = ''action''"
definition TaskTypeWait :: string where "TaskTypeWait = ''wait''"
definition TaskTypeCondition :: string where "TaskTypeCondition = ''condition''"
definition TaskTypeWorkflow :: string where "TaskTypeWorkflow = ''workflow''"

definition TriggerTypeEvent :: string where "TriggerTypeEvent = ''event''"
definition TriggerTypeSchedule :: string where "TriggerTypeSchedule = ''schedule''"
definition TriggerTypeCommand :: string where "TriggerTypeCommand = ''command''"

record TriggerConfig =
  trigger_type :: string
  trigger_event :: string
  trigger_schedule :: string
  trigger_conditions :: "condition list"
  trigger_order :: "int option"

record AggregationConfig =
  ac_strategy :: string
  ac_field :: string
  ac_threshold :: f64
  ac_window :: "duration option"

record WaitConfig =
  wc_type :: string
  wc_event :: string
  wc_conditions :: "condition list"
  wc_aggregation :: "AggregationConfig option"
  wc_timeout :: "duration option"
  wc_onTimeout :: string
  wc_durationMs :: int

record WorkflowConfig =
  wf_workflowID :: string
  wf_waitUntilCompletion :: bool
  wf_event :: string
  wf_eventData :: obj
  wf_timeout :: "duration option"

record TaskDefinition =
  task_id :: string
  task_type :: string
  task_action :: string
  dependsOn :: "string list"
  parameters :: obj
  task_ref :: string
  task_function :: string
  task_exports :: "(string \<times> string) list option"
  onError :: string
  task_timeout :: "duration option"
  task_wait :: "WaitConfig option"
  task_condition :: "condition option"
  task_conditions :: "condition list"
  conditionLogic :: string
  onTrue :: "string list"
  onFalse :: "string list"
  task_workflow :: "WorkflowConfig option"
  task_disabled :: bool

record WorkflowOptions =
  opt_timeout :: "duration option"
  opt_maxConcurrent :: int

record WorkflowDefinition =
  def_id :: string
  def_name :: string
  def_description :: string
  def_trigger :: "TriggerConfig option"
  def_tasks :: "TaskDefinition list"
  def_options :: "WorkflowOptions option"
  def_ephemeral :: bool

record Event =
  ev_id :: string
  ev_type :: string
  ev_source :: string
  ev_time :: time
  ev_platform :: string
  ev_sessionId :: string
  ev_triggerId :: string
  ev_triggeredBy :: string
  ev_workflowChain :: string
  ev_dryRun :: bool
  ev_data :: obj

datatype TaskStatus =
    TaskPending | TaskRunning | TaskWaiting | TaskSuccess | TaskFailed | TaskSkipped | TaskCancelled

datatype ExecutionStatus =
    ExecRunning | ExecWaiting | ExecCompleted | ExecFailed | ExecCancelled

record TaskResult =
  tr_status :: TaskStatus
  tr_data :: "obj option"
  tr_exports :: "obj option"

record AggregationState =
  as_strategy :: string
  as_field :: string
  as_count :: int
  as_sum :: f64
  as_threshold :: f64
  as_windowStart :: time
  as_windowEnd :: time

record WaitState =
  ws_event :: string
  ws_conditions :: "condition list"
  ws_timeout :: time
  ws_onTimeout :: string
  ws_aggregation :: "AggregationState option"
  ws_received :: "Event list"
  ws_satisfied :: bool
  ws_timedOut :: bool

record WorkflowState =
  sub_workflowID :: string
  sub_executionID :: string
  sub_wait :: bool
  sub_timeout :: time
  sub_completed :: bool
  sub_result :: "obj option"

text \<open>An absent field of a task, for building definitions.\<close>

definition blank_task :: TaskDefinition where
  "blank_task = \<lparr>task_id = '''', task_type = '''', task_action = '''', dependsOn = [], parameters = [], task_ref = '''', task_function = '''',
     task_exports = None, onError = '''', task_timeout = None, task_wait = None, task_condition = None, task_conditions = [], conditionLogic = '''',
     onTrue = [], onFalse = [], task_workflow = None, task_disabled = False\<rparr>"

subsection \<open>Chains and trigger fields\<close>

text \<open>\<open>Chain\<close> and \<open>ChainThrough\<close>; \<open>None\<close> is a nil event, and a panic of \<open>ChainThrough\<close>.\<close>

definition Chain :: "Event option \<Rightarrow> string list" where
  "Chain e =
     (case e of
        None \<Rightarrow> []
      | Some ev \<Rightarrow> if ev_workflowChain ev = '''' then [] else split_on (CHR '','') (ev_workflowChain ev))"

definition ChainThrough :: "Event option \<Rightarrow> string \<Rightarrow> string option" where
  "ChainThrough e workflowID =
     (if workflowID = '''' \<or> CHR '','' \<in> set workflowID then None
      else (case e of
              None \<Rightarrow> Some workflowID
            | Some ev \<Rightarrow>
                if ev_workflowChain ev = '''' then Some workflowID
                else Some (ev_workflowChain ev @ '','' @ workflowID)))"

definition TriggerFields :: "Event \<Rightarrow> val" where
  "TriggerFields e = VMap
    [(''id'', VStr (ev_id e)), (''type'', VStr (ev_type e)), (''source'', VStr (ev_source e)),
     (''time'', VOther ''time.Time'' (itoa (ev_time e))), (''platform'', VStr (ev_platform e)),
     (''sessionId'', VStr (ev_sessionId e)), (''triggerId'', VStr (ev_triggerId e)),
     (''triggeredBy'', VStr (ev_triggeredBy e)), (''data'', VMap (ev_data e))]"

lemma Chain_through:
  "ChainThrough (Some e) w = Some c \<Longrightarrow> ev_workflowChain e' = c \<Longrightarrow> Chain (Some e') = Chain (Some e) @ [w]"
  using split_on_append_sep [of "CHR '',''" "ev_workflowChain e" w] split_on_no_sep [of "CHR '',''" w]
  by (simp add: ChainThrough_def Chain_def split: if_splits) auto

lemma Chain_through_nil:
  "ChainThrough None w = Some c \<Longrightarrow> ev_workflowChain e' = c \<Longrightarrow> Chain (Some e') = [w]"
  by (auto simp: ChainThrough_def Chain_def split_on_no_sep split: if_splits)

end
