(* ===== verification/Dependency_Graph.thy ===== *)
theory Dependency_Graph
  imports Workflow_Types
begin

text \<open>
  \<open>workflow/internal/engine/executor.go\<close>: the dependency graph that orders a run's tasks.
  A graph is its list of tasks; the Go struct's \<open>position\<close> map is the function \<open>pos\<close> of the
  tasks' ids, which no operation changes. Recursions over the graph take fuel, with lemmas
  that the fuel given by the callers is enough.
\<close>

type_synonym tasks = "TaskDefinition list"

datatype gerr =
    DuplicateTask string
  | UnknownDependency string string
  | UnknownBranchTask string string
  | ListsItself string
  | Circular "string list"
  | Deadlock

definition ids :: "tasks \<Rightarrow> string list" where
  "ids ts = map task_id ts"

definition position :: "tasks \<Rightarrow> string \<Rightarrow> nat option" where
  "position ts taskID = map_of (zip (ids ts) [0..<length ts]) taskID"

text \<open>A Go map read with a missing key is the zero position.\<close>

definition pos :: "tasks \<Rightarrow> string \<Rightarrow> nat" where
  "pos ts taskID = (case position ts taskID of Some i \<Rightarrow> i | None \<Rightarrow> 0)"

definition add_dep :: "string \<Rightarrow> TaskDefinition \<Rightarrow> TaskDefinition" where
  "add_dep depID t = (if List.member (dependsOn t) depID then t else t\<lparr>dependsOn := dependsOn t @ [depID]\<rparr>)"

definition addDependency :: "tasks \<Rightarrow> nat \<Rightarrow> string \<Rightarrow> tasks" where
  "addDependency ts i depID = ts[i := add_dep depID (ts ! i)]"

definition deps :: "tasks \<Rightarrow> nat \<Rightarrow> nat list" where
  "deps ts i = map (pos ts) (dependsOn (ts ! i))"

definition is_condition :: "TaskDefinition \<Rightarrow> bool" where
  "is_condition t \<longleftrightarrow> task_type t = TaskTypeCondition"

definition branches :: "TaskDefinition \<Rightarrow> string list" where
  "branches t = onTrue t @ onFalse t"

subsection \<open>Building the graph\<close>

text \<open>The copies without dependencies; the first id used twice is the error.\<close>

fun copy_tasks :: "tasks \<Rightarrow> tasks \<Rightarrow> (gerr, tasks) res" where
  "copy_tasks acc [] = Inr acc"
| "copy_tasks acc (t # ts) =
     (if List.member (ids acc) (task_id t) then Inl (DuplicateTask (task_id t))
      else copy_tasks (acc @ [t\<lparr>dependsOn := []\<rparr>]) ts)"

fun declare_deps :: "tasks \<Rightarrow> nat \<Rightarrow> string list \<Rightarrow> (gerr, tasks) res" where
  "declare_deps g i [] = Inr g"
| "declare_deps g i (d # ds) =
     (if position g d = None then Inl (UnknownDependency (task_id (g ! i)) d)
      else declare_deps (addDependency g i d) i ds)"

fun declare_all :: "tasks \<Rightarrow> nat \<Rightarrow> tasks \<Rightarrow> (gerr, tasks) res" where
  "declare_all g i [] = Inr g"
| "declare_all g i (t # ts) =
     bind_res (declare_deps g i (dependsOn t)) (\<lambda>g'. declare_all g' (Suc i) ts)"

fun attach_members :: "tasks \<Rightarrow> nat \<Rightarrow> string list \<Rightarrow> (gerr, tasks) res" where
  "attach_members g i [] = Inr g"
| "attach_members g i (m # ms) =
     (case position g m of
        None \<Rightarrow> Inl (UnknownBranchTask (task_id (g ! i)) m)
      | Some j \<Rightarrow>
          if j = i then Inl (ListsItself (task_id (g ! i)))
          else attach_members (addDependency g j (task_id (g ! i))) i ms)"

fun attach_branches :: "tasks \<Rightarrow> nat list \<Rightarrow> (gerr, tasks) res" where
  "attach_branches g [] = Inr g"
| "attach_branches g (i # js) =
     (if \<not> is_condition (g ! i) then attach_branches g js
      else bind_res (attach_members g i (branches (g ! i))) (\<lambda>g'. attach_branches g' js))"

subsection \<open>Cycles\<close>

text \<open>
  The depth-first search of \<open>detectCycle\<close>: the ids visited so far and the path from the
  search's start, which is also what \<open>recStack\<close> marks.
\<close>

definition task_deps :: "tasks \<Rightarrow> string \<Rightarrow> string list" where
  "task_deps g taskID = dependsOn (g ! pos g taskID)"

fun dfs :: "nat \<Rightarrow> tasks \<Rightarrow> string \<Rightarrow> string list \<Rightarrow> string list \<Rightarrow> string list option \<times> string list"
and dfs_deps :: "nat \<Rightarrow> tasks \<Rightarrow> string list \<Rightarrow> string list \<Rightarrow> string list \<Rightarrow> string list option \<times> string list" where
  "dfs 0 g t visited path = (None, visited)"
| "dfs (Suc n) g t visited path = dfs_deps n g (task_deps g t) (t # visited) (path @ [t])"
| "dfs_deps n g [] visited path = (None, visited)"
| "dfs_deps n g (d # ds) visited path =
     (if \<not> List.member visited d then
        (case dfs n g d visited path of
           (Some cycle, v) \<Rightarrow> (Some cycle, v)
         | (None, v) \<Rightarrow> dfs_deps n g ds v path)
      else if List.member path d then (Some (dropWhile (\<lambda>x. x \<noteq> d) path @ [d]), visited)
      else dfs_deps n g ds visited path)"

fun search_cycle :: "tasks \<Rightarrow> string list \<Rightarrow> string list \<Rightarrow> string list option" where
  "search_cycle g [] visited = None"
| "search_cycle g (t # ts) visited =
     (if List.member visited t then search_cycle g ts visited
      else (case dfs (length g) g t visited [] of
              (Some cycle, _) \<Rightarrow> Some cycle
            | (None, v) \<Rightarrow> search_cycle g ts v))"

definition detectCycle :: "tasks \<Rightarrow> string list option" where
  "detectCycle g = search_cycle g (ids g) []"

subsection \<open>Ordering after branches\<close>

fun visit :: "nat \<Rightarrow> tasks \<Rightarrow> nat list \<Rightarrow> nat list \<Rightarrow> nat list" where
  "visit n g [] seen = seen"
| "visit 0 g (m # ms) seen = seen"
| "visit (Suc n) g (m # ms) seen =
     (if List.member seen m then visit (Suc n) g ms seen
      else (let seen1 = m # seen;
                seen2 = (if is_condition (g ! m) then visit n g (map (pos g) (branches (g ! m))) seen1 else seen1)
            in visit (Suc n) g ms seen2))"

definition underCondition :: "tasks \<Rightarrow> nat \<Rightarrow> nat list" where
  "underCondition g i =
     (let seen = visit (Suc (length g)) g (map (pos g) (branches (g ! i))) []
      in filter (\<lambda>m. List.member seen m) [0..<length g])"

definition followsCondition :: "tasks \<Rightarrow> nat \<Rightarrow> string \<Rightarrow> nat list \<Rightarrow> bool" where
  "followsCondition g task conditionID branch =
     list_ex (\<lambda>d. d = conditionID \<or> List.member branch (pos g d)) (dependsOn (g ! task))"

text \<open>One step of the loop of \<open>reaches\<close>: the dependencies of the task popped off the stack.\<close>

fun scan_deps :: "nat \<Rightarrow> nat list \<Rightarrow> nat list \<Rightarrow> nat list \<Rightarrow> (nat list \<times> nat list) option" where
  "scan_deps to [] seen stack = Some (seen, stack)"
| "scan_deps to (d # ds) seen stack =
     (if d = to then None
      else if \<not> List.member seen d then scan_deps to ds (d # seen) (d # stack)
      else scan_deps to ds seen stack)"

fun reach_loop :: "nat \<Rightarrow> tasks \<Rightarrow> nat \<Rightarrow> nat list \<Rightarrow> nat list \<Rightarrow> bool" where
  "reach_loop n g to seen [] = False"
| "reach_loop 0 g to seen (c # stack) = False"
| "reach_loop (Suc n) g to seen (c # stack) =
     (case scan_deps to (deps g c) seen stack of
        None \<Rightarrow> True
      | Some (seen', stack') \<Rightarrow> reach_loop n g to seen' stack')"

definition reaches :: "tasks \<Rightarrow> nat \<Rightarrow> nat \<Rightarrow> bool" where
  "reaches g a b = reach_loop (Suc (length g)) g b [] [a]"

fun follow_members :: "tasks \<Rightarrow> nat \<Rightarrow> nat list \<Rightarrow> tasks" where
  "follow_members g f [] = g"
| "follow_members g f (m # ms) =
     follow_members (if \<not> reaches g m f then addDependency g f (task_id (g ! m)) else g) f ms"

fun order_followers :: "tasks \<Rightarrow> nat \<Rightarrow> nat list \<Rightarrow> nat list \<Rightarrow> tasks" where
  "order_followers g i branch [] = g"
| "order_followers g i branch (f # fs) =
     (if f = i \<or> List.member branch f \<or> \<not> followsCondition g f (task_id (g ! i)) branch
      then order_followers g i branch fs
      else order_followers (follow_members g f branch) i branch fs)"

fun order_conditions :: "tasks \<Rightarrow> nat list \<Rightarrow> tasks" where
  "order_conditions g [] = g"
| "order_conditions g (i # js) =
     (if \<not> is_condition (g ! i) then order_conditions g js
      else (let branch = underCondition g i in
            if branch = [] then order_conditions g js
            else order_conditions (order_followers g i branch [0..<length g]) js))"

definition orderAfterBranches :: "tasks \<Rightarrow> tasks" where
  "orderAfterBranches g = order_conditions g [0..<length g]"

text \<open>\<open>NewDependencyGraph\<close>; \<open>declared_graph\<close> is the graph before \<open>orderAfterBranches\<close>.\<close>

definition declared_graph :: "tasks \<Rightarrow> (gerr, tasks) res" where
  "declared_graph defTasks =
     bind_res (copy_tasks [] defTasks) (\<lambda>g.
       bind_res (declare_all g 0 defTasks) (\<lambda>g.
         bind_res (attach_branches g [0..<length g]) (\<lambda>g.
           case detectCycle g of Some cycle \<Rightarrow> Inl (Circular cycle) | None \<Rightarrow> Inr g)))"

definition NewDependencyGraph :: "tasks \<Rightarrow> (gerr, tasks) res" where
  "NewDependencyGraph defTasks = bind_res (declared_graph defTasks) (\<lambda>g. Inr (orderAfterBranches g))"

subsection \<open>Ready tasks and the execution order\<close>

definition GetReadyTasks :: "tasks \<Rightarrow> (string \<Rightarrow> bool) \<Rightarrow> tasks" where
  "GetReadyTasks g completed =
     filter (\<lambda>t. \<not> completed (task_id t) \<and> list_all completed (dependsOn t)) g"

definition dependents_of :: "tasks \<Rightarrow> nat \<Rightarrow> nat list" where
  "dependents_of g d = concat (map (\<lambda>i. map (\<lambda>_. i) (filter (\<lambda>j. j = d) (deps g i))) [0..<length g])"

definition min_ready :: "nat list \<Rightarrow> nat" where
  "min_ready ready = foldr min (tl ready) (hd ready)"

fun release :: "nat list \<Rightarrow> nat list \<Rightarrow> nat list \<Rightarrow> nat list \<times> nat list" where
  "release [] inDegree ready = (inDegree, ready)"
| "release (d # ds) inDegree ready =
     (let k = inDegree ! d - 1 in
      release ds (inDegree[d := k]) (if k = 0 then ready @ [d] else ready))"

fun order_loop :: "nat \<Rightarrow> tasks \<Rightarrow> nat list \<Rightarrow> nat list \<Rightarrow> nat list \<Rightarrow> nat list" where
  "order_loop n g inDegree [] order = order"
| "order_loop 0 g inDegree (r # ready) order = order"
| "order_loop (Suc n) g inDegree (r # ready) order =
     (let next = min_ready (r # ready);
          rest = filter (\<lambda>i. i \<noteq> next) (r # ready)
      in (case release (dependents_of g next) inDegree rest of
            (inDegree', ready') \<Rightarrow> order_loop n g inDegree' ready' (order @ [next])))"

definition execution_indexes :: "tasks \<Rightarrow> nat list" where
  "execution_indexes g =
     (let inDegree = map (\<lambda>t. length (dependsOn t)) g in
      order_loop (length g) g inDegree (filter (\<lambda>i. inDegree ! i = 0) [0..<length g]) [])"

definition GetExecutionOrder :: "tasks \<Rightarrow> (gerr, tasks) res" where
  "GetExecutionOrder g =
     (let order = execution_indexes g in
      if length order \<noteq> length g then Inl Deadlock else Inr (map (\<lambda>i. g ! i) order))"

definition GetTask :: "tasks \<Rightarrow> string \<Rightarrow> TaskDefinition option" where
  "GetTask g taskID = map_option (\<lambda>i. g ! i) (position g taskID)"

end
