(* ===== verification/Graph_Order.thy ===== *)
theory Graph_Order
  imports Dependency_Graph "HOL-Library.Multiset"
begin

text \<open>
  What the dependency graph guarantees: which definitions it accepts, that the order it adds
  after branches never makes a cycle, and that the execution order is the one topological
  order in which the task declared first goes first.
\<close>

subsection \<open>Positions and edges\<close>

definition edge :: "tasks \<Rightarrow> (string \<times> string) set" where
  "edge g = {(task_id t, d) | t d. t \<in> set g \<and> d \<in> set (dependsOn t)}"

definition wf_graph :: "tasks \<Rightarrow> bool" where
  "wf_graph g \<longleftrightarrow> distinct (ids g) \<and>
     (\<forall>t \<in> set g. distinct (dependsOn t) \<and> set (dependsOn t) \<subseteq> set (ids g))"

text \<open>A task apart from its dependencies, which is all the graph's operations change.\<close>

definition strip :: "TaskDefinition \<Rightarrow> TaskDefinition" where
  "strip t = t\<lparr>dependsOn := []\<rparr>"

lemma length_ids [simp]: "length (ids g) = length g"
  by (simp add: ids_def)

lemma ids_nth [simp]: "i < length g \<Longrightarrow> ids g ! i = task_id (g ! i)"
  by (simp add: ids_def)

lemma position_nth [simp]: "distinct (ids g) \<Longrightarrow> i < length g \<Longrightarrow> position g (task_id (g ! i)) = Some i"
  using map_of_zip_nth [of "ids g" "[0..<length g]" i] by (simp add: position_def)

lemma position_None: "position g x = None \<longleftrightarrow> x \<notin> set (ids g)"
  by (simp add: position_def map_of_zip_is_None)

lemma position_Some: "position g x = Some i \<Longrightarrow> i < length g \<and> task_id (g ! i) = x"
  unfolding position_def by (drule map_of_SomeD) (auto simp: in_set_zip)

lemma pos_nth [simp]: "distinct (ids g) \<Longrightarrow> i < length g \<Longrightarrow> pos g (task_id (g ! i)) = i"
  by (simp add: pos_def)

lemma task_id_inj: "distinct (ids g) \<Longrightarrow> i < length g \<Longrightarrow> j < length g \<Longrightarrow> task_id (g ! i) = task_id (g ! j) \<longleftrightarrow> i = j"
  using nth_eq_iff_index_eq [of "ids g" i j] by simp

lemma pos_known: "x \<in> set (ids g) \<Longrightarrow> pos g x < length g \<and> task_id (g ! pos g x) = x"
  using position_Some [of g x] position_None [of g x] by (auto simp: pos_def split: option.split)

lemma in_ids: "x \<in> set (ids g) \<longleftrightarrow> (\<exists>i < length g. x = task_id (g ! i))"
  by (force simp: ids_def in_set_conv_nth)

lemma edge_nth: "(a, b) \<in> edge g \<longleftrightarrow> (\<exists>i < length g. a = task_id (g ! i) \<and> b \<in> set (dependsOn (g ! i)))"
  by (force simp: edge_def in_set_conv_nth)

lemma edge_at: "distinct (ids g) \<Longrightarrow> i < length g \<Longrightarrow> (task_id (g ! i), b) \<in> edge g \<longleftrightarrow> b \<in> set (dependsOn (g ! i))"
  unfolding edge_nth by (metis pos_nth)

lemma strip_ids: "map strip g = map strip h \<Longrightarrow> ids g = ids h"
proof -
  assume "map strip g = map strip h"
  then have "map task_id (map strip g) = map task_id (map strip h)" by simp
  then show ?thesis by (simp add: ids_def strip_def comp_def)
qed

lemma same_position: "ids g = ids h \<Longrightarrow> position g = position h"
  by (rule ext) (metis length_ids position_def)

lemma same_pos: "ids g = ids h \<Longrightarrow> pos g = pos h"
  by (rule ext) (simp add: pos_def same_position [of g h])

lemma strip_nth:
  assumes "map strip g = map strip h" and "i < length h"
  shows "task_id (g ! i) = task_id (h ! i)" "is_condition (g ! i) = is_condition (h ! i)"
    "branches (g ! i) = branches (h ! i)"
proof -
  have e: "strip (g ! i) = strip (h ! i)" using assms by (metis length_map nth_map)
  show "task_id (g ! i) = task_id (h ! i)"
    using arg_cong [OF e, of task_id] by (simp add: strip_def)
  show "is_condition (g ! i) = is_condition (h ! i)"
    using arg_cong [OF e, of task_type] by (simp add: strip_def is_condition_def)
  show "branches (g ! i) = branches (h ! i)"
    using arg_cong [OF e, of onTrue] arg_cong [OF e, of onFalse] by (simp add: strip_def branches_def)
qed

subsection \<open>Adding a dependency\<close>

lemma strip_add_dep [simp]: "strip (add_dep d t) = strip t"
  by (simp add: strip_def add_dep_def)

lemma task_id_add_dep [simp]: "task_id (add_dep d t) = task_id t"
  by (simp add: add_dep_def)

lemma deps_add_dep [simp]: "set (dependsOn (add_dep d t)) = insert d (set (dependsOn t))"
  by (auto simp: add_dep_def)

lemma distinct_add_dep: "distinct (dependsOn t) \<Longrightarrow> distinct (dependsOn (add_dep d t))"
  by (simp add: add_dep_def)

lemma length_addDependency [simp]: "length (addDependency g i d) = length g"
  by (simp add: addDependency_def)

lemma strip_addDependency: "map strip (addDependency g i d) = map strip g"
proof (cases "i < length g")
  case True
  then have "map strip g = (map strip g)[i := strip (g ! i)]" by (metis length_map list_update_id nth_map)
  then show ?thesis by (simp add: addDependency_def map_update)
qed (simp add: addDependency_def list_update_beyond not_less)

lemma ids_addDependency [simp]: "ids (addDependency g i d) = ids g"
  by (rule strip_ids [OF strip_addDependency])

lemma addDependency_nth:
  "j < length g \<Longrightarrow> addDependency g i d ! j = (if j = i then add_dep d (g ! i) else g ! j)"
  by (auto simp: addDependency_def nth_list_update)

lemma edge_addDependency:
  assumes "i < length g" shows "edge (addDependency g i d) = insert (task_id (g ! i), d) (edge g)"
proof -
  have "(a, b) \<in> edge (addDependency g i d) \<longleftrightarrow> (a, b) \<in> insert (task_id (g ! i), d) (edge g)" for a b
  proof -
    have "(a, b) \<in> edge (addDependency g i d) \<longleftrightarrow>
        (\<exists>j < length g. a = task_id (g ! j) \<and> (b \<in> set (dependsOn (g ! j)) \<or> j = i \<and> b = d))"
      unfolding edge_nth length_addDependency by (intro ex_cong1 conj_cong refl) (auto simp: addDependency_nth)
    also have "\<dots> \<longleftrightarrow> (a, b) \<in> insert (task_id (g ! i), d) (edge g)"
      using assms by (auto simp: edge_nth)
    finally show ?thesis .
  qed
  then show ?thesis by auto
qed

lemma wf_addDependency:
  assumes "wf_graph g" "i < length g" "d \<in> set (ids g)"
  shows "wf_graph (addDependency g i d)"
  unfolding wf_graph_def ids_addDependency
proof (intro conjI ballI)
  fix t assume "t \<in> set (addDependency g i d)"
  then obtain j where "j < length g" "t = addDependency g i d ! j" by (auto simp: in_set_conv_nth)
  then show "distinct (dependsOn t)" "set (dependsOn t) \<subseteq> set (ids g)"
    using assms by (auto simp: addDependency_nth wf_graph_def distinct_add_dep split: if_splits)
qed (use assms in \<open>simp add: wf_graph_def\<close>)

subsection \<open>Which definitions are accepted\<close>

definition known :: "tasks \<Rightarrow> string list \<Rightarrow> bool" where
  "known g ds \<longleftrightarrow> set ds \<subseteq> set (ids g)"

lemma copy_tasks_iff:
  "(\<exists>g. copy_tasks acc ts = Inr g) \<longleftrightarrow> distinct (ids ts) \<and> set (ids acc) \<inter> set (ids ts) = {}"
proof (induction acc ts rule: copy_tasks.induct)
  case (2 acc t ts)
  then show ?case by (auto simp: ids_def)
qed (simp add: ids_def)

lemma copy_tasks_result: "copy_tasks acc ts = Inr g \<Longrightarrow> g = acc @ map strip ts"
  by (induction acc ts rule: copy_tasks.induct) (auto simp: strip_def split: if_splits)

lemma declare_deps_ok:
  assumes "wf_graph g" "i < length g"
  shows "(\<exists>h. declare_deps g i ds = Inr h) \<longleftrightarrow> known g ds"
    and "declare_deps g i ds = Inr h \<Longrightarrow> wf_graph h \<and> map strip h = map strip g
      \<and> edge h = edge g \<union> {task_id (g ! i)} \<times> set ds"
  using assms
proof (induction ds arbitrary: g h)
  case (Cons d ds)
  { case 1
    show ?case
    proof (cases "d \<in> set (ids g)")
      case True
      then show ?thesis
        using Cons.IH(1) [OF wf_addDependency [OF 1 True]] 1(2) by (simp add: position_None known_def)
    qed (simp add: position_None known_def)
  next
    case 2
    let ?g = "addDependency g i d"
    from 2 have d: "d \<in> set (ids g)" and h: "declare_deps ?g i ds = Inr h" by (simp_all add: position_None split: if_splits)
    have "wf_graph h \<and> map strip h = map strip ?g \<and> edge h = edge ?g \<union> {task_id (?g ! i)} \<times> set ds"
      using Cons.IH(2) [OF h] 2 d by (simp add: wf_addDependency)
    then show ?case using 2 by (auto simp: strip_addDependency edge_addDependency addDependency_nth) }
qed (auto simp: known_def)

definition declared_edges :: "tasks \<Rightarrow> (string \<times> string) set" where
  "declared_edges ts = (\<Union>t \<in> set ts. {task_id t} \<times> set (dependsOn t))"

lemma declare_all_ok:
  assumes "wf_graph g" "i + length ts = length g" "drop i (ids g) = ids ts"
  shows "(\<exists>h. declare_all g i ts = Inr h) \<longleftrightarrow> (\<forall>t \<in> set ts. known g (dependsOn t))"
    and "declare_all g i ts = Inr h \<Longrightarrow> wf_graph h \<and> map strip h = map strip g
      \<and> edge h = edge g \<union> declared_edges ts"
  using assms
proof (induction ts arbitrary: g i h)
  case (Cons t ts)
  have step: "wf_graph g' \<and> map strip g' = map strip g \<and> edge g' = edge g \<union> {task_id t} \<times> set (dependsOn t)
      \<and> Suc i + length ts = length g' \<and> drop (Suc i) (ids g') = ids ts \<and> ids g' = ids g"
    if pre: "wf_graph g" "i + length (t # ts) = length g" "drop i (ids g) = ids (t # ts)"
      and g': "declare_deps g i (dependsOn t) = Inr g'" for g g' i
  proof -
    have i: "i < length g" using pre(2) by simp
    have "ids g ! i = task_id t" using pre(3) i by (metis length_ids nth_via_drop ids_def list.simps(9))
    then have ti: "task_id (g ! i) = task_id t" using i by simp
    note d = declare_deps_ok(2) [OF pre(1) i g']
    have ig: "ids g' = ids g" using d by (intro strip_ids) simp
    have "length g' = length g" using ig by (metis length_ids)
    moreover have "drop (Suc i) (ids g') = ids ts" using pre(3) ig by (simp add: drop_Suc flip: tl_drop) (simp add: ids_def)
    ultimately show ?thesis using d ti ig pre(2) by simp
  qed
  have i: "i < length g" if "i + length (t # ts) = length g" for g :: tasks and i using that by simp
  { case 1
    show ?case
    proof (cases "declare_deps g i (dependsOn t)")
      case (Inl e)
      then show ?thesis using declare_deps_ok(1) [OF 1(1) i [OF 1(2)], of "dependsOn t"] by simp
    next
      case (Inr g')
      note st = step [OF 1 Inr]
      have "known g (dependsOn t)" using declare_deps_ok(1) [OF 1(1) i [OF 1(2)], of "dependsOn t"] Inr by auto
      have "(\<exists>h. declare_all g' (Suc i) ts = Inr h) \<longleftrightarrow> (\<forall>t \<in> set ts. known g' (dependsOn t))"
        using Cons.IH(1) [of g' "Suc i"] st by blast
      moreover have "known g' = known g" using st by (simp add: known_def fun_eq_iff)
      ultimately show ?thesis using \<open>known g (dependsOn t)\<close> Inr by simp
    qed
  next
    case 2
    then obtain g' where g': "declare_deps g i (dependsOn t) = Inr g'" and h: "declare_all g' (Suc i) ts = Inr h"
      by (auto simp: res_simps)
    note st = step [OF 2(2-4) g']
    show ?case using Cons.IH(2) [OF h] st by (auto simp: declared_edges_def) }
qed (auto simp: declared_edges_def)

definition branch_edges :: "tasks \<Rightarrow> nat list \<Rightarrow> (string \<times> string) set" where
  "branch_edges g js = (\<Union>i \<in> set js. if is_condition (g ! i) then set (branches (g ! i)) \<times> {task_id (g ! i)} else {})"

definition branch_ok :: "tasks \<Rightarrow> nat \<Rightarrow> bool" where
  "branch_ok g i \<longleftrightarrow> (is_condition (g ! i) \<longrightarrow> known g (branches (g ! i)) \<and> task_id (g ! i) \<notin> set (branches (g ! i)))"

lemma attach_members_ok:
  assumes "wf_graph g" "i < length g"
  shows "(\<exists>h. attach_members g i ms = Inr h) \<longleftrightarrow> known g ms \<and> task_id (g ! i) \<notin> set ms"
    and "attach_members g i ms = Inr h \<Longrightarrow> wf_graph h \<and> map strip h = map strip g
      \<and> edge h = edge g \<union> set ms \<times> {task_id (g ! i)}"
  using assms
proof (induction ms arbitrary: g h)
  case (Cons m ms)
  have nxt: "wf_graph (addDependency g j (task_id (g ! i))) \<and> i < length (addDependency g j (task_id (g ! i)))
      \<and> task_id (addDependency g j (task_id (g ! i)) ! i) = task_id (g ! i)"
    if "wf_graph g" "i < length g" "j < length g" for g j
  proof -
    have "task_id (g ! i) \<in> set (ids g)" unfolding in_ids using that by blast
    from wf_addDependency [OF that(1,3) this] show ?thesis using that by (simp add: addDependency_nth)
  qed
  have inj: "j = i \<longleftrightarrow> m = task_id (g ! i)" if "wf_graph g" "i < length g" "position g m = Some j" for g j
    using that position_Some [OF that(3)] position_nth [of g i] by (metis option.inject wf_graph_def)
  { case 1
    show ?case
    proof (cases "position g m")
      case None
      then have "m \<notin> set (ids g)" by (simp add: position_None)
      with None show ?thesis by (simp add: known_def)
    next
      case (Some j)
      note p = position_Some [OF Some]
      have m: "m \<in> set (ids g)" using Some position_None [of g m] by auto
      show ?thesis
      proof (cases "j = i")
        case False
        then show ?thesis
          using Cons.IH(1) [of "addDependency g j (task_id (g ! i))"] nxt [OF 1, of j] p m Some inj [OF 1 Some]
          by (simp add: known_def)
      qed (use Some inj [OF 1 Some] in simp)
    qed
  next
    case 2
    then obtain j where j: "position g m = Some j" "j \<noteq> i"
      and h: "attach_members (addDependency g j (task_id (g ! i))) i ms = Inr h"
      by (auto split: option.splits if_splits)
    note p = position_Some [OF j(1)]
    show ?case
      using Cons.IH(2) [OF h] nxt [OF 2(2,3), of j] p
      by (auto simp: strip_addDependency edge_addDependency) }
qed (auto simp: known_def)

lemma attach_branches_ok:
  assumes "wf_graph g" "set js \<subseteq> {..<length g}"
  shows "(\<exists>h. attach_branches g js = Inr h) \<longleftrightarrow> (\<forall>i \<in> set js. branch_ok g i)"
    and "attach_branches g js = Inr h \<Longrightarrow> wf_graph h \<and> map strip h = map strip g
      \<and> edge h = edge g \<union> branch_edges g js"
  using assms
proof (induction js arbitrary: g h)
  case (Cons i js)
  have nxt: "wf_graph g' \<and> map strip g' = map strip g \<and> edge g' = edge g \<union> set (branches (g ! i)) \<times> {task_id (g ! i)}
      \<and> length g' = length g \<and> (\<forall>j < length g. branch_ok g' j = branch_ok g j) \<and> branch_edges g' js = branch_edges g js"
    if g: "wf_graph g" "set (i # js) \<subseteq> {..<length g}" and g': "attach_members g i (branches (g ! i)) = Inr g'" for g g'
  proof -
    note a = attach_members_ok(2) [OF g(1) _ g']
    then have s: "map strip g' = map strip g" using g by simp
    have l: "length g' = length g" using s map_eq_imp_length_eq by blast
    have "ids g' = ids g" by (rule strip_ids [OF s])
    then have b: "branch_ok g' j = branch_ok g j" if "j < length g" for j
      using strip_nth [OF s that] by (simp add: branch_ok_def known_def)
    have "branch_edges g' js = branch_edges g js"
      unfolding branch_edges_def
    proof (rule SUP_cong)
      fix j assume "j \<in> set js"
      then have "j < length g" using g(2) by auto
      from strip_nth [OF s this]
      show "(if is_condition (g' ! j) then set (branches (g' ! j)) \<times> {task_id (g' ! j)} else {})
          = (if is_condition (g ! j) then set (branches (g ! j)) \<times> {task_id (g ! j)} else {})" by simp
    qed simp
    then show ?thesis using a g b l by simp
  qed
  { case 1
    show ?case
    proof (cases "is_condition (g ! i)")
      case False
      then show ?thesis using Cons.IH(1) [of g] 1 by (simp add: branch_ok_def)
    next
      case c: True
      show ?thesis
      proof (cases "attach_members g i (branches (g ! i))")
        case (Inl e)
        then show ?thesis using c attach_members_ok(1) [OF 1(1), of i "branches (g ! i)"] 1(2)
          by (auto simp: branch_ok_def)
      next
        case (Inr g')
        note n = nxt [OF 1 Inr]
        have "branch_ok g i" using c attach_members_ok(1) [OF 1(1), of i "branches (g ! i)"] 1(2) Inr
          by (auto simp: branch_ok_def)
        moreover have "(\<exists>h. attach_branches g' js = Inr h) \<longleftrightarrow> (\<forall>i \<in> set js. branch_ok g' i)"
          using Cons.IH(1) [of g'] n 1(2) by simp
        ultimately show ?thesis using n c Inr 1(2) by auto
      qed
    qed
  next
    case 2
    show ?case
    proof (cases "is_condition (g ! i)")
      case False
      then show ?thesis using Cons.IH(2) [of g h] 2 by (simp add: branch_edges_def)
    next
      case c: True
      then obtain g' where g': "attach_members g i (branches (g ! i)) = Inr g'" and h: "attach_branches g' js = Inr h"
        using 2(1) by (auto simp: res_simps)
      note n = nxt [OF 2(2,3) g']
      show ?thesis using Cons.IH(2) [OF h] n 2(3) c by (auto simp: branch_edges_def)
    qed }
qed (auto simp: branch_edges_def)

subsection \<open>Cycle detection\<close>

definition settled :: "tasks \<Rightarrow> string set" where
  "settled g = Wellfounded.acc ((edge g)\<inverse>)"

lemma settledI: "(\<And>b. (a, b) \<in> edge g \<Longrightarrow> b \<in> settled g) \<Longrightarrow> a \<in> settled g"
  unfolding settled_def by (rule Wellfounded.accI) simp

lemma edge_ids: "(a, b) \<in> edge g \<Longrightarrow> a \<in> set (ids g)"
  by (auto simp: edge_def ids_def)

lemma edge_target: "wf_graph g \<Longrightarrow> (a, b) \<in> edge g \<Longrightarrow> b \<in> set (ids g)"
  by (auto simp: edge_def wf_graph_def)

lemma task_deps_edge: "wf_graph g \<Longrightarrow> t \<in> set (ids g) \<Longrightarrow> set (task_deps g t) = {d. (t, d) \<in> edge g}"
  using pos_known [of t g] edge_at [of g "pos g t"] by (auto simp: task_deps_def wf_graph_def)

lemma acyclic_settled: "(\<And>t. t \<in> set (ids g) \<Longrightarrow> t \<in> settled g) \<Longrightarrow> acyclic (edge g)"
proof -
  assume all: "\<And>t. t \<in> set (ids g) \<Longrightarrow> t \<in> settled g"
  have "x \<in> settled g" for x using all edge_ids by (cases "x \<in> set (ids g)") (auto intro: settledI)
  then have "wf ((edge g)\<inverse>)" by (intro acc_wfI) (simp add: settled_def)
  then show ?thesis using wf_acyclic acyclic_converse by blast
qed

definition unseen :: "tasks \<Rightarrow> string list \<Rightarrow> nat" where
  "unseen g visited = card (set (ids g) - set visited)"

lemma unseen_visit: "t \<in> set (ids g) \<Longrightarrow> t \<notin> set visited \<Longrightarrow> Suc (unseen g (t # visited)) = unseen g visited"
proof -
  assume "t \<in> set (ids g)" "t \<notin> set visited"
  moreover have "set (ids g) - set (t # visited) = (set (ids g) - set visited) - {t}" by auto
  ultimately show ?thesis
    using card_Suc_Diff1 [of "set (ids g) - set visited" t] by (simp only: unseen_def) simp
qed

lemma unseen_mono: "set visited \<subseteq> set v \<Longrightarrow> unseen g v \<le> unseen g visited"
  by (auto simp: unseen_def intro: card_mono)

definition done_off :: "tasks \<Rightarrow> string list \<Rightarrow> string list \<Rightarrow> bool" where
  "done_off g visited path \<longleftrightarrow> set visited - set path \<subseteq> settled g"

lemma dfs_None:
  assumes "wf_graph g"
  shows "dfs n g t visited path = (None, v) \<Longrightarrow> t \<in> set (ids g) \<Longrightarrow> t \<notin> set visited \<Longrightarrow> set path \<subseteq> set visited \<Longrightarrow>
      done_off g visited path \<Longrightarrow> unseen g visited \<le> n \<Longrightarrow>
      set visited \<subseteq> set v \<and> t \<in> set v \<and> done_off g v path"
    and "dfs_deps n g ds visited path = (None, v) \<Longrightarrow> set ds \<subseteq> set (ids g) \<Longrightarrow> set path \<subseteq> set visited \<Longrightarrow>
      done_off g visited path \<Longrightarrow> unseen g visited \<le> n \<Longrightarrow>
      set visited \<subseteq> set v \<and> set ds \<subseteq> settled g \<and> done_off g v path"
  using assms
proof (induction n g t visited path and n g ds visited path arbitrary: v and v rule: dfs_dfs_deps.induct)
  case (1 g t visited path)
  then show ?case by (auto simp: unseen_def)
next
  case (2 n g t visited path)
  note pr = "2.prems"
  have deps: "set (task_deps g t) = {d. (t, d) \<in> edge g}" by (rule task_deps_edge [OF pr(7,2)])
  then have pre: "set (task_deps g t) \<subseteq> set (ids g)" using edge_target [OF pr(7)] by blast
  have n: "unseen g (t # visited) \<le> n" using unseen_visit [OF pr(2,3)] pr(6) by simp
  have d: "done_off g (t # visited) (path @ [t])" using pr(5) by (auto simp: done_off_def)
  have p: "set (path @ [t]) \<subseteq> set (t # visited)" using pr(4) by auto
  have r: "set (t # visited) \<subseteq> set v \<and> set (task_deps g t) \<subseteq> settled g \<and> done_off g v (path @ [t])"
    using "2.IH" [OF _ pre p d n pr(7)] pr(1) by simp
  then have "t \<in> settled g" using deps by - (rule settledI, blast)
  with r show ?case by (auto simp: done_off_def)
next
  case (4 n g d ds visited path)
  show ?case
  proof (cases "d \<in> set visited")
    case False
    then obtain v1 where v1: "dfs n g d visited path = (None, v1)" and rest: "dfs_deps n g ds v1 path = (None, v)"
      using "4.prems"(1) by (auto split: prod.splits option.splits)
    have r1: "set visited \<subseteq> set v1 \<and> d \<in> set v1 \<and> done_off g v1 path"
      using "4.IH"(1) [OF _ v1] "4.prems"(2-6) False by simp
    have n1: "unseen g v1 \<le> n" using unseen_mono [of visited v1 g] "4.prems"(5) r1 by linarith
    have p1: "set path \<subseteq> set v1" using r1 "4.prems"(3) by blast
    have "set ds \<subseteq> set (ids g)" using "4.prems"(2) by simp
    then have r2: "set v1 \<subseteq> set v \<and> set ds \<subseteq> settled g \<and> done_off g v path"
      using "4.IH"(2) [OF _ v1 [symmetric] refl rest _ p1 _ n1 "4.prems"(6)] r1 False by simp
    have "d \<notin> set path" using False "4.prems"(3) by blast
    then have "d \<in> settled g" using r1 by (auto simp: done_off_def)
    with r1 r2 show ?thesis by auto
  next
    case True
    then have p: "d \<notin> set path" and rest: "dfs_deps n g ds visited path = (None, v)"
      using "4.prems"(1) by (auto split: if_splits)
    then have "set visited \<subseteq> set v \<and> set ds \<subseteq> settled g \<and> done_off g v path"
      using "4.IH"(3) "4.prems"(2-6) True by simp
    moreover have "d \<in> settled g" using True p "4.prems"(4) by (auto simp: done_off_def)
    ultimately show ?thesis by auto
  qed
qed (auto simp: done_off_def)

abbreviation chain_of :: "('a \<times> 'a) set \<Rightarrow> 'a list \<Rightarrow> bool" where
  "chain_of E \<equiv> successively (\<lambda>a b. (a, b) \<in> E)"

lemma chain_reaches: "chain_of E (d # vs) \<Longrightarrow> (d, last (d # vs)) \<in> E\<^sup>*"
proof (induction vs arbitrary: d)
  case (Cons v vs)
  then have "(d, v) \<in> E" "(v, last (v # vs)) \<in> E\<^sup>*" by auto
  then show ?case by simp
qed simp

lemma chain_cycle: "chain_of E path \<Longrightarrow> d \<in> set path \<Longrightarrow> (last path, d) \<in> E \<Longrightarrow> (d, d) \<in> E\<^sup>+"
proof -
  assume c: "chain_of E path" and d: "d \<in> set path" and l: "(last path, d) \<in> E"
  obtain us vs where p: "path = us @ d # vs" using d by (auto dest: split_list)
  then have "(d, last path) \<in> E\<^sup>*" using c chain_reaches [of E d vs] by (auto simp: successively_append_iff)
  then show ?thesis using l by (rule rtrancl_into_trancl1)
qed

lemma dfs_Some:
  assumes "wf_graph g"
  shows "fst (dfs n g t visited path) = Some c \<Longrightarrow> t \<in> set (ids g) \<Longrightarrow> chain_of (edge g) (path @ [t]) \<Longrightarrow>
      \<exists>d. (d, d) \<in> (edge g)\<^sup>+"
    and "fst (dfs_deps n g ds visited path) = Some c \<Longrightarrow> path \<noteq> [] \<Longrightarrow> chain_of (edge g) path \<Longrightarrow>
      set ds \<subseteq> {d. (last path, d) \<in> edge g} \<Longrightarrow> \<exists>d. (d, d) \<in> (edge g)\<^sup>+"
  using assms
proof (induction n g t visited path and n g ds visited path rule: dfs_dfs_deps.induct)
  case (2 n g t visited path)
  have "set (task_deps g t) = {d. (t, d) \<in> edge g}" by (rule task_deps_edge [OF "2.prems"(4,2)])
  then show ?case using "2.IH" "2.prems" by simp
next
  case (4 n g d ds visited path)
  have d: "(last path, d) \<in> edge g" and ds: "set ds \<subseteq> {d. (last path, d) \<in> edge g}"
    using "4.prems"(4) by auto
  show ?case
  proof (cases "d \<in> set visited")
    case False
    show ?thesis
    proof (cases "dfs n g d visited path")
      case (Pair r v1)
      show ?thesis
      proof (cases r)
        case None
        then show ?thesis
          using "4.IH"(2) [OF _ Pair [symmetric] None] "4.prems"(1,2,3,5) ds False Pair by simp
      next
        case (Some cy)
        have "chain_of (edge g) (path @ [d])"
          using "4.prems"(2,3) d by (simp add: successively_append_iff)
        then show ?thesis
          using "4.IH"(1) "4.prems"(1,5) False Pair Some edge_target [OF "4.prems"(5) d] by simp
      qed
    qed
  next
    case True
    show ?thesis
    proof (cases "d \<in> set path")
      case True
      from chain_cycle [OF "4.prems"(3) this d] show ?thesis by blast
    next
      case False
      then show ?thesis using "4.IH"(3) "4.prems"(1,2,3,5) ds True by simp
    qed
  qed
qed auto

lemma search_cycle_None:
  assumes "wf_graph g" "search_cycle g ts visited = None" "set ts \<subseteq> set (ids g)" "set visited \<subseteq> settled g"
  shows "set ts \<subseteq> settled g"
  using assms(2-4)
proof (induction ts arbitrary: visited)
  case (Cons t ts)
  show ?case
  proof (cases "t \<in> set visited")
    case False
    then obtain v where v: "dfs (length g) g t visited [] = (None, v)" and rest: "search_cycle g ts v = None"
      using Cons.prems(1) by (auto split: prod.splits option.splits)
    have "unseen g visited \<le> card (set (ids g))" unfolding unseen_def by (rule card_mono) auto
    also have "\<dots> \<le> length g" using card_length [of "ids g"] by simp
    finally have n: "unseen g visited \<le> length g" .
    have "set visited \<subseteq> set v \<and> t \<in> set v \<and> done_off g v []"
      by (rule dfs_None(1) [OF assms(1) v]) (use Cons.prems False n in \<open>simp_all add: done_off_def\<close>)
    then have "set v \<subseteq> settled g" "t \<in> settled g" by (auto simp: done_off_def)
    with Cons.IH [OF rest] Cons.prems(2) show ?thesis by simp
  qed (use Cons in auto)
qed simp

lemma search_cycle_Some:
  assumes "wf_graph g" "search_cycle g ts visited = Some c" "set ts \<subseteq> set (ids g)"
  shows "\<exists>d. (d, d) \<in> (edge g)\<^sup>+"
  using assms(2,3)
proof (induction ts arbitrary: visited)
  case (Cons t ts)
  show ?case
  proof (cases "List.member visited t")
    case False
    show ?thesis
    proof (cases "dfs (length g) g t visited []")
      case (Pair r v)
      then show ?thesis
        using Cons False dfs_Some(1) [OF assms(1), of "length g" t visited "[]"]
        by (cases r) auto
    qed
  qed (use Cons in simp)
qed simp

lemma detectCycle_iff: "wf_graph g \<Longrightarrow> detectCycle g = None \<longleftrightarrow> acyclic (edge g)"
proof
  assume w: "wf_graph g" and "detectCycle g = None"
  then have "set (ids g) \<subseteq> settled g" by (auto simp: detectCycle_def dest!: search_cycle_None [OF w])
  then show "acyclic (edge g)" by (intro acyclic_settled) auto
next
  assume w: "wf_graph g" and a: "acyclic (edge g)"
  show "detectCycle g = None"
  proof (cases "detectCycle g")
    case (Some c)
    then show ?thesis using search_cycle_Some [OF w, of "ids g" "[]" c] a by (auto simp: detectCycle_def acyclic_def)
  qed
qed

subsection \<open>Reachability\<close>

lemma deps_edge:
  assumes "wf_graph g" "i < length g"
  shows "j \<in> set (deps g i) \<longleftrightarrow> j < length g \<and> (task_id (g ! i), task_id (g ! j)) \<in> edge g"
proof -
  have dist: "distinct (ids g)" using assms by (simp add: wf_graph_def)
  have known: "d \<in> set (ids g)" if "d \<in> set (dependsOn (g ! i))" for d
    using that assms by (auto simp: wf_graph_def)
  show ?thesis unfolding edge_at [OF dist assms(2)] deps_def
    using known pos_known [of _ g] pos_nth [OF dist] by (auto simp: image_iff) metis
qed

lemma scan_deps_None: "scan_deps to ds seen stack = None \<longleftrightarrow> to \<in> set ds"
  by (induction to ds seen stack rule: scan_deps.induct) auto

lemma scan_deps_Some:
  "scan_deps to ds seen stack = Some (seen', stack') \<Longrightarrow> distinct seen \<Longrightarrow>
   distinct seen' \<and> set seen' = set seen \<union> set ds \<and> set stack' = set stack \<union> (set ds - set seen)
   \<and> length stack' + length seen = length stack + length seen'"
  by (induction to ds seen stack rule: scan_deps.induct) (auto split: if_splits)

lemma scan_deps_stack:
  "scan_deps to ds seen stack = Some (seen', stack') \<Longrightarrow> set stack' \<subseteq> set stack \<union> set ds"
  by (induction to ds seen stack rule: scan_deps.induct) (auto split: if_splits)

definition reachable :: "tasks \<Rightarrow> nat \<Rightarrow> nat \<Rightarrow> bool" where
  "reachable g a x \<longleftrightarrow> x < length g \<and> (task_id (g ! a), task_id (g ! x)) \<in> (edge g)\<^sup>*"

lemma reach_loop_True:
  assumes w: "wf_graph g"
  shows "reach_loop n g to seen stack \<Longrightarrow> (\<And>x. x \<in> set stack \<Longrightarrow> reachable g a x) \<Longrightarrow>
    (task_id (g ! a), task_id (g ! to)) \<in> (edge g)\<^sup>+"
  using w
proof (induction n g to seen stack rule: reach_loop.induct)
  case (3 n g to seen c stack)
  have c: "reachable g a c" by (rule "3.prems"(2)) simp
  have dep: "(task_id (g ! c), task_id (g ! j)) \<in> edge g \<and> j < length g" if "j \<in> set (deps g c)" for j
    using that deps_edge [OF "3.prems"(3), of c j] c by (simp add: reachable_def)
  show ?case
  proof (cases "scan_deps to (deps g c) seen stack")
    case None
    then show ?thesis using scan_deps_None dep [of to] c by (auto simp: reachable_def intro: rtrancl_into_trancl1)
  next
    case (Some p)
    obtain s' st' where p: "p = (s', st')" by (cases p)
    have "reachable g a x" if "x \<in> set st'" for x
    proof (cases "x \<in> set stack")
      case False
      then have "x \<in> set (deps g c)" using that scan_deps_stack Some p by blast
      from dep [OF this] c show ?thesis unfolding reachable_def by (meson rtrancl_into_rtrancl)
    qed (use "3.prems"(2) in simp)
    then show ?thesis using "3.IH" [OF Some p [symmetric]] "3.prems"(1,3) Some p by simp
  qed
qed auto

text \<open>The loop's invariant: what was seen is on the stack or has been scanned.\<close>

definition scanned :: "tasks \<Rightarrow> nat \<Rightarrow> nat list \<Rightarrow> nat list \<Rightarrow> nat \<Rightarrow> bool" where
  "scanned g to seen stack x \<longleftrightarrow> x \<in> set stack \<or> (to \<notin> set (deps g x) \<and> set (deps g x) \<subseteq> set seen)"

lemma reach_loop_False:
  assumes w: "wf_graph g"
  shows "\<not> reach_loop n g to seen stack \<Longrightarrow> distinct seen \<Longrightarrow> set seen \<union> set stack \<subseteq> {..<length g} \<Longrightarrow>
    a \<in> A \<Longrightarrow> A \<subseteq> {..<length g} \<Longrightarrow> (\<And>x. x \<in> A \<union> set seen \<Longrightarrow> scanned g to seen stack x) \<Longrightarrow>
    length stack + length g \<le> n + length seen \<Longrightarrow>
    \<exists>C. A \<subseteq> C \<and> C \<subseteq> {..<length g} \<and> (\<forall>x \<in> C. to \<notin> set (deps g x) \<and> set (deps g x) \<subseteq> C)"
  using w
proof (induction n g to seen stack arbitrary: A rule: reach_loop.induct)
  case (1 n g to seen)
  then show ?case by (intro exI [of _ "A \<union> set seen"]) (auto simp: scanned_def)
next
  case (2 g to seen c stack)
  have "length seen \<le> length g"
    using distinct_card [OF "2.prems"(2)] card_mono [of "{..<length g}" "set seen"] "2.prems"(3) by simp
  then show ?case using "2.prems"(7) by simp
next
  case (3 n g to seen c stack)
  obtain s' st' where sd: "scan_deps to (deps g c) seen stack = Some (s', st')"
    using "3.prems"(1) by (cases "scan_deps to (deps g c) seen stack") auto
  note sc = scan_deps_Some [OF sd "3.prems"(2)]
  have c: "c < length g" using "3.prems"(3) by simp
  have dc: "set (deps g c) \<subseteq> {..<length g}" using deps_edge [OF "3.prems"(8) c] by auto
  have to: "to \<notin> set (deps g c)" using sd scan_deps_None [of to "deps g c" seen stack] by auto
  have inv: "scanned g to s' st' x" if "x \<in> A \<union> set s'" for x
  proof (cases "x \<in> A \<union> set seen")
    case True
    then show ?thesis using "3.prems"(6) [OF True] sc to by (auto simp: scanned_def)
  qed (use that sc in \<open>auto simp: scanned_def\<close>)
  show ?case
    by (rule "3.IH" [OF sd refl]) (use "3.prems" sd sc dc inv in auto)
qed

lemma reaches_iff:
  assumes w: "wf_graph g" and a: "a < length g" and b: "b < length g"
  shows "reaches g a b \<longleftrightarrow> (task_id (g ! a), task_id (g ! b)) \<in> (edge g)\<^sup>+"
proof
  assume "reaches g a b"
  then show "(task_id (g ! a), task_id (g ! b)) \<in> (edge g)\<^sup>+"
    unfolding reaches_def by (rule reach_loop_True [OF w]) (use a in \<open>simp add: reachable_def\<close>)
next
  assume path: "(task_id (g ! a), task_id (g ! b)) \<in> (edge g)\<^sup>+"
  show "reaches g a b"
  proof (rule ccontr)
    assume "\<not> reaches g a b"
    then have "\<exists>C. {a} \<subseteq> C \<and> C \<subseteq> {..<length g} \<and> (\<forall>x \<in> C. b \<notin> set (deps g x) \<and> set (deps g x) \<subseteq> C)"
      unfolding reaches_def
      by (rule reach_loop_False [OF w, where a = a]) (use a in \<open>auto simp: scanned_def\<close>)
    then obtain C where C: "a \<in> C" "C \<subseteq> {..<length g}" "\<And>x. x \<in> C \<Longrightarrow> b \<notin> set (deps g x) \<and> set (deps g x) \<subseteq> C"
      by auto
    have step: "\<exists>j \<in> C. y = task_id (g ! j) \<and> j \<noteq> b" if i: "i \<in> C" and e: "(task_id (g ! i), y) \<in> edge g" for i y
    proof -
      from edge_target [OF w e] obtain j where j: "j < length g" "y = task_id (g ! j)" by (auto simp: in_ids)
      then have "j \<in> set (deps g i)" using deps_edge [OF w, of i j] e i C(2) by auto
      then show ?thesis using C(3) [OF i] j by auto
    qed
    from path have "\<exists>j \<in> C. task_id (g ! b) = task_id (g ! j) \<and> j \<noteq> b"
    proof (induction rule: trancl_induct)
      case (base y)
      then show ?case using step [OF C(1)] by blast
    next
      case (step y z)
      then show ?case using \<open>\<And>y i. \<lbrakk>i \<in> C; (task_id (g ! i), y) \<in> edge g\<rbrakk> \<Longrightarrow> \<exists>j\<in>C. y = task_id (g ! j) \<and> j \<noteq> b\<close> by blast
    qed
    then obtain j where "j \<in> C" "task_id (g ! b) = task_id (g ! j)" "j \<noteq> b" by blast
    then show False using pos_nth [of g b] pos_nth [of g j] w b C(2) by (auto simp: wf_graph_def)
  qed
qed

subsection \<open>Ordering after branches keeps the graph acyclic\<close>

text \<open>\<open>extends g h\<close>: \<open>h\<close> is \<open>g\<close> with more dependencies and still well-formed and acyclic.\<close>

definition extends :: "tasks \<Rightarrow> tasks \<Rightarrow> bool" where
  "extends g h \<longleftrightarrow> wf_graph h \<and> acyclic (edge h) \<and> map strip h = map strip g \<and> edge g \<subseteq> edge h"

lemma extends_trans: "extends g h \<Longrightarrow> extends h k \<Longrightarrow> extends g k"
  by (auto simp: extends_def)

lemma extends_refl: "wf_graph g \<Longrightarrow> acyclic (edge g) \<Longrightarrow> extends g g"
  by (simp add: extends_def)

lemma extends_length: "extends g h \<Longrightarrow> length h = length g"
  unfolding extends_def by (metis length_map)

lemma extends_ids: "extends g h \<Longrightarrow> ids h = ids g"
  by (auto simp: extends_def intro: strip_ids)

lemma extends_id: "extends g h \<Longrightarrow> i < length g \<Longrightarrow> task_id (h ! i) = task_id (g ! i)"
  using strip_nth(1) [of h g i] by (simp add: extends_def)

definition after_or_before :: "tasks \<Rightarrow> nat \<Rightarrow> nat \<Rightarrow> bool" where
  "after_or_before g f m \<longleftrightarrow>
     (task_id (g ! f), task_id (g ! m)) \<in> edge g \<or> (task_id (g ! m), task_id (g ! f)) \<in> (edge g)\<^sup>+"

lemma after_or_before_mono:
  "extends g h \<Longrightarrow> f < length g \<Longrightarrow> m < length g \<Longrightarrow> after_or_before g f m \<Longrightarrow> after_or_before h f m"
  using trancl_mono [of _ "edge g" "edge h"] extends_id [of g h f] extends_id [of g h m]
  by (auto simp: after_or_before_def extends_def)

lemma follow_step:
  assumes "wf_graph g" "acyclic (edge g)" "f < length g" "m < length g" "m \<noteq> f"
  defines "h \<equiv> if \<not> reaches g m f then addDependency g f (task_id (g ! m)) else g"
  shows "extends g h \<and> after_or_before h f m"
proof (cases "reaches g m f")
  case True
  then show ?thesis using assms by (simp add: extends_refl after_or_before_def reaches_iff)
next
  case False
  have ne: "task_id (g ! m) \<noteq> task_id (g ! f)"
    using assms(1,3,4,5) task_id_inj [of g m f] by (simp add: wf_graph_def)
  have "(task_id (g ! m), task_id (g ! f)) \<notin> (edge g)\<^sup>*"
    using False reaches_iff [of g m f] assms ne by (auto simp: rtrancl_eq_or_trancl)
  then have "acyclic (insert (task_id (g ! f), task_id (g ! m)) (edge g))"
    using assms(2) by (simp add: acyclic_insert)
  moreover have "task_id (g ! m) \<in> set (ids g)" using assms(4) by (auto simp: in_ids)
  ultimately show ?thesis
    using False assms wf_addDependency [of g f "task_id (g ! m)"]
    by (simp add: extends_def after_or_before_def edge_addDependency strip_addDependency addDependency_nth)
      auto
qed

lemma follow_members_ok:
  assumes "wf_graph g" "acyclic (edge g)" "f < length g" "set ms \<subseteq> {..<length g}" "f \<notin> set ms"
  shows "extends g (follow_members g f ms) \<and> (\<forall>m \<in> set ms. after_or_before (follow_members g f ms) f m)"
  using assms
proof (induction ms arbitrary: g)
  case (Cons m ms)
  define h where "h = (if \<not> reaches g m f then addDependency g f (task_id (g ! m)) else g)"
  have s: "extends g h \<and> after_or_before h f m"
    unfolding h_def by (rule follow_step) (use Cons.prems in auto)
  then have h: "wf_graph h" "acyclic (edge h)" "length h = length g" by (auto simp: extends_def extends_length)
  have r: "extends h (follow_members h f ms) \<and> (\<forall>m \<in> set ms. after_or_before (follow_members h f ms) f m)"
    by (rule Cons.IH [OF h(1,2)]) (use Cons.prems h(3) in auto)
  have "follow_members g f (m # ms) = follow_members h f ms" by (simp add: h_def)
  then show ?case
    using s r Cons.prems h(3) extends_trans [of g h] after_or_before_mono [of h _ f m] by auto
qed (simp add: extends_refl)

lemma underCondition_range: "set (underCondition g i) \<subseteq> {..<length g}"
  by (auto simp: underCondition_def Let_def)

lemma followsCondition_edge:
  "wf_graph g \<Longrightarrow> f < length g \<Longrightarrow>
   followsCondition g f c branch \<longleftrightarrow> (\<exists>d. (task_id (g ! f), d) \<in> edge g \<and> (d = c \<or> pos g d \<in> set branch))"
  by (auto simp: followsCondition_def list_ex_iff edge_at wf_graph_def)

lemma followsCondition_mono:
  "wf_graph g \<Longrightarrow> extends g h \<Longrightarrow> f < length g \<Longrightarrow> followsCondition g f c branch \<Longrightarrow> followsCondition h f c branch"
  using followsCondition_edge [of g f c branch] followsCondition_edge [of h f c branch]
    extends_length [of g h] extends_id [of g h f] same_pos [OF extends_ids [of g h]]
  by (auto simp: extends_def)

lemma order_followers_ok:
  assumes "wf_graph g" "acyclic (edge g)" "set fs \<subseteq> {..<length g}" "set branch \<subseteq> {..<length g}" "i < length g"
  shows "extends g (order_followers g i branch fs) \<and>
    (\<forall>f \<in> set fs. \<forall>m \<in> set branch. f \<noteq> i \<longrightarrow> f \<notin> set branch \<longrightarrow> followsCondition g f (task_id (g ! i)) branch \<longrightarrow>
      after_or_before (order_followers g i branch fs) f m)"
  using assms
proof (induction fs arbitrary: g)
  case (Cons f fs)
  define h where "h = (if f = i \<or> List.member branch f \<or> \<not> followsCondition g f (task_id (g ! i)) branch then g
      else follow_members g f branch)"
  have f: "f < length g" using Cons.prems(3) by simp
  have h: "extends g h \<and> (\<forall>m \<in> set branch. f \<noteq> i \<longrightarrow> f \<notin> set branch \<longrightarrow>
      followsCondition g f (task_id (g ! i)) branch \<longrightarrow> after_or_before h f m)"
    using follow_members_ok [OF Cons.prems(1,2) f Cons.prems(4)] extends_refl [OF Cons.prems(1,2)]
    by (auto simp: h_def)
  then have wh: "wf_graph h" "acyclic (edge h)" by (simp_all add: extends_def)
  have l: "length h = length g" using h extends_length by blast
  have eq: "order_followers g i branch (f # fs) = order_followers h i branch fs" by (simp add: h_def)
  have IH: "extends h (order_followers h i branch fs) \<and>
    (\<forall>f \<in> set fs. \<forall>m \<in> set branch. f \<noteq> i \<longrightarrow> f \<notin> set branch \<longrightarrow> followsCondition h f (task_id (h ! i)) branch \<longrightarrow>
      after_or_before (order_followers h i branch fs) f m)"
    by (rule Cons.IH [OF wh]) (use Cons.prems l in simp_all)
  have id: "task_id (h ! i) = task_id (g ! i)" using extends_id h Cons.prems(5) by blast
  show ?case unfolding eq
  proof (intro conjI ballI impI)
    show "extends g (order_followers h i branch fs)" using h IH extends_trans by blast
  next
    fix k m assume k: "k \<in> set (f # fs)" and m: "m \<in> set branch" and c: "k \<noteq> i" "k \<notin> set branch"
      "followsCondition g k (task_id (g ! i)) branch"
    have lm: "m < length h" using m Cons.prems(4) l by auto
    show "after_or_before (order_followers h i branch fs) k m"
    proof (cases "k \<in> set fs")
      case True
      then have "followsCondition h k (task_id (h ! i)) branch"
        using followsCondition_mono [OF Cons.prems(1)] h c Cons.prems(3) id by auto
      then show ?thesis using IH True m c by blast
    next
      case False
      then have "after_or_before h f m" "k = f" using h m c k by auto
      then show ?thesis using after_or_before_mono [of h _ f m] IH f l lm by auto
    qed
  qed
qed (simp add: extends_refl)

subsection \<open>The tasks under a condition\<close>

text \<open>Definitions whose conditions list only known tasks.\<close>

definition branches_known :: "tasks \<Rightarrow> bool" where
  "branches_known g \<longleftrightarrow> (\<forall>i < length g. is_condition (g ! i) \<longrightarrow> known g (branches (g ! i)))"

lemma members_range: "known g ms \<Longrightarrow> set (map (pos g) ms) \<subseteq> {..<length g}"
  using pos_known by (auto simp: known_def)

lemma visit_strip:
  assumes s: "map strip h = map strip g" and k: "branches_known g"
  shows "set ms \<subseteq> {..<length g} \<Longrightarrow> visit n h ms seen = visit n g ms seen"
proof (induction n arbitrary: ms seen)
  case 0
  then show ?case by (cases ms) auto
next
  case (Suc n)
  show ?case using Suc.prems
  proof (induction ms arbitrary: seen)
    case (Cons m ms)
    then have m: "m < length g" by simp
    have p: "pos h = pos g" by (rule same_pos [OF strip_ids [OF s]])
    have "visit n h (map (pos g) (branches (g ! m))) sn = visit n g (map (pos g) (branches (g ! m))) sn"
      if "is_condition (g ! m)" for sn
      using that k m by (intro Suc.IH members_range) (simp add: branches_known_def)
    then show ?case using Cons strip_nth [OF s m] by (simp add: Let_def p)
  qed simp
qed

lemma underCondition_strip:
  assumes s: "map strip h = map strip g" and k: "branches_known g" and i: "i < length g" "is_condition (g ! i)"
  shows "underCondition h i = underCondition g i"
proof -
  have l: "length h = length g" using s map_eq_imp_length_eq by blast
  have "set (map (pos g) (branches (g ! i))) \<subseteq> {..<length g}"
    using k i by (intro members_range) (simp add: branches_known_def)
  then show ?thesis
    using visit_strip [OF s k] strip_nth(3) [OF s i(1)] same_pos [OF strip_ids [OF s]]
    by (simp add: underCondition_def l)
qed

text \<open>What \<open>underCondition\<close> computes: the members of its branches, and of the branches of the
  conditions among them.\<close>

inductive_set under :: "tasks \<Rightarrow> nat \<Rightarrow> nat set" for g i where
  member: "x \<in> set (branches (g ! i)) \<Longrightarrow> pos g x \<in> under g i"
| nested: "m \<in> under g i \<Longrightarrow> is_condition (g ! m) \<Longrightarrow> x \<in> set (branches (g ! m)) \<Longrightarrow> pos g x \<in> under g i"

lemma visit_under:
  "set ms \<subseteq> under g i \<Longrightarrow> set seen \<subseteq> under g i \<Longrightarrow> set (visit n g ms seen) \<subseteq> under g i"
proof (induction n arbitrary: ms seen)
  case 0
  then show ?case by (cases ms) auto
next
  case (Suc n)
  show ?case using Suc.prems
  proof (induction ms arbitrary: seen)
    case (Cons m ms)
    have "set (visit n g (map (pos g) (branches (g ! m))) (m # seen)) \<subseteq> under g i" if "is_condition (g ! m)"
      using that Cons.prems by (intro Suc.IH) (auto intro: under.nested)
    then show ?case using Cons by (simp add: Let_def)
  qed simp
qed

definition closed_from :: "tasks \<Rightarrow> nat list \<Rightarrow> nat list \<Rightarrow> bool" where
  "closed_from g seen v \<longleftrightarrow>
     (\<forall>m \<in> set v - set seen. is_condition (g ! m) \<longrightarrow> pos g ` set (branches (g ! m)) \<subseteq> set v)"

lemma visit_grows: "set seen \<subseteq> set (visit n g ms seen)"
proof (induction n arbitrary: ms seen)
  case 0
  then show ?case by (cases ms) auto
next
  case (Suc n)
  show ?case
  proof (induction ms arbitrary: seen)
    case (Cons m ms)
    have "set (m # seen) \<subseteq> set (visit n g (map (pos g) (branches (g ! m))) (m # seen))" by (rule Suc.IH)
    then show ?case using Cons by (auto simp: Let_def) (meson list.set_intros(2) subsetD)+
  qed simp
qed

lemma visit_closed:
  assumes k: "branches_known g"
  shows "set ms \<subseteq> {..<length g} \<Longrightarrow> card ({..<length g} - set seen) < n \<Longrightarrow>
    set ms \<subseteq> set (visit n g ms seen) \<and> closed_from g seen (visit n g ms seen)"
proof (induction n arbitrary: ms seen)
  case (Suc n)
  show ?case using Suc.prems
  proof (induction ms arbitrary: seen)
    case (Cons m ms)
    show ?case
    proof (cases "m \<in> set seen")
      case True
      then show ?thesis using Cons visit_grows [of seen "Suc n" g ms] by auto
    next
      case False
      define v where "v = (if is_condition (g ! m) then visit n g (map (pos g) (branches (g ! m))) (m # seen) else m # seen)"
      have m: "m < length g" using Cons.prems(1) by simp
      have "{..<length g} - set (m # seen) = ({..<length g} - set seen) - {m}" by auto
      then have c1: "Suc (card ({..<length g} - set (m # seen))) = card ({..<length g} - set seen)"
        using card_Suc_Diff1 [of "{..<length g} - set seen" m] m False by simp
      have gv: "set (m # seen) \<subseteq> set v"
        using visit_grows [of "m # seen" n g "map (pos g) (branches (g ! m))"] by (auto simp: v_def)
      have cv: "\<forall>x \<in> set v - set seen. is_condition (g ! x) \<longrightarrow> pos g ` set (branches (g ! x)) \<subseteq> set v"
      proof (cases "is_condition (g ! m)")
        case True
        have "known g (branches (g ! m))" using k m True by (simp add: branches_known_def)
        then have "set (map (pos g) (branches (g ! m))) \<subseteq> set v \<and> closed_from g (m # seen) v"
          using Suc.IH [of "map (pos g) (branches (g ! m))" "m # seen"] members_range c1 Cons.prems(2) True
          by (simp add: v_def)
        then have a: "pos g ` set (branches (g ! m)) \<subseteq> set v"
          and b: "\<forall>x \<in> set v - set (m # seen). is_condition (g ! x) \<longrightarrow> pos g ` set (branches (g ! x)) \<subseteq> set v"
          by (simp_all add: closed_from_def)
        show ?thesis
        proof (intro ballI impI)
          fix x assume "x \<in> set v - set seen" "is_condition (g ! x)"
          then show "pos g ` set (branches (g ! x)) \<subseteq> set v" using a b by (cases "x = m") simp_all
        qed
      qed (auto simp: v_def)
      have "card ({..<length g} - set v) \<le> card ({..<length g} - set seen)"
        using gv by (intro card_mono) auto
      then have r: "set ms \<subseteq> set (visit (Suc n) g ms v) \<and> closed_from g v (visit (Suc n) g ms v)"
        using Cons.IH [of v] Cons.prems by simp
      have gr: "set v \<subseteq> set (visit (Suc n) g ms v)" by (rule visit_grows)
      have eq: "visit (Suc n) g (m # ms) seen = visit (Suc n) g ms v" using False by (simp add: v_def Let_def)
      have "closed_from g seen (visit (Suc n) g ms v)"
        unfolding closed_from_def
      proof (intro ballI impI)
        fix x assume x: "x \<in> set (visit (Suc n) g ms v) - set seen" "is_condition (g ! x)"
        then show "pos g ` set (branches (g ! x)) \<subseteq> set (visit (Suc n) g ms v)"
          using cv r gr by (cases "x \<in> set v") (auto simp: closed_from_def)
      qed
      then show ?thesis unfolding eq using r gr gv by auto
    qed
  qed (simp add: closed_from_def)
qed simp

lemma underCondition_under:
  assumes k: "branches_known g" and i: "i < length g" "is_condition (g ! i)"
  shows "set (underCondition g i) = under g i"
proof -
  let ?v = "visit (Suc (length g)) g (map (pos g) (branches (g ! i))) []"
  have b: "known g (branches (g ! i))" using k i by (simp add: branches_known_def)
  have v: "set (map (pos g) (branches (g ! i))) \<subseteq> set ?v \<and> closed_from g [] ?v"
    by (rule visit_closed [OF k members_range [OF b]]) simp
  have sub: "set ?v \<subseteq> under g i" by (rule visit_under) (auto intro: under.member)
  have range: "x < length g \<and> x \<in> set ?v" if "x \<in> under g i" for x
    using that
  proof (induction rule: under.induct)
    case (member x)
    then show ?case using v members_range [OF b] by auto
  next
    case (nested m x)
    then have "known g (branches (g ! m))" using k by (simp add: branches_known_def)
    moreover have "pos g ` set (branches (g ! m)) \<subseteq> set ?v"
      using nested v by (simp add: closed_from_def)
    ultimately show ?case using nested.hyps(3) members_range [of g "branches (g ! m)"] by auto
  qed
  show ?thesis using sub range by (auto simp: underCondition_def Let_def)
qed

lemma order_conditions_ok:
  assumes "wf_graph g" "acyclic (edge g)" "branches_known g" "set js \<subseteq> {..<length g}"
  shows "extends g (order_conditions g js) \<and>
    (\<forall>i \<in> set js. \<forall>f < length g. \<forall>m \<in> under g i.
       is_condition (g ! i) \<longrightarrow> f \<noteq> i \<longrightarrow> f \<notin> under g i \<longrightarrow>
       followsCondition g f (task_id (g ! i)) (underCondition g i) \<longrightarrow>
       after_or_before (order_conditions g js) f m)"
  using assms
proof (induction js arbitrary: g)
  case (Cons i js)
  define h where "h = (if is_condition (g ! i) \<and> underCondition g i \<noteq> []
      then order_followers g i (underCondition g i) [0..<length g] else g)"
  have i: "i < length g" using Cons.prems(4) by simp
  have eq: "order_conditions g (i # js) = order_conditions h js" by (simp add: h_def Let_def)
  have o: "extends g (order_followers g i (underCondition g i) [0..<length g]) \<and>
    (\<forall>f \<in> set [0..<length g]. \<forall>m \<in> set (underCondition g i). f \<noteq> i \<longrightarrow> f \<notin> set (underCondition g i) \<longrightarrow>
      followsCondition g f (task_id (g ! i)) (underCondition g i) \<longrightarrow>
      after_or_before (order_followers g i (underCondition g i) [0..<length g]) f m)"
    by (rule order_followers_ok [OF Cons.prems(1,2) _ underCondition_range i]) auto
  then have gh: "extends g h" using extends_refl [OF Cons.prems(1,2)] by (auto simp: h_def)
  then have wh: "wf_graph h" "acyclic (edge h)" "map strip h = map strip g" by (simp_all add: extends_def)
  have l: "length h = length g" using gh extends_length by blast
  have kh: "branches_known h"
    using Cons.prems(3) strip_nth [OF wh(3)] strip_ids [OF wh(3)] by (simp add: branches_known_def known_def l)
  have IH: "extends h (order_conditions h js) \<and>
    (\<forall>i \<in> set js. \<forall>f < length h. \<forall>m \<in> under h i.
       is_condition (h ! i) \<longrightarrow> f \<noteq> i \<longrightarrow> f \<notin> under h i \<longrightarrow>
       followsCondition h f (task_id (h ! i)) (underCondition h i) \<longrightarrow>
       after_or_before (order_conditions h js) f m)"
    by (rule Cons.IH [OF wh(1,2) kh]) (use Cons.prems(4) l in auto)
  show ?case unfolding eq
  proof (intro conjI ballI allI impI)
    show "extends g (order_conditions h js)" using gh IH extends_trans by blast
  next
    fix c f m assume c: "c \<in> set (i # js)" and f: "f < length g" and m: "m \<in> under g c"
      and cond: "is_condition (g ! c)" and ne: "f \<noteq> c" "f \<notin> under g c"
      and fol: "followsCondition g f (task_id (g ! c)) (underCondition g c)"
    have cl: "c < length g" using c Cons.prems(4) by auto
    have u: "set (underCondition g c) = under g c" by (rule underCondition_under [OF Cons.prems(3) cl cond])
    have lm: "m < length g" using m u underCondition_range [of g c] by auto
    show "after_or_before (order_conditions h js) f m"
    proof (cases "c \<in> set js")
      case True
      have uh: "underCondition h c = underCondition g c"
        by (rule underCondition_strip [OF wh(3) Cons.prems(3) cl cond])
      have condh: "is_condition (h ! c)" using strip_nth(2) [OF wh(3) cl] cond by simp
      have "under h c = under g c"
        using underCondition_under [OF kh _ condh] cl l uh u by simp
      moreover have "task_id (h ! c) = task_id (g ! c)" by (rule strip_nth(1) [OF wh(3) cl])
      moreover have "followsCondition h f (task_id (g ! c)) (underCondition g c)"
        by (rule followsCondition_mono [OF Cons.prems(1) gh f fol])
      ultimately show ?thesis using IH True m ne condh f l uh by auto
    next
      case False
      then have "c = i" using c by simp
      moreover have "underCondition g i \<noteq> []" using u m \<open>c = i\<close> by auto
      ultimately have "after_or_before h f m" using o f m ne fol cond u by (auto simp: h_def)
      then show ?thesis using after_or_before_mono [of h _ f m] IH f lm l by auto
    qed
  qed
qed (simp add: extends_refl)

subsection \<open>What a built graph is\<close>

text \<open>All a definition declares: its dependencies and its branches.\<close>

definition declared :: "tasks \<Rightarrow> (string \<times> string) set" where
  "declared ts = declared_edges ts \<union> branch_edges ts [0..<length ts]"

definition acceptable :: "tasks \<Rightarrow> bool" where
  "acceptable ts \<longleftrightarrow> distinct (ids ts) \<and> (\<forall>t \<in> set ts. known ts (dependsOn t)) \<and>
     (\<forall>i < length ts. branch_ok ts i) \<and> acyclic (declared ts)"

lemma strip_strip [simp]: "strip (strip t) = strip t"
  by (simp add: strip_def)

lemma strip_copy: "map strip (map strip ts) = map strip ts"
  by simp

lemma ids_copy [simp]: "ids (map strip ts) = ids ts"
  by (rule strip_ids [OF strip_copy])

lemma wf_copy: "distinct (ids ts) \<Longrightarrow> wf_graph (map strip ts)"
  by (simp add: wf_graph_def strip_def)

lemma edge_copy: "edge (map strip ts) = {}"
  by (auto simp: edge_def strip_def)

lemma branch_cong:
  assumes s: "map strip g = map strip ts"
  shows "i < length ts \<Longrightarrow> branch_ok g i = branch_ok ts i"
    and "branch_edges g [0..<length ts] = branch_edges ts [0..<length ts]"
proof -
  have i: "ids g = ids ts" by (rule strip_ids [OF s])
  show "i < length ts \<Longrightarrow> branch_ok g i = branch_ok ts i" for i
    using strip_nth [OF s, of i] i by (simp add: branch_ok_def known_def)
  show "branch_edges g [0..<length ts] = branch_edges ts [0..<length ts]"
    unfolding branch_edges_def
  proof (rule SUP_cong)
    fix j assume "j \<in> set [0..<length ts]"
    then have "j < length ts" by simp
    from strip_nth [OF s this]
    show "(if is_condition (g ! j) then set (branches (g ! j)) \<times> {task_id (g ! j)} else {})
        = (if is_condition (ts ! j) then set (branches (ts ! j)) \<times> {task_id (ts ! j)} else {})" by simp
  qed simp
qed

lemma declared_graph_ok:
  shows "(\<exists>g. declared_graph ts = Inr g) \<longleftrightarrow> acceptable ts"
    and "declared_graph ts = Inr g \<Longrightarrow>
      wf_graph g \<and> acyclic (edge g) \<and> map strip g = map strip ts \<and> edge g = declared ts"
proof -
  let ?g0 = "map strip ts"
  have key: "if distinct (ids ts) \<and> (\<forall>t \<in> set ts. known ts (dependsOn t)) \<and> (\<forall>i < length ts. branch_ok ts i)
    then \<exists>g. wf_graph g \<and> map strip g = map strip ts \<and> edge g = declared ts \<and>
      declared_graph ts = (case detectCycle g of Some cy \<Rightarrow> Inl (Circular cy) | None \<Rightarrow> Inr g)
    else \<exists>e. declared_graph ts = Inl e"
  proof (cases "copy_tasks [] ts")
    case (Inl e)
    then have "\<not> distinct (ids ts)" using copy_tasks_iff [of "[]" ts] by (auto simp: ids_def)
    then show ?thesis using Inl by (simp add: declared_graph_def)
  next
    case (Inr g0)
    then have d: "distinct (ids ts)" using copy_tasks_iff [of "[]" ts] by auto
    have g0: "g0 = ?g0" using copy_tasks_result [OF Inr] by simp
    note w0 = wf_copy [OF d]
    have k0: "known ?g0 = known ts" by (simp add: known_def fun_eq_iff)
    have da: "(\<exists>h. declare_all ?g0 0 ts = Inr h) \<longleftrightarrow> (\<forall>t \<in> set ts. known ts (dependsOn t))"
      using declare_all_ok(1) [OF w0, of 0 ts] by (simp add: k0)
    show ?thesis
    proof (cases "declare_all ?g0 0 ts")
      case (Inl e)
      then have "\<not> (\<forall>t \<in> set ts. known ts (dependsOn t))" using da by simp
      then show ?thesis using \<open>copy_tasks [] ts = Inr g0\<close> g0 Inl by (auto simp: declared_graph_def)
    next
      case (Inr g1)
      have g1: "wf_graph g1 \<and> map strip g1 = map strip ts \<and> edge g1 = declared_edges ts"
        using declare_all_ok(2) [OF w0 _ _ Inr] by (simp add: edge_copy)
      have known: "\<forall>t \<in> set ts. known ts (dependsOn t)" using da Inr by auto
      have l1: "length g1 = length ts" using g1 map_eq_imp_length_eq by blast
      have ab: "(\<exists>h. attach_branches g1 [0..<length ts] = Inr h) \<longleftrightarrow> (\<forall>i < length ts. branch_ok ts i)"
      proof -
        have "set [0..<length ts] \<subseteq> {..<length g1}" using l1 by auto
        from attach_branches_ok(1) [OF _ this] g1 branch_cong(1) [of g1 ts] show ?thesis by auto
      qed
      show ?thesis
      proof (cases "attach_branches g1 [0..<length ts]")
        case (Inl e)
        then have "\<not> (\<forall>i < length ts. branch_ok ts i)" using ab by simp
        then show ?thesis using \<open>copy_tasks [] ts = Inr g0\<close> g0 Inr Inl l1 by (auto simp: declared_graph_def)
      next
        case i2: (Inr g2)
        have g2: "wf_graph g2 \<and> map strip g2 = map strip g1 \<and>
            edge g2 = edge g1 \<union> branch_edges g1 [0..<length ts]"
          by (rule attach_branches_ok(2) [OF _ _ i2]) (use g1 l1 in auto)
        have "edge g2 = declared ts" using g2 g1 branch_cong(2) [of g1 ts] by (simp add: declared_def)
        moreover have "declared_graph ts = (case detectCycle g2 of Some cy \<Rightarrow> Inl (Circular cy) | None \<Rightarrow> Inr g2)"
          using \<open>copy_tasks [] ts = Inr g0\<close> g0 Inr i2 l1 by (simp add: declared_graph_def)
        moreover have "\<forall>i < length ts. branch_ok ts i" using ab i2 by auto
        ultimately show ?thesis using d known g1 g2 by auto
      qed
    qed
  qed
  show "(\<exists>g. declared_graph ts = Inr g) \<longleftrightarrow> acceptable ts"
  proof (cases "distinct (ids ts) \<and> (\<forall>t \<in> set ts. known ts (dependsOn t)) \<and> (\<forall>i < length ts. branch_ok ts i)")
    case True
    then obtain g where g: "wf_graph g" "edge g = declared ts"
      "declared_graph ts = (case detectCycle g of Some cy \<Rightarrow> Inl (Circular cy) | None \<Rightarrow> Inr g)" using key by auto
    show ?thesis using detectCycle_iff [OF g(1)] True g
      by (cases "detectCycle g") (auto simp: acceptable_def)
  next
    case False
    obtain e where "declared_graph ts = Inl e" using key unfolding if_not_P [OF False] by blast
    then show ?thesis using False unfolding acceptable_def by auto
  qed
  show "wf_graph g \<and> acyclic (edge g) \<and> map strip g = map strip ts \<and> edge g = declared ts"
    if r: "declared_graph ts = Inr g"
  proof -
    have ok: "distinct (ids ts) \<and> (\<forall>t \<in> set ts. known ts (dependsOn t)) \<and> (\<forall>i < length ts. branch_ok ts i)"
      using key r by (auto split: if_splits)
    then obtain h where h: "wf_graph h" "map strip h = map strip ts" "edge h = declared ts"
      "declared_graph ts = (case detectCycle h of Some cy \<Rightarrow> Inl (Circular cy) | None \<Rightarrow> Inr h)" using key by auto
    then have "h = g \<and> detectCycle h = None" using r by (cases "detectCycle h") auto
    then show ?thesis using h detectCycle_iff [OF h(1)] by auto
  qed
qed

lemma NewDependencyGraph_ok:
  assumes "NewDependencyGraph ts = Inr g"
  obtains d where "declared_graph ts = Inr d" "g = orderAfterBranches d" "extends d g" "wf_graph d"
    "acyclic (edge d)" "map strip d = map strip ts" "edge d = declared ts" "branches_known d"
proof -
  from assms obtain d where d: "declared_graph ts = Inr d" "g = orderAfterBranches d"
    by (auto simp: NewDependencyGraph_def res_simps)
  note ok = declared_graph_ok(2) [OF d(1)]
  have a: "acceptable ts" using declared_graph_ok(1) d(1) by blast
  have s: "map strip d = map strip ts" using ok by simp
  have l: "length d = length ts" using s map_eq_imp_length_eq by blast
  have k: "branches_known d"
    using a strip_nth [OF s] strip_ids [OF s] by (simp add: branches_known_def acceptable_def branch_ok_def known_def l)
  have r: "set [0..<length d] \<subseteq> {..<length d}" by auto
  have "extends d (order_conditions d [0..<length d])"
    using order_conditions_ok [OF conjunct1 [OF ok] conjunct1 [OF conjunct2 [OF ok]] k r] by (rule conjunct1)
  then have "extends d g" by (simp add: d(2) orderAfterBranches_def)
  with d ok k that show thesis by blast
qed

subsection \<open>The execution order\<close>

definition ready_set :: "tasks \<Rightarrow> nat list \<Rightarrow> nat set" where
  "ready_set g order = {i. i < length g \<and> i \<notin> set order \<and> set (deps g i) \<subseteq> set order}"

lemma release_ok:
  "distinct ds \<Longrightarrow> set ds \<subseteq> {..<length deg} \<Longrightarrow> release ds deg ready = (deg', ready') \<Longrightarrow>
   length deg' = length deg \<and> (\<forall>i < length deg. deg' ! i = (if i \<in> set ds then deg ! i - 1 else deg ! i)) \<and>
   set ready' = set ready \<union> {i \<in> set ds. deg ! i - 1 = 0}"
proof (induction ds arbitrary: deg ready)
  case (Cons d ds)
  let ?deg = "deg[d := deg ! d - 1]"
  have d: "d < length deg" "d \<notin> set ds" using Cons.prems by auto
  have r: "release ds ?deg (if deg ! d - 1 = 0 then ready @ [d] else ready) = (deg', ready')"
    using Cons.prems(3) by (simp add: Let_def)
  have IH: "length deg' = length ?deg \<and> (\<forall>i < length ?deg. deg' ! i = (if i \<in> set ds then ?deg ! i - 1 else ?deg ! i)) \<and>
     set ready' = set (if deg ! d - 1 = 0 then ready @ [d] else ready) \<union> {i \<in> set ds. ?deg ! i - 1 = 0}"
    by (rule Cons.IH [OF _ _ r]) (use Cons.prems in auto)
  have "{i \<in> set ds. ?deg ! i - 1 = 0} = {i \<in> set ds. deg ! i - 1 = 0}"
    using d(2) by (intro Collect_cong conj_cong refl) (metis nth_list_update_neq)
  then show ?case using IH d by (auto simp: nth_list_update split: if_splits)
qed auto

lemma deps_distinct:
  assumes "wf_graph g" "i < length g" shows "distinct (deps g i)"
proof -
  have d: "distinct (dependsOn (g ! i))" "set (dependsOn (g ! i)) \<subseteq> set (ids g)"
    using assms by (auto simp: wf_graph_def)
  have "inj_on (pos g) (set (dependsOn (g ! i)))"
  proof (rule inj_onI)
    fix x y assume "x \<in> set (dependsOn (g ! i))" "y \<in> set (dependsOn (g ! i))" "pos g x = pos g y"
    then show "x = y" using pos_known [of x g] pos_known [of y g] d(2) by auto
  qed
  then show ?thesis using d(1) by (simp add: deps_def distinct_map)
qed

lemma dependents_of_eq:
  assumes "wf_graph g" shows "dependents_of g d = filter (\<lambda>i. d \<in> set (deps g i)) [0..<length g]"
proof -
  have one: "map (\<lambda>_. i) (filter (\<lambda>j. j = d) xs) = (if d \<in> set xs then [i] else [])" if "distinct xs" for i :: nat and xs
    using that by (induction xs) (auto simp: filter_empty_conv)
  have "concat (map (\<lambda>i. map (\<lambda>_. i) (filter (\<lambda>j. j = d) (deps g i))) js) = filter (\<lambda>i. d \<in> set (deps g i)) js"
    if "set js \<subseteq> {..<length g}" for js
    using that
  proof (induction js)
    case (Cons i js)
    then show ?case using one [OF deps_distinct [OF assms, of i], of i] by simp
  qed simp
  then have "concat (map (\<lambda>i. map (\<lambda>_. i) (filter (\<lambda>j. j = d) (deps g i))) [0..<length g])
      = filter (\<lambda>i. d \<in> set (deps g i)) [0..<length g]" by (simp add: subset_eq)
  then show ?thesis by (simp only: dependents_of_def)
qed

lemma min_ready_ok: "min_ready (r # rs) = Min (set (r # rs))"
proof -
  have "foldr min rs r = Min (insert r (set rs))"
  proof (induction rs)
    case (Cons a rs)
    have "Min (insert r (set (a # rs))) = Min (insert a (insert r (set rs)))" by (simp add: insert_commute)
    also have "\<dots> = min a (Min (insert r (set rs)))" by (rule Min_insert) simp_all
    finally show ?case using Cons by simp
  qed simp
  then show ?thesis by (simp add: min_ready_def)
qed

text \<open>The invariant of \<open>order_loop\<close>.\<close>

definition order_inv :: "tasks \<Rightarrow> nat list \<Rightarrow> nat list \<Rightarrow> nat list \<Rightarrow> bool" where
  "order_inv g deg ready order \<longleftrightarrow>
     distinct order \<and> set order \<subseteq> {..<length g} \<and> length deg = length g \<and>
     (\<forall>i < length g. deg ! i = card (set (deps g i) - set order)) \<and>
     set ready = ready_set g order \<and>
     (\<forall>k < length order. order ! k \<in> ready_set g (take k order) \<and>
        (\<forall>j \<in> ready_set g (take k order). order ! k \<le> j))"

lemma ready_set_Min:
  "set ready = ready_set g order \<Longrightarrow> ready = r # rs \<Longrightarrow>
   min_ready ready \<in> ready_set g order \<and> (\<forall>j \<in> ready_set g order. min_ready ready \<le> j)"
proof -
  assume s: "set ready = ready_set g order" and r: "ready = r # rs"
  have "Min (set ready) \<in> set ready" by (rule Min_in) (simp_all add: r)
  moreover have "\<forall>j \<in> set ready. Min (set ready) \<le> j" by simp
  ultimately show ?thesis using min_ready_ok [of r rs] s r by metis
qed

lemma order_inv_step:
  assumes w: "wf_graph g" and inv: "order_inv g deg ready order" and ready: "ready = r # rs"
    and nx: "nx = min_ready ready"
    and rel: "release (dependents_of g nx) deg (filter (\<lambda>i. i \<noteq> nx) ready) = (deg', ready')"
  shows "order_inv g deg' ready' (order @ [nx])"
proof -
  note i = inv [unfolded order_inv_def]
  have m: "nx \<in> ready_set g order \<and> (\<forall>j \<in> ready_set g order. nx \<le> j)"
    using ready_set_Min [of ready g order] i ready nx by simp
  then have n: "nx < length g" "nx \<notin> set order" "set (deps g nx) \<subseteq> set order" by (auto simp: ready_set_def)
  let ?ds = "filter (\<lambda>i. nx \<in> set (deps g i)) [0..<length g]"
  have d: "dependents_of g nx = ?ds" by (rule dependents_of_eq [OF w])
  have ro: "length deg' = length deg \<and> (\<forall>i < length deg. deg' ! i = (if i \<in> set ?ds then deg ! i - 1 else deg ! i)) \<and>
     set ready' = set (filter (\<lambda>i. i \<noteq> nx) ready) \<union> {i \<in> set ?ds. deg ! i - 1 = 0}"
    by (rule release_ok [OF _ _ rel [unfolded d]]) (use i in auto)
  have deg: "deg' ! j = card (set (deps g j) - set (order @ [nx]))" if j: "j < length g" for j
  proof (cases "nx \<in> set (deps g j)")
    case True
    then have "set (deps g j) - set (order @ [nx]) = (set (deps g j) - set order) - {nx}" by auto
    then show ?thesis using ro i j True n(2) by (simp add: card_Diff_singleton)
  next
    case False
    then have "set (deps g j) - set (order @ [nx]) = set (deps g j) - set order" by auto
    then show ?thesis using ro i j False by simp
  qed
  have zero: "deg ! j = 0 \<longleftrightarrow> set (deps g j) \<subseteq> set order" if "j < length g" for j
    using i that by auto
  have zero': "deg' ! j = 0 \<longleftrightarrow> set (deps g j) \<subseteq> set (order @ [nx])" if "j < length g" for j
    using deg [OF that] by auto
  have pos: "0 < deg ! j" if "j < length g" "nx \<in> set (deps g j)" for j
    using zero [OF that(1)] that(2) n(2) by auto
  have "set ready' = ready_set g (order @ [nx])"
  proof (intro set_eqI iffI)
    fix j assume "j \<in> set ready'"
    then consider "j \<in> ready_set g order" "j \<noteq> nx" | "j < length g" "nx \<in> set (deps g j)" "deg ! j - 1 = 0"
      using ro i by auto
    then show "j \<in> ready_set g (order @ [nx])"
    proof cases
      case 1
      then show ?thesis by (auto simp: ready_set_def)
    next
      case 2
      then have "deg' ! j = 0" using ro i by simp
      then have "set (deps g j) \<subseteq> set (order @ [nx])" using zero' 2 by simp
      moreover have "j \<notin> set order"
      proof
        assume "j \<in> set order"
        then obtain k where k: "k < length order" "order ! k = j" by (auto simp: in_set_conv_nth)
        then have "set (deps g j) \<subseteq> set (take k order)" using i by (auto simp: ready_set_def)
        then show False using 2(2) n(2) set_take_subset by fastforce
      qed
      moreover have "j \<noteq> nx" using 2(2) n by auto
      ultimately show ?thesis using 2(1) by (simp add: ready_set_def)
    qed
  next
    fix j assume "j \<in> ready_set g (order @ [nx])"
    then have j: "j < length g" "j \<notin> set order" "j \<noteq> nx" "set (deps g j) \<subseteq> set (order @ [nx])"
      by (auto simp: ready_set_def)
    show "j \<in> set ready'"
    proof (cases "nx \<in> set (deps g j)")
      case True
      have "deg' ! j = 0" using zero' [OF j(1)] j(4) by simp
      then have "deg ! j - 1 = 0" using ro i j(1) True by simp
      then show ?thesis using ro True j(1) by simp
    next
      case False
      then have "j \<in> ready_set g order" using j by (auto simp: ready_set_def)
      then show ?thesis using ro i j(3) by auto
    qed
  qed
  moreover have "(order @ [nx]) ! k \<in> ready_set g (take k (order @ [nx])) \<and>
      (\<forall>j \<in> ready_set g (take k (order @ [nx])). (order @ [nx]) ! k \<le> j)" if "k < length (order @ [nx])" for k
    using that i m by (cases "k = length order") (auto simp: nth_append)
  ultimately show ?thesis using i ro n deg by (simp add: order_inv_def)
qed

lemma order_loop_inv:
  assumes w: "wf_graph g"
  shows "order_inv g deg ready order \<Longrightarrow> length order + n = length g \<Longrightarrow>
    \<exists>deg' ready'. order_inv g deg' ready' (order_loop n g deg ready order) \<and>
      (ready' = [] \<or> length (order_loop n g deg ready order) = length g)"
proof (induction n arbitrary: deg ready order)
  case 0
  then show ?case by (cases ready) auto
next
  case (Suc n)
  show ?case
  proof (cases ready)
    case Nil
    then show ?thesis using Suc.prems(1) by auto
  next
    case (Cons r rs)
    define nx where "nx = min_ready ready"
    obtain deg' ready' where rel: "release (dependents_of g nx) deg (filter (\<lambda>i. i \<noteq> nx) ready) = (deg', ready')"
      by (cases "release (dependents_of g nx) deg (filter (\<lambda>i. i \<noteq> nx) ready)")
    have inv': "order_inv g deg' ready' (order @ [nx])"
      by (rule order_inv_step [OF w Suc.prems(1) Cons nx_def rel])
    have eq: "order_loop (Suc n) g deg ready order = order_loop n g deg' ready' (order @ [nx])"
      using rel Cons by (simp add: Let_def nx_def)
    show ?thesis unfolding eq by (rule Suc.IH [OF inv']) (use Suc.prems(2) in simp)
  qed
qed

lemma order_inv_start:
  assumes "wf_graph g"
  defines "deg \<equiv> map (\<lambda>t. length (dependsOn t)) g"
  shows "order_inv g deg (filter (\<lambda>i. deg ! i = 0) [0..<length g]) []"
proof -
  have "deg ! i = card (set (deps g i))" if "i < length g" for i
    using distinct_card [OF deps_distinct [OF assms(1) that]] that by (simp add: deg_def) (simp add: deps_def)
  then show ?thesis by (auto simp: order_inv_def ready_set_def deg_def deps_def)
qed

lemma execution_indexes_inv:
  assumes "wf_graph g"
  shows "\<exists>deg ready. order_inv g deg ready (execution_indexes g) \<and>
    (ready = [] \<or> length (execution_indexes g) = length g)"
  using order_loop_inv [OF assms order_inv_start [OF assms], of "length g"]
  by (simp add: execution_indexes_def Let_def)

lemma acyclic_all_ordered:
  assumes w: "wf_graph g" and a: "acyclic (edge g)" and inv: "order_inv g deg [] order"
  shows "set order = {..<length g}"
proof (rule ccontr)
  assume "set order \<noteq> {..<length g}"
  moreover have "set order \<subseteq> {..<length g}" using inv by (simp add: order_inv_def)
  ultimately obtain i where i: "i < length g" "i \<notin> set order" by auto
  have none: "ready_set g order = {}" using inv by (auto simp: order_inv_def)
  have "finite (edge g)"
    by (rule finite_subset [of _ "(\<Union>t \<in> set g. {task_id t} \<times> set (dependsOn t))"]) (auto simp: edge_def)
  then have wfe: "wf ((edge g)\<inverse>)" using a by (simp add: finite_acyclic_wf_converse)
  define left where "left = {task_id (g ! j) | j. j < length g \<and> j \<notin> set order}"
  have "task_id (g ! i) \<in> left" using i by (auto simp: left_def)
  from wfE_min [OF wfe this] obtain x where x: "x \<in> left" and least: "\<And>y. (y, x) \<in> (edge g)\<inverse> \<Longrightarrow> y \<notin> left"
    by metis
  from x obtain j where j: "j < length g" "j \<notin> set order" "x = task_id (g ! j)" by (auto simp: left_def)
  have "set (deps g j) \<subseteq> set order"
    using least deps_edge [OF w j(1)] j(3) by (auto simp: left_def)
  then show False using none j by (auto simp: ready_set_def)
qed

lemma execution_indexes_ok:
  assumes w: "wf_graph g" and a: "acyclic (edge g)"
  defines "order \<equiv> execution_indexes g"
  shows "distinct order \<and> set order = {..<length g} \<and> length order = length g \<and>
    (\<forall>k < length g. order ! k \<in> ready_set g (take k order) \<and> (\<forall>j \<in> ready_set g (take k order). order ! k \<le> j))"
proof -
  obtain deg ready where inv: "order_inv g deg ready order" and e: "ready = [] \<or> length order = length g"
    using execution_indexes_inv [OF w] unfolding order_def by blast
  have d: "distinct order" "set order \<subseteq> {..<length g}" using inv by (simp_all add: order_inv_def)
  have s: "set order = {..<length g}"
  proof (cases "ready = []")
    case True
    then show ?thesis using acyclic_all_ordered [OF w a] inv by simp
  next
    case False
    then have "card (set order) = card {..<length g}" using e distinct_card [OF d(1)] by simp
    then show ?thesis using d(2) card_subset_eq [of "{..<length g}" "set order"] by simp
  qed
  then have "length order = length g" using distinct_card [OF d(1)] by simp
  then show ?thesis using d s inv by (simp add: order_inv_def)
qed

text \<open>\<open>a\<close> comes before \<open>b\<close> in a list.\<close>

definition before :: "'a list \<Rightarrow> 'a \<Rightarrow> 'a \<Rightarrow> bool" where
  "before xs a b \<longleftrightarrow> (\<exists>k < length xs. xs ! k = b \<and> a \<in> set (take k xs))"

lemma before_trans: "distinct xs \<Longrightarrow> before xs a b \<Longrightarrow> before xs b c \<Longrightarrow> before xs a c"
proof -
  assume d: "distinct xs" and "before xs a b" "before xs b c"
  then obtain k l where k: "k < length xs" "xs ! k = b" "a \<in> set (take k xs)"
    and l: "l < length xs" "xs ! l = c" "b \<in> set (take l xs)" by (auto simp: before_def)
  then obtain m where m: "m < l" "xs ! m = b" by (auto simp: in_set_conv_nth)
  then have "m = k" using d k l by (metis nth_eq_iff_index_eq order_less_trans)
  then have "set (take k xs) \<subseteq> set (take l xs)" using m by (intro set_take_subset_set_take) simp
  then show ?thesis using k l by (auto simp: before_def)
qed

lemma order_respects_edges:
  assumes w: "wf_graph g" and a: "acyclic (edge g)" and e: "(x, y) \<in> (edge g)\<^sup>+"
  shows "before (map (\<lambda>i. task_id (g ! i)) (execution_indexes g)) y x"
proof -
  let ?o = "execution_indexes g" and ?f = "\<lambda>i. task_id (g ! i)"
  note ok = execution_indexes_ok [OF w a]
  have dist: "distinct (map ?f ?o)"
    using ok task_id_inj [of g] w by (auto simp: distinct_map inj_on_def wf_graph_def)
  have direct: "before (map ?f ?o) y x" if e: "(x, y) \<in> edge g" for x y
  proof -
    obtain i where i: "i < length g" "x = ?f i" using edge_ids [OF e] by (auto simp: in_ids)
    obtain j where j: "j < length g" "y = ?f j" using edge_target [OF w e] by (auto simp: in_ids)
    obtain k where k: "k < length g" "?o ! k = i" using ok i(1) by (metis in_set_conv_nth lessThan_iff)
    have "j \<in> set (deps g i)" using deps_edge [OF w i(1)] e i j by simp
    then have "j \<in> set (take k ?o)" using ok k by (auto simp: ready_set_def)
    then show ?thesis using ok k i j by (auto simp: before_def take_map intro!: exI [of _ k])
  qed
  from e show ?thesis
    by (induction rule: trancl_induct) (auto intro: direct before_trans [OF dist])
qed

lemma GetExecutionOrder_ids:
  assumes w: "wf_graph g" and a: "acyclic (edge g)"
  shows "\<exists>order. GetExecutionOrder g = Inr order \<and> ids order = map (\<lambda>i. task_id (g ! i)) (execution_indexes g)
    \<and> mset order = mset g"
proof -
  note ok = execution_indexes_ok [OF w a]
  have "mset (execution_indexes g) = mset [0..<length g]"
    using ok by (intro iffD1 [OF set_eq_iff_mset_eq_distinct]) auto
  then have "mset (map (\<lambda>i. g ! i) (execution_indexes g)) = mset (map (\<lambda>i. g ! i) [0..<length g])" by simp
  then show ?thesis using ok by (simp add: GetExecutionOrder_def Let_def ids_def map_nth comp_def)
qed

lemma acceptable_known: "acceptable ts \<Longrightarrow> branches_known ts"
  by (simp add: acceptable_def branches_known_def branch_ok_def)

lemma under_declared:
  assumes a: "acceptable ts" and i: "i < length ts" "is_condition (ts ! i)" and m: "m \<in> under ts i"
  shows "m < length ts \<and> (task_id (ts ! m), task_id (ts ! i)) \<in> (declared ts)\<^sup>+"
proof -
  have branch: "(x, task_id (ts ! j)) \<in> declared ts \<and> pos ts x < length ts \<and> task_id (ts ! pos ts x) = x"
    if "j < length ts" "is_condition (ts ! j)" "x \<in> set (branches (ts ! j))" for j x
    using that acceptable_known [OF a] pos_known [of x ts]
    by (force simp: declared_def branch_edges_def branches_known_def known_def)
  from m show ?thesis
  proof (induction rule: under.induct)
    case (member x)
    then show ?case using branch [OF i] by auto
  next
    case (nested m x)
    then show ?case using branch [of m x] by (auto intro: trancl_into_trancl2)
  qed
qed

lemma under_same:
  assumes "acceptable ts" "map strip d = map strip ts" "branches_known d" "i < length ts" "is_condition (ts ! i)"
  shows "under d i = under ts i" "underCondition d i = underCondition ts i"
proof -
  show u: "underCondition d i = underCondition ts i"
    using assms by (intro underCondition_strip acceptable_known)
  have "length d = length ts" using assms(2) map_eq_imp_length_eq by blast
  then show "under d i = under ts i"
    using underCondition_under [OF assms(3), of i] underCondition_under [OF acceptable_known [OF assms(1)], of i]
      strip_nth(2) [OF assms(2,4)] assms(4,5) u by simp
qed

text \<open>The facts a property of a built graph rests on, in one place.\<close>

lemma built_graph:
  assumes "NewDependencyGraph ts = Inr g"
  shows "acceptable ts" "wf_graph g" "acyclic (edge g)" "map strip g = map strip ts" "declared ts \<subseteq> edge g"
    "\<exists>order. GetExecutionOrder g = Inr order \<and> ids order = map (\<lambda>i. task_id (g ! i)) (execution_indexes g)
       \<and> mset order = mset g"
proof -
  obtain d where d: "declared_graph ts = Inr d" "extends d g" "map strip d = map strip ts" "edge d = declared ts"
    using assms by (rule NewDependencyGraph_ok)
  show "acceptable ts" using declared_graph_ok(1) d(1) by blast
  show w: "wf_graph g" and a: "acyclic (edge g)" and "map strip g = map strip ts" "declared ts \<subseteq> edge g"
    using d by (auto simp: extends_def)
  show "\<exists>order. GetExecutionOrder g = Inr order \<and> ids order = map (\<lambda>i. task_id (g ! i)) (execution_indexes g)
       \<and> mset order = mset g" by (rule GetExecutionOrder_ids [OF w a])
qed

lemma order_follows:
  assumes g: "NewDependencyGraph ts = Inr g" and o: "GetExecutionOrder g = Inr order" and e: "(x, y) \<in> (edge g)\<^sup>+"
  shows "before (ids order) y x"
  using order_respects_edges [OF built_graph(2,3) [OF g] e] built_graph(6) [OF g] o by auto

subsection \<open>Properties\<close>

lemma graph_acceptable:
  "(\<exists>g. NewDependencyGraph ts = Inr g) \<longleftrightarrow> acceptable ts"
  unfolding declared_graph_ok(1) [symmetric] by (auto simp: NewDependencyGraph_def res_simps)

text \<open>
  C2. A definition's tasks make a dependency graph exactly when their ids are distinct, every
  dependency and every branch member names a task, no condition lists itself, and the
  declared dependencies and branches together have no cycle. The orderings added after that
  never make a definition fail.
\<close>

theorem graph_accepted_iff:
  "(\<exists>g. NewDependencyGraph ts = Inr g) \<longleftrightarrow> acceptable ts"
  by (rule graph_acceptable)

text \<open>
  C3. Every accepted definition has an execution order: it holds each task of the graph once,
  and everything a task waits for comes before it, the orderings its conditions imply
  included.
\<close>

theorem execution_order_exists:
  assumes "NewDependencyGraph ts = Inr g"
  shows "\<exists>order. GetExecutionOrder g = Inr order \<and> mset order = mset g \<and>
    (\<forall>t \<in> set g. \<forall>d \<in> set (dependsOn t). before (ids order) d (task_id t))"
proof -
  obtain order where o: "GetExecutionOrder g = Inr order" "mset order = mset g" using built_graph(6) [OF assms] by auto
  have "before (ids order) d (task_id t)" if "t \<in> set g" "d \<in> set (dependsOn t)" for t d
    using that by (intro order_follows [OF assms o(1)] r_into_trancl) (auto simp: edge_def)
  with o show ?thesis by auto
qed

text \<open>
  At every point of the execution order the next task is the one declared first among
  those whose dependencies are all done, so an accepted definition has exactly one order.
\<close>

theorem declared_first_goes_first:
  assumes "NewDependencyGraph ts = Inr g" and "k < length g"
  shows "execution_indexes g ! k \<in> ready_set g (take k (execution_indexes g)) \<and>
    (\<forall>j \<in> ready_set g (take k (execution_indexes g)). execution_indexes g ! k \<le> j)"
  using execution_indexes_ok [OF built_graph(2,3) [OF assms(1)]] assms(2) by simp

text \<open>
  A condition runs before every task in its branches, the branches of the conditions
  among them included, whether or not the tasks declare the dependency: the branch not taken
  can always still be skipped when the condition settles.
\<close>

theorem condition_before_its_branches:
  assumes "NewDependencyGraph ts = Inr g" and "GetExecutionOrder g = Inr order"
    and "i < length ts" and "is_condition (ts ! i)" and "m \<in> under ts i"
  shows "before (ids order) (task_id (ts ! i)) (task_id (ts ! m))"
proof -
  note b = built_graph [OF assms(1)]
  have "(task_id (ts ! m), task_id (ts ! i)) \<in> (declared ts)\<^sup>+"
    using under_declared [OF b(1) assms(3-5)] by simp
  then have "(task_id (ts ! m), task_id (ts ! i)) \<in> (edge g)\<^sup>+" using b(5) by (rule trancl_mono)
  then show ?thesis by (rule order_follows [OF assms(1,2)])
qed

text \<open>
  A task outside a condition's branches that declares a dependency on the condition, or on
  anything in its branches, runs after everything in its branches, except after a task that
  itself waits for it.
\<close>

theorem followers_run_after_branches:
  assumes "NewDependencyGraph ts = Inr g" and "GetExecutionOrder g = Inr order"
    and "i < length ts" and "is_condition (ts ! i)" and "f < length ts" and "f \<noteq> i" and "f \<notin> under ts i"
    and "(task_id (ts ! f), d) \<in> declared ts" and "d = task_id (ts ! i) \<or> pos ts d \<in> under ts i"
    and "m \<in> under ts i"
  shows "before (ids order) (task_id (ts ! m)) (task_id (ts ! f)) \<or>
    (task_id (ts ! m), task_id (ts ! f)) \<in> (edge g)\<^sup>+"
proof -
  obtain h where h: "g = orderAfterBranches h" "wf_graph h" "acyclic (edge h)" "map strip h = map strip ts"
    "edge h = declared ts" "branches_known h"
    using assms(1) by (rule NewDependencyGraph_ok)
  note b = built_graph [OF assms(1)]
  have l: "length h = length ts" using h(4) map_eq_imp_length_eq by blast
  note sn = strip_nth [OF h(4)]
  note u = under_same [OF b(1) h(4,6) assms(3,4)]
  have fol: "followsCondition h f (task_id (h ! i)) (underCondition h i)"
    using assms(3,5,8,9) followsCondition_edge [OF h(2), of f] sn(1) [OF assms(5)] sn(1) [OF assms(3)] l h(5)
      same_pos [OF strip_ids [OF h(4)]] underCondition_under [OF h(6), of i] u(1) sn(2) [OF assms(3)] assms(4)
    by auto
  have r: "set [0..<length h] \<subseteq> {..<length h}" by auto
  have "after_or_before (order_conditions h [0..<length h]) f m"
    using order_conditions_ok [OF h(2,3,6) r] assms(3-7,10) l u(1) fol sn(2) [OF assms(3)] by simp
  then have ab: "after_or_before g f m" by (simp add: h(1) orderAfterBranches_def)
  have m: "m < length ts" using under_declared [OF b(1) assms(3,4,10)] by simp
  have ids: "task_id (g ! f) = task_id (ts ! f)" "task_id (g ! m) = task_id (ts ! m)"
    using strip_nth(1) [OF b(4)] assms(5) m by auto
  show ?thesis
    using ab order_follows [OF assms(1,2) r_into_trancl, of "task_id (ts ! f)" "task_id (ts ! m)"]
    unfolding after_or_before_def ids by blast
qed

subsection \<open>A definition the properties apply to\<close>

text \<open>A condition \<open>c\<close> over \<open>x\<close> and \<open>y\<close>, and \<open>z\<close>, which declares that it follows \<open>x\<close>.\<close>

definition sample_task :: "string \<Rightarrow> string list \<Rightarrow> TaskDefinition" where
  "sample_task i ds = blank_task\<lparr>task_id := i, task_type := ''action'', dependsOn := ds\<rparr>"

definition sample :: tasks where
  "sample =
    [sample_task ''z'' [''x''],
     blank_task\<lparr>task_id := ''c'', task_type := ''condition'', onTrue := [''x''], onFalse := [''y'']\<rparr>,
     sample_task ''x'' [], sample_task ''y'' []]"

definition run_order :: "tasks \<Rightarrow> string list option" where
  "run_order ts =
     (case NewDependencyGraph ts of
        Inl _ \<Rightarrow> None
      | Inr g \<Rightarrow> (case GetExecutionOrder g of Inl _ \<Rightarrow> None | Inr order \<Rightarrow> Some (ids order)))"

lemma run_order_Some:
  "run_order ts = Some xs \<Longrightarrow> \<exists>g order. NewDependencyGraph ts = Inr g \<and> GetExecutionOrder g = Inr order \<and> ids order = xs"
  by (auto simp: run_order_def split: sum.splits)

lemma run_order_sample: "run_order sample = Some [''c'', ''x'', ''y'', ''z'']"
  by code_simp

lemma sample_graph:
  obtains g order where "NewDependencyGraph sample = Inr g" "GetExecutionOrder g = Inr order"
    "ids order = [''c'', ''x'', ''y'', ''z'']"
  using run_order_Some [OF run_order_sample] by blast

lemma sample_under: "is_condition (sample ! 1)" "2 \<in> under sample 1" "3 \<in> under sample 1" "0 \<notin> under sample 1"
proof -
  show c: "is_condition (sample ! 1)" by code_simp
  have "branches (sample ! 1) = [''x'', ''y'']" "pos sample ''x'' = 2" "pos sample ''y'' = 3" by code_simp+
  then show "2 \<in> under sample 1" "3 \<in> under sample 1"
    using under.member [of "''x''" sample 1] under.member [of "''y''" sample 1] by simp_all
  have "\<exists>g. NewDependencyGraph sample = Inr g" using sample_graph by blast
  then have k: "branches_known sample" using graph_acceptable acceptable_known by blast
  have "set (underCondition sample 1) = {2, 3}" by code_simp
  moreover have "length sample = 4" by (simp add: sample_def)
  ultimately have "under sample 1 = {2, 3}" using underCondition_under [OF k _ c] by simp
  then show "0 \<notin> under sample 1" by simp
qed

theorem execution_order_exists_witness:
  "\<exists>g order. NewDependencyGraph sample = Inr g \<and> GetExecutionOrder g = Inr order \<and> mset order = mset g"
  using sample_graph execution_order_exists by metis

theorem declared_first_goes_first_witness:
  "\<exists>g. NewDependencyGraph sample = Inr g \<and> execution_indexes g ! 0 \<in> ready_set g []"
proof -
  obtain g order where g: "NewDependencyGraph sample = Inr g" by (rule sample_graph)
  have "length g = length sample" using built_graph(4) [OF g] map_eq_imp_length_eq by blast
  then have "0 < length g" by (simp add: sample_def)
  from declared_first_goes_first [OF g this] g show ?thesis by auto
qed

theorem condition_before_its_branches_witness:
  "before [''c'', ''x'', ''y'', ''z''] ''c'' ''y''"
proof -
  obtain g order where g: "NewDependencyGraph sample = Inr g" "GetExecutionOrder g = Inr order"
    "ids order = [''c'', ''x'', ''y'', ''z'']" by (rule sample_graph)
  have "before (ids order) (task_id (sample ! 1)) (task_id (sample ! 3))"
    by (rule condition_before_its_branches [OF g(1,2) _ sample_under(1,3)]) (simp add: sample_def)
  then show ?thesis using g(3) by (simp add: sample_def sample_task_def)
qed

theorem followers_run_after_branches_witness:
  "\<exists>g. NewDependencyGraph sample = Inr g \<and>
     (before [''c'', ''x'', ''y'', ''z''] ''y'' ''z'' \<or> (''y'', ''z'') \<in> (edge g)\<^sup>+)"
proof -
  obtain g order where g: "NewDependencyGraph sample = Inr g" "GetExecutionOrder g = Inr order"
    "ids order = [''c'', ''x'', ''y'', ''z'']" by (rule sample_graph)
  have ids: "task_id (sample ! 0) = ''z''" "task_id (sample ! 3) = ''y''" "length sample = 4"
    by (simp_all add: sample_def sample_task_def)
  have p: "pos sample ''x'' = 2" by code_simp
  have d: "(task_id (sample ! 0), ''x'') \<in> declared sample"
    by (simp add: declared_def declared_edges_def sample_def sample_task_def)
  have "before (ids order) (task_id (sample ! 3)) (task_id (sample ! 0)) \<or>
      (task_id (sample ! 3), task_id (sample ! 0)) \<in> (edge g)\<^sup>+"
    by (rule followers_run_after_branches [OF g(1,2) _ sample_under(1) _ _ sample_under(4) d _ sample_under(3)])
      (use ids p sample_under(2) in simp_all)
  then show ?thesis using g by (auto simp: ids)
qed

end
