(* ===== verification/Wait_Task.thy ===== *)
theory Wait_Task
  imports Workflow_Types
begin

text \<open>
  \<open>workflow/internal/tasks/wait.go\<close>: a task that suspends its run until an event arrives, enough
  events have, or a time passes. \<open>time.Now()\<close> is a parameter: \<open>clock k\<close> is the reading of
  the \<open>k\<close>-th call in the text of \<open>InitWaitState\<close>, \<open>now\<close> the one \<open>processAggregation\<close> makes.
\<close>

definition WaitTypeEvent :: string where "WaitTypeEvent = ''event''"
definition WaitTypeAggregation :: string where "WaitTypeAggregation = ''aggregation''"
definition WaitTypeDelay :: string where "WaitTypeDelay = ''delay''"
definition OnTimeoutContinue :: string where "OnTimeoutContinue = ''continue''"
definition OnTimeoutFail :: string where "OnTimeoutFail = ''fail''"
definition AggregateCount :: string where "AggregateCount = ''count''"
definition AggregateSum :: string where "AggregateSum = ''sum''"
definition AggregateThreshold :: string where "AggregateThreshold = ''threshold''"
definition Millisecond :: duration where "Millisecond = 1000000"
definition MinWaitTimeout :: duration where "MinWaitTimeout = 1000000000"
definition MinDelayMs :: int where "MinDelayMs = 1"
definition MaxDelayMs :: int where "MaxDelayMs = 24 * 60 * 60 * 1000"

lemmas wait_consts = WaitTypeEvent_def WaitTypeAggregation_def WaitTypeDelay_def OnTimeoutContinue_def
  OnTimeoutFail_def AggregateCount_def AggregateSum_def AggregateThreshold_def Millisecond_def
  MinWaitTimeout_def MinDelayMs_def MaxDelayMs_def

datatype wait_error =
    NoWaitConfig
  | UnknownWaitType string
  | NoEvent string
  | NoAggregationConfig
  | UnknownStrategy string
  | DurationOffDelay
  | TimeoutTooShort duration
  | UnknownOnTimeout string
  | DelayOutOfRange int
  | DelayWithEvent
  | DelayWithTimeout

subsection \<open>Validation\<close>

definition HasTimeout :: "WaitConfig option \<Rightarrow> bool" where
  "HasTimeout cfg =
     (case cfg of None \<Rightarrow> False
      | Some c \<Rightarrow> (case wc_timeout c of None \<Rightarrow> False | Some d \<Rightarrow> d \<noteq> 0))"

definition IsDelay :: "WaitConfig option \<Rightarrow> bool" where
  "IsDelay cfg = (case cfg of None \<Rightarrow> False | Some c \<Rightarrow> wc_type c = WaitTypeDelay)"

definition waitTypeName :: "WaitConfig \<Rightarrow> string" where
  "waitTypeName cfg = (if wc_type cfg = '''' then WaitTypeEvent else wc_type cfg)"

definition validateDelayConfig :: "WaitConfig \<Rightarrow> wait_error option" where
  "validateDelayConfig cfg =
     (if wc_durationMs cfg < MinDelayMs \<or> MaxDelayMs < wc_durationMs cfg
      then Some (DelayOutOfRange (wc_durationMs cfg))
      else if wc_event cfg \<noteq> '''' \<or> wc_conditions cfg \<noteq> [] \<or> wc_aggregation cfg \<noteq> None
      then Some DelayWithEvent
      else if HasTimeout (Some cfg) \<or> wc_onTimeout cfg \<noteq> '''' then Some DelayWithTimeout
      else None)"

definition validate_end :: "WaitConfig \<Rightarrow> wait_error option" where
  "validate_end cfg =
     (if wc_durationMs cfg \<noteq> 0 then Some DurationOffDelay
      else if HasTimeout (Some cfg) \<and> the (wc_timeout cfg) < MinWaitTimeout
      then Some (TimeoutTooShort (the (wc_timeout cfg)))
      else if wc_onTimeout cfg \<notin> {'''', OnTimeoutContinue, OnTimeoutFail}
      then Some (UnknownOnTimeout (wc_onTimeout cfg))
      else None)"

definition ValidateWaitConfig :: "WaitConfig option \<Rightarrow> wait_error option" where
  "ValidateWaitConfig c =
     (case c of
        None \<Rightarrow> Some NoWaitConfig
      | Some cfg \<Rightarrow>
          if wc_type cfg = WaitTypeDelay then validateDelayConfig cfg
          else if wc_type cfg \<notin> {'''', WaitTypeEvent, WaitTypeAggregation}
          then Some (UnknownWaitType (wc_type cfg))
          else if wc_event cfg = '''' then Some (NoEvent (waitTypeName cfg))
          else if wc_type cfg = WaitTypeAggregation \<and> wc_aggregation cfg = None
          then Some NoAggregationConfig
          else
            (case wc_aggregation cfg of
               Some a \<Rightarrow>
                 if ac_strategy a \<notin> {AggregateCount, AggregateSum, AggregateThreshold}
                 then Some (UnknownStrategy (ac_strategy a)) else validate_end cfg
             | None \<Rightarrow> validate_end cfg))"

subsection \<open>The state of a wait\<close>

text \<open>The zero time means no deadline.\<close>

definition init_aggregation :: "AggregationConfig \<Rightarrow> time \<Rightarrow> (nat \<Rightarrow> time) \<Rightarrow> AggregationState" where
  "init_aggregation a timeout clock =
     \<lparr>as_strategy = ac_strategy a, as_field = ac_field a, as_count = 0, as_sum = f_zero,
      as_threshold = ac_threshold a, as_windowStart = clock 3,
      as_windowEnd =
        (case ac_window a of Some d \<Rightarrow> (if d > 0 then clock 2 + d else timeout) | None \<Rightarrow> timeout)\<rparr>"

definition InitWaitState :: "TaskDefinition \<Rightarrow> (nat \<Rightarrow> time) \<Rightarrow> WaitState option" where
  "InitWaitState taskDef clock =
     (case task_wait taskDef of
        None \<Rightarrow> None
      | Some cfg \<Rightarrow>
          if IsDelay (Some cfg)
          then Some \<lparr>ws_event = '''', ws_conditions = [],
                     ws_timeout = clock 0 + wc_durationMs cfg * Millisecond, ws_onTimeout = '''',
                     ws_aggregation = None, ws_received = [], ws_satisfied = False, ws_timedOut = False\<rparr>
          else
            (let timeout = (if HasTimeout (Some cfg) then clock 1 + the (wc_timeout cfg) else 0)
             in Some \<lparr>ws_event = wc_event cfg, ws_conditions = wc_conditions cfg, ws_timeout = timeout,
                      ws_onTimeout = (if wc_onTimeout cfg \<noteq> '''' then wc_onTimeout cfg else OnTimeoutFail),
                      ws_aggregation = map_option (\<lambda>a. init_aggregation a timeout clock) (wc_aggregation cfg),
                      ws_received = [], ws_satisfied = False, ws_timedOut = False\<rparr>))"

subsection \<open>Events\<close>

datatype agg_error =
    AggregationMissing
  | FieldNotOnEvent string string
  | CannotConvert val
  | NoNumberOnEvent string string

text \<open>\<open>toFloat64\<close> of \<open>wait.go\<close>, which fails where the one of \<open>evaluator.go\<close> says no.\<close>

definition number_of :: "val \<Rightarrow> (agg_error, f64) res" where
  "number_of v =
     (case v of VInt i \<Rightarrow> Inr (f_of_int i) | VFloat x \<Rightarrow> Inr x | _ \<Rightarrow> Inl (CannotConvert v))"

definition event_source :: "Event \<Rightarrow> val" where
  "event_source e = VMap
    [(''id'', VStr (ev_id e)), (''type'', VStr (ev_type e)), (''source'', VStr (ev_source e)),
     (''time'', VOther ''time.Time'' (itoa (ev_time e))), (''data'', VMap (ev_data e))]"

fun conditions_loop :: "golib \<Rightarrow> condition list \<Rightarrow> resolver \<Rightarrow> bool" where
  "conditions_loop L [] r = True"
| "conditions_loop L (c # cs) r =
     (case Evaluate L c r of
        (Inl _, _) \<Rightarrow> False
      | (Inr matched, r') \<Rightarrow> if \<not> matched then False else conditions_loop L cs r')"

definition matchesConditions :: "golib \<Rightarrow> Event \<Rightarrow> condition list \<Rightarrow> bool" where
  "matchesConditions L e conditions =
     (if conditions = [] then True
      else conditions_loop L conditions (AddSource ''event'' (event_source e) NewResolver))"

definition extractNumericValue :: "Event \<Rightarrow> WaitState \<Rightarrow> (agg_error, f64) res" where
  "extractNumericValue e w =
     (case ws_aggregation w of
        None \<Rightarrow> Inl AggregationMissing
      | Some agg \<Rightarrow>
          if as_field agg \<noteq> ''''
          then (case ResolvePath (VMap [(''data'', VMap (ev_data e))]) (as_field agg) of
                  Inl _ \<Rightarrow> Inl (FieldNotOnEvent (as_field agg) (ev_type e))
                | Inr v \<Rightarrow> number_of v)
          else (case map_of (ev_data e) ''amount'' of
                  Some v \<Rightarrow> number_of v
                | None \<Rightarrow>
                    (case map_of (ev_data e) ''value'' of
                       Some v \<Rightarrow> number_of v
                     | None \<Rightarrow> Inl (NoNumberOnEvent (as_strategy agg) (ev_type e)))))"

text \<open>
  The Go code reads \<open>value\<close> of a failed extraction as 0; only \<open>count\<close> gets there, and it does
  not compare it.
\<close>

definition aggregate_met :: "AggregationState \<Rightarrow> f64 \<Rightarrow> bool" where
  "aggregate_met agg v =
     (if as_strategy agg = AggregateCount then f_le (as_threshold agg) (f_of_int (as_count agg))
      else if as_strategy agg = AggregateSum then f_le (as_threshold agg) (as_sum agg)
      else if as_strategy agg = AggregateThreshold then f_le (as_threshold agg) v
      else False)"

definition processAggregation ::
  "time \<Rightarrow> Event \<Rightarrow> WaitState \<Rightarrow> AggregationState \<Rightarrow> (agg_error, bool) res \<times> WaitState" where
  "processAggregation now e w agg =
     (if as_windowEnd agg \<noteq> 0 \<and> as_windowEnd agg < now then (Inr False, w)
      else
        (let r = extractNumericValue e w
         in if isl r \<and> (as_strategy agg = AggregateSum \<or> as_strategy agg = AggregateThreshold)
            then (map_sum (\<lambda>x. x) (\<lambda>_. False) r, w)
            else
              (let v = (case r of Inl _ \<Rightarrow> f_zero | Inr x \<Rightarrow> x);
                   counted = agg\<lparr>as_count := as_count agg + 1\<rparr>;
                   summed = (case r of Inl _ \<Rightarrow> counted | Inr x \<Rightarrow> counted\<lparr>as_sum := f_add (as_sum agg) x\<rparr>);
                   received = w\<lparr>ws_received := ws_received w @ [e], ws_aggregation := Some summed\<rparr>
               in if aggregate_met summed v then (Inr True, received\<lparr>ws_satisfied := True\<rparr>)
                  else (Inr False, received))))"

definition ProcessEvent ::
  "golib \<Rightarrow> time \<Rightarrow> Event \<Rightarrow> WaitState \<Rightarrow> (agg_error, bool) res \<times> WaitState" where
  "ProcessEvent L now e w =
     (if ev_type e \<noteq> ws_event w then (Inr False, w)
      else if \<not> matchesConditions L e (ws_conditions w) then (Inr False, w)
      else (case ws_aggregation w of
              None \<Rightarrow> (Inr True, w\<lparr>ws_received := ws_received w @ [e], ws_satisfied := True\<rparr>)
            | Some agg \<Rightarrow> processAggregation now e w agg))"

subsection \<open>The end of a wait\<close>

definition Expire :: "WaitConfig option \<Rightarrow> WaitState \<Rightarrow> WaitState" where
  "Expire cfg w = (if IsDelay cfg then w\<lparr>ws_satisfied := True\<rparr> else w\<lparr>ws_timedOut := True\<rparr>)"

text \<open>An export is a value of the run or one of the events, which are Go structs.\<close>

datatype wait_export = Plain val | AnEvent Event | Events "Event list"

definition GetExports :: "WaitState \<Rightarrow> (string \<times> wait_export) list" where
  "GetExports w =
     [(''satisfied'', Plain (VBool (ws_satisfied w))), (''timedOut'', Plain (VBool (ws_timedOut w))),
      (''events'', Events (ws_received w))]
     @ (case ws_aggregation w of
          None \<Rightarrow> []
        | Some agg \<Rightarrow> [(''count'', Plain (VInt (as_count agg))), (''sum'', Plain (VFloat (as_sum agg)))])
     @ (if ws_received w \<noteq> []
        then [(''lastEvent'', AnEvent (last (ws_received w))),
              (''data'', Plain (VMap (ev_data (last (ws_received w)))))]
        else [(''data'', Plain (VOpen []))])"

definition RestoreWaitExports :: "obj \<Rightarrow> obj" where
  "RestoreWaitExports recorded =
     (if map_of recorded ''lastEvent'' \<noteq> None then recorded
      else filter (\<lambda>p. fst p \<noteq> ''data'') recorded @ [(''data'', VOpen [])])"
subsection \<open>What every event leaves as it was\<close>

text \<open>
  The part of a wait's state that is fixed when it starts. Two states with the same part take
  the same events.
\<close>

definition settings :: "WaitState \<Rightarrow> string \<times> condition list \<times> time \<times> string \<times> (string \<times> string \<times> f64 \<times> time) option" where
  "settings w =
     (ws_event w, ws_conditions w, ws_timeout w, ws_onTimeout w,
      map_option (\<lambda>a. (as_strategy a, as_field a, as_threshold a, as_windowEnd a)) (ws_aggregation w))"

definition in_window :: "time \<Rightarrow> WaitState \<Rightarrow> bool" where
  "in_window now w =
     (case ws_aggregation w of None \<Rightarrow> True
      | Some agg \<Rightarrow> as_windowEnd agg = 0 \<or> now \<le> as_windowEnd agg)"

definition needs_number :: "WaitState \<Rightarrow> bool" where
  "needs_number w =
     (case ws_aggregation w of None \<Rightarrow> False
      | Some agg \<Rightarrow> as_strategy agg = AggregateSum \<or> as_strategy agg = AggregateThreshold)"

text \<open>The events a wait receives.\<close>

definition takes :: "golib \<Rightarrow> WaitState \<Rightarrow> time \<times> Event \<Rightarrow> bool" where
  "takes L w te =
     (case te of (now, e) \<Rightarrow>
        ev_type e = ws_event w \<and> matchesConditions L e (ws_conditions w) \<and> in_window now w
        \<and> (needs_number w \<longrightarrow> \<not> isl (extractNumericValue e w)))"

definition added :: "WaitState \<Rightarrow> Event \<Rightarrow> f64 option" where
  "added w e = (case extractNumericValue e w of Inl _ \<Rightarrow> None | Inr x \<Rightarrow> Some x)"

definition deliver :: "golib \<Rightarrow> (time \<times> Event) list \<Rightarrow> WaitState \<Rightarrow> WaitState" where
  "deliver L evs w = foldl (\<lambda>w (now, e). snd (ProcessEvent L now e w)) w evs"

lemma deliver_simps [simp]:
  "deliver L [] w = w"
  "deliver L ((now, e) # evs) w = deliver L evs (snd (ProcessEvent L now e w))"
  by (simp_all add: deliver_def)

lemma extract_settings: "settings w = settings w' \<Longrightarrow> extractNumericValue e w = extractNumericValue e w'"
  by (cases "ws_aggregation w"; cases "ws_aggregation w'") (simp_all add: settings_def extractNumericValue_def cong: sum.case_cong option.case_cong)

lemma takes_settings: "settings w = settings w' \<Longrightarrow> takes L w te = takes L w' te"
  using extract_settings [of w w']
  by (auto simp: settings_def takes_def in_window_def needs_number_def split: option.splits prod.splits)

lemma added_settings: "settings w = settings w' \<Longrightarrow> added w e = added w' e"
  by (simp add: added_def extract_settings [of w w'])

lemma strategies_differ [simp]:
  "AggregateCount \<noteq> AggregateSum" "AggregateCount \<noteq> AggregateThreshold" "AggregateSum \<noteq> AggregateThreshold"
  "AggregateSum \<noteq> AggregateCount" "AggregateThreshold \<noteq> AggregateCount" "AggregateThreshold \<noteq> AggregateSum"
  by (simp_all add: wait_consts)

text \<open>One event: a state that is not touched, or an event received and counted.\<close>

definition receive :: "Event \<Rightarrow> WaitState \<Rightarrow> WaitState" where
  "receive e w = w\<lparr>ws_received := ws_received w @ [e],
     ws_aggregation := map_option (\<lambda>a. a\<lparr>as_count := as_count a + 1,
        as_sum := (case added w e of None \<Rightarrow> as_sum a | Some x \<Rightarrow> f_add (as_sum a) x)\<rparr>) (ws_aggregation w)\<rparr>"

definition met :: "WaitState \<Rightarrow> Event \<Rightarrow> bool" where
  "met w e =
     (case ws_aggregation w of None \<Rightarrow> True
      | Some a \<Rightarrow> aggregate_met a (case added w e of None \<Rightarrow> f_zero | Some x \<Rightarrow> x))"

lemma ProcessEvent_takes:
  "snd (ProcessEvent L now e w) =
     (if takes L w (now, e)
      then (let w' = receive e w in w'\<lparr>ws_satisfied := ws_satisfied w \<or> met w' e\<rparr>) else w)"
proof (cases "ws_aggregation w")
  case None
  then show ?thesis
    by (simp add: ProcessEvent_def takes_def in_window_def needs_number_def receive_def met_def Let_def)
next
  case (Some agg)
  have same: "extractNumericValue e (receive e w) = extractNumericValue e w"
    by (rule extract_settings) (simp add: settings_def receive_def Some)
  show ?thesis using Some same
    by (cases "extractNumericValue e w")
      (auto simp: ProcessEvent_def processAggregation_def takes_def in_window_def needs_number_def
        receive_def met_def added_def Let_def)
qed
lemma receive_settings [simp]: "settings (receive e w) = settings w"
  by (cases "ws_aggregation w") (simp_all add: settings_def receive_def)

lemma satisfied_settings [simp]: "settings (w\<lparr>ws_satisfied := b\<rparr>) = settings w"
  by (simp add: settings_def)

lemma settings_event [simp]: "settings (snd (ProcessEvent L now e w)) = settings w"
  by (simp add: ProcessEvent_takes Let_def)

lemma settings_deliver [simp]: "settings (deliver L evs w) = settings w"
  by (induction evs arbitrary: w) (auto simp del: split_paired_All)

text \<open>The events of a sequence a wait receives, and the sum it keeps over them.\<close>

definition taken :: "golib \<Rightarrow> WaitState \<Rightarrow> (time \<times> Event) list \<Rightarrow> Event list" where
  "taken L w evs = map snd (filter (takes L w) evs)"

definition sum_of :: "WaitState \<Rightarrow> f64 \<Rightarrow> Event list \<Rightarrow> f64" where
  "sum_of w x es = foldl (\<lambda>s e. case added w e of None \<Rightarrow> s | Some y \<Rightarrow> f_add s y) x es"

lemma taken_simps [simp]:
  "taken L w [] = []"
  "taken L w (te # evs) = (if takes L w te then snd te # taken L w evs else taken L w evs)"
  by (simp_all add: taken_def)

lemma sum_of_simps [simp]:
  "sum_of w x [] = x"
  "sum_of w x (e # es) = sum_of w (case added w e of None \<Rightarrow> x | Some y \<Rightarrow> f_add x y) es"
  by (simp_all add: sum_of_def)

lemma taken_settings: "settings w = settings w' \<Longrightarrow> taken L w evs = taken L w' evs"
  using takes_settings [of w w' L] by (simp add: taken_def cong: filter_cong)

lemma sum_of_settings: "settings w = settings w' \<Longrightarrow> sum_of w x es = sum_of w' x es"
  using added_settings [of w w'] by (simp add: sum_of_def)

lemma received_deliver: "ws_received (deliver L evs w) = ws_received w @ taken L w evs"
proof (induction evs arbitrary: w)
  case (Cons te evs)
  obtain now e where te: "te = (now, e)" by (cases te)
  let ?w = "snd (ProcessEvent L now e w)"
  have "taken L ?w evs = taken L w evs" by (rule taken_settings) simp
  then show ?case using Cons [of ?w]
    by (simp add: te ProcessEvent_takes receive_def Let_def)
qed simp

lemma aggregation_deliver:
  "ws_aggregation w = Some a \<Longrightarrow>
     ws_aggregation (deliver L evs w)
       = Some (a\<lparr>as_count := as_count a + int (length (taken L w evs)),
                 as_sum := sum_of w (as_sum a) (taken L w evs)\<rparr>)"
proof (induction evs arbitrary: w a)
  case (Cons te evs)
  obtain now e where te: "te = (now, e)" by (cases te)
  let ?w = "snd (ProcessEvent L now e w)"
  have s: "taken L ?w evs = taken L w evs" "sum_of ?w x es = sum_of w x es" for x es
    by (rule taken_settings, simp) (rule sum_of_settings, simp)
  show ?case
  proof (cases "takes L w te")
    case True
    let ?a = "a\<lparr>as_count := as_count a + 1,
        as_sum := (case added w e of None \<Rightarrow> as_sum a | Some x \<Rightarrow> f_add (as_sum a) x)\<rparr>"
    have "ws_aggregation ?w = Some ?a"
      using True Cons.prems by (simp add: te ProcessEvent_takes receive_def Let_def)
    from Cons.IH [OF this] True show ?thesis
      by (cases "added w e") (simp_all add: te s algebra_simps)
  next
    case False
    then have "?w = w" by (simp add: te ProcessEvent_takes)
    then show ?thesis using Cons.IH [OF Cons.prems] False by (simp add: te)
  qed
qed simp
lemma satisfied_mono: "ws_satisfied w \<Longrightarrow> ws_satisfied (deliver L evs w)"
  by (induction evs arbitrary: w) (auto simp: ProcessEvent_takes receive_def Let_def)

lemma satisfied_plain:
  "ws_aggregation w = None \<Longrightarrow> ws_satisfied (deliver L evs w) \<longleftrightarrow> ws_satisfied w \<or> taken L w evs \<noteq> []"
proof (induction evs arbitrary: w)
  case (Cons te evs)
  obtain now e where te: "te = (now, e)" by (cases te)
  let ?w = "snd (ProcessEvent L now e w)"
  have "taken L ?w evs = taken L w evs" by (rule taken_settings) simp
  moreover have "ws_aggregation ?w = None"
    using Cons.prems by (simp add: ProcessEvent_takes receive_def Let_def)
  ultimately show ?case using Cons
    by (simp add: te) (simp add: ProcessEvent_takes receive_def met_def Let_def)
qed simp

lemma f_le_count: "\<bar>i\<bar> \<le> 2 ^ 53 \<Longrightarrow> \<bar>j\<bar> \<le> 2 ^ 53 \<Longrightarrow> f_le (f_of_int i) (f_of_int j) \<longleftrightarrow> i \<le> j"
  using f_of_int_compare [of i j] by (auto simp: f_le_def)

lemma satisfied_count:
  assumes "ws_aggregation w = Some a" and "as_strategy a = AggregateCount" and "as_threshold a = f_of_int n"
    and "0 \<le> as_count a" and "as_count a < n" and "n \<le> 2 ^ 53"
    and "as_count a + int (length (taken L w evs)) \<le> 2 ^ 53"
  shows "ws_satisfied (deliver L evs w) \<longleftrightarrow> ws_satisfied w \<or> n \<le> as_count a + int (length (taken L w evs))"
  using assms
proof (induction evs arbitrary: w a)
  case (Cons te evs)
  obtain now e where te: "te = (now, e)" by (cases te)
  let ?w = "snd (ProcessEvent L now e w)"
  have t: "taken L ?w evs = taken L w evs" by (rule taken_settings) simp
  show ?case
  proof (cases "takes L w te")
    case True
    let ?a = "a\<lparr>as_count := as_count a + 1,
        as_sum := (case added w e of None \<Rightarrow> as_sum a | Some x \<Rightarrow> f_add (as_sum a) x)\<rparr>"
    have a: "ws_aggregation ?w = Some ?a"
      using True Cons.prems(1) by (simp add: te ProcessEvent_takes receive_def Let_def)
    have m: "met (receive e w) e \<longleftrightarrow> n \<le> as_count a + 1"
      using Cons.prems by (simp add: met_def receive_def aggregate_met_def f_le_count)
    have sat: "ws_satisfied ?w \<longleftrightarrow> ws_satisfied w \<or> n \<le> as_count a + 1"
      using True m by (simp add: te ProcessEvent_takes Let_def receive_def)
    show ?thesis
    proof (cases "n \<le> as_count a + 1")
      case True
      have "ws_satisfied (deliver L evs ?w)" by (rule satisfied_mono) (use sat True in simp)
      then show ?thesis using True \<open>takes L w te\<close> by (simp add: te)
    next
      case False
      show ?thesis
        using Cons.IH [OF a] Cons.prems False sat \<open>takes L w te\<close> by (simp add: te t algebra_simps)
    qed
  next
    case False
    then have "?w = w" by (simp add: te ProcessEvent_takes)
    then show ?thesis using Cons.IH [OF Cons.prems(1-6)] Cons.prems(7) False by (simp add: te)
  qed
qed simp

lemma InitWaitState_event:
  "InitWaitState td clock = Some w \<Longrightarrow> \<not> IsDelay (task_wait td) \<Longrightarrow>
     ws_received w = [] \<and> \<not> ws_satisfied w \<and> \<not> ws_timedOut w
     \<and> (\<forall>a. ws_aggregation w = Some a \<longrightarrow> as_count a = 0 \<and> as_sum a = f_zero)"
  by (cases "task_wait td"; cases "wc_aggregation (the (task_wait td))")
    (auto simp: InitWaitState_def init_aggregation_def Let_def)

subsection \<open>Properties\<close>

definition sample_event :: "string \<Rightarrow> obj \<Rightarrow> Event" where
  "sample_event typ data = \<lparr>ev_id = ''e'', ev_type = typ, ev_source = '''', ev_time = 0, ev_platform = '''',
     ev_sessionId = '''', ev_triggerId = '''', ev_triggeredBy = '''', ev_workflowChain = '''',
     ev_dryRun = False, ev_data = data\<rparr>"

definition sample_wait :: WaitConfig where
  "sample_wait = \<lparr>wc_type = WaitTypeAggregation, wc_event = ''bits'', wc_conditions = [],
     wc_aggregation = Some \<lparr>ac_strategy = AggregateCount, ac_field = '''', ac_threshold = f_of_int 2, ac_window = None\<rparr>,
     wc_timeout = Some (30 * MinWaitTimeout), wc_onTimeout = '''', wc_durationMs = 0\<rparr>"

definition wait_task :: "WaitConfig \<Rightarrow> TaskDefinition" where
  "wait_task c = blank_task\<lparr>task_id := ''w'', task_type := TaskTypeWait, task_wait := Some c\<rparr>"
text \<open>
  Whatever events reach a wait and whenever they do, it has received exactly those of its
  type that meet its conditions inside its window (and, for a sum or threshold, carry a
  number), in their order; its count is their number and its sum the sum of their numbers.
\<close>

theorem wait_counts_what_it_receives:
  assumes "InitWaitState td clock = Some w0" and "\<not> IsDelay (task_wait td)"
  shows "ws_received (deliver L evs w0) = taken L w0 evs
    \<and> (case ws_aggregation (deliver L evs w0) of None \<Rightarrow> True
       | Some a \<Rightarrow> as_count a = int (length (ws_received (deliver L evs w0)))
           \<and> as_sum a = sum_of w0 f_zero (ws_received (deliver L evs w0)))"
proof (cases "ws_aggregation w0")
  case None
  then have "ws_aggregation (deliver L evs w0) = None"
    using settings_deliver [of L evs w0] by (simp add: settings_def)
  then show ?thesis using InitWaitState_event [OF assms] by (simp add: received_deliver)
next
  case (Some a)
  then show ?thesis
    using InitWaitState_event [OF assms] aggregation_deliver [OF Some, of L evs]
    by (simp add: received_deliver)
qed

theorem wait_counts_what_it_receives_witness:
  "as_count (the (ws_aggregation (deliver ascii_lib [(0, sample_event ''bits'' [(''amount'', VInt 3)]),
     (0, sample_event ''follow'' [])] (the (InitWaitState (wait_task sample_wait) (\<lambda>_. 1)))))) = 1"
proof -
  have i: "InitWaitState (wait_task sample_wait) (\<lambda>_. 1)
      = Some (the (InitWaitState (wait_task sample_wait) (\<lambda>_. 1)))"
    by (simp add: InitWaitState_def wait_task_def)
      (simp add: IsDelay_def sample_wait_def wait_consts Let_def)
  have d: "\<not> IsDelay (task_wait (wait_task sample_wait))"
    by (simp add: IsDelay_def sample_wait_def wait_task_def wait_consts)
  show ?thesis
    using wait_counts_what_it_receives [OF i d, of ascii_lib "[(0, sample_event ''bits'' [(''amount'', VInt 3)]),
     (0, sample_event ''follow'' [])]"]
    by (simp add: InitWaitState_def wait_task_def sample_wait_def IsDelay_def HasTimeout_def wait_consts
        sample_event_def takes_def in_window_def needs_number_def matchesConditions_def
        init_aggregation_def ProcessEvent_def processAggregation_def extractNumericValue_def
        number_of_def Let_def)
qed

text \<open>
  A wait for \<open>n\<close> events is met by the \<open>n\<close>-th event it receives and by no earlier one, and
  stays met; a wait for a single event is met by the first.
\<close>

theorem count_wait_met_exactly:
  assumes "InitWaitState td clock = Some w0" and "\<not> IsDelay (task_wait td)"
    and "case ws_aggregation w0 of None \<Rightarrow> n = 1
         | Some a \<Rightarrow> as_strategy a = AggregateCount \<and> as_threshold a = f_of_int n"
    and "0 < n" and "n \<le> 2 ^ 53" and "int (length evs) \<le> 2 ^ 53"
  shows "ws_satisfied (deliver L evs w0) \<longleftrightarrow> n \<le> int (length (taken L w0 evs))"
proof (cases "ws_aggregation w0")
  case None
  then show ?thesis
    using satisfied_plain [OF None, of L evs] InitWaitState_event [OF assms(1,2)] assms(3)
    by (cases "taken L w0 evs") simp_all
next
  case (Some a)
  have "length (taken L w0 evs) \<le> length evs" by (simp add: taken_def)
  then show ?thesis
    using satisfied_count [OF Some, of n L evs] InitWaitState_event [OF assms(1,2)] assms(3-6) Some by simp
qed

theorem count_wait_met_exactly_witness:
  "ws_satisfied (deliver ascii_lib [(5, sample_event ''bits'' []), (6, sample_event ''bits'' [])]
     (the (InitWaitState (wait_task sample_wait) (\<lambda>_. 1))))"
proof -
  have i: "InitWaitState (wait_task sample_wait) (\<lambda>_. 1)
      = Some (the (InitWaitState (wait_task sample_wait) (\<lambda>_. 1)))"
    by (simp add: InitWaitState_def wait_task_def)
      (simp add: IsDelay_def sample_wait_def wait_consts Let_def)
  have d: "\<not> IsDelay (task_wait (wait_task sample_wait))"
    by (simp add: IsDelay_def sample_wait_def wait_task_def wait_consts)
  show ?thesis
    using count_wait_met_exactly [OF i d, of 2 "[(5, sample_event ''bits'' []), (6, sample_event ''bits'' [])]" ascii_lib]
    by (simp add: InitWaitState_def wait_task_def sample_wait_def IsDelay_def HasTimeout_def wait_consts
        sample_event_def takes_def in_window_def needs_number_def matchesConditions_def
        init_aggregation_def Let_def)
qed
lemma delay_ignores_events:
  "IsDelay (task_wait td) \<Longrightarrow> InitWaitState td clock = Some w0 \<Longrightarrow> ev_type e \<noteq> '''' \<Longrightarrow>
     ProcessEvent L now e w0 = (Inr False, w0)"
  by (auto simp: InitWaitState_def ProcessEvent_def split: option.splits)



text \<open>
  The exports of a wait, recorded and restored, keep what a later expression reads: with
  an event they are the recorded ones; without, every path into the restored \<open>data\<close> reads
  as empty rather than as missing.
\<close>

theorem restored_wait_reads_empty:
  assumes "list_all seg_ok (Key ''data'' # Key k # ss)"
  shows "if map_of recorded ''lastEvent'' = None
     then ResolvePath (VMap (RestoreWaitExports recorded)) (print_path (Key ''data'' # Key k # ss)) = Inr VNil
     else RestoreWaitExports recorded = recorded"
proof -
  have "map_of (RestoreWaitExports recorded) ''data'' = Some (VOpen [])" if "map_of recorded ''lastEvent'' = None"
    using that map_of_filter_neq [of "''data''" recorded "''data''"] by (simp add: RestoreWaitExports_def map_add_def case_prod_beta)
  moreover have "atoi ''data'' = None" "atoi k = None" using assms by simp_all
  ultimately show ?thesis
    using splitPath_print [OF assms] print_path_nonempty [OF assms]
    by (auto simp: ResolvePath_def parseArrayIndex_def RestoreWaitExports_def)
qed

theorem restored_wait_reads_empty_witness:
  "ResolvePath (VMap (RestoreWaitExports [(''data'', VMap [])])) ''data.amount'' = Inr VNil"
  using restored_wait_reads_empty [of "''amount''" "[]" "[(''data'', VMap [])]"]
  by (simp add: plain_def atoi_def is_digit_def all_digits_def)

end
