(* ===== verification/Concurrency.thy ===== *)
theory Concurrency
  imports Workflow_Types
begin

text \<open>
  \<open>workflow/internal/engine/concurrency.go\<close>: which adjacent tasks of an execution order may
  run at the same time. The set of members is a list of their ids, in the order they joined.
\<close>

definition DefaultMaxConcurrentTasks :: int where "DefaultMaxConcurrentTasks = 8"

record concurrentRun =
  Start :: nat
  End :: nat

definition Len :: "concurrentRun \<Rightarrow> nat" where
  "Len r = End r - Start r"

definition maxConcurrentTasks :: "int \<Rightarrow> int" where
  "maxConcurrentTasks maxConcurrency = (if maxConcurrency > 0 then maxConcurrency else DefaultMaxConcurrentTasks)"

subsection \<open>References in the text of a task\<close>

text \<open>Every branch of \<open>writeAny\<close> ends by writing a zero byte.\<close>

fun writeAny :: "val \<Rightarrow> string" where
  "writeAny VNil = [CHR 0x00]"
| "writeAny (VStr s) = s @ [CHR 0x00]"
| "writeAny (VMap kvs) = concat (map (\<lambda>kv. fst kv @ writeAny (snd kv)) kvs) @ [CHR 0x00]"
| "writeAny (VList vs) = concat (map writeAny vs) @ [CHR 0x00]"
| "writeAny v = fmt_v v @ [CHR 0x00]"

definition condition_text :: "condition \<Rightarrow> string" where
  "condition_text c = Field c @ writeAny (Value c)"

definition referenceHaystack :: "TaskDefinition \<Rightarrow> string" where
  "referenceHaystack task =
     writeAny (VMap (parameters task))
     @ (case task_condition task of None \<Rightarrow> '''' | Some c \<Rightarrow> condition_text c)
     @ concat (map condition_text (task_conditions task))
     @ (case task_exports task of None \<Rightarrow> [] | Some es \<Rightarrow> concat (map snd es))"

definition taskReferences :: "TaskDefinition \<Rightarrow> string \<Rightarrow> bool" where
  "taskReferences task otherID =
     (if task_id task = otherID then False
      else list_ex (contains (referenceHaystack task)) [''${'' @ otherID @ ''.'', ''${'' @ otherID @ ''}''])"

definition anyReferences :: "TaskDefinition list \<Rightarrow> string \<Rightarrow> bool" where
  "anyReferences tasks i = list_ex (\<lambda>t. taskReferences t i) tasks"

definition referencesAny :: "TaskDefinition \<Rightarrow> string list \<Rightarrow> bool" where
  "referencesAny task members = list_ex (taskReferences task) members"

definition dependsOnAny :: "TaskDefinition \<Rightarrow> string list \<Rightarrow> bool" where
  "dependsOnAny task members = list_ex (\<lambda>d. d \<in> set members) (dependsOn task)"

subsection \<open>The plan\<close>

definition isConcurrencySafe :: "TaskDefinition \<Rightarrow> bool" where
  "isConcurrencySafe task \<longleftrightarrow> task_type task \<notin> {TaskTypeWait, TaskTypeWorkflow, TaskTypeCondition}"

text \<open>The loop of \<open>planConcurrentRun\<close>: the tasks in the run, the tasks after it.\<close>

fun grow_run ::
  "string set \<Rightarrow> nat \<Rightarrow> TaskDefinition list \<Rightarrow> TaskDefinition list \<Rightarrow> TaskDefinition list" where
  "grow_run skipped limit run [] = run"
| "grow_run skipped limit run (candidate # rest) =
     (if limit \<le> length run then run
      else if \<not> isConcurrencySafe candidate \<or> task_id candidate \<in> skipped then run
      else if dependsOnAny candidate (map task_id run) \<or> referencesAny candidate (map task_id run) then run
      else if anyReferences run (task_id candidate) then run
      else grow_run skipped limit (run @ [candidate]) rest)"

definition planConcurrentRun ::
  "TaskDefinition list \<Rightarrow> nat \<Rightarrow> string set \<Rightarrow> int \<Rightarrow> concurrentRun" where
  "planConcurrentRun executionOrder start skipped limit =
     (if length executionOrder \<le> start then \<lparr>Start = start, End = start\<rparr>
      else
        (let first = executionOrder ! start
         in if \<not> isConcurrencySafe first \<or> task_id first \<in> skipped
            then \<lparr>Start = start, End = start + 1\<rparr>
            else \<lparr>Start = start,
                  End = start + length (grow_run skipped (nat (max 1 limit)) [first] (drop (start + 1) executionOrder))\<rparr>))"

subsection \<open>What the members of a run have in common\<close>

text \<open>Two tasks with no declared dependency and no reference between them.\<close>

definition apart :: "TaskDefinition \<Rightarrow> TaskDefinition \<Rightarrow> bool" where
  "apart a b \<longleftrightarrow> task_id a \<notin> set (dependsOn b) \<and> \<not> taskReferences b (task_id a) \<and> \<not> taskReferences a (task_id b)"

definition admits :: "string set \<Rightarrow> nat \<Rightarrow> TaskDefinition list \<Rightarrow> TaskDefinition \<Rightarrow> bool" where
  "admits skipped limit run c \<longleftrightarrow> length run < limit \<and> isConcurrencySafe c \<and> task_id c \<notin> skipped
     \<and> (\<forall>a \<in> set run. apart a c)"

lemma admits_code:
  "admits skipped limit run c \<longleftrightarrow> \<not> limit \<le> length run \<and> \<not> (\<not> isConcurrencySafe c \<or> task_id c \<in> skipped)
     \<and> \<not> (dependsOnAny c (map task_id run) \<or> referencesAny c (map task_id run)) \<and> \<not> anyReferences run (task_id c)"
  by (auto simp: admits_def apart_def dependsOnAny_def referencesAny_def anyReferences_def list_ex_iff)

declare grow_run.simps(2) [simp del]

lemma grow_run_step:
  "grow_run skipped limit run (c # rest) =
     (if admits skipped limit run c then grow_run skipped limit (run @ [c]) rest else run)"
  by (simp only: grow_run.simps(2) admits_code) simp

lemma grow_run_grows: "\<exists>ys. grow_run skipped limit run ts = run @ ys \<and> (\<exists>zs. ts = ys @ zs
    \<and> (zs \<noteq> [] \<longrightarrow> \<not> admits skipped limit (run @ ys) (hd zs)))"
proof (induction ts arbitrary: run)
  case (Cons c ts)
  show ?case
  proof (cases "admits skipped limit run c")
    case True
    obtain ys zs where "grow_run skipped limit (run @ [c]) ts = (run @ [c]) @ ys" "ts = ys @ zs"
      "zs \<noteq> [] \<longrightarrow> \<not> admits skipped limit ((run @ [c]) @ ys) (hd zs)" using Cons.IH by blast
    then show ?thesis using True by (intro exI [of _ "c # ys"] conjI exI [of _ zs]) (auto simp: grow_run_step)
  next
    case False
    then show ?thesis by (intro exI [of _ "[]"]) (auto simp: grow_run_step)
  qed
qed simp

lemma grow_run_apart:
  "sorted_wrt apart run \<Longrightarrow> sorted_wrt apart (grow_run skipped limit run ts)"
  by (induction ts arbitrary: run) (auto simp: grow_run_step sorted_wrt_append admits_def)

lemma grow_run_members:
  "list_all (\<lambda>t. isConcurrencySafe t \<and> task_id t \<notin> skipped) run \<Longrightarrow>
     list_all (\<lambda>t. isConcurrencySafe t \<and> task_id t \<notin> skipped) (grow_run skipped limit run ts)"
proof (induction ts arbitrary: run)
  case (Cons c ts)
  show ?case
  proof (cases "admits skipped limit run c")
    case True
    then have "isConcurrencySafe c \<and> task_id c \<notin> skipped" by (simp add: admits_def)
    then show ?thesis using Cons True by (simp add: grow_run_step)
  qed (use Cons.prems in \<open>simp add: grow_run_step\<close>)
qed simp

lemma grow_run_length: "length run \<le> limit \<Longrightarrow> length (grow_run skipped limit run ts) \<le> limit"
  by (induction ts arbitrary: run) (auto simp: grow_run_step admits_def)
definition members :: "TaskDefinition list \<Rightarrow> concurrentRun \<Rightarrow> TaskDefinition list" where
  "members order r = take (Len r) (drop (Start r) order)"

lemma plan_members:
  assumes "start < length order"
  shows "\<exists>ys zs. members order (planConcurrentRun order start skipped limit) = order ! start # ys
    \<and> drop (start + 1) order = ys @ zs
    \<and> planConcurrentRun order start skipped limit = \<lparr>Start = start, End = start + 1 + length ys\<rparr>
    \<and> (if isConcurrencySafe (order ! start) \<and> task_id (order ! start) \<notin> skipped
       then order ! start # ys = grow_run skipped (nat (max 1 limit)) [order ! start] (drop (start + 1) order)
          \<and> (zs \<noteq> [] \<longrightarrow> \<not> admits skipped (nat (max 1 limit)) (order ! start # ys) (hd zs))
       else ys = [])"
proof -
  have d: "drop start order = order ! start # drop (start + 1) order"
    using assms by (simp add: Cons_nth_drop_Suc)
  show ?thesis
  proof (cases "isConcurrencySafe (order ! start) \<and> task_id (order ! start) \<notin> skipped")
    case True
    obtain ys zs where y: "grow_run skipped (nat (max 1 limit)) [order ! start] (drop (start + 1) order)
        = order ! start # ys" "drop (start + 1) order = ys @ zs"
      "zs \<noteq> [] \<longrightarrow> \<not> admits skipped (nat (max 1 limit)) (order ! start # ys) (hd zs)"
      using grow_run_grows [of skipped "nat (max 1 limit)" "[order ! start]" "drop (start + 1) order"] by (metis append_Cons append_Nil)
    then have "planConcurrentRun order start skipped limit = \<lparr>Start = start, End = start + 1 + length ys\<rparr>"
      using assms True by (simp add: planConcurrentRun_def Let_def)
    then show ?thesis using True y d by (auto simp: members_def Len_def)
  next
    case False
    then have "planConcurrentRun order start skipped limit = \<lparr>Start = start, End = start + 1\<rparr>"
      using assms by (auto simp: planConcurrentRun_def Let_def)
    then show ?thesis using False d by (auto simp: members_def Len_def)
  qed
qed

subsection \<open>Properties\<close>

lemma planned_run_independent:
  assumes "start < length order" and r_def: "r = planConcurrentRun order start skipped limit"
  shows "Start r = start \<and> start < End r \<and> End r \<le> length order \<and> int (Len r) \<le> max 1 limit
    \<and> sorted_wrt apart (members order r)
    \<and> (1 < Len r \<longrightarrow> list_all (\<lambda>t. isConcurrencySafe t \<and> task_id t \<notin> skipped) (members order r))
    \<and> (isConcurrencySafe (order ! start) \<and> task_id (order ! start) \<notin> skipped \<and> End r < length order
       \<longrightarrow> \<not> admits skipped (nat (max 1 limit)) (members order r) (order ! End r))"
proof -
  obtain ys zs where m: "members order r = order ! start # ys" and d: "drop (start + 1) order = ys @ zs"
    and r: "r = \<lparr>Start = start, End = start + 1 + length ys\<rparr>"
    and g: "if isConcurrencySafe (order ! start) \<and> task_id (order ! start) \<notin> skipped
       then order ! start # ys = grow_run skipped (nat (max 1 limit)) [order ! start] (drop (start + 1) order)
          \<and> (zs \<noteq> [] \<longrightarrow> \<not> admits skipped (nat (max 1 limit)) (order ! start # ys) (hd zs))
       else ys = []"
    using plan_members [OF assms(1), of skipped limit] unfolding r_def by blast
  have "length (drop (start + 1) order) = length ys + length zs" unfolding d by simp
  then have len: "length order = start + 1 + length ys + length zs" using assms(1) by simp
  have hd: "order ! End r = hd zs" if "zs \<noteq> []"
    using that arg_cong [OF d, of "\<lambda>l. l ! length ys"] len by (simp add: r nth_append hd_conv_nth)
  show ?thesis
  proof (cases "isConcurrencySafe (order ! start) \<and> task_id (order ! start) \<notin> skipped")
    case True
    let ?l = "nat (max 1 limit)" and ?rest = "drop (start + 1) order"
    have e: "order ! start # ys = grow_run skipped ?l [order ! start] ?rest" using g True by simp
    have "sorted_wrt apart (order ! start # ys)" unfolding e by (rule grow_run_apart) simp
    moreover have "list_all (\<lambda>t. isConcurrencySafe t \<and> task_id t \<notin> skipped) (order ! start # ys)"
      unfolding e by (rule grow_run_members) (use True in simp)
    moreover have "length (order ! start # ys) \<le> ?l" unfolding e by (rule grow_run_length) auto
    then have "1 + int (length ys) \<le> max 1 limit" by simp
    moreover have "zs \<noteq> [] \<longrightarrow> \<not> admits skipped ?l (order ! start # ys) (hd zs)" using g unfolding if_P [OF True] by (rule conjunct2)
    ultimately show ?thesis using len hd m by (cases "zs = []") (simp_all add: r Len_def)
  next
    case False
    then show ?thesis using g m len by (auto simp: r Len_def)
  qed
qed

text \<open>
  The tasks that run together are an adjacent stretch of the execution order, never empty
  and never longer than the limit. When there are several, each is an ordinary action that is
  not skipped, and no two of them depend on each other or mention each other's exports. The
  stretch cannot be extended by the task after it.
\<close>

theorem concurrent_run_is_independent:
  assumes "start < length order" and r_def: "r = planConcurrentRun order start skipped limit"
  shows "Start r = start \<and> start < End r \<and> End r \<le> length order \<and> int (Len r) \<le> max 1 limit
    \<and> sorted_wrt apart (members order r)
    \<and> (1 < Len r \<longrightarrow> list_all (\<lambda>t. isConcurrencySafe t \<and> task_id t \<notin> skipped) (members order r))
    \<and> (isConcurrencySafe (order ! start) \<and> task_id (order ! start) \<notin> skipped \<and> End r < length order
       \<longrightarrow> \<not> admits skipped (nat (max 1 limit)) (members order r) (order ! End r))"
  using assms by (rule planned_run_independent)

definition step_task :: "string \<Rightarrow> string \<Rightarrow> TaskDefinition" where
  "step_task i param = blank_task\<lparr>task_id := i, task_type := TaskTypeAction, parameters := [(''text'', VStr param)]\<rparr>"

theorem concurrent_run_is_independent_witness:
  "End (planConcurrentRun [step_task ''a'' ''hello'', step_task ''b'' ''${trigger.id}'', step_task ''c'' ''${a.x}''] 0 {} 8) = 2
   \<and> sorted_wrt apart [step_task ''a'' ''hello'', step_task ''b'' ''${trigger.id}'']"
proof -
  let ?o = "[step_task ''a'' ''hello'', step_task ''b'' ''${trigger.id}'', step_task ''c'' ''${a.x}'']"
  have "planConcurrentRun ?o 0 {} 8 = \<lparr>Start = 0, End = 2\<rparr>" by code_simp
  then show ?thesis
    using concurrent_run_is_independent [of 0 ?o _ "{}" 8, OF _ refl] by (simp add: members_def Len_def)
qed

end
