(* ===== verification/Reads.thy ===== *)
theory Reads
  imports Concurrency
begin

text \<open>
  Which sources a value's expressions read, and that resolving the value depends on no other:
  the condition under which two tasks can be resolved in any order.
\<close>

subsection \<open>The sources a value reads\<close>

definition expr_sources :: "string \<Rightarrow> string set" where
  "expr_sources expr =
     (if cut_prefix assetURLPrefix expr \<noteq> None then {}
      else if isCompound expr
      then (case parseCompound expr of Inl _ \<Rightarrow> {} | Inr tree \<Rightarrow> node_sources tree)
      else {fst (reference_parts expr)})"

definition text_expressions :: "string \<Rightarrow> string list" where
  "text_expressions s =
     (if \<not> HasExpression s then []
      else if isFullExpression s then [butlast (drop 2 s)]
      else concat (map (\<lambda>p. case p of Raw _ \<Rightarrow> [] | Token e \<Rightarrow> [e]) (pieces s)))"

definition string_sources :: "string \<Rightarrow> string set" where
  "string_sources s = (\<Union>e \<in> set (text_expressions s). expr_sources e)"

fun value_strings :: "val \<Rightarrow> string list" where
  "value_strings (VStr s) = [s]"
| "value_strings (VMap kvs) = concat (map (\<lambda>kv. value_strings (snd kv)) kvs)"
| "value_strings (VList vs) = concat (map value_strings vs)"
| "value_strings _ = []"

definition value_sources :: "val \<Rightarrow> string set" where
  "value_sources v = (\<Union>s \<in> set (value_strings v). string_sources s)"

subsection \<open>Resolving without looking at a source\<close>

text \<open>Two resolvers that differ at most in source \<open>i\<close>.\<close>

definition alike :: "string \<Rightarrow> resolver \<Rightarrow> resolver \<Rightarrow> bool" where
  "alike i r r' \<longleftrightarrow> assetURLBase r' = assetURLBase r
     \<and> hasAssetURLBase r' = hasAssetURLBase r \<and> draws r' = draws r \<and> calls r' = calls r
     \<and> (\<forall>n. n \<noteq> i \<longrightarrow> sources r' n = sources r n \<and> lazySources r' n = lazySources r n)"

definition blind :: "string \<Rightarrow> 'a ev \<Rightarrow> bool" where
  "blind i m \<longleftrightarrow> (\<forall>r r'. alike i r r' \<longrightarrow> fst (m r') = fst (m r) \<and> alike i (snd (m r)) (snd (m r')))"

lemma blind_lift [simp]: "blind i (lift_res x)"
  by (simp add: blind_def lift_res_def)

lemma blindD: "blind i m \<Longrightarrow> alike i r r' \<Longrightarrow> fst (m r') = fst (m r) \<and> alike i (snd (m r)) (snd (m r'))"
  by (simp add: blind_def)

lemma blindI:
  "(\<And>r r'. alike i r r' \<Longrightarrow> fst (m r') = fst (m r) \<and> alike i (snd (m r)) (snd (m r'))) \<Longrightarrow> blind i m"
  by (simp add: blind_def)

lemma blind_bind:
  assumes "blind i m" and "\<And>a. blind i (f a)"
  shows "blind i (bind_ev m f)"
proof (rule blindI)
  fix r r' assume "alike i r r'"
  from blindD [OF assms(1) this] have m: "fst (m r') = fst (m r)" "alike i (snd (m r)) (snd (m r'))" by auto
  show "fst (bind_ev m f r') = fst (bind_ev m f r) \<and> alike i (snd (bind_ev m f r)) (snd (bind_ev m f r'))"
    using m blindD [OF assms(2) m(2)]
    by (cases "m r"; cases "m r'"; cases "fst (m r)") (auto simp: bind_ev_def)
qed

lemma blind_map_err:
  assumes "blind i m" shows "blind i (map_err w m)"
proof (rule blindI)
  fix r r' assume "alike i r r'"
  from blindD [OF assms this]
  show "fst (map_err w m r') = fst (map_err w m r) \<and> alike i (snd (map_err w m r)) (snd (map_err w m r'))"
    by (cases "m r"; cases "m r'"; cases "fst (m r)") (auto simp: map_err_def)
qed

lemmas alike_fields = alike_def [THEN iffD1]

lemma alike_refl [simp]: "alike i r r"
  by (simp add: alike_def)

lemma alike_load:
  "alike i r r' \<Longrightarrow> n \<noteq> i \<Longrightarrow>
     alike i (r\<lparr>sources := (sources r)(n := x), calls := c\<rparr>) (r'\<lparr>sources := (sources r')(n := x), calls := c\<rparr>)"
  by (simp add: alike_def)

lemma alike_calls: "alike i r r' \<Longrightarrow> alike i (r\<lparr>calls := c\<rparr>) (r'\<lparr>calls := c\<rparr>)"
  by (auto simp: alike_def)

lemma alike_draws: "alike i r r' \<Longrightarrow> alike i (r\<lparr>draws := k\<rparr>) (r'\<lparr>draws := k\<rparr>)"
  by (auto simp: alike_def)

lemma blind_load: "n \<noteq> i \<Longrightarrow> blind i (load_lazy n load)"
  by (rule blindI) (use alike_fields in \<open>fastforce simp: load_lazy_def alike_load alike_calls split: option.splits sum.splits\<close>)

lemma blind_reference:
  assumes "fst (reference_parts expr) \<noteq> i" shows "blind i (evaluateReference expr)"
proof (rule blindI)
  fix r r' assume a: "alike i r r'"
  obtain n path where n: "reference_parts expr = (n, path)" by (cases "reference_parts expr")
  let ?k = "\<lambda>data. lift_res (case ResolvePath data path of
     Inl e \<Rightarrow> (if is_path_not_found e then Inr VNil else Inl e) | Inr v \<Rightarrow> Inr v)"
  have i: "n \<noteq> i" using assms n by simp
  show "fst (evaluateReference expr r') = fst (evaluateReference expr r)
      \<and> alike i (snd (evaluateReference expr r)) (snd (evaluateReference expr r'))"
  proof (cases "lazySources r n")
    case (Some load)
    have "blind i (bind_ev (load_lazy n load) ?k)"
      by (rule blind_bind [OF blind_load]) (use assms n in simp_all)
    from blindD [OF this a] show ?thesis
      using Some i alike_fields [OF a] by (simp add: evaluateReference_def n)
  next
    case None
    then show ?thesis using a alike_fields [OF a] i n
      by (auto simp: evaluateReference_def split: option.splits)
  qed
qed
lemma blind_args:
  "(\<And>a. a \<in> set args \<Longrightarrow> blind i (eval L a)) \<Longrightarrow> blind i (eval_args L name args)"
proof (induction args)
  case Nil
  then show ?case by (simp add: blind_def)
next
  case (Cons a args)
  have e: "eval_args L name (a # args) = bind_ev (map_err (ArgFailed name) (eval L a)) (\<lambda>v.
       bind_ev (eval_args L name args) (\<lambda>vs. lift_res (Inr (v # vs))))" by (rule ext) simp
  show ?case unfolding e using Cons by (intro blind_bind blind_map_err) auto
qed

lemma blind_call:
  "blind i (\<lambda>r. case map_of function_table name of
         None \<Rightarrow> (Inl (UnknownFunction name), r)
       | Some f \<Rightarrow>
           (case fcall f L (draws r) name vs of
              Inl e \<Rightarrow> (Inl (FunctionCall e), r)
            | Inr (v, k) \<Rightarrow> (Inr v, r\<lparr>draws := k\<rparr>)))"
  by (rule blindI) (auto simp: alike_def split: option.split sum.split)

lemma blind_eval: "i \<notin> node_sources n \<Longrightarrow> blind i (eval L n)"
proof (induction n)
  case (Literal v)
  then show ?case by (simp add: blind_def)
next
  case (Reference path)
  then have b: "blind i (evaluateReference path)" by (intro blind_reference) auto
  show ?case
    by (rule blindI) (use blindD [OF b] in \<open>fastforce split: prod.splits sum.splits\<close>)
next
  case (Negation n)
  have e: "eval L (Negation n) = bind_ev (eval L n) (\<lambda>v. lift_res (Inr (VBool (\<not> truthy v))))"
    by (rule ext) simp
  show ?case unfolding e using Negation by (intro blind_bind) auto
next
  case (Binary op a b)
  have e: "eval L (Binary op a b) = bind_ev (eval L a) (\<lambda>left.
       if op = ''&&'' then (if \<not> truthy left then lift_res (Inr left) else eval L b)
       else if op = ''||'' then (if truthy left then lift_res (Inr left) else eval L b)
       else bind_ev (eval L b) (\<lambda>right.
              lift_res
                (if (left = VNil \<or> right = VNil) \<and> op \<noteq> ''=='' \<and> op \<noteq> ''!='' then Inr (VBool False)
                 else bind_res (EvaluateOperator (regexp_compile L) op left right) (\<lambda>t. Inr (VBool t)))))"
    by (rule ext) simp
  have a: "blind i (eval L a)" and b: "blind i (eval L b)" using Binary by auto
  show ?case unfolding e by (intro blind_bind [OF a]) (auto intro: blind_bind [OF b] b)
next
  case (Conditional c a b)
  have e: "eval L (Conditional c a b) = bind_ev (eval L c) (\<lambda>v. if truthy v then eval L a else eval L b)"
    by (rule ext) simp
  have c: "blind i (eval L c)" and ab: "blind i (eval L a)" "blind i (eval L b)" using Conditional by auto
  show ?case unfolding e by (intro blind_bind [OF c]) (use ab in simp)
next
  case (Call name args)
  have e: "eval L (Call name args) = bind_ev (eval_args L name args) (\<lambda>vs r1.
       case map_of function_table name of
         None \<Rightarrow> (Inl (UnknownFunction name), r1)
       | Some f \<Rightarrow>
           (case fcall f L (draws r1) name vs of
              Inl e \<Rightarrow> (Inl (FunctionCall e), r1)
            | Inr (v, k) \<Rightarrow> (Inr v, r1\<lparr>draws := k\<rparr>)))"
    by (rule ext) simp
  have "blind i (eval_args L name args)" by (rule blind_args) (use Call in auto)
  then show ?case unfolding e by (rule blind_bind) (rule blind_call)
qed

lemma blind_expression: "i \<notin> expr_sources expr \<Longrightarrow> blind i (evaluateExpression L expr)"
proof (cases "cut_prefix assetURLPrefix expr")
  case (Some rel)
  then show ?thesis
    by (intro blindI) (auto simp: evaluateExpression_def dest: alike_fields)
next
  case None
  assume i: "i \<notin> expr_sources expr"
  show ?thesis
  proof (cases "isCompound expr")
    case True
    then have e: "evaluateExpression L expr = (case parseCompound expr of Inl e \<Rightarrow> lift_res (Inl e) | Inr tree \<Rightarrow> eval L tree)"
      using None by (intro ext) (simp add: evaluateExpression_def evaluateCompound_def lift_res_def split: sum.split)
    show ?thesis unfolding e
      using i None True by (auto simp: expr_sources_def intro: blind_eval split: sum.splits)
  next
    case False
    then have e: "evaluateExpression L expr = bind_ev (evaluateReference expr) (\<lambda>v. lift_res (Inr (close_val v)))"
      using None by (intro ext) (simp add: evaluateExpression_def closeRecord_def)
    show ?thesis unfolding e
      using i None False by (intro blind_bind blind_reference) (simp_all add: expr_sources_def)
  qed
qed
lemma resolve_pieces_blind:
  assumes "\<And>e. Token e \<in> set ps \<Longrightarrow> blind i (evaluateExpression L e)" and "alike i r r'"
  shows "fst (resolve_pieces L ps failed r') = fst (resolve_pieces L ps failed r)
    \<and> fst (snd (resolve_pieces L ps failed r')) = fst (snd (resolve_pieces L ps failed r))
    \<and> alike i (snd (snd (resolve_pieces L ps failed r))) (snd (snd (resolve_pieces L ps failed r')))"
  using assms
proof (induction L ps failed r arbitrary: r' rule: resolve_pieces.induct)
  case (2 L c ps failed r)
  from "2.IH" [of r'] "2.prems" show ?case by (simp add: prod.case_eq_if)
next
  case (3 L expr ps failed r)
  have b: "blind i (evaluateExpression L expr)" using "3.prems"(1) by simp
  note s = blindD [OF b "3.prems"(2)]
  have p: "\<And>e. Token e \<in> set ps \<Longrightarrow> blind i (evaluateExpression L e)" using "3.prems"(1) by simp
  obtain x r1 where x: "evaluateExpression L expr r = (x, r1)" by (cases "evaluateExpression L expr r")
  obtain r2 where y: "evaluateExpression L expr r' = (x, r2)" and a: "alike i r1 r2"
    using s x by (cases "evaluateExpression L expr r'") auto
  show ?case
  proof (cases x)
    case (Inl e)
    show ?thesis using "3.IH"(1) [OF _ Inl p a] x y Inl by (simp add: prod.case_eq_if)
  next
    case (Inr v)
    show ?thesis using "3.IH"(2) [OF _ Inr p a] x y Inr by (simp add: prod.case_eq_if)
  qed
qed simp

lemma blind_ResolveString:
  assumes "i \<notin> string_sources s" shows "blind i (ResolveString L s)"
proof -
  have x: "blind i (evaluateExpression L e)" if "e \<in> set (text_expressions s)" for e
    using assms that by (intro blind_expression) (auto simp: string_sources_def)
  show ?thesis
  proof (cases "HasExpression s")
    case False
    then show ?thesis by (intro blindI) (simp add: ResolveString_def)
  next
    case True
    show ?thesis
    proof (cases "isFullExpression s")
      case full: True
      have "blind i (evaluateExpression L (butlast (drop 2 s)))"
        by (rule x) (simp add: text_expressions_def True full)
      then show ?thesis using True full by (simp add: ResolveString_def blind_def)
    next
      case False
      have t: "blind i (evaluateExpression L e)" if "Token e \<in> set (pieces s)" for e
        by (rule x) (use that True False in \<open>force simp: text_expressions_def\<close>)
      show ?thesis
      proof (rule blindI)
        fix r r' assume "alike i r r'"
        from resolve_pieces_blind [of "pieces s" i L, OF t this, of None]
        show "fst (ResolveString L s r') = fst (ResolveString L s r)
            \<and> alike i (snd (ResolveString L s r)) (snd (ResolveString L s r'))"
          using True False by (auto simp: ResolveString_def prod.case_eq_if split: option.splits)
      qed
    qed
  qed
qed

lemma value_sources_simps [simp]:
  "value_sources (VStr s) = string_sources s"
  "value_sources (VMap kvs) = (\<Union>kv \<in> set kvs. value_sources (snd kv))"
  "value_sources (VList vs) = (\<Union>v \<in> set vs. value_sources v)"
  by (auto simp: value_sources_def)

lemma blind_resolveMap:
  "(\<And>kv. kv \<in> set kvs \<Longrightarrow> blind i (Resolve L (snd kv))) \<Longrightarrow> blind i (resolveMap L kvs)"
proof (induction kvs)
  case Nil
  then show ?case by (simp add: blind_def)
next
  case (Cons kv kvs)
  obtain k v where kv: "kv = (k, v)" by (cases kv)
  have e: "resolveMap L (kv # kvs) = bind_ev (map_err (KeyFailed k) (Resolve L v)) (\<lambda>x.
       bind_ev (resolveMap L kvs) (\<lambda>m. lift_res (Inr ((k, x) # m))))" by (rule ext) (simp add: kv)
  have "blind i (Resolve L v)" using Cons.prems [of kv] by (simp add: kv)
  then show ?case unfolding e using Cons by (intro blind_bind blind_map_err) auto
qed

lemma blind_resolveSlice:
  "(\<And>v. v \<in> set vs \<Longrightarrow> blind i (Resolve L v)) \<Longrightarrow> blind i (resolveSlice L n vs)"
proof (induction vs arbitrary: n)
  case Nil
  then show ?case by (simp add: blind_def)
next
  case (Cons v vs)
  have e: "resolveSlice L n (v # vs) = bind_ev (map_err (IndexFailed n) (Resolve L v)) (\<lambda>x.
       bind_ev (resolveSlice L (Suc n) vs) (\<lambda>xs. lift_res (Inr (x # xs))))" by (rule ext) simp
  show ?case unfolding e using Cons by (intro blind_bind blind_map_err) auto
qed

lemma blind_Resolve: "i \<notin> value_sources v \<Longrightarrow> blind i (Resolve L v)"
proof (induction v)
  case (VStr s)
  have e: "Resolve L (VStr s) = ResolveString L s" by (rule ext) simp
  show ?case unfolding e using VStr by (intro blind_ResolveString) simp
next
  case (VMap kvs)
  have e: "Resolve L (VMap kvs) = bind_ev (resolveMap L kvs) (\<lambda>m. lift_res (Inr (VMap m)))"
    by (rule ext) simp
  have "blind i (Resolve L (snd kv))" if "kv \<in> set kvs" for kv
    using VMap that by (cases kv) (auto simp: snds.simps)
  then show ?case unfolding e by (intro blind_bind blind_resolveMap) auto
next
  case (VList vs)
  have e: "Resolve L (VList vs) = bind_ev (resolveSlice L 0 vs) (\<lambda>xs. lift_res (Inr (VList xs)))"
    by (rule ext) simp
  show ?case unfolding e using VList by (intro blind_bind blind_resolveSlice) auto
qed (simp_all add: blind_def)

definition condition_sources :: "condition \<Rightarrow> string set" where
  "condition_sources c = string_sources (Field c)
     \<union> (case Value c of VStr s \<Rightarrow> string_sources s | VList vs \<Rightarrow> value_sources (VList vs) | _ \<Rightarrow> {})"

lemma blind_Evaluate:
  assumes "i \<notin> condition_sources c" shows "blind i (Evaluate L c)"
proof -
  have f: "blind i (ResolveString L (Field c))"
    by (rule blind_ResolveString) (use assms in \<open>simp add: condition_sources_def\<close>)
  have v: "blind i (case Value c of
                  VStr s \<Rightarrow> map_err ValueFailed (ResolveString L s)
                | VList vs \<Rightarrow> map_err ValueFailed (bind_ev (resolveSlice L 0 vs) (\<lambda>xs. lift_res (Inr (VList xs))))
                | v \<Rightarrow> lift_res (Inr v))"
    using assms
    by (cases "Value c")
      (auto simp: condition_sources_def intro!: blind_map_err blind_bind blind_ResolveString blind_resolveSlice blind_Resolve)
  have e: "Evaluate L c = bind_ev (map_err FieldFailed (ResolveString L (Field c))) (\<lambda>fieldValue.
       bind_ev (case Value c of
                  VStr s \<Rightarrow> map_err ValueFailed (ResolveString L s)
                | VList vs \<Rightarrow> map_err ValueFailed (bind_ev (resolveSlice L 0 vs) (\<lambda>xs. lift_res (Inr (VList xs))))
                | v \<Rightarrow> lift_res (Inr v)) (\<lambda>expectedValue.
         lift_res (EvaluateAtomValue (regexp_compile L) (Operator c) fieldValue expectedValue)))"
    by (rule ext) (simp add: Evaluate_def)
  show ?thesis unfolding e by (intro blind_bind blind_map_err f v) simp
qed

lemma blind_EvaluateMultiple:
  assumes "\<And>c. c \<in> set cs \<Longrightarrow> i \<notin> condition_sources c"
  shows "blind i (EvaluateMultiple L cs logic)"
proof -
  have l: "blind i (evaluate_loop L b cs)" for b
    using assms
  proof (induction cs)
    case Nil
    then show ?case by (simp add: blind_def)
  next
    case (Cons c cs)
    have e: "evaluate_loop L b (c # cs) = bind_ev (Evaluate L c) (\<lambda>result.
       if b then (if result then lift_res (Inr True) else evaluate_loop L b cs)
       else (if \<not> result then lift_res (Inr False) else evaluate_loop L b cs))"
      by (rule ext) simp
    have "blind i (Evaluate L c)" "blind i (evaluate_loop L b cs)"
      using Cons by (auto intro: blind_Evaluate)
    then show ?case unfolding e by (intro blind_bind) auto
  qed
  have e: "EvaluateMultiple L cs logic =
     (if cs = [] then lift_res (Inr True) else evaluate_loop L (to_lower L logic = ''or'') cs)"
    by (rule ext) (simp add: EvaluateMultiple_def lift_res_def)
  show ?thesis unfolding e using l by simp
qed
subsection \<open>The text scan sees every plain reference\<close>

lemma sublist_trans: "sublist a b \<Longrightarrow> sublist b c \<Longrightarrow> sublist a c"
  unfolding sublist_def by (metis append.assoc)

lemma sublist_appL: "sublist s b \<Longrightarrow> sublist s (a @ b)"
  unfolding sublist_def by (metis append.assoc)

lemma sublist_appR: "sublist s a \<Longrightarrow> sublist s (a @ b)"
  unfolding sublist_def by (metis append.assoc)

lemma sublist_concat: "x \<in> set xs \<Longrightarrow> sublist (f x) (concat (map f xs))"
  by (induction xs) (auto intro: sublist_appL sublist_appR)

lemma split2_parts: "split2 c s = (a, b) \<Longrightarrow> s = (case b of None \<Rightarrow> a | Some r \<Rightarrow> a @ c # r)"
  by (induction s arbitrary: a b) (auto split: if_splits prod.splits option.splits)

lemma reference_parts_text:
  "fst (reference_parts e) = i \<Longrightarrow> e = i \<or> (\<exists>r. e = i @ ''.'' @ r)"
  using split2_parts [of "CHR ''.''" e] by (auto simp: reference_parts_def split: prod.splits option.splits)

lemma pieces_text: "Token e \<in> set (pieces s) \<Longrightarrow> sublist (token_source e) s"
proof (induction s rule: pieces.induct)
  case (2 c cs)
  show ?case
  proof (cases "cut_prefix ''${'' (c # cs)")
    case None
    then have "sublist (token_source e) cs" using 2 by (auto simp del: cut_prefix.simps)
    then show ?thesis by (rule sublist_trans) (simp add: sublist_Cons_right)
  next
    case (Some rest)
    let ?p = "\<lambda>x. x \<noteq> CHR ''}''"
    let ?e = "takeWhile ?p rest" and ?a = "dropWhile ?p rest"
    have r: "c # cs = ''${'' @ rest" using Some by (simp only: cut_prefix_Some_iff)
    show ?thesis
    proof (cases "?e \<noteq> [] \<and> ?a \<noteq> []")
      case True
      then have h: "hd ?a = CHR ''}''" using hd_dropWhile [of ?p rest] by auto
      have split: "c # cs = token_source ?e @ tl ?a"
        unfolding r token_source_def using True h takeWhile_dropWhile_id [of ?p rest]
        by (metis append.assoc append_Cons append_Nil list.collapse)
      have "pieces (c # cs) = Token ?e # pieces (tl ?a)"
        using Some True by (simp del: cut_prefix.simps add: Let_def)
      then have "e = ?e \<or> Token e \<in> set (pieces (tl ?a))" using 2(4) by simp
      then show ?thesis
      proof
        assume "e = ?e"
        then show ?thesis unfolding split by (simp add: sublist_append)
      next
        assume "Token e \<in> set (pieces (tl ?a))"
        from 2(2) [OF Some refl refl True this] show ?thesis unfolding split by (simp add: sublist_append)
      qed
    next
      case False
      then have "sublist (token_source e) cs"
        using 2(3) [OF Some refl refl False] 2(4) Some by (auto simp del: cut_prefix.simps simp: Let_def split: if_splits)
      then show ?thesis by (rule sublist_trans) (simp add: sublist_Cons_right)
    qed
  qed
qed simp

lemma full_text: "isFullExpression s \<Longrightarrow> HasExpression s \<Longrightarrow> s = token_source (butlast (drop 2 s))"
proof -
  assume "isFullExpression s" 
  then have "\<exists>x. s = ''${'' @ x" "\<exists>y. s = y @ ''}''"
    by (simp_all add: isFullExpression_def has_prefix_def has_suffix_def prefix_def suffix_def)
  then obtain x y where x: "s = ''${'' @ x" and y: "s = y @ ''}''" by blast
  have "x \<noteq> []" using x y by (cases x) auto
  then have "x = butlast x @ [last x]" by simp
  moreover have "last x = CHR ''}''" using x y \<open>x \<noteq> []\<close> by (metis last_append last_snoc append.assoc)
  ultimately show ?thesis unfolding x token_source_def by simp
qed

lemma text_expression_text: "e \<in> set (text_expressions s) \<Longrightarrow> sublist (token_source e) s"
  using full_text [of s] pieces_text [of e s]
  by (auto simp: text_expressions_def split: if_splits piece.splits)

definition only_references :: "string \<Rightarrow> bool" where
  "only_references s \<longleftrightarrow> list_all (\<lambda>e. \<not> isCompound e) (text_expressions s)"

definition mentions :: "string \<Rightarrow> string \<Rightarrow> bool" where
  "mentions s i \<longleftrightarrow> contains s (''${'' @ i @ ''.'') \<or> contains s (''${'' @ i @ ''}'')"

lemma string_sources_mentions:
  assumes "only_references s" and "i \<in> string_sources s"
  shows "mentions s i"
proof -
  obtain e where e: "e \<in> set (text_expressions s)" "i \<in> expr_sources e"
    using assms(2) by (auto simp: string_sources_def)
  then have "fst (reference_parts e) = i"
    using assms(1) by (auto simp: only_references_def list_all_iff expr_sources_def split: if_splits)
  from reference_parts_text [OF this] text_expression_text [OF e(1)] show ?thesis
    by (auto simp: mentions_def contains_def token_source_def)
      (auto simp: sublist_def)
qed
lemma writeAny_strings: "s \<in> set (value_strings v) \<Longrightarrow> sublist s (writeAny v)"
proof (induction v)
  case (VMap kvs)
  then obtain kv where kv: "kv \<in> set kvs" "s \<in> set (value_strings (snd kv))" by auto
  have "sublist s (writeAny (snd kv))" using VMap.IH [of kv] kv by (cases kv) (auto simp: snds.simps)
  moreover obtain as bs where "kvs = as @ kv # bs" using kv(1) by (auto dest: split_list)
  then have "\<exists>ps ss. writeAny (VMap kvs) = ps @ writeAny (snd kv) @ ss"
    by (intro exI [of _ "concat (map (\<lambda>kv. fst kv @ writeAny (snd kv)) as) @ fst kv"]
        exI [of _ "concat (map (\<lambda>kv. fst kv @ writeAny (snd kv)) bs) @ [CHR 0x00]"]) simp
  then have "sublist (writeAny (snd kv)) (writeAny (VMap kvs))" by (simp add: sublist_def)
  ultimately show ?case by (rule sublist_trans)
next
  case (VList vs)
  then obtain v where v: "v \<in> set vs" "s \<in> set (value_strings v)" by auto
  then have "sublist s (writeAny v)" using VList.IH by simp
  moreover obtain as bs where "vs = as @ v # bs" using v(1) by (auto dest: split_list)
  then have "\<exists>ps ss. writeAny (VList vs) = ps @ writeAny v @ ss"
    by (intro exI [of _ "concat (map writeAny as)"] exI [of _ "concat (map writeAny bs) @ [CHR 0x00]"]) simp
  then have "sublist (writeAny v) (writeAny (VList vs))" by (simp add: sublist_def)
  ultimately show ?case by (rule sublist_trans)
qed simp_all

definition condition_strings :: "condition \<Rightarrow> string list" where
  "condition_strings c = Field c # (case Value c of VStr s \<Rightarrow> [s] | VList vs \<Rightarrow> value_strings (VList vs) | _ \<Rightarrow> [])"

definition guard_conditions :: "TaskDefinition \<Rightarrow> condition list" where
  "guard_conditions t = (case task_condition t of None \<Rightarrow> [] | Some c \<Rightarrow> [c]) @ task_conditions t"

text \<open>The strings of a task that are resolved when it runs, and the sources they read.\<close>

definition task_strings :: "TaskDefinition \<Rightarrow> string list" where
  "task_strings t = value_strings (VMap (parameters t)) @ concat (map condition_strings (guard_conditions t))"

definition task_reads :: "TaskDefinition \<Rightarrow> string set" where
  "task_reads t = (\<Union>s \<in> set (task_strings t). string_sources s)"

lemma condition_text_strings: "s \<in> set (condition_strings c) \<Longrightarrow> sublist s (condition_text c)"
proof -
  assume "s \<in> set (condition_strings c)"
  then consider "s = Field c" | "s \<in> set (value_strings (Value c))"
    by (auto simp: condition_strings_def split: val.splits)
  then show ?thesis
    using writeAny_strings [of s "Value c"]
    by cases (auto simp del: writeAny.simps simp: condition_text_def intro: sublist_appL sublist_appR)
qed

lemma haystack_strings: "s \<in> set (task_strings t) \<Longrightarrow> sublist s (referenceHaystack t)"
proof -
  assume "s \<in> set (task_strings t)"
  then consider "s \<in> set (value_strings (VMap (parameters t)))"
    | c where "task_condition t = Some c" "s \<in> set (condition_strings c)"
    | c where "c \<in> set (task_conditions t)" "s \<in> set (condition_strings c)"
    by (cases "task_condition t") (auto simp: task_strings_def guard_conditions_def)
  then show ?thesis
  proof cases
    case 1
    from writeAny_strings [OF 1] show ?thesis unfolding referenceHaystack_def by (rule sublist_appR)
  next
    case 2
    from condition_text_strings [OF 2(2)] show ?thesis
      unfolding referenceHaystack_def 2(1) option.case by - (rule sublist_appL, rule sublist_appR)
  next
    case 3
    have "sublist (condition_text c) (concat (map condition_text (task_conditions t)))"
      using 3(1) by (rule sublist_concat)
    with condition_text_strings [OF 3(2)] have "sublist s (concat (map condition_text (task_conditions t)))"
      by (rule sublist_trans)
    then show ?thesis
      unfolding referenceHaystack_def
      by - (rule sublist_appL, rule sublist_appL, rule sublist_appR)
  qed
qed

lemma mentions_sublist: "mentions s i \<Longrightarrow> sublist s h \<Longrightarrow> mentions h i"
  by (auto simp: mentions_def contains_def dest: sublist_trans)

lemma taskReferences_mentions:
  "taskReferences t i \<longleftrightarrow> task_id t \<noteq> i \<and> mentions (referenceHaystack t) i"
  by (simp add: taskReferences_def mentions_def)

lemma reads_referenced:
  assumes "list_all only_references (task_strings t)" and "i \<in> task_reads t" and "task_id t \<noteq> i"
  shows "taskReferences t i"
proof -
  obtain s where s: "s \<in> set (task_strings t)" "i \<in> string_sources s" using assms(2) by (auto simp: task_reads_def)
  then have "mentions s i" using assms(1) by (auto simp: list_all_iff intro: string_sources_mentions)
  from mentions_sublist [OF this haystack_strings [OF s(1)]] show ?thesis
    using assms(3) by (simp add: taskReferences_mentions)
qed

text \<open>
  C13. The text scan that keeps tasks apart sees every plain \<open>${id...}\<close> reference a task's
  parameters and conditions resolve, at any depth: a task in whose strings no expression has an
  operator or a call resolves to the same parameters and the same guard whatever another task
  it is not found to reference exports.
\<close>

theorem unreferenced_task_is_not_read:
  assumes "list_all only_references (task_strings t)" and "\<not> taskReferences t i" and "task_id t \<noteq> i"
    and "alike i r r'"
  shows "fst (Resolve L (VMap (parameters t)) r') = fst (Resolve L (VMap (parameters t)) r)
    \<and> fst (EvaluateMultiple L (guard_conditions t) logic r') = fst (EvaluateMultiple L (guard_conditions t) logic r)"
proof -
  have n: "i \<notin> task_reads t" using reads_referenced [OF assms(1) _ assms(3)] assms(2) by blast
  then have "i \<notin> value_sources (VMap (parameters t))"
    by (auto simp: task_reads_def task_strings_def value_sources_def)
  moreover have "i \<notin> condition_sources c" if "c \<in> set (guard_conditions t)" for c
  proof -
    have "i \<notin> (\<Union>s \<in> set (condition_strings c). string_sources s)"
      using n that by (auto simp: task_reads_def task_strings_def)
    then show ?thesis
      by (auto simp: condition_sources_def condition_strings_def value_sources_def split: val.splits)
  qed
  ultimately show ?thesis
    using blindD [OF blind_Resolve assms(4)] blindD [OF blind_EvaluateMultiple assms(4)] by blast
qed

theorem unreferenced_task_is_not_read_witness:
  "fst (Resolve ascii_lib (VMap [(''text'', VStr ''${trigger.id}'')]) (AddSource ''a'' (VInt 1) NewResolver))
   = fst (Resolve ascii_lib (VMap [(''text'', VStr ''${trigger.id}'')]) NewResolver)"
proof -
  have p: "parameters (step_task ''b'' ''${trigger.id}'') = [(''text'', VStr ''${trigger.id}'')]"
    by (simp add: step_task_def)
  have "list_all only_references (task_strings (step_task ''b'' ''${trigger.id}''))"
    "\<not> taskReferences (step_task ''b'' ''${trigger.id}'') ''a''" by code_simp+
  moreover have "task_id (step_task ''b'' ''${trigger.id}'') \<noteq> ''a''" by (simp add: step_task_def)
  moreover have "alike ''a'' NewResolver (AddSource ''a'' (VInt 1) NewResolver)"
    by (simp add: alike_def AddSource_def NewResolver_def)
  ultimately show ?thesis
    using unreferenced_task_is_not_read [of "step_task ''b'' ''${trigger.id}''" "''a''" NewResolver _ ascii_lib]
    unfolding p by blast
qed

text \<open>
  The scan misses a reference inside an expression with an operator or a call: two tasks,
  the second of which reads the first's exports as \<open>${uppercase(a.name)}\<close>, are planned to run at
  the same time although the second resolves differently once the first has exported.
\<close>

theorem compound_reference_is_missed:
  "members [step_task ''a'' ''x'', step_task ''b'' ''${uppercase(a.name)}'']
       (planConcurrentRun [step_task ''a'' ''x'', step_task ''b'' ''${uppercase(a.name)}''] 0 {} 8)
     = [step_task ''a'' ''x'', step_task ''b'' ''${uppercase(a.name)}'']
   \<and> ''a'' \<in> task_reads (step_task ''b'' ''${uppercase(a.name)}'')"
proof
  let ?order = "[step_task ''a'' ''x'', step_task ''b'' ''${uppercase(a.name)}'']"
  have "planConcurrentRun ?order 0 {} 8 = \<lparr>Start = 0, End = 2\<rparr>" by code_simp
  then show "members ?order (planConcurrentRun ?order 0 {} 8) = ?order" by (simp add: members_def Len_def)
  have "text_expressions ''${uppercase(a.name)}'' = [''uppercase(a.name)'']" by code_simp
  moreover have "isCompound ''uppercase(a.name)''" "cut_prefix assetURLPrefix ''uppercase(a.name)'' = None"
    "parseCompound ''uppercase(a.name)'' = Inr (Call ''uppercase'' [Reference ''a.name''])"
    "reference_parts ''a.name'' = (''a'', ''name'')" by code_simp+
  ultimately have "''a'' \<in> string_sources ''${uppercase(a.name)}''"
    by (simp add: string_sources_def expr_sources_def)
  then show "''a'' \<in> task_reads (step_task ''b'' ''${uppercase(a.name)}'')"
    by (simp add: task_reads_def task_strings_def step_task_def)
qed

end
