(* ===== verification/Task_Loop.thy ===== *)
theory Task_Loop
  imports Reads Wait_Task Graph_Order
begin

text \<open>
  The task loop of \<open>workflow/internal/engine/engine.go\<close>: \<open>runTasksFrom\<close> and what it calls for
  each kind of task, \<open>tasks/condition.go\<close>, the resolution of sub-workflow configurations and
  the dry run of a wait. What runs outside the loop is a field of \<open>world\<close>: the execution of a
  task's action (\<open>perform\<close>), the sub-workflow a task starts or checks on (\<open>subflow\<close>), the
  instants at which the run is found cancelled, the clock, the viewer's facts. Logging,
  tracing and timestamps are left out.
\<close>

subsection \<open>The state of a run\<close>

datatype run_error =
    GuardFailed xerr
  | ParamsFailed xerr
  | ParamsNotMap
  | ActionFailed string
  | WaitTimeout
  | EngineStopped
  | RunCancelled
  | WorkflowIdFailed xerr
  | WorkflowIdType
  | EventDataFailed xerr
  | EventDataType
  | SubParamsFailed xerr
  | SubParamsType
  | SubParamTypes "(string \<times> string) list"
  | NoWorkflowId
  | SubWorkflowFailed string

record TaskExecution =
  te_status :: TaskStatus
  te_result :: "TaskResult option"
  te_error :: "run_error option"
  te_wait :: "WaitState option"
  te_workflow :: "WorkflowState option"

record RunStep =
  rs_taskID :: string
  rs_status :: TaskStatus
  rs_index :: nat
  rs_inputs :: "obj option"
  rs_outputs :: "obj option"
  rs_error :: "run_error option"

datatype wf_result = WfWaiting | WfCancelled | WfFailed string | WfCompleted

record world =
  lib :: golib
  trigger :: Event
  viewer_data :: val
  asset_base :: "string option"
  dry_run :: bool
  recording :: bool
  concurrency :: int
  perform :: "TaskDefinition \<Rightarrow> obj \<Rightarrow> TaskResult option \<times> string option"
  subflow :: "TaskDefinition \<Rightarrow> WorkflowConfig option \<Rightarrow> WorkflowState option \<Rightarrow> wf_result \<times> WorkflowState option"
  cancelled_at :: "nat \<Rightarrow> bool"
  abandoned_at :: "nat \<Rightarrow> bool"
  arm_refusal :: "nat \<Rightarrow> string"
  wait_clock :: "nat \<Rightarrow> time"
  show_events :: "Event list \<Rightarrow> string"
  show_duration :: "duration \<Rightarrow> string"

text \<open>
  \<open>taskExports\<close>, \<open>execution.Tasks\<close> and \<open>skippedTasks\<close>. The list \<open>performed\<close> only records which
  actions were executed, in order.
\<close>

record run =
  exports :: "string \<Rightarrow> obj option"
  task_execs :: "string \<Rightarrow> TaskExecution option"
  skipped :: "string set"
  recorded :: "RunStep list"
  performed :: "string list"

datatype outcome = Completed | Failed run_error | Cancelled | Paused nat

subsection \<open>Steps of a run\<close>

definition recordStep :: "world \<Rightarrow> string \<Rightarrow> nat \<Rightarrow> obj option \<Rightarrow> TaskExecution \<Rightarrow> run \<Rightarrow> run" where
  "recordStep W i index inputs te st =
     (if \<not> recording W then st
      else st\<lparr>recorded := recorded st @
        [\<lparr>rs_taskID = i, rs_status = te_status te, rs_index = index, rs_inputs = inputs,
          rs_outputs = (case te_result te of
                          None \<Rightarrow> None
                        | Some r \<Rightarrow> (case tr_exports r of Some e \<Rightarrow> Some e | None \<Rightarrow> tr_data r)),
          rs_error = te_error te\<rparr>]\<rparr>)"

text \<open>A settled task: its execution is stored and recorded.\<close>

definition settle_task :: "world \<Rightarrow> string \<Rightarrow> nat \<Rightarrow> obj option \<Rightarrow> TaskExecution \<Rightarrow> run \<Rightarrow> run" where
  "settle_task W i index inputs te st =
     recordStep W i index inputs te (st\<lparr>task_execs := (task_execs st)(i := Some te)\<rparr>)"

definition fresh_exec :: "TaskStatus \<Rightarrow> TaskExecution" where
  "fresh_exec s = \<lparr>te_status = s, te_result = None, te_error = None, te_wait = None, te_workflow = None\<rparr>"

definition current_exec :: "string \<Rightarrow> run \<Rightarrow> TaskExecution" where
  "current_exec i st =
     (case task_execs st i of
        None \<Rightarrow> fresh_exec TaskRunning
      | Some te \<Rightarrow> te\<lparr>te_status := TaskRunning\<rparr>)"

definition put_key :: "string \<Rightarrow> val \<Rightarrow> obj \<Rightarrow> obj" where
  "put_key k v m = filter (\<lambda>p. fst p \<noteq> k) m @ [(k, v)]"

definition set_exports :: "string \<Rightarrow> obj \<Rightarrow> run \<Rightarrow> run" where
  "set_exports i ex st = st\<lparr>exports := (exports st)(i := Some ex)\<rparr>"

subsection \<open>The resolver of a step\<close>

definition viewerSource :: string where "viewerSource = ''viewer''"

text \<open>
  The sources of the exports replace those added before, in any order, since a task id occurs
  once. \<open>AddLazySource\<close> cannot panic here: a source named \<open>viewer\<close> shadows the lazy one.
\<close>

definition addViewerSource :: "world \<Rightarrow> (string \<Rightarrow> obj option) \<Rightarrow> resolver \<Rightarrow> resolver" where
  "addViewerSource W ex r =
     (if ex viewerSource \<noteq> None then r
      else (case AddLazySource viewerSource (\<lambda>_. Inr (viewer_data W)) r of Some r' \<Rightarrow> r' | None \<Rightarrow> r))"

definition buildResolver :: "world \<Rightarrow> (string \<Rightarrow> obj option) \<Rightarrow> resolver" where
  "buildResolver W ex =
     (let r = AddSource ''trigger'' (TriggerFields (trigger W)) NewResolver;
          r = r\<lparr>sources := sources r ++ (\<lambda>i. map_option VMap (ex i))\<rparr>;
          r = addViewerSource W ex r
      in (case asset_base W of None \<Rightarrow> r | Some b \<Rightarrow> SetAssetURLBase (b @ ''/assets'') r))"

subsection \<open>Conditions\<close>

text \<open>\<open>ConditionTask\<close>: \<open>guard_conditions\<close> is the list \<open>Evaluate\<close> builds.\<close>

definition condition_Evaluate :: "world \<Rightarrow> TaskDefinition \<Rightarrow> (string \<Rightarrow> obj option) \<Rightarrow> (xerr, bool) res" where
  "condition_Evaluate W t ex =
     (if guard_conditions t = [] then Inr True
      else fst (EvaluateMultiple (lib W) (guard_conditions t) (conditionLogic t) (buildResolver W ex)))"

definition GetBranchTasks :: "TaskDefinition \<Rightarrow> bool \<Rightarrow> string list" where
  "GetBranchTasks t result = (if result then onTrue t else onFalse t)"

definition has_conditions :: "TaskDefinition \<Rightarrow> bool" where
  "has_conditions t \<longleftrightarrow> task_condition t \<noteq> None \<or> task_conditions t \<noteq> []"

definition show_ids :: "string list \<Rightarrow> val" where
  "show_ids xs = VOther ''[]string'' (''['' @ join '' '' xs @ '']'')"

definition settleCondition :: "world \<Rightarrow> TaskDefinition \<Rightarrow> TaskExecution \<Rightarrow> nat \<Rightarrow> bool \<Rightarrow> bool \<Rightarrow> run \<Rightarrow> run" where
  "settleCondition W t te index result disabled st =
     (let data = [(''result'', VBool result), (''branchTaken'', show_ids (GetBranchTasks t result)),
                  (''branchSkipped'', show_ids (GetBranchTasks t (\<not> result)))]
                 @ (if disabled then [(''disabled'', VBool True)] else []);
          ex = [(''result'', VBool result)];
          te' = te\<lparr>te_status := TaskSuccess,
                   te_result := Some \<lparr>tr_status = TaskSuccess, tr_data = Some data, tr_exports = Some ex\<rparr>\<rparr>
      in settle_task W (task_id t) index None te'
           (set_exports (task_id t) ex (st\<lparr>skipped := skipped st \<union> set (GetBranchTasks t (\<not> result))\<rparr>)))"

definition skipBranchesOfSkippedCondition :: "TaskDefinition \<Rightarrow> string set \<Rightarrow> string set" where
  "skipBranchesOfSkippedCondition t sk =
     (if task_type t \<noteq> TaskTypeCondition then sk else sk \<union> set (onTrue t @ onFalse t))"

definition skipped_result :: "string \<Rightarrow> TaskResult" where
  "skipped_result reason = \<lparr>tr_status = TaskSkipped,
     tr_data = Some [(''skipped'', VBool True), (''reason'', VStr reason)], tr_exports = None\<rparr>"

definition skipDisabledTask :: "world \<Rightarrow> TaskDefinition \<Rightarrow> TaskExecution \<Rightarrow> nat \<Rightarrow> run \<Rightarrow> run" where
  "skipDisabledTask W t te index st =
     settle_task W (task_id t) index None
       (te\<lparr>te_status := TaskSkipped, te_result := Some (skipped_result ''task disabled'')\<rparr>) st"
definition cancelPendingTask :: "world \<Rightarrow> string \<Rightarrow> nat \<Rightarrow> run \<Rightarrow> run" where
  "cancelPendingTask W i index st =
     (let te = (case task_execs st i of None \<Rightarrow> fresh_exec TaskCancelled | Some te \<Rightarrow> te)
      in settle_task W i index None (te\<lparr>te_status := TaskCancelled, te_error := Some RunCancelled\<rparr>) st)"

definition fail_task :: "world \<Rightarrow> string \<Rightarrow> nat \<Rightarrow> obj option \<Rightarrow> TaskExecution \<Rightarrow> run_error \<Rightarrow> run \<Rightarrow> outcome option \<times> run" where
  "fail_task W i index inputs te err st =
     (Some (Failed err), settle_task W i index inputs (te\<lparr>te_status := TaskFailed, te_error := Some err\<rparr>) st)"

subsection \<open>Executing an action\<close>

definition add_exports :: "TaskDefinition \<Rightarrow> TaskResult \<Rightarrow> TaskResult" where
  "add_exports t r =
     (case (task_exports t, tr_data r) of
        (Some es, Some data) \<Rightarrow>
          r\<lparr>tr_exports := Some (foldl (\<lambda>m (name, path). case ResolvePath (VMap data) path of
              Inr v \<Rightarrow> put_key name v m | Inl _ \<Rightarrow> m)
            (case tr_exports r of Some e \<Rightarrow> e | None \<Rightarrow> []) es)\<rparr>
      | _ \<Rightarrow> r)"

definition executeTask ::
  "world \<Rightarrow> TaskDefinition \<Rightarrow> (string \<Rightarrow> obj option) \<Rightarrow> TaskResult option \<times> obj option \<times> run_error option" where
  "executeTask W t ex =
     (case fst (Resolve (lib W) (VMap (parameters t)) (buildResolver W ex)) of
        Inl e \<Rightarrow> (None, None, Some (ParamsFailed e))
      | Inr (VMap params) \<Rightarrow>
          (case perform W t params of
             (result, Some err) \<Rightarrow> (result, Some params, Some (ActionFailed err))
           | (result, None) \<Rightarrow> (map_option (add_exports t) result, Some params, None))
      | Inr _ \<Rightarrow> (None, None, Some ParamsNotMap))"

definition publishTaskResultExports :: "string \<Rightarrow> TaskResult option \<Rightarrow> run \<Rightarrow> run" where
  "publishTaskResultExports i result st =
     (case result of
        None \<Rightarrow> st
      | Some r \<Rightarrow> (case (case tr_exports r of Some e \<Rightarrow> Some e | None \<Rightarrow> tr_data r) of
                   None \<Rightarrow> st
                 | Some e \<Rightarrow> set_exports i e st))"

definition run_action :: "world \<Rightarrow> TaskDefinition \<Rightarrow> TaskExecution \<Rightarrow> nat \<Rightarrow> run \<Rightarrow> outcome option \<times> run" where
  "run_action W t te index st =
     (let st = st\<lparr>performed := performed st @ [task_id t]\<rparr>
      in if abandoned_at W index then (Some Cancelled, cancelPendingTask W (task_id t) index st)
         else (case executeTask W t (exports st) of
                 (result, params, Some err) \<Rightarrow>
                   fail_task W (task_id t) index params (te\<lparr>te_result := result\<rparr>) err st
               | (result, params, None) \<Rightarrow>
                   (None, settle_task W (task_id t) index params
                      (te\<lparr>te_status := TaskSuccess, te_result := result\<rparr>)
                      (publishTaskResultExports (task_id t) result st))))"

subsection \<open>Waits\<close>

definition export_value :: "world \<Rightarrow> wait_export \<Rightarrow> val" where
  "export_value W x =
     (case x of Plain v \<Rightarrow> v
      | AnEvent e \<Rightarrow> VOther ''*types.Event'' (show_events W [e])
      | Events es \<Rightarrow> VOther ''[]*types.Event'' (show_events W es))"

definition wait_exports :: "world \<Rightarrow> WaitState \<Rightarrow> obj" where
  "wait_exports W w = map (\<lambda>(k, x). (k, export_value W x)) (GetExports w)"

definition finish_wait :: "world \<Rightarrow> TaskDefinition \<Rightarrow> TaskExecution \<Rightarrow> nat \<Rightarrow> obj \<Rightarrow> run \<Rightarrow> outcome option \<times> run" where
  "finish_wait W t te index ex st =
     (None, settle_task W (task_id t) index None
        (te\<lparr>te_status := TaskSuccess,
           te_result := Some \<lparr>tr_status = TaskSuccess, tr_data = None, tr_exports = Some ex\<rparr>\<rparr>)
        (set_exports (task_id t) ex st))"

text \<open>\<open>handleWaitTask\<close>: what a wait says of its run, and the task's execution after it.\<close>

datatype wait_result = WaitPaused | WaitRefused string | WaitSatisfied | WaitTimedOut

definition handleWaitTask :: "world \<Rightarrow> TaskDefinition \<Rightarrow> TaskExecution \<Rightarrow> nat \<Rightarrow> wait_result \<times> TaskExecution" where
  "handleWaitTask W t te index =
     (case te_wait te of
        None \<Rightarrow>
          (let te' = te\<lparr>te_wait := InitWaitState t (wait_clock W), te_status := TaskWaiting\<rparr>
           in (if arm_refusal W index \<noteq> '''' then WaitRefused (arm_refusal W index) else WaitPaused, te'))
      | Some w \<Rightarrow>
          (if ws_satisfied w then (WaitSatisfied, te)
           else if ws_timedOut w then (WaitTimedOut, te)
           else (WaitTimedOut, te\<lparr>te_wait := Some (w\<lparr>ws_timedOut := True, ws_onTimeout := OnTimeoutFail\<rparr>)\<rparr>)))"

definition run_wait :: "world \<Rightarrow> TaskDefinition \<Rightarrow> TaskExecution \<Rightarrow> nat \<Rightarrow> run \<Rightarrow> outcome option \<times> run" where
  "run_wait W t te index st =
     (case handleWaitTask W t te index of
        (WaitPaused, te') \<Rightarrow> (Some (Paused index), st\<lparr>task_execs := (task_execs st)(task_id t := Some te')\<rparr>)
      | (WaitRefused why, te') \<Rightarrow>
          (let st = st\<lparr>task_execs := (task_execs st)(task_id t := Some te')\<rparr>
           in if why = ''stopped'' then fail_task W (task_id t) index None te' EngineStopped st
              else (Some Cancelled, cancelPendingTask W (task_id t) index st))
      | (WaitTimedOut, te') \<Rightarrow>
          (case te_wait te' of
             Some w \<Rightarrow> (if ws_onTimeout w = OnTimeoutFail
                       then fail_task W (task_id t) index None te' WaitTimeout st
                       else finish_wait W t te' index (wait_exports W w) st)
           | None \<Rightarrow> (None, st))
      | (WaitSatisfied, te') \<Rightarrow>
          (case te_wait te' of
             Some w \<Rightarrow> finish_wait W t te' index (wait_exports W w) st
           | None \<Rightarrow> (None, st)))"

definition describeWait :: "world \<Rightarrow> WaitConfig \<Rightarrow> string" where
  "describeWait W c =
     (if IsDelay (Some c) then ''would wait '' @ show_duration W (wc_durationMs c * Millisecond)
      else
        (let sentence =
           (if wc_event c = [] then ''would wait''
            else if wc_aggregation c \<noteq> None then ''would wait for '' @ wc_event c @ '' events to add up''
            else ''would wait for a '' @ wc_event c @ '' event'')
         in case wc_timeout c of
              Some d \<Rightarrow> (if d > 0 then sentence @ '' for up to '' @ show_duration W d else sentence)
            | None \<Rightarrow> sentence))"

definition completeDryRunWait :: "world \<Rightarrow> TaskDefinition \<Rightarrow> TaskExecution \<Rightarrow> nat \<Rightarrow> run \<Rightarrow> outcome option \<times> run" where
  "completeDryRunWait W t te index st =
     (let ex = [(''dryRun'', VBool True), (''satisfied'', VBool True), (''timedOut'', VBool False),
                (''events'', VList []), (''data'', VOpen [])]
               @ (case task_wait t of
                    Some c \<Rightarrow> (if wc_aggregation c \<noteq> None then [(''count'', VInt 0), (''sum'', VFloat f_zero)] else [])
                  | None \<Rightarrow> [])
      in (None, settle_task W (task_id t) index None
            (te\<lparr>te_status := TaskSuccess,
               te_result := Some \<lparr>tr_status = TaskSuccess,
                 tr_data = Some [(''dryRun'', VBool True), (''wouldDo'', VStr (case task_wait t of Some c \<Rightarrow> describeWait W c | None \<Rightarrow> []))], tr_exports = Some ex\<rparr>\<rparr>)
            (set_exports (task_id t) ex st)))"
subsection \<open>Sub-workflows\<close>

definition resolveWorkflowBlock :: "world \<Rightarrow> WorkflowConfig \<Rightarrow> resolver \<Rightarrow> (run_error, WorkflowConfig) res" where
  "resolveWorkflowBlock W block r =
     (case (if wf_workflowID block = '''' then (Inr (VStr ''''), r)
            else ResolveString (lib W) (wf_workflowID block) r) of
        (Inl e, _) \<Rightarrow> Inl (WorkflowIdFailed e)
      | (Inr (VStr i), r1) \<Rightarrow>
          (case fst (Resolve (lib W) (VMap (wf_eventData block)) r1) of
             Inl e \<Rightarrow> Inl (EventDataFailed e)
           | Inr (VMap d) \<Rightarrow> Inr (block\<lparr>wf_workflowID := i, wf_eventData := d\<rparr>)
           | Inr _ \<Rightarrow> Inl EventDataType)
      | (Inr _, _) \<Rightarrow> Inl WorkflowIdType)"

text \<open>\<open>workflowParam\<close>: an absent or null parameter, one of the type wanted, or one that is not.\<close>

definition workflowParam :: "obj \<Rightarrow> string \<Rightarrow> string \<Rightarrow> (val \<Rightarrow> 'a option) \<Rightarrow> 'a \<Rightarrow> (string \<times> string) list \<times> 'a" where
  "workflowParam params key want as_type zero =
     (case map_of params key of
        None \<Rightarrow> ([], zero)
      | Some raw \<Rightarrow>
          if raw = VNil then ([], zero)
          else (case as_type raw of Some v \<Rightarrow> ([], v) | None \<Rightarrow> ([(key, want)], zero)))"

fun as_string :: "val \<Rightarrow> string option" where
  "as_string (VStr s) = Some s" | "as_string _ = None"

fun as_bool :: "val \<Rightarrow> bool option" where
  "as_bool (VBool b) = Some b" | "as_bool _ = None"

fun as_object :: "val \<Rightarrow> obj option" where
  "as_object (VMap m) = Some m" | "as_object _ = None"

definition resolveWorkflowParameters :: "world \<Rightarrow> obj \<Rightarrow> resolver \<Rightarrow> (run_error, WorkflowConfig) res" where
  "resolveWorkflowParameters W ps r =
     (case fst (Resolve (lib W) (VMap ps) r) of
        Inl e \<Rightarrow> Inl (SubParamsFailed e)
      | Inr (VMap params) \<Rightarrow>
          (let (e1, i) = workflowParam params ''workflowId'' ''a string'' as_string '''';
               (e2, w) = workflowParam params ''waitUntilCompletion'' ''a boolean'' as_bool False;
               (e3, ev) = workflowParam params ''event'' ''a string'' as_string '''';
               (e4, d) = workflowParam params ''eventData'' ''an object'' as_object []
           in if e1 @ e2 @ e3 @ e4 \<noteq> [] then Inl (SubParamTypes (e1 @ e2 @ e3 @ e4))
              else Inr \<lparr>wf_workflowID = i, wf_waitUntilCompletion = w, wf_event = ev, wf_eventData = d, wf_timeout = None\<rparr>)
      | Inr _ \<Rightarrow> Inl SubParamsType)"

definition resolveWorkflowConfig :: "world \<Rightarrow> TaskDefinition \<Rightarrow> resolver \<Rightarrow> (run_error, WorkflowConfig) res" where
  "resolveWorkflowConfig W t r =
     bind_res (case task_workflow t of
                 Some block \<Rightarrow> resolveWorkflowBlock W block r
               | None \<Rightarrow> resolveWorkflowParameters W (parameters t) r)
       (\<lambda>c. if wf_workflowID c = '''' then Inl NoWorkflowId else Inr c)"

definition workflow_exports :: "WorkflowState option \<Rightarrow> obj" where
  "workflow_exports ws =
     (case ws of
        None \<Rightarrow> [(''completed'', VBool False)]
      | Some s \<Rightarrow>
          [(''executionId'', VStr (sub_executionID s)), (''completed'', VBool (sub_completed s))]
          @ (if \<not> sub_completed s then []
             else (case sub_result s of
                     None \<Rightarrow> []
                   | Some m \<Rightarrow> [(''result'', VMap m), (''variables'', VMap m)])))"

definition run_workflow :: "world \<Rightarrow> TaskDefinition \<Rightarrow> TaskExecution \<Rightarrow> nat \<Rightarrow> run \<Rightarrow> outcome option \<times> run" where
  "run_workflow W t te index st =
     (let config = (if te_workflow te \<noteq> None then Inr None
                    else map_sum (\<lambda>e. e) Some (resolveWorkflowConfig W t (buildResolver W (exports st))))
      in (case config of
            Inl e \<Rightarrow> fail_task W (task_id t) index None te e st
          | Inr c \<Rightarrow>
              (case subflow W t c (te_workflow te) of
                 (WfWaiting, ws) \<Rightarrow>
                   (Some (Paused index), st\<lparr>task_execs := (task_execs st)(task_id t :=
                      Some (te\<lparr>te_workflow := ws, te_status := TaskWaiting\<rparr>))\<rparr>)
               | (WfCancelled, ws) \<Rightarrow>
                   (Some Cancelled, cancelPendingTask W (task_id t) index
                      (st\<lparr>task_execs := (task_execs st)(task_id t := Some (te\<lparr>te_workflow := ws\<rparr>))\<rparr>))
               | (WfFailed why, ws) \<Rightarrow>
                   fail_task W (task_id t) index None (te\<lparr>te_workflow := ws\<rparr>) (SubWorkflowFailed why) st
               | (WfCompleted, ws) \<Rightarrow>
                   finish_wait W t (te\<lparr>te_workflow := ws\<rparr>) index (workflow_exports ws) st)))"

subsection \<open>One task\<close>

definition skip_task :: "world \<Rightarrow> TaskDefinition \<Rightarrow> nat \<Rightarrow> run \<Rightarrow> run" where
  "skip_task W t index st =
     settle_task W (task_id t) index None (fresh_exec TaskSkipped)
       (st\<lparr>skipped := skipBranchesOfSkippedCondition t (skipped st)\<rparr>)"

definition guard_false :: "world \<Rightarrow> TaskDefinition \<Rightarrow> TaskExecution \<Rightarrow> nat \<Rightarrow> run \<Rightarrow> run" where
  "guard_false W t te index st =
     settle_task W (task_id t) index None
       (te\<lparr>te_status := TaskSkipped, te_result := Some (skipped_result ''condition evaluated to false'')\<rparr>) st"

text \<open>The body of the loop after the guard of a task that is not a condition.\<close>

definition run_kind :: "world \<Rightarrow> TaskDefinition \<Rightarrow> TaskExecution \<Rightarrow> nat \<Rightarrow> run \<Rightarrow> outcome option \<times> run" where
  "run_kind W t te index st =
     (if task_type t = TaskTypeWait \<and> task_wait t \<noteq> None
      then (if dry_run W then completeDryRunWait W t te index st else run_wait W t te index st)
      else if task_type t = TaskTypeWorkflow then run_workflow W t te index st
      else run_action W t te index st)"

definition run_task :: "world \<Rightarrow> TaskDefinition \<Rightarrow> nat \<Rightarrow> run \<Rightarrow> outcome option \<times> run" where
  "run_task W t index st =
     (if task_id t \<in> skipped st then (None, skip_task W t index st)
      else
        (let te = current_exec (task_id t) st;
             st = st\<lparr>task_execs := (task_execs st)(task_id t := Some te)\<rparr>
         in if task_disabled t
            then (None, if task_type t = TaskTypeCondition then settleCondition W t te index False True st
                        else skipDisabledTask W t te index st)
            else if has_conditions t
            then (case condition_Evaluate W t (exports st) of
                    Inl e \<Rightarrow> fail_task W (task_id t) index None te (GuardFailed e) st
                  | Inr result \<Rightarrow>
                      if task_type t = TaskTypeCondition
                      then (None, settleCondition W t te index result False st)
                      else if \<not> result then (None, guard_false W t te index st)
                      else run_kind W t te index st)
            else run_kind W t te index st))"
subsection \<open>Tasks that run together\<close>

text \<open>
  The two passes of \<open>executeConcurrentRun\<close>: the guards in order, which decide the tasks to run,
  and the outcomes of those, in the same order whatever the order they finish in. Every task
  resolves its parameters against the exports there were when the run started. The position
  recorded for an outcome counts from the start of the run over the tasks that ran.
\<close>

fun guard_pass :: "world \<Rightarrow> nat \<Rightarrow> TaskDefinition list \<Rightarrow> run \<Rightarrow> outcome option \<times> TaskDefinition list \<times> run" where
  "guard_pass W index [] st = (None, [], st)"
| "guard_pass W index (t # ts) st =
     (let te = fresh_exec TaskRunning;
          st = st\<lparr>task_execs := (task_execs st)(task_id t := Some te)\<rparr>;
          run_it = (case guard_pass W (Suc index) ts st of (out, torun, st') \<Rightarrow> (out, t # torun, st'))
      in if task_disabled t then guard_pass W (Suc index) ts (skipDisabledTask W t te index st)
         else if \<not> has_conditions t then run_it
         else (case condition_Evaluate W t (exports st) of
                 Inl e \<Rightarrow> (case fail_task W (task_id t) index None te (GuardFailed e) st of (out, st') \<Rightarrow> (out, [], st'))
               | Inr result \<Rightarrow>
                   if \<not> result then guard_pass W (Suc index) ts (guard_false W t te index st) else run_it))"

fun apply_outcomes ::
  "world \<Rightarrow> (string \<Rightarrow> obj option) \<Rightarrow> nat \<Rightarrow> TaskDefinition list \<Rightarrow> bool \<Rightarrow> run_error option \<Rightarrow> run
   \<Rightarrow> bool \<times> run_error option \<times> run" where
  "apply_outcomes W ex stepIndex [] cancelled failure st = (cancelled, failure, st)"
| "apply_outcomes W ex stepIndex (t # ts) cancelled failure st =
     (if abandoned_at W stepIndex
      then apply_outcomes W ex (Suc stepIndex) ts True failure (cancelPendingTask W (task_id t) stepIndex st)
      else
        (let te = (case task_execs st (task_id t) of Some te \<Rightarrow> te | None \<Rightarrow> fresh_exec TaskRunning)
         in case executeTask W t ex of
              (result, params, Some err) \<Rightarrow>
                apply_outcomes W ex (Suc stepIndex) ts cancelled (if failure = None then Some err else failure)
                  (snd (fail_task W (task_id t) stepIndex params (te\<lparr>te_result := result\<rparr>) err st))
            | (result, params, None) \<Rightarrow>
                apply_outcomes W ex (Suc stepIndex) ts cancelled failure
                  (settle_task W (task_id t) stepIndex params
                     (te\<lparr>te_status := TaskSuccess, te_result := result\<rparr>)
                     (publishTaskResultExports (task_id t) result st))))"

definition executeConcurrentRun :: "world \<Rightarrow> TaskDefinition list \<Rightarrow> concurrentRun \<Rightarrow> run \<Rightarrow> outcome option \<times> run" where
  "executeConcurrentRun W order r st =
     (case guard_pass W (Start r) (members order r) st of
        (Some out, _, st1) \<Rightarrow> (Some out, st1)
      | (None, torun, st1) \<Rightarrow>
          (case apply_outcomes W (exports st1) (Start r) torun False None
                  (st1\<lparr>performed := performed st1 @ map task_id torun\<rparr>) of
             (cancelled, failure, st2) \<Rightarrow>
               (if cancelled then Some Cancelled else map_option Failed failure, st2)))"

subsection \<open>The loop\<close>

lemma plan_End: "i < length order \<Longrightarrow> i < End (planConcurrentRun order i sk limit) \<and> End (planConcurrentRun order i sk limit) \<le> length order"
proof -
  assume i: "i < length order"
  obtain ys zs where "drop (i + 1) order = ys @ zs"
    and r: "planConcurrentRun order i sk limit = \<lparr>Start = i, End = i + 1 + length ys\<rparr>"
    using plan_members [OF i, of sk limit] by blast
  then have "length order - (i + 1) = length ys + length zs" by (metis length_append length_drop)
  then show ?thesis using i by (simp add: r)
qed

definition plan_at :: "world \<Rightarrow> TaskDefinition list \<Rightarrow> nat \<Rightarrow> run \<Rightarrow> concurrentRun" where
  "plan_at W order i st = planConcurrentRun order i (skipped st) (maxConcurrentTasks (concurrency W))"

definition run_stretch :: "world \<Rightarrow> TaskDefinition list \<Rightarrow> nat \<Rightarrow> run \<Rightarrow> outcome option \<times> run" where
  "run_stretch W order i st =
     (if 1 < Len (plan_at W order i st) then executeConcurrentRun W order (plan_at W order i st) st
      else run_task W (order ! i) i st)"

definition next_index :: "world \<Rightarrow> TaskDefinition list \<Rightarrow> nat \<Rightarrow> run \<Rightarrow> nat" where
  "next_index W order i st =
     (if 1 < Len (plan_at W order i st) then End (plan_at W order i st) else Suc i)"

lemma next_index_grows: "i < length order \<Longrightarrow> i < next_index W order i st \<and> next_index W order i st \<le> length order"
  using plan_End [of i order] by (simp add: next_index_def plan_at_def)

function runTasksFrom :: "world \<Rightarrow> TaskDefinition list \<Rightarrow> nat \<Rightarrow> run \<Rightarrow> outcome \<times> run" where
  "runTasksFrom W order i st =
     (if length order \<le> i then (Completed, st)
      else if cancelled_at W i then (Cancelled, st)
      else (case run_stretch W order i st of
              (Some out, st') \<Rightarrow> (out, st')
            | (None, st') \<Rightarrow> runTasksFrom W order (next_index W order i st) st'))"
  by pat_completeness auto

termination runTasksFrom
  by (relation "measure (\<lambda>(W, order, i, st). length order - i)")
    (auto simp: not_le intro!: diff_less_mono2 next_index_grows [THEN conjunct1])

declare runTasksFrom.simps [simp del]

definition start_run :: run where
  "start_run = \<lparr>exports = (\<lambda>_. None), task_execs = (\<lambda>_. None), skipped = {}, recorded = [], performed = []\<rparr>"

text \<open>\<open>runExecution\<close> after the loop check: \<open>Inl\<close> when the tasks cannot be ordered.\<close>

definition runExecution :: "world \<Rightarrow> TaskDefinition list \<Rightarrow> gerr + outcome \<times> run" where
  "runExecution W ts =
     bind_res (NewDependencyGraph ts) (\<lambda>g.
       bind_res (GetExecutionOrder g) (\<lambda>order. Inr (runTasksFrom W order 0 start_run)))"

end
