(* ===== verification/Run_Branches.thy ===== *)
theory Run_Branches
  imports Task_Loop
begin

text \<open>
  What a run does with the branches of its conditions: a task that a branch not taken
  excludes is never executed, and no task is executed twice.
\<close>

subsection \<open>What each step leaves alone\<close>

named_theorems run_frame \<open>the skipped and performed tasks after a step\<close>

lemma settle_frame [simp, run_frame]:
  "skipped (settle_task W i n inp te st) = skipped st" "performed (settle_task W i n inp te st) = performed st"
  "exports (settle_task W i n inp te st) = exports st"
  "task_execs (settle_task W i n inp te st) = (task_execs st)(i := Some te)"
  by (simp_all add: settle_task_def recordStep_def)

lemma set_exports_frame [simp, run_frame]:
  "skipped (set_exports i e st) = skipped st" "performed (set_exports i e st) = performed st"
  "exports (set_exports i e st) = (exports st)(i := Some e)" "task_execs (set_exports i e st) = task_execs st"
  "recorded (set_exports i e st) = recorded st"
  by (simp_all add: set_exports_def)

lemma publish_frame [simp, run_frame]:
  "skipped (publishTaskResultExports i r st) = skipped st"
  "performed (publishTaskResultExports i r st) = performed st"
  "task_execs (publishTaskResultExports i r st) = task_execs st"
  "recorded (publishTaskResultExports i r st) = recorded st"
  by (auto simp: publishTaskResultExports_def split: option.split)

lemma publish_exports: "n \<noteq> i \<Longrightarrow> exports (publishTaskResultExports i r st) n = exports st n"
  by (auto simp: publishTaskResultExports_def split: option.split)

lemma cancel_frame [simp, run_frame]:
  "skipped (cancelPendingTask W i n st) = skipped st" "performed (cancelPendingTask W i n st) = performed st"
  "exports (cancelPendingTask W i n st) = exports st"
  by (simp_all add: cancelPendingTask_def Let_def)

lemma fail_frame [simp, run_frame]:
  "skipped (snd (fail_task W i n inp te e st)) = skipped st"
  "performed (snd (fail_task W i n inp te e st)) = performed st"
  "exports (snd (fail_task W i n inp te e st)) = exports st"
  "fst (fail_task W i n inp te e st) = Some (Failed e)"
  by (simp_all add: fail_task_def)

lemma finish_wait_frame [simp, run_frame]:
  "skipped (snd (finish_wait W t te n ex st)) = skipped st"
  "performed (snd (finish_wait W t te n ex st)) = performed st"
  "fst (finish_wait W t te n ex st) = None"
  by (simp_all add: finish_wait_def)

lemma condition_frame [simp, run_frame]:
  "skipped (settleCondition W t te n b d st) = skipped st \<union> set (GetBranchTasks t (\<not> b))"
  "performed (settleCondition W t te n b d st) = performed st"
  "exports (settleCondition W t te n b d st) = (exports st)(task_id t := Some [(''result'', VBool b)])"
  by (simp_all add: settleCondition_def Let_def)

lemma skip_frame [simp, run_frame]:
  "skipped (skip_task W t n st) = skipBranchesOfSkippedCondition t (skipped st)"
  "performed (skip_task W t n st) = performed st" "exports (skip_task W t n st) = exports st"
  "skipped (skipDisabledTask W t te n st) = skipped st" "performed (skipDisabledTask W t te n st) = performed st"
  "exports (skipDisabledTask W t te n st) = exports st"
  "skipped (guard_false W t te n st) = skipped st" "performed (guard_false W t te n st) = performed st"
  "exports (guard_false W t te n st) = exports st"
  by (simp_all add: skip_task_def skipDisabledTask_def guard_false_def)

lemma run_action_frame:
  "skipped (snd (run_action W t te n st)) = skipped st"
  "performed (snd (run_action W t te n st)) = performed st @ [task_id t]"
  by (auto simp: run_action_def Let_def split: prod.splits option.splits)

lemma run_wait_frame:
  "skipped (snd (run_wait W t te n st)) = skipped st" "performed (snd (run_wait W t te n st)) = performed st"
  by (auto simp: run_wait_def Let_def split: prod.splits option.splits wait_result.splits)

lemma run_workflow_frame:
  "skipped (snd (run_workflow W t te n st)) = skipped st"
  "performed (snd (run_workflow W t te n st)) = performed st"
  by (auto simp: run_workflow_def Let_def split: prod.splits sum.splits wf_result.splits)

lemma dry_run_frame:
  "skipped (snd (completeDryRunWait W t te n st)) = skipped st"
  "performed (snd (completeDryRunWait W t te n st)) = performed st"
  by (simp_all add: completeDryRunWait_def Let_def)

lemma run_kind_frame:
  "skipped (snd (run_kind W t te n st)) = skipped st"
  "performed (snd (run_kind W t te n st)) = performed st
   \<or> performed (snd (run_kind W t te n st)) = performed st @ [task_id t]"
  by (simp_all add: run_kind_def run_action_frame run_wait_frame run_workflow_frame dry_run_frame)

subsection \<open>One task\<close>

text \<open>A condition the loop settles by its conditions, or because it is disabled.\<close>

definition decides :: "TaskDefinition \<Rightarrow> bool" where
  "decides t \<longleftrightarrow> task_type t = TaskTypeCondition \<and> (task_disabled t \<or> has_conditions t)"

text \<open>A condition that is passed: skipped with both its branches, or settled with one of them.\<close>

definition branch_settled :: "TaskDefinition \<Rightarrow> run \<Rightarrow> bool" where
  "branch_settled t st \<longleftrightarrow>
     (task_id t \<in> skipped st \<and> set (onTrue t) \<union> set (onFalse t) \<subseteq> skipped st)
     \<or> (\<exists>b. exports st (task_id t) = Some [(''result'', VBool b)] \<and> set (GetBranchTasks t (\<not> b)) \<subseteq> skipped st)"

definition entered :: "TaskDefinition \<Rightarrow> run \<Rightarrow> run" where
  "entered t st = st\<lparr>task_execs := (task_execs st)(task_id t := Some (current_exec (task_id t) st))\<rparr>"

lemma entered_frame [simp]:
  "skipped (entered t st) = skipped st" "performed (entered t st) = performed st"
  "exports (entered t st) = exports st" "recorded (entered t st) = recorded st"
  "task_execs (entered t st) = (task_execs st)(task_id t := Some (current_exec (task_id t) st))"
  by (simp_all add: entered_def)

lemma run_task_eq:
  "task_id t \<notin> skipped st \<Longrightarrow> run_task W t n st =
      (if task_disabled t
       then (None, if task_type t = TaskTypeCondition
                   then settleCondition W t (current_exec (task_id t) st) n False True (entered t st)
                   else skipDisabledTask W t (current_exec (task_id t) st) n (entered t st))
       else if has_conditions t
       then (case condition_Evaluate W t (exports st) of
               Inl e \<Rightarrow> fail_task W (task_id t) n None (current_exec (task_id t) st) (GuardFailed e) (entered t st)
             | Inr result \<Rightarrow>
                 if task_type t = TaskTypeCondition
                 then (None, settleCondition W t (current_exec (task_id t) st) n result False (entered t st))
                 else if \<not> result then (None, guard_false W t (current_exec (task_id t) st) n (entered t st))
                 else run_kind W t (current_exec (task_id t) st) n (entered t st))
       else run_kind W t (current_exec (task_id t) st) n (entered t st))"
  unfolding run_task_def Let_def entered_def by simp

text \<open>The ways a task can go.\<close>

lemma run_task_elim:
  obtains (skip) "task_id t \<in> skipped st" "run_task W t n st = (None, skip_task W t n st)"
  | (disabled) "task_id t \<notin> skipped st" "task_disabled t" "task_type t \<noteq> TaskTypeCondition"
      "run_task W t n st = (None, skipDisabledTask W t (current_exec (task_id t) st) n (entered t st))"
  | (condition) b d where "task_id t \<notin> skipped st" "decides t"
      "d \<longleftrightarrow> task_disabled t" "task_disabled t \<Longrightarrow> \<not> b"
      "\<not> task_disabled t \<Longrightarrow> condition_Evaluate W t (exports st) = Inr b"
      "run_task W t n st = (None, settleCondition W t (current_exec (task_id t) st) n b d (entered t st))"
  | (failed) e where "task_id t \<notin> skipped st" "\<not> task_disabled t" "has_conditions t"
      "condition_Evaluate W t (exports st) = Inl e"
      "run_task W t n st = fail_task W (task_id t) n None (current_exec (task_id t) st) (GuardFailed e) (entered t st)"
  | (guarded) "task_id t \<notin> skipped st" "\<not> task_disabled t" "has_conditions t" "task_type t \<noteq> TaskTypeCondition"
      "condition_Evaluate W t (exports st) = Inr False"
      "run_task W t n st = (None, guard_false W t (current_exec (task_id t) st) n (entered t st))"
  | (kind) "task_id t \<notin> skipped st" "\<not> task_disabled t" "\<not> decides t"
      "has_conditions t \<Longrightarrow> condition_Evaluate W t (exports st) = Inr True"
      "run_task W t n st = run_kind W t (current_exec (task_id t) st) n (entered t st)"
proof (cases "task_id t \<in> skipped st")
  case True
  show ?thesis by (rule skip) (use True in \<open>simp_all add: run_task_def\<close>)
next
  case False
  note e = run_task_eq [OF False, of W n]
  show ?thesis
  proof (cases "task_disabled t")
    case d: True
    show ?thesis
    proof (cases "task_type t = TaskTypeCondition")
      case True
      show ?thesis by (rule condition [of True False]) (use False d True e in \<open>simp_all add: decides_def\<close>)
    qed (rule disabled, use False d e in simp_all)
  next
    case nd: False
    show ?thesis
    proof (cases "has_conditions t")
      case hc: True
      show ?thesis
      proof (cases "condition_Evaluate W t (exports st)")
        case (Inl x)
        show ?thesis by (rule failed) (use False nd hc Inl e in simp_all)
      next
        case (Inr b)
        show ?thesis
        proof (cases "task_type t = TaskTypeCondition")
          case True
          show ?thesis by (rule condition [of False b]) (use False nd hc Inr True e in \<open>simp_all add: decides_def\<close>)
        next
          case nc: False
          show ?thesis
          proof (cases b)
            case True
            show ?thesis by (rule kind) (use False nd nc Inr True e in \<open>simp_all add: decides_def\<close>)
          qed (rule guarded, use False nd hc nc Inr e in simp_all)
        qed
      qed
    qed (rule kind, use False nd e in \<open>simp_all add: decides_def\<close>)
  qed
qed

lemma branch_sub: "set (GetBranchTasks t b) \<subseteq> set (onTrue t) \<union> set (onFalse t)"
  by (simp add: GetBranchTasks_def)

lemma run_task_cases:
  "(performed (snd (run_task W t n st)) = performed st
      \<and> skipped st \<subseteq> skipped (snd (run_task W t n st))
      \<and> skipped (snd (run_task W t n st))
          \<subseteq> skipped st \<union> (if task_type t = TaskTypeCondition then set (onTrue t) \<union> set (onFalse t) else {}))
   \<or> (performed (snd (run_task W t n st)) = performed st @ [task_id t]
      \<and> task_id t \<notin> skipped st \<and> skipped (snd (run_task W t n st)) = skipped st)"
proof (cases rule: run_task_elim [of t st W n])
  case skip
  then show ?thesis by (simp add: skipBranchesOfSkippedCondition_def)
next
  case (condition b d)
  then show ?thesis using branch_sub [of t "\<not> b"] by (simp add: decides_def) blast
next
  case kind
  then show ?thesis
    using run_kind_frame [of W t "current_exec (task_id t) st" n "entered t st"] by auto
qed simp_all

lemma run_task_settles:
  "fst (run_task W t n st) = None \<Longrightarrow> decides t \<Longrightarrow> branch_settled t (snd (run_task W t n st))"
proof (cases rule: run_task_elim [of t st W n])
  case skip
  assume "decides t"
  then show ?thesis using skip
    by (simp add: branch_settled_def decides_def skipBranchesOfSkippedCondition_def)
next
  case (condition b d)
  then show ?thesis by (auto simp: branch_settled_def)
qed (auto simp: decides_def)
subsection \<open>A stretch of tasks\<close>

lemma guard_pass_frame:
  "guard_pass W n ts st = (out, torun, st') \<Longrightarrow>
     skipped st' = skipped st \<and> performed st' = performed st \<and> exports st' = exports st \<and> subseq torun ts"
proof (induction ts arbitrary: n st out torun st')
  case (Cons t ts)
  let ?te = "fresh_exec TaskRunning"
  let ?s = "st\<lparr>task_execs := (task_execs st)(task_id t := Some ?te)\<rparr>"
  have dropped: ?case
    if "guard_pass W (Suc n) ts s = (out, torun, st')" and "skipped s = skipped st" "performed s = performed st"
      "exports s = exports st" for s
    using Cons.IH [OF that(1)] that by (auto intro: list_emb_Cons)
  have run: ?case if r: "(case guard_pass W (Suc n) ts ?s of (out, torun, st') \<Rightarrow> (out, t # torun, st')) = (out, torun, st')"
    using r Cons.IH [of "Suc n" ?s] by (auto split: prod.splits)
  have g: "guard_pass W n (t # ts) st =
     (if task_disabled t then guard_pass W (Suc n) ts (skipDisabledTask W t ?te n ?s)
      else if \<not> has_conditions t
      then (case guard_pass W (Suc n) ts ?s of (out, torun, st') \<Rightarrow> (out, t # torun, st'))
      else (case condition_Evaluate W t (exports ?s) of
              Inl e \<Rightarrow> (case fail_task W (task_id t) n None ?te (GuardFailed e) ?s of (out, st') \<Rightarrow> (out, [], st'))
            | Inr result \<Rightarrow>
                if \<not> result then guard_pass W (Suc n) ts (guard_false W t ?te n ?s)
                else (case guard_pass W (Suc n) ts ?s of (out, torun, st') \<Rightarrow> (out, t # torun, st'))))"
    by (simp only: guard_pass.simps Let_def)
  show ?case
  proof (cases "task_disabled t")
    case True
    then have "guard_pass W (Suc n) ts (skipDisabledTask W t ?te n ?s) = (out, torun, st')"
      using Cons.prems unfolding g by simp
    then show ?thesis by (rule dropped) simp_all
  next
    case nd: False
    show ?thesis
    proof (cases "has_conditions t")
      case False
      then show ?thesis using Cons.prems nd unfolding g by (intro run) simp
    next
      case hc: True
      show ?thesis
      proof (cases "condition_Evaluate W t (exports ?s)")
        case (Inl e)
        then show ?thesis using Cons.prems nd hc unfolding g by (auto simp: fail_task_def)
      next
        case (Inr b)
        show ?thesis
        proof (cases b)
          case True
          then show ?thesis using Cons.prems nd hc Inr unfolding g by (intro run) simp
        next
          case False
          then have "guard_pass W (Suc n) ts (guard_false W t ?te n ?s) = (out, torun, st')"
            using Cons.prems nd hc Inr unfolding g by simp
          then show ?thesis by (rule dropped) simp_all
        qed
      qed
    qed
  qed
qed simp

lemma apply_outcomes_frame:
  "apply_outcomes W ex n ts c f st = (c', f', st') \<Longrightarrow>
     skipped st' = skipped st \<and> performed st' = performed st
     \<and> (\<forall>i. i \<notin> task_id ` set ts \<longrightarrow> exports st' i = exports st i)"
proof (induction ts arbitrary: n c f st)
  case (Cons t ts)
  have step: ?case
    if "apply_outcomes W ex (Suc n) ts c1 f1 s = (c', f', st')" and "skipped s = skipped st" "performed s = performed st"
      "\<And>i. i \<noteq> task_id t \<Longrightarrow> exports s i = exports st i" for c1 f1 s
    using Cons.IH [OF that(1)] that by auto
  obtain result params err where x: "executeTask W t ex = (result, params, err)"
    by (cases "executeTask W t ex") auto
  show ?case
  proof (cases "abandoned_at W n")
    case True
    then have "apply_outcomes W ex (Suc n) ts True f (cancelPendingTask W (task_id t) n st) = (c', f', st')"
      using Cons.prems by simp
    then show ?thesis by (rule step) simp_all
  next
    case False
    let ?te = "case task_execs st (task_id t) of Some te \<Rightarrow> te | None \<Rightarrow> fresh_exec TaskRunning"
    show ?thesis
    proof (cases err)
      case None
      then have "apply_outcomes W ex (Suc n) ts c f
          (settle_task W (task_id t) n params (?te\<lparr>te_status := TaskSuccess, te_result := result\<rparr>)
             (publishTaskResultExports (task_id t) result st)) = (c', f', st')"
        using Cons.prems False x by (simp add: Let_def)
      then show ?thesis by (rule step) (simp_all add: publish_exports)
    next
      case (Some e)
      then have "apply_outcomes W ex (Suc n) ts c (if f = None then Some e else f)
          (snd (fail_task W (task_id t) n params (?te\<lparr>te_result := result\<rparr>) e st)) = (c', f', st')"
        using Cons.prems False x by (simp add: Let_def)
      then show ?thesis by (rule step) simp_all
    qed
  qed
qed simp
lemma run_kind_exports:
  "i \<noteq> task_id t \<Longrightarrow> exports (snd (run_kind W t te n st)) i = exports st i"
  by (auto simp: run_kind_def run_action_def run_wait_def run_workflow_def completeDryRunWait_def
      finish_wait_def fail_task_def Let_def publish_exports
      split: prod.splits option.splits wait_result.splits sum.splits wf_result.splits)

lemma run_task_exports: "i \<noteq> task_id t \<Longrightarrow> exports (snd (run_task W t n st)) i = exports st i"
  by (cases rule: run_task_elim [of t st W n]) (simp_all add: run_kind_exports)

lemma plan_at_members:
  assumes "i < length order" and "1 < Len (plan_at W order i st)"
  shows "list_all (\<lambda>t. isConcurrencySafe t \<and> task_id t \<notin> skipped st) (members order (plan_at W order i st))"
    and "members order (plan_at W order i st) = take (next_index W order i st - i) (drop i order)"
proof -
  let ?limit = "maxConcurrentTasks (concurrency W)"
  obtain ys zs where m: "members order (plan_at W order i st) = order ! i # ys"
    and r: "plan_at W order i st = \<lparr>Start = i, End = i + 1 + length ys\<rparr>"
    and g: "if isConcurrencySafe (order ! i) \<and> task_id (order ! i) \<notin> skipped st
       then order ! i # ys = grow_run (skipped st) (nat (max 1 ?limit)) [order ! i] (drop (i + 1) order)
          \<and> (zs \<noteq> [] \<longrightarrow> \<not> admits (skipped st) (nat (max 1 ?limit)) (order ! i # ys) (hd zs))
       else ys = []"
    using plan_members [OF assms(1), of "skipped st" ?limit] unfolding plan_at_def by blast
  have "ys \<noteq> []" using assms(2) r by (auto simp: Len_def)
  then have s: "isConcurrencySafe (order ! i) \<and> task_id (order ! i) \<notin> skipped st" using g by (auto split: if_splits)
  then have e: "order ! i # ys = grow_run (skipped st) (nat (max 1 ?limit)) [order ! i] (drop (i + 1) order)"
    using g by simp
  show "list_all (\<lambda>t. isConcurrencySafe t \<and> task_id t \<notin> skipped st) (members order (plan_at W order i st))"
    unfolding m e by (rule grow_run_members) (use s in simp)
  show "members order (plan_at W order i st) = take (next_index W order i st - i) (drop i order)"
    using assms(2) by (simp add: members_def next_index_def Len_def r)
qed

text \<open>What running the tasks from \<open>i\<close> to \<open>j\<close> at once or in turn does.\<close>

lemma run_stretch_ok:
  assumes "i < length order" and s_def: "s = snd (run_stretch W order i st)" and j_def: "j = next_index W order i st"
  shows "\<exists>ps. performed s = performed st @ ps \<and> subseq ps (ids (take (j - i) (drop i order)))
      \<and> set ps \<inter> skipped st = {} \<and> (ps \<noteq> [] \<longrightarrow> skipped s = skipped st)"
    and "skipped st \<subseteq> skipped s"
    and "skipped s - skipped st \<subseteq> (if task_type (order ! i) = TaskTypeCondition
           then set (onTrue (order ! i)) \<union> set (onFalse (order ! i)) else {})"
    and "n \<notin> set (ids (take (j - i) (drop i order))) \<Longrightarrow> exports s n = exports st n"
    and "fst (run_stretch W order i st) = None \<Longrightarrow> t \<in> set (take (j - i) (drop i order)) \<Longrightarrow> decides t
           \<Longrightarrow> branch_settled t s"
proof -
  let ?ts = "take (j - i) (drop i order)"
  have claims: "(\<exists>ps. performed s = performed st @ ps \<and> subseq ps (ids ?ts)
      \<and> set ps \<inter> skipped st = {} \<and> (ps \<noteq> [] \<longrightarrow> skipped s = skipped st))
    \<and> skipped st \<subseteq> skipped s
    \<and> skipped s - skipped st \<subseteq> (if task_type (order ! i) = TaskTypeCondition
           then set (onTrue (order ! i)) \<union> set (onFalse (order ! i)) else {})
    \<and> (n \<notin> set (ids ?ts) \<longrightarrow> exports s n = exports st n)
    \<and> (fst (run_stretch W order i st) = None \<longrightarrow> t \<in> set ?ts \<longrightarrow> decides t \<longrightarrow> branch_settled t s)"
  proof (cases "1 < Len (plan_at W order i st)")
    case True
    let ?r = "plan_at W order i st"
    note m = plan_at_members [OF assms(1) True]
    obtain out torun st1 where g: "guard_pass W (Start ?r) (members order ?r) st = (out, torun, st1)"
      by (cases "guard_pass W (Start ?r) (members order ?r) st") auto
    note gf = guard_pass_frame [OF g]
    have nd: "\<not> decides t" if "t \<in> set ?ts"
      using m that unfolding j_def by (auto simp: list_all_iff isConcurrencySafe_def decides_def)
    have sk: "set (ids torun) \<inter> skipped st = {}"
      using gf m(1) subseq_order.trans [of torun] by (auto simp: ids_def list_all_iff dest: list_emb_set)
    have sub: "subseq (ids torun) (ids ?ts)"
      using gf m(2) unfolding j_def by (auto simp: ids_def intro: subseq_map)
    show ?thesis
    proof (cases out)
      case (Some x)
      then have "s = st1" using True g by (simp add: s_def run_stretch_def executeConcurrentRun_def)
      then show ?thesis using gf nd by auto
    next
      case None
      obtain c f st2 where a: "apply_outcomes W (exports st1) (Start ?r) torun False None
                  (st1\<lparr>performed := performed st1 @ map task_id torun\<rparr>) = (c, f, st2)"
        by (cases "apply_outcomes W (exports st1) (Start ?r) torun False None
                  (st1\<lparr>performed := performed st1 @ map task_id torun\<rparr>)") auto
      then have s: "s = st2" using True g None by (simp add: s_def run_stretch_def executeConcurrentRun_def)
      note af = apply_outcomes_frame [OF a]
      have "set (ids torun) \<subseteq> set (ids ?ts)" using sub by (auto dest: list_emb_set)
      then have "n \<notin> set (ids ?ts) \<longrightarrow> exports st2 n = exports st n"
        using af [THEN conjunct2, THEN conjunct2, rule_format, of n] gf by (auto simp: ids_def)
      then show ?thesis
        using af gf nd sk sub by (auto simp: s ids_def intro!: exI [of _ "ids torun"])
    qed
  next
    case False
    then have e: "run_stretch W order i st = run_task W (order ! i) i st" and j: "j = Suc i"
      by (simp_all add: run_stretch_def j_def next_index_def)
    have ts: "?ts = [order ! i]" using assms(1) by (simp add: j take_Suc hd_drop_conv_nth)
    show ?thesis
      using run_task_cases [of W "order ! i" i st] run_task_exports [of n "order ! i" W i st]
        run_task_settles [of W "order ! i" i st]
      unfolding s_def e ts by (auto simp: ids_def split: if_splits)
  qed
  show "\<exists>ps. performed s = performed st @ ps \<and> subseq ps (ids ?ts)
      \<and> set ps \<inter> skipped st = {} \<and> (ps \<noteq> [] \<longrightarrow> skipped s = skipped st)"
    and "skipped st \<subseteq> skipped s"
    and "skipped s - skipped st \<subseteq> (if task_type (order ! i) = TaskTypeCondition
           then set (onTrue (order ! i)) \<union> set (onFalse (order ! i)) else {})"
    and "n \<notin> set (ids ?ts) \<Longrightarrow> exports s n = exports st n"
    and "fst (run_stretch W order i st) = None \<Longrightarrow> t \<in> set ?ts \<Longrightarrow> decides t \<Longrightarrow> branch_settled t s"
    using claims by blast+
qed
subsection \<open>The whole run\<close>

definition conditions_first :: "TaskDefinition list \<Rightarrow> bool" where
  "conditions_first order \<longleftrightarrow> distinct (ids order)
     \<and> (\<forall>c \<in> set order. task_type c = TaskTypeCondition \<longrightarrow>
          (\<forall>x \<in> set (onTrue c) \<union> set (onFalse c). x \<in> set (ids order) \<longrightarrow> before (ids order) (task_id c) x))"

definition clean :: "TaskDefinition list \<Rightarrow> nat \<Rightarrow> run \<Rightarrow> bool" where
  "clean order i st \<longleftrightarrow> distinct (performed st) \<and> set (performed st) \<subseteq> set (ids (take i order))
     \<and> set (performed st) \<inter> skipped st = {}"

definition conditions_settled :: "TaskDefinition list \<Rightarrow> nat \<Rightarrow> run \<Rightarrow> bool" where
  "conditions_settled order i st \<longleftrightarrow> (\<forall>t \<in> set (take i order). decides t \<longrightarrow> branch_settled t st)"

lemma take_ids: "ids (take i order) = take i (ids order)"
  by (simp add: ids_def take_map)

lemma take_split: "i \<le> j \<Longrightarrow> take j xs = take i xs @ take (j - i) (drop i xs)"
  by (metis take_add le_add_diff_inverse)

lemma branch_after:
  assumes "conditions_first order" and "i < length order" and "task_type (order ! i) = TaskTypeCondition"
    and "x \<in> set (onTrue (order ! i)) \<union> set (onFalse (order ! i))" and "k \<le> Suc i"
  shows "x \<notin> set (ids (take k order))"
proof
  assume x: "x \<in> set (ids (take k order))"
  have d: "distinct (ids order)" using assms(1) by (simp add: conditions_first_def)
  have "x \<in> set (ids order)" using x by (auto simp: take_ids dest: in_set_takeD)
  then have "before (ids order) (task_id (order ! i)) x"
    using assms(1-4) by (auto simp: conditions_first_def)
  then obtain m where m: "m < length (ids order)" "ids order ! m = x" "task_id (order ! i) \<in> set (take m (ids order))"
    by (auto simp: before_def)
  then obtain l where l: "l < m" "ids order ! l = task_id (order ! i)" by (auto simp: in_set_conv_nth)
  moreover have "l < length (ids order)" using l m by simp
  ultimately have "l = i" using nth_eq_iff_index_eq [OF d, of l i] assms(2) by (simp add: ids_def)
  moreover obtain q where q: "q < k" "q < length (ids order)" "ids order ! q = x"
    using x by (auto simp: take_ids in_set_conv_nth)
  then have "q = m" using nth_eq_iff_index_eq [OF d q(2) m(1)] m(2) by simp
  ultimately show False using l q assms(5) by simp
qed

lemma run_kind_out: "fst (run_kind W t te n st) \<noteq> Some Completed"
  by (auto simp: run_kind_def run_action_def run_wait_def run_workflow_def completeDryRunWait_def
      finish_wait_def fail_task_def Let_def
      split: prod.splits option.splits wait_result.splits sum.splits wf_result.splits)

lemma run_task_out: "fst (run_task W t n st) \<noteq> Some Completed"
  by (cases rule: run_task_elim [of t st W n]) (simp_all add: run_kind_out)

lemma guard_pass_out: "guard_pass W n ts st = (Some out, torun, st') \<Longrightarrow> out \<noteq> Completed"
  by (induction ts arbitrary: n st torun)
    (auto simp: Let_def fail_task_def split: if_splits sum.splits prod.splits)

lemma run_stretch_out: "fst (run_stretch W order i st) \<noteq> Some Completed"
  by (auto simp: run_stretch_def executeConcurrentRun_def run_task_out guard_pass_out split: prod.splits option.splits)

lemma stretch_clean:
  assumes c: "conditions_first order" and i: "i < length order" and inv: "clean order i st"
  shows "clean order (next_index W order i st) (snd (run_stretch W order i st))"
proof -
  let ?j = "next_index W order i st" and ?s = "snd (run_stretch W order i st)"
  let ?new = "ids (take (?j - i) (drop i order))"
  note j = next_index_grows [OF i, of W st]
  note r = run_stretch_ok [OF i refl refl, where W = W and st = st]
  have split: "ids (take ?j order) = ids (take i order) @ ?new"
    using take_split [of i ?j order] j by (simp add: ids_def)
  have d: "distinct (ids (take ?j order))" using c by (simp add: conditions_first_def take_ids)
  obtain ps where ps: "performed ?s = performed st @ ps" "subseq ps ?new" "set ps \<inter> skipped st = {}"
    "ps \<noteq> [] \<longrightarrow> skipped ?s = skipped st" using r(1) by blast
  have sub: "set ps \<subseteq> set ?new" using ps(2) by (auto dest: list_emb_set)
  have "distinct ps" using ps(2) d by (auto simp: split subseq_conv_nths)
  moreover have "set (performed st) \<inter> set ps = {}" using sub inv d by (auto simp: clean_def split)
  moreover have "set (performed st) \<inter> skipped ?s = {}"
  proof -
    have "x \<notin> set (performed st)" if "x \<in> skipped ?s - skipped st" for x
    proof -
      have "task_type (order ! i) = TaskTypeCondition" "x \<in> set (onTrue (order ! i)) \<union> set (onFalse (order ! i))"
        using r(3) that by (auto split: if_splits)
      from branch_after [OF c i this, of i] show ?thesis using inv by (auto simp: clean_def)
    qed
    then show ?thesis using inv by (auto simp: clean_def)
  qed
  moreover have "set ps \<inter> skipped ?s = {}" using ps(3,4) by (cases "ps = []") auto
  ultimately show ?thesis using ps(1) sub inv by (auto simp: clean_def split)
qed

lemma stretch_settled:
  assumes c: "conditions_first order" and i: "i < length order" and inv: "conditions_settled order i st"
    and n: "fst (run_stretch W order i st) = None"
  shows "conditions_settled order (next_index W order i st) (snd (run_stretch W order i st))"
  unfolding conditions_settled_def
proof (intro ballI impI)
  let ?j = "next_index W order i st" and ?s = "snd (run_stretch W order i st)"
  fix t assume t: "t \<in> set (take ?j order)" "decides t"
  note j = next_index_grows [OF i, of W st]
  note r = run_stretch_ok [OF i refl refl, where W = W and st = st]
  have split: "take ?j order = take i order @ take (?j - i) (drop i order)" using take_split [of i ?j order] j by simp
  have d: "distinct (ids (take ?j order))" using c by (simp add: conditions_first_def take_ids)
  consider "t \<in> set (take (?j - i) (drop i order))" | "t \<in> set (take i order)" using t split by auto
  then show "branch_settled t ?s"
  proof cases
    case 1
    from r(5) [OF n 1 t(2)] show ?thesis .
  next
    case 2
    then have "task_id t \<notin> set (ids (take (?j - i) (drop i order)))"
      using d unfolding split by (auto simp: ids_def)
    from r(4) [OF this] have "exports ?s (task_id t) = exports st (task_id t)" .
    moreover have "branch_settled t st" using inv 2 t(2) by (simp add: conditions_settled_def)
    ultimately show ?thesis using r(2) by (auto simp: branch_settled_def)
  qed
qed

lemma run_clean:
  "conditions_first order \<Longrightarrow> i \<le> length order \<Longrightarrow> clean order i st \<Longrightarrow> conditions_settled order i st \<Longrightarrow>
     runTasksFrom W order i st = (out, st') \<Longrightarrow>
     \<exists>k. clean order (length order) st' \<and> (out = Completed \<longrightarrow> conditions_settled order (length order) st')"
proof (induction W order i st rule: runTasksFrom.induct)
  case (1 W order i st)
  show ?case
  proof (cases "length order \<le> i")
    case True
    then show ?thesis using "1.prems" by (simp add: runTasksFrom.simps [of W order i st])
  next
    case False
    then have i: "i < length order" by simp
    have up: "clean order k s \<Longrightarrow> clean order (length order) s" for k s
      by (auto simp: clean_def take_ids dest: in_set_takeD)
    show ?thesis
    proof (cases "cancelled_at W i")
      case True
      then show ?thesis using "1.prems" False up by (auto simp: runTasksFrom.simps [of W order i st])
    next
      case nc: False
      note c = stretch_clean [OF "1.prems"(1) i "1.prems"(3), of W]
      show ?thesis
      proof (cases "run_stretch W order i st")
        case (Pair o' s)
        show ?thesis
        proof (cases o')
          case None
          note n = stretch_settled [OF "1.prems"(1) i "1.prems"(4), of W]
          have "runTasksFrom W order (next_index W order i st) s = (out, st')"
            using "1.prems"(5) False nc Pair None by (simp add: runTasksFrom.simps [of W order i st])
          with "1.IH" [OF False nc Pair [symmetric] None "1.prems"(1)] c n next_index_grows [OF i, of W st] Pair None
          show ?thesis by simp
        next
          case (Some x)
          then have "st' = s \<and> out = x"
            using "1.prems"(5) False nc Pair by (simp add: runTasksFrom.simps [of W order i st])
          moreover have "x \<noteq> Completed" using run_stretch_out [of W order i st] Pair Some by auto
          ultimately show ?thesis using up [OF c] Pair by simp
        qed
      qed
    qed
  qed
qed
lemma strip_same:
  "strip t = strip t' \<Longrightarrow> task_id t = task_id t' \<and> task_type t = task_type t' \<and> onTrue t = onTrue t'
     \<and> onFalse t = onFalse t' \<and> task_disabled t = task_disabled t' \<and> task_condition t = task_condition t'
     \<and> task_conditions t = task_conditions t'"
  by (cases t; cases t') (simp add: strip_def)

text \<open>The tasks of an execution order are those of the definition, with more dependencies.\<close>

lemma order_tasks:
  assumes "NewDependencyGraph ts = Inr g" and "GetExecutionOrder g = Inr order"
  shows "strip ` set order = strip ` set ts" and "set (ids order) = set (ids ts)" and "distinct (ids order)"
proof -
  note b = built_graph [OF assms(1)]
  have m: "mset order = mset g" using b(6) assms(2) by auto
  then have s: "set order = set g" by (rule mset_eq_setD)
  then show "strip ` set order = strip ` set ts" using b(4) by (metis list.set_map)
  have i: "ids g = ids ts" using strip_ids [OF b(4)] .
  have mi: "mset (ids order) = mset (ids g)" using m by (simp add: ids_def)
  then show "set (ids order) = set (ids ts)" using i by (metis mset_eq_setD)
  show "distinct (ids order)" using mi b(2) by (metis mset_eq_imp_distinct_iff wf_graph_def)
qed

lemma order_conditions_first:
  assumes "NewDependencyGraph ts = Inr g" and "GetExecutionOrder g = Inr order"
  shows "conditions_first order"
  unfolding conditions_first_def
proof (intro conjI ballI impI)
  note b = built_graph [OF assms(1)] and o = order_tasks [OF assms]
  show "distinct (ids order)" by (rule o(3))
  fix c x
  assume c: "c \<in> set order" "task_type c = TaskTypeCondition" "x \<in> set (onTrue c) \<union> set (onFalse c)"
  have "strip c \<in> strip ` set ts" using c(1) o(1) by blast
  then obtain c' where "c' \<in> set ts" "strip c = strip c'" by auto
  then obtain i where i: "i < length ts" "strip c = strip (ts ! i)" by (auto simp: in_set_conv_nth)
  note same = strip_same [OF i(2)]
  have "(x, task_id (ts ! i)) \<in> branch_edges ts [0..<length ts]"
    using i(1) c same by (auto simp: branch_edges_def is_condition_def branches_def)
  then have "(x, task_id c) \<in> edge g" using b(5) same by (auto simp: declared_def)
  then have "(x, task_id c) \<in> (edge g)\<^sup>+" ..
  then show "before (ids order) (task_id c) x" by (rule order_follows [OF assms])
qed

lemma run_of_definition:
  assumes "runExecution W ts = Inr (out, st)"
  obtains g order where "NewDependencyGraph ts = Inr g" "GetExecutionOrder g = Inr order"
    "runTasksFrom W order 0 start_run = (out, st)"
  using assms that by (auto simp: runExecution_def res_simps)

lemma clean_start: "clean order 0 start_run" "conditions_settled order 0 start_run"
  by (simp_all add: clean_def conditions_settled_def start_run_def)

text \<open>A world in which every action succeeds with its parameters as data.\<close>

definition quiet_world :: world where
  "quiet_world = \<lparr>lib = ascii_lib, trigger = sample_event ''chat'' [], viewer_data = VNil, asset_base = None,
     dry_run = False, recording = True, concurrency = 0,
     perform = (\<lambda>t ps. (Some \<lparr>tr_status = TaskSuccess, tr_data = Some ps, tr_exports = None\<rparr>, None)),
     subflow = (\<lambda>_ _ ws. (WfFailed ''none'', ws)), cancelled_at = (\<lambda>_. False), abandoned_at = (\<lambda>_. False),
     arm_refusal = (\<lambda>_. ''''), wait_clock = (\<lambda>_. 1), show_events = (\<lambda>_. ''''), show_duration = (\<lambda>_. '''')\<rparr>"

definition summary :: "gerr + outcome \<times> run \<Rightarrow> (outcome \<times> string list) option" where
  "summary r = (case r of Inl _ \<Rightarrow> None | Inr (out, st) \<Rightarrow> Some (out, performed st))"

text \<open>The definition of \<open>sample\<close> with its condition disabled, which settles it as false.\<close>

definition sample_off :: tasks where
  "sample_off = map (\<lambda>t. t\<lparr>task_disabled := is_condition t\<rparr>) sample"


end
