(* ===== verification/Run_Concurrency.thy ===== *)
theory Run_Concurrency
  imports Run_Branches
begin

text \<open>
  Running tasks together has the effect of running them in turn: when no member of a stretch
  reads another's exports, \<open>executeConcurrentRun\<close> ends with the exports, task outcomes and
  executed actions that the sequential path ends with.
\<close>

subsection \<open>A task's outcome depends on the exports it reads\<close>

lemma build_alike: "alike i (buildResolver W ex) (buildResolver W (ex(i := x)))"
  by (cases "asset_base W")
    (auto simp: buildResolver_def addViewerSource_def AddLazySource_def AddSource_def SetAssetURLBase_def
      NewResolver_def alike_def map_add_def viewerSource_def Let_def)

lemma unread_executeTask:
  assumes "i \<notin> task_reads t"
  shows "executeTask W t (ex(i := x)) = executeTask W t ex"
proof -
  have "i \<notin> value_sources (VMap (parameters t))"
    using assms by (auto simp: task_reads_def task_strings_def value_sources_def)
  from blindD [OF blind_Resolve [OF this] build_alike [of i W ex x]] show ?thesis
    by (simp add: executeTask_def)
qed

lemma unread_condition:
  assumes "i \<notin> task_reads t"
  shows "condition_Evaluate W t (ex(i := x)) = condition_Evaluate W t ex"
proof -
  have "i \<notin> condition_sources c" if "c \<in> set (guard_conditions t)" for c
  proof -
    have "i \<notin> (\<Union>s \<in> set (condition_strings c). string_sources s)"
      using assms that by (auto simp: task_reads_def task_strings_def)
    then show ?thesis
      by (auto simp: condition_sources_def condition_strings_def value_sources_def split: val.splits)
  qed
  from blindD [OF blind_EvaluateMultiple [of "guard_conditions t" i "lib W" "conditionLogic t", OF this]
      build_alike [of i W ex x]]
  show ?thesis by (simp add: condition_Evaluate_def)
qed

subsection \<open>The effect of an ordinary task\<close>

text \<open>Whether an ordinary task runs, given the exports it sees.\<close>

definition goes :: "world \<Rightarrow> (string \<Rightarrow> obj option) \<Rightarrow> TaskDefinition \<Rightarrow> bool" where
  "goes W ex t \<longleftrightarrow> \<not> task_disabled t \<and> (has_conditions t \<longrightarrow> condition_Evaluate W t ex = Inr True)"

definition published :: "world \<Rightarrow> (string \<Rightarrow> obj option) \<Rightarrow> TaskDefinition \<Rightarrow> obj option" where
  "published W ex t =
     (if goes W ex t
      then (case fst (executeTask W t ex) of
              None \<Rightarrow> None
            | Some r \<Rightarrow> (case tr_exports r of Some e \<Rightarrow> Some e | None \<Rightarrow> tr_data r))
      else None)"

definition ended :: "world \<Rightarrow> (string \<Rightarrow> obj option) \<Rightarrow> TaskDefinition \<Rightarrow> TaskExecution" where
  "ended W ex t =
     (if task_disabled t
      then (fresh_exec TaskRunning)\<lparr>te_status := TaskSkipped, te_result := Some (skipped_result ''task disabled'')\<rparr>
      else if \<not> goes W ex t
      then (fresh_exec TaskRunning)\<lparr>te_status := TaskSkipped,
             te_result := Some (skipped_result ''condition evaluated to false'')\<rparr>
      else (fresh_exec TaskRunning)\<lparr>te_status := TaskSuccess, te_result := fst (executeTask W t ex)\<rparr>)"

definition works :: "world \<Rightarrow> (string \<Rightarrow> obj option) \<Rightarrow> TaskDefinition \<Rightarrow> bool" where
  "works W ex t \<longleftrightarrow> (task_disabled t \<or> \<not> has_conditions t \<or> (\<exists>b. condition_Evaluate W t ex = Inr b))
     \<and> (goes W ex t \<longrightarrow> snd (snd (executeTask W t ex)) = None)"

definition publish_all :: "world \<Rightarrow> (string \<Rightarrow> obj option) \<Rightarrow> TaskDefinition list \<Rightarrow> (string \<Rightarrow> obj option) \<Rightarrow> (string \<Rightarrow> obj option)" where
  "publish_all W ex ts m = foldl (\<lambda>m t. case published W ex t of None \<Rightarrow> m | Some e \<Rightarrow> m(task_id t := Some e)) m ts"

definition end_all :: "world \<Rightarrow> (string \<Rightarrow> obj option) \<Rightarrow> TaskDefinition list
    \<Rightarrow> (string \<Rightarrow> TaskExecution option) \<Rightarrow> (string \<Rightarrow> TaskExecution option)" where
  "end_all W ex ts m = foldl (\<lambda>m t. m(task_id t := Some (ended W ex t))) m ts"

lemma publish_all_simps [simp]:
  "publish_all W ex [] m = m"
  "publish_all W ex (t # ts) m =
     publish_all W ex ts (case published W ex t of None \<Rightarrow> m | Some e \<Rightarrow> m(task_id t := Some e))"
  by (simp_all add: publish_all_def)

lemma end_all_simps [simp]:
  "end_all W ex [] m = m"
  "end_all W ex (t # ts) m = end_all W ex ts (m(task_id t := Some (ended W ex t)))"
  by (simp_all add: end_all_def)

lemma end_all_other: "n \<notin> set (ids ts) \<Longrightarrow> end_all W ex ts m n = m n"
  by (induction ts arbitrary: m) (auto simp: ids_def)

text \<open>Tasks in turn, as the loop runs them one by one.\<close>

fun in_turn :: "world \<Rightarrow> nat \<Rightarrow> TaskDefinition list \<Rightarrow> run \<Rightarrow> outcome option \<times> run" where
  "in_turn W n [] st = (None, st)"
| "in_turn W n (t # ts) st =
     (case run_task W t n st of (Some out, st') \<Rightarrow> (Some out, st') | (None, st') \<Rightarrow> in_turn W (Suc n) ts st')"

definition unread :: "TaskDefinition list \<Rightarrow> bool" where
  "unread ts \<longleftrightarrow> (\<forall>a \<in> set ts. \<forall>b \<in> set ts. task_id a \<noteq> task_id b \<longrightarrow> task_id a \<notin> task_reads b)"

lemma run_task_works:
  assumes "isConcurrencySafe t" and "task_id t \<notin> skipped st" and "task_execs st (task_id t) = None"
    and "works W (exports st) t" and "\<not> abandoned_at W n"
  shows "\<exists>st'. run_task W t n st = (None, st') \<and> skipped st' = skipped st
    \<and> exports st' = publish_all W (exports st) [t] (exports st)
    \<and> task_execs st' = end_all W (exports st) [t] (task_execs st)
    \<and> performed st' = performed st @ (if goes W (exports st) t then [task_id t] else [])"
proof -
  have te: "current_exec (task_id t) st = fresh_exec TaskRunning" using assms(3) by (simp add: current_exec_def)
  have c: "task_type t \<noteq> TaskTypeCondition" "task_type t \<noteq> TaskTypeWait" "task_type t \<noteq> TaskTypeWorkflow"
    using assms(1) by (auto simp: isConcurrencySafe_def)
  show ?thesis
  proof (cases rule: run_task_elim [of t st W n])
    case disabled
    then show ?thesis
      by (simp add: te skipDisabledTask_def published_def goes_def ended_def)
  next
    case (failed e)
    then show ?thesis using assms(4) by (simp add: works_def)
  next
    case guarded
    then show ?thesis
      by (simp add: te guard_false_def published_def goes_def ended_def)
  next
    case kind
    have g: "goes W (exports st) t" using kind by (auto simp: goes_def)
    obtain result params where x: "executeTask W t (exports st) = (result, params, None)"
      using assms(4) g by (cases "executeTask W t (exports st)") (auto simp: works_def)
    have "run_kind W t (fresh_exec TaskRunning) n (entered t st)
        = (None, settle_task W (task_id t) n params
             ((fresh_exec TaskRunning)\<lparr>te_status := TaskSuccess, te_result := result\<rparr>)
             (publishTaskResultExports (task_id t) result (entered t st\<lparr>performed := performed st @ [task_id t]\<rparr>)))"
      using c assms(5) x by (simp add: run_kind_def run_action_def)
    then show ?thesis
      using kind g x
      by (auto simp: te publishTaskResultExports_def published_def ended_def split: option.splits)
  qed (use assms(2) c in \<open>simp_all add: decides_def\<close>)
qed
subsection \<open>In turn\<close>

definition sees :: "world \<Rightarrow> (string \<Rightarrow> obj option) \<Rightarrow> (string \<Rightarrow> obj option) \<Rightarrow> TaskDefinition \<Rightarrow> bool" where
  "sees W ex m t \<longleftrightarrow> executeTask W t m = executeTask W t ex \<and> condition_Evaluate W t m = condition_Evaluate W t ex"

lemma sees_same:
  "sees W ex m t \<Longrightarrow> goes W m t = goes W ex t \<and> published W m t = published W ex t
     \<and> ended W m t = ended W ex t \<and> works W m t = works W ex t"
  by (simp add: sees_def goes_def published_def ended_def works_def)

lemma sees_update: "sees W ex m t \<Longrightarrow> i \<notin> task_reads t \<Longrightarrow> sees W ex (m(i := x)) t"
  by (simp add: sees_def unread_executeTask unread_condition)

lemma in_turn_ok:
  assumes "distinct (ids ts)" and "unread ts"
    and "\<And>t. t \<in> set ts \<Longrightarrow> isConcurrencySafe t \<and> task_id t \<notin> skipped st \<and> task_execs st (task_id t) = None"
    and "\<And>t. t \<in> set ts \<Longrightarrow> works W ex t \<and> sees W ex (exports st) t"
    and "\<And>k. n \<le> k \<Longrightarrow> k < n + length ts \<Longrightarrow> \<not> abandoned_at W k"
  shows "\<exists>st'. in_turn W n ts st = (None, st') \<and> skipped st' = skipped st
    \<and> exports st' = publish_all W ex ts (exports st) \<and> task_execs st' = end_all W ex ts (task_execs st)
    \<and> performed st' = performed st @ map task_id (filter (goes W ex) ts)"
  using assms
proof (induction ts arbitrary: n st)
  case (Cons t ts)
  have t: "isConcurrencySafe t" "task_id t \<notin> skipped st" "task_execs st (task_id t) = None"
    "works W ex t" "sees W ex (exports st) t" using Cons.prems(3,4) by simp_all
  note same = sees_same [OF t(5)]
  have "works W (exports st) t" "\<not> abandoned_at W n" using same t(4) Cons.prems(5) [of n] by simp_all
  from run_task_works [OF t(1-3) this] obtain s where r: "run_task W t n st = (None, s)" "skipped s = skipped st"
    and e: "exports s = publish_all W ex [t] (exports st)" and x: "task_execs s = end_all W ex [t] (task_execs st)"
    and p: "performed s = performed st @ (if goes W ex t then [task_id t] else [])"
    using same by auto
  have new: "task_id t \<notin> set (ids ts)" using Cons.prems(1) by (simp add: ids_def)
  have "\<exists>s'. in_turn W (Suc n) ts s = (None, s') \<and> skipped s' = skipped s
    \<and> exports s' = publish_all W ex ts (exports s) \<and> task_execs s' = end_all W ex ts (task_execs s)
    \<and> performed s' = performed s @ map task_id (filter (goes W ex) ts)"
  proof (rule Cons.IH)
    show "distinct (ids ts)" using Cons.prems(1) by (simp add: ids_def)
    show "unread ts" using Cons.prems(2) by (simp add: unread_def)
    fix u assume u: "u \<in> set ts"
    have d: "task_id u \<noteq> task_id t" using new u by (metis ids_def imageI list.set_map)
    then have "task_id t \<notin> task_reads u" using Cons.prems(2) u by (auto simp: unread_def)
    moreover have "sees W ex (exports st) u" "works W ex u" using Cons.prems(4) u by simp_all
    ultimately show "works W ex u \<and> sees W ex (exports s) u"
      using sees_update [of W ex "exports st" u "task_id t"] by (auto simp: e split: option.splits)
    show "isConcurrencySafe u \<and> task_id u \<notin> skipped s \<and> task_execs s (task_id u) = None"
      using Cons.prems(3) [of u] u d r(2) by (simp add: x)
  qed (use Cons.prems(5) in auto)
  then show ?case using r e x p by auto
qed simp

subsection \<open>Together\<close>

definition held :: "world \<Rightarrow> (string \<Rightarrow> obj option) \<Rightarrow> TaskDefinition \<Rightarrow> TaskExecution" where
  "held W ex t = (if goes W ex t then fresh_exec TaskRunning else ended W ex t)"

definition hold_all :: "world \<Rightarrow> (string \<Rightarrow> obj option) \<Rightarrow> TaskDefinition list
    \<Rightarrow> (string \<Rightarrow> TaskExecution option) \<Rightarrow> (string \<Rightarrow> TaskExecution option)" where
  "hold_all W ex ts m = foldl (\<lambda>m t. m(task_id t := Some (held W ex t))) m ts"

lemma hold_all_simps [simp]:
  "hold_all W ex [] m = m"
  "hold_all W ex (t # ts) m = hold_all W ex ts (m(task_id t := Some (held W ex t)))"
  by (simp_all add: hold_all_def)

lemma hold_all_other: "n \<notin> set (ids ts) \<Longrightarrow> hold_all W ex ts m n = m n"
  by (induction ts arbitrary: m) (auto simp: ids_def)

lemma hold_all_at:
  "distinct (ids ts) \<Longrightarrow> t \<in> set ts \<Longrightarrow> hold_all W ex ts m (task_id t) = Some (held W ex t)"
proof (induction ts arbitrary: m)
  case (Cons u ts)
  then show ?case
    using hold_all_other [of "task_id u" ts W ex] by (cases "t = u") (auto simp: ids_def)
qed simp

lemma hold_all_update:
  "n \<notin> set (ids ts) \<Longrightarrow> (hold_all W ex ts (m(n := x)))(n := y) = hold_all W ex ts (m(n := y))"
proof (induction ts arbitrary: m)
  case (Cons t ts)
  have "n \<noteq> task_id t" and new: "n \<notin> set (ids ts)" using Cons.prems by (auto simp: ids_def)
  have tw: "m(n := z, task_id t := w) = m(task_id t := w, n := z)" for z w by (rule fun_upd_twist) fact
  show ?case unfolding hold_all_simps tw by (rule Cons.IH [OF new])
qed simp

lemma hold_then_end:
  "distinct (ids ts) \<Longrightarrow> end_all W ex (filter (goes W ex) ts) (hold_all W ex ts m) = end_all W ex ts m"
proof (induction ts arbitrary: m)
  case (Cons t ts)
  have n: "task_id t \<notin> set (ids ts)" and d: "distinct (ids ts)" using Cons.prems by (auto simp: ids_def)
  note IH = Cons.IH [OF d, of "m(task_id t := Some (ended W ex t))"]
  show ?case
  proof (cases "goes W ex t")
    case True
    then have "end_all W ex (filter (goes W ex) (t # ts)) (hold_all W ex (t # ts) m)
        = end_all W ex (filter (goes W ex) ts) ((hold_all W ex ts (m(task_id t := Some (held W ex t))))(task_id t := Some (ended W ex t)))"
      by simp
    then show ?thesis unfolding hold_all_update [OF n] IH by simp
  next
    case False
    then have "held W ex t = ended W ex t" "filter (goes W ex) (t # ts) = filter (goes W ex) ts"
      by (simp_all add: held_def)
    then show ?thesis unfolding end_all_simps hold_all_simps by (simp only: IH)
  qed
qed simp

lemma publish_all_filter: "publish_all W ex (filter (goes W ex) ts) m = publish_all W ex ts m"
  by (induction ts arbitrary: m) (auto simp: published_def)
lemma guard_pass_ok:
  assumes "guard_pass W n ts st = (None, torun, st')" and "exports st = ex"
  shows "(\<forall>t \<in> set ts. task_disabled t \<or> \<not> has_conditions t \<or> (\<exists>b. condition_Evaluate W t ex = Inr b))
    \<and> torun = filter (goes W ex) ts \<and> task_execs st' = hold_all W ex ts (task_execs st)
    \<and> exports st' = ex \<and> skipped st' = skipped st \<and> performed st' = performed st"
  using assms
proof (induction ts arbitrary: n st torun st')
  case (Cons t ts)
  let ?te = "fresh_exec TaskRunning"
  let ?s = "st\<lparr>task_execs := (task_execs st)(task_id t := Some ?te)\<rparr>"
  have dropped: ?case
    if "guard_pass W (Suc n) ts s = (None, torun, st')" and "skipped s = skipped st" "performed s = performed st"
      "exports s = ex" "\<not> goes W ex t" "task_execs s = (task_execs st)(task_id t := Some (ended W ex t))"
      "task_disabled t \<or> \<not> has_conditions t \<or> (\<exists>b. condition_Evaluate W t ex = Inr b)" for s
  proof -
    have h: "held W ex t = ended W ex t" using that(5) by (simp add: held_def)
    have e: "hold_all W ex (t # ts) (task_execs st) = hold_all W ex ts (task_execs s)"
      unfolding hold_all_simps h that(6) ..
    show ?thesis unfolding e using Cons.IH [OF that(1,4)] that(2,3,5,7) by simp
  qed
  have gone: ?case
    if "guard_pass W (Suc n) ts s = (None, torun', st')" and "torun = t # torun'" and "skipped s = skipped st"
      "performed s = performed st" "exports s = ex" "goes W ex t"
      "task_execs s = (task_execs st)(task_id t := Some (held W ex t))"
      "task_disabled t \<or> \<not> has_conditions t \<or> (\<exists>b. condition_Evaluate W t ex = Inr b)" for s torun'
  proof -
    have e: "hold_all W ex (t # ts) (task_execs st) = hold_all W ex ts (task_execs s)"
      unfolding hold_all_simps that(7) ..
    show ?thesis unfolding e using Cons.IH [OF that(1,5)] that(2-4,6,8) by simp
  qed
  have run: ?case
    if r: "(case guard_pass W (Suc n) ts ?s of (out, torun, st') \<Rightarrow> (out, t # torun, st')) = (None, torun, st')"
      and g: "goes W ex t" "task_disabled t \<or> \<not> has_conditions t \<or> (\<exists>b. condition_Evaluate W t ex = Inr b)"
  proof -
    obtain torun' where t': "guard_pass W (Suc n) ts ?s = (None, torun', st')" "torun = t # torun'"
      using r by (auto split: prod.splits)
    show ?thesis by (rule gone [OF t']) (use g Cons.prems(2) in \<open>simp_all add: held_def\<close>)
  qed
  have g: "guard_pass W n (t # ts) st =
     (if task_disabled t then guard_pass W (Suc n) ts (skipDisabledTask W t ?te n ?s)
      else if \<not> has_conditions t
      then (case guard_pass W (Suc n) ts ?s of (out, torun, st') \<Rightarrow> (out, t # torun, st'))
      else (case condition_Evaluate W t (exports ?s) of
              Inl e \<Rightarrow> (case fail_task W (task_id t) n None ?te (GuardFailed e) ?s of (out, st') \<Rightarrow> (out, [], st'))
            | Inr result \<Rightarrow>
                if \<not> result then guard_pass W (Suc n) ts (guard_false W t ?te n ?s)
                else (case guard_pass W (Suc n) ts ?s of (out, torun, st') \<Rightarrow> (out, t # torun, st'))))"
    by (simp only: guard_pass.simps Let_def)
  have ex: "exports ?s = ex" using Cons.prems(2) by simp
  consider "task_disabled t" | "\<not> task_disabled t" "\<not> has_conditions t"
    | e where "\<not> task_disabled t" "has_conditions t" "condition_Evaluate W t ex = Inl e"
    | "\<not> task_disabled t" "has_conditions t" "condition_Evaluate W t ex = Inr False"
    | "\<not> task_disabled t" "has_conditions t" "condition_Evaluate W t ex = Inr True"
    by (cases "condition_Evaluate W t ex") (metis (full_types))+
  then show ?case
  proof cases
    case 1
    then have "guard_pass W (Suc n) ts (skipDisabledTask W t ?te n ?s) = (None, torun, st')"
      using Cons.prems unfolding g by simp
    then show ?thesis
      by (rule dropped) (use 1 ex in \<open>simp_all add: goes_def ended_def skipDisabledTask_def\<close>)
  next
    case 2
    then show ?thesis using Cons.prems unfolding g by (intro run) (simp_all add: goes_def)
  next
    case 3
    then show ?thesis using Cons.prems unfolding g by (auto simp: fail_task_def)
  next
    case 4
    then have "guard_pass W (Suc n) ts (guard_false W t ?te n ?s) = (None, torun, st')"
      using Cons.prems unfolding g by simp
    then show ?thesis
      by (rule dropped) (use 4 ex in \<open>auto simp: goes_def ended_def guard_false_def intro: exI [of _ False]\<close>)
  next
    case 5
    then show ?thesis using Cons.prems unfolding g by (intro run) (auto simp: goes_def intro: exI [of _ True])
  qed
qed simp

lemma apply_outcomes_sticky:
  "fst (apply_outcomes W ex n ts True f st)"
  "f \<noteq> None \<Longrightarrow> fst (snd (apply_outcomes W ex n ts c f st)) \<noteq> None"
  by (induction ts arbitrary: n c f st) (auto simp: Let_def split: prod.splits option.splits)

lemma apply_outcomes_ok:
  assumes "apply_outcomes W ex n ts False None st = (False, None, st')" and "distinct (ids ts)"
    and "\<And>t. t \<in> set ts \<Longrightarrow> task_execs st (task_id t) = Some (fresh_exec TaskRunning) \<and> goes W ex t"
  shows "(\<forall>t \<in> set ts. snd (snd (executeTask W t ex)) = None)
    \<and> exports st' = publish_all W ex ts (exports st) \<and> task_execs st' = end_all W ex ts (task_execs st)
    \<and> skipped st' = skipped st \<and> performed st' = performed st"
  using assms
proof (induction ts arbitrary: n st)
  case (Cons t ts)
  obtain result params err where x: "executeTask W t ex = (result, params, err)"
    by (cases "executeTask W t ex") auto
  have te: "task_execs st (task_id t) = Some (fresh_exec TaskRunning)" and g: "goes W ex t"
    using Cons.prems(3) by simp_all
  have na: "\<not> abandoned_at W n"
  proof
    assume "abandoned_at W n"
    then have "apply_outcomes W ex (Suc n) ts True None (cancelPendingTask W (task_id t) n st) = (False, None, st')"
      using Cons.prems(1) by simp
    then show False using apply_outcomes_sticky(1) [of W ex "Suc n" ts None] by (metis fst_conv)
  qed
  have ne: "err = None"
  proof (rule ccontr)
    assume "err \<noteq> None"
    then obtain e where "err = Some e" by auto
    then have "apply_outcomes W ex (Suc n) ts False (Some e)
        (snd (fail_task W (task_id t) n params (fresh_exec TaskRunning\<lparr>te_result := result\<rparr>) e st)) = (False, None, st')"
      using Cons.prems(1) na x te by (simp add: Let_def)
    then show False using apply_outcomes_sticky(2) [of "Some e" W ex "Suc n" ts] by (metis fst_conv option.distinct(1) snd_conv)
  qed
  let ?s = "settle_task W (task_id t) n params (fresh_exec TaskRunning\<lparr>te_status := TaskSuccess, te_result := result\<rparr>)
              (publishTaskResultExports (task_id t) result st)"
  have r: "apply_outcomes W ex (Suc n) ts False None ?s = (False, None, st')"
    using Cons.prems(1) na x ne te by (simp add: Let_def)
  have new: "task_id t \<notin> set (ids ts)" using Cons.prems(2) by (simp add: ids_def)
  have "(\<forall>t \<in> set ts. snd (snd (executeTask W t ex)) = None)
    \<and> exports st' = publish_all W ex ts (exports ?s) \<and> task_execs st' = end_all W ex ts (task_execs ?s)
    \<and> skipped st' = skipped ?s \<and> performed st' = performed ?s"
  proof (rule Cons.IH [OF r])
    show "distinct (ids ts)" using Cons.prems(2) by (simp add: ids_def)
    fix u assume u: "u \<in> set ts"
    then have "task_id u \<noteq> task_id t" using new by (metis ids_def imageI list.set_map)
    then show "task_execs ?s (task_id u) = Some (fresh_exec TaskRunning) \<and> goes W ex u" using Cons.prems(3) [of u] u by simp
  qed
  moreover have "exports ?s = (case published W ex t of None \<Rightarrow> exports st | Some e \<Rightarrow> (exports st)(task_id t := Some e))"
    using g x by (auto simp: published_def publishTaskResultExports_def split: option.splits)
  moreover have "ended W ex t = fresh_exec TaskRunning\<lparr>te_status := TaskSuccess, te_result := result\<rparr>"
    using g x by (simp add: ended_def goes_def)
  ultimately show ?case using x ne by simp
qed simp

lemma goes_works:
  "task_disabled t \<or> \<not> has_conditions t \<or> (\<exists>b. condition_Evaluate W t ex = Inr b) \<Longrightarrow>
   (goes W ex t \<Longrightarrow> snd (snd (executeTask W t ex)) = None) \<Longrightarrow> works W ex t"
  by (simp add: works_def)

lemma apart_unread:
  assumes "sorted_wrt apart ts" and "\<And>t. t \<in> set ts \<Longrightarrow> list_all only_references (task_strings t)"
  shows "unread ts"
  unfolding unread_def
proof (intro ballI impI notI)
  fix a b
  assume ab: "a \<in> set ts" "b \<in> set ts" "task_id a \<noteq> task_id b" "task_id a \<in> task_reads b"
  have r: "taskReferences b (task_id a)" by (rule reads_referenced) (use assms(2) ab in auto)
  obtain i j where i: "i < length ts" "ts ! i = a" and j: "j < length ts" "ts ! j = b"
    using ab(1,2) by (metis in_set_conv_nth)
  have "i \<noteq> j" using i j ab(3) by auto
  then consider "i < j" | "j < i" by linarith
  then show False
    using assms(1) i j r by cases (auto simp: sorted_wrt_iff_nth_less apart_def)
qed



end
