(* ===== verification/Replay.thy ===== *)
theory Replay
  imports Run_Concurrency
begin

text \<open>
  \<open>workflow/internal/engine/replay.go\<close>: running a recorded run again, whole or from one of its
  steps. A resume has the steps of the earlier run as they were recorded; the recorder and
  the request that carries them back are outside the engine, so \<open>recorded_step\<close> is what the
  engine writes and \<open>planResume\<close> what it reads.
\<close>

subsection \<open>The plan of a resume\<close>

record ReplayStep =
  rp_taskID :: string
  rp_status :: string
  rp_attempt :: int
  rp_outputs :: obj

record ReplayRequest =
  rq_workflowID :: string
  rq_event :: "Event option"
  rq_from :: string
  rq_steps :: "ReplayStep list"
  rq_triggerID :: string
  rq_triggeredBy :: string
  rq_dryRun :: bool

datatype replay_error =
    NoTriggerEvent
  | WorkflowGone string
  | NotOrdered gerr
  | StepGone string
  | NoOutcome string
  | NotSucceeded string string
  | NoResult string

fun status_text :: "TaskStatus \<Rightarrow> string" where
  "status_text TaskPending = ''pending''"
| "status_text TaskRunning = ''running''"
| "status_text TaskWaiting = ''waiting''"
| "status_text TaskSuccess = ''success''"
| "status_text TaskFailed = ''failed''"
| "status_text TaskSkipped = ''skipped''"
| "status_text TaskCancelled = ''cancelled''"

text \<open>The loop that keeps the latest attempt of each step.\<close>

definition latest_attempts :: "ReplayStep list \<Rightarrow> string \<Rightarrow> ReplayStep option" where
  "latest_attempts steps =
     foldl (\<lambda>m s. case m (rp_taskID s) of
              None \<Rightarrow> m(rp_taskID s := Some s)
            | Some c \<Rightarrow> if rp_attempt c \<le> rp_attempt s then m(rp_taskID s := Some s) else m)
       (\<lambda>_. None) steps"

definition restore_outputs :: "TaskDefinition \<Rightarrow> ReplayStep \<Rightarrow> (string \<Rightarrow> obj option) \<Rightarrow> (string \<Rightarrow> obj option)" where
  "restore_outputs t r ex =
     (if rp_outputs r = [] then ex
      else ex(task_id t := Some (if task_type t = TaskTypeWait then RestoreWaitExports (rp_outputs r)
                                 else rp_outputs r)))"

fun resume_loop ::
  "(string \<Rightarrow> ReplayStep option) \<Rightarrow> TaskDefinition list \<Rightarrow> (string \<Rightarrow> obj option) \<Rightarrow> string set
   \<Rightarrow> (replay_error, (string \<Rightarrow> obj option) \<times> string set) res" where
  "resume_loop latest [] ex sk = Inr (ex, sk)"
| "resume_loop latest (t # ts) ex sk =
     (if task_id t \<in> sk then resume_loop latest ts ex (skipBranchesOfSkippedCondition t sk)
      else (case latest (task_id t) of
              None \<Rightarrow> Inl (NoOutcome (task_id t))
            | Some r \<Rightarrow>
                if rp_status r = status_text TaskSkipped
                then resume_loop latest ts ex (skipBranchesOfSkippedCondition t (sk \<union> {task_id t}))
                else if rp_status r \<noteq> status_text TaskSuccess
                then Inl (NotSucceeded (task_id t) (rp_status r))
                else if task_type t = TaskTypeCondition
                then (case map_of (rp_outputs r) ''result'' of
                        Some (VBool b) \<Rightarrow>
                          resume_loop latest ts (restore_outputs t r ex) (sk \<union> set (GetBranchTasks t (\<not> b)))
                      | _ \<Rightarrow> Inl (NoResult (task_id t)))
                else resume_loop latest ts (restore_outputs t r ex) sk))"

definition position_from :: "TaskDefinition list \<Rightarrow> string \<Rightarrow> nat option" where
  "position_from order i = List.find (\<lambda>k. task_id (order ! k) = i) [0..<length order]"

definition planResume ::
  "TaskDefinition list \<Rightarrow> ReplayStep list \<Rightarrow> string
   \<Rightarrow> (replay_error, nat \<times> (string \<Rightarrow> obj option) \<times> string set) res" where
  "planResume order steps fromTaskID =
     (if fromTaskID = '''' then Inr (0, (\<lambda>_. None), {})
      else (case position_from order fromTaskID of
              None \<Rightarrow> Inl (StepGone fromTaskID)
            | Some start \<Rightarrow>
                bind_res (resume_loop (latest_attempts steps) (take start order) (\<lambda>_. None) {})
                  (\<lambda>(ex, sk). Inr (start, ex, sk))))"

definition replayEvent :: "Event \<Rightarrow> ReplayRequest \<Rightarrow> Event" where
  "replayEvent placeholder req =
     (case rq_event req of None \<Rightarrow> placeholder | Some e \<Rightarrow> e)
       \<lparr>ev_triggerId := rq_triggerID req, ev_triggeredBy := rq_triggeredBy req\<rparr>"

text \<open>\<open>Replay\<close>: refused, or the run of the tasks from the step resumed at.\<close>

definition Replay ::
  "world \<Rightarrow> Event \<Rightarrow> (string \<Rightarrow> WorkflowDefinition option) \<Rightarrow> ReplayRequest \<Rightarrow> (replay_error, outcome \<times> run) res" where
  "Replay W placeholder registry req =
     (let event = replayEvent placeholder req
      in if rq_event req = None then Inl NoTriggerEvent
         else (case registry (rq_workflowID req) of
                 None \<Rightarrow> Inl (WorkflowGone (rq_workflowID req))
               | Some def \<Rightarrow>
                   (case bind_res (NewDependencyGraph (def_tasks def)) GetExecutionOrder of
                      Inl e \<Rightarrow> Inl (NotOrdered e)
                    | Inr order \<Rightarrow>
                        bind_res (planResume order (rq_steps req) (rq_from req)) (\<lambda>(start, ex, sk).
                          Inr (runTasksFrom (W\<lparr>trigger := event, dry_run := rq_dryRun req\<rparr>) order start
                                 (start_run\<lparr>exports := ex, skipped := sk\<rparr>))))))"

text \<open>A recorded step as a resume reads it back.\<close>

definition recorded_step :: "RunStep \<Rightarrow> ReplayStep" where
  "recorded_step s = \<lparr>rp_taskID = rs_taskID s, rp_status = status_text (rs_status s), rp_attempt = 1,
     rp_outputs = (case rs_outputs s of None \<Rightarrow> [] | Some m \<Rightarrow> m)\<rparr>"

subsection \<open>What a run records\<close>

lemma status_text_inj: "status_text a = status_text b \<longleftrightarrow> a = b"
  by (cases a; cases b) simp_all

lemma settle_recorded:
  "recording W \<Longrightarrow> recorded (settle_task W i n inp te st) = recorded st @
     [\<lparr>rs_taskID = i, rs_status = te_status te, rs_index = n, rs_inputs = inp,
       rs_outputs = (case te_result te of None \<Rightarrow> None
                     | Some r \<Rightarrow> (case tr_exports r of Some e \<Rightarrow> Some e | None \<Rightarrow> tr_data r)),
       rs_error = te_error te\<rparr>]"
  by (simp add: settle_task_def recordStep_def)

text \<open>The tasks a recorded step of a condition excludes.\<close>

definition excl :: "TaskDefinition \<Rightarrow> RunStep \<Rightarrow> string set" where
  "excl t x =
     (if task_type t \<noteq> TaskTypeCondition then {}
      else if rs_status x = TaskSkipped then set (onTrue t @ onFalse t)
      else (case rs_outputs x of
              Some m \<Rightarrow> (case map_of m ''result'' of Some (VBool b) \<Rightarrow> set (GetBranchTasks t (\<not> b)) | _ \<Rightarrow> {})
            | None \<Rightarrow> {}))"

text \<open>A step recorded for a task passed: what it says is what the run then holds.\<close>

definition tells :: "TaskDefinition \<Rightarrow> RunStep \<Rightarrow> obj option \<Rightarrow> bool" where
  "tells t x e \<longleftrightarrow> rs_taskID x = task_id t \<and>
     (rs_status x = TaskSkipped \<and> e = None
      \<or> rs_status x = TaskSuccess \<and> e = rs_outputs x
        \<and> (task_type t = TaskTypeCondition \<longrightarrow> (\<exists>b. e = Some [(''result'', VBool b)])))"

text \<open>A task that settles as a success and adds its step.\<close>

definition adds_success :: "TaskDefinition \<Rightarrow> run \<Rightarrow> outcome option \<times> run \<Rightarrow> bool" where
  "adds_success t st r \<longleftrightarrow> (fst r = None \<longrightarrow>
     (\<exists>x. recorded (snd r) = recorded st @ [x] \<and> rs_status x = TaskSuccess
        \<and> rs_taskID x = task_id t \<and> exports (snd r) (task_id t) = rs_outputs x))"

lemma adds_failed [simp]: "adds_success t st (Some out, s)"
  by (simp add: adds_success_def)

lemma adds_fail_task [simp]: "adds_success t st (fail_task W i n inp te e s)"
  by (simp add: fail_task_def)

lemma adds_finish_wait:
  "recording W \<Longrightarrow> recorded s = recorded st \<Longrightarrow> adds_success t st (finish_wait W t te n ex s)"
  by (simp add: adds_success_def finish_wait_def settle_recorded)

lemma adds_wait: "recording W \<Longrightarrow> adds_success t st (run_wait W t te n st)"
  by (auto simp: run_wait_def handleWaitTask_def Let_def adds_finish_wait split: option.split)

lemma adds_dry_run: "recording W \<Longrightarrow> adds_success t st (completeDryRunWait W t te n st)"
  by (simp add: adds_success_def completeDryRunWait_def Let_def settle_recorded)

lemma adds_workflow: "recording W \<Longrightarrow> adds_success t st (run_workflow W t te n st)"
  by (auto simp: run_workflow_def Let_def adds_finish_wait split: sum.split prod.split wf_result.split)

lemma adds_action:
  assumes "recording W" and "exports st (task_id t) = None"
  shows "adds_success t st (run_action W t te n st)"
proof -
  have p: "exports (publishTaskResultExports (task_id t) r s) (task_id t)
      = (case r of None \<Rightarrow> None | Some r \<Rightarrow> (case tr_exports r of Some e \<Rightarrow> Some e | None \<Rightarrow> tr_data r))"
    if "exports s (task_id t) = None" for r s
    using that by (auto simp: publishTaskResultExports_def split: option.split)
  show ?thesis
    using assms by (auto simp: run_action_def Let_def adds_success_def settle_recorded p split: prod.split option.split)
qed

lemma run_kind_recorded:
  "recording W \<Longrightarrow> exports st (task_id t) = None \<Longrightarrow> adds_success t st (run_kind W t te n st)"
  by (simp add: run_kind_def adds_wait adds_dry_run adds_workflow adds_action)

lemma run_task_recorded:
  assumes w: "recording W" and "fst (run_task W t n st) = None" and "exports st (task_id t) = None"
    and "task_type t = TaskTypeCondition \<longrightarrow> decides t"
  shows "\<exists>x. recorded (snd (run_task W t n st)) = recorded st @ [x]
    \<and> tells t x (exports (snd (run_task W t n st)) (task_id t))
    \<and> (task_id t \<in> skipped st \<longrightarrow> rs_status x = TaskSkipped)
    \<and> skipped (snd (run_task W t n st)) = skipped st \<union> excl t x"
proof (cases rule: run_task_elim [of t st W n])
  case skip
  then show ?thesis using assms(3)
    by (auto simp: skip_task_def settle_recorded [OF w] tells_def fresh_exec_def excl_def skipBranchesOfSkippedCondition_def)
next
  case disabled
  then show ?thesis using assms(3)
    by (auto simp: skipDisabledTask_def settle_recorded [OF w] tells_def excl_def)
next
  case (condition b d)
  then show ?thesis using assms(3)
    by (auto simp: settleCondition_def Let_def settle_recorded [OF w] tells_def excl_def decides_def)
next
  case (failed e)
  then show ?thesis using assms(2) by simp
next
  case guarded
  then show ?thesis using assms(3) by (auto simp: guard_false_def settle_recorded [OF w] tells_def excl_def)
next
  case kind
  have nc: "task_type t \<noteq> TaskTypeCondition" using kind assms(4) by auto
  have "adds_success t (entered t st) (run_kind W t (current_exec (task_id t) st) n (entered t st))"
    by (rule run_kind_recorded [OF w]) (simp add: assms(3))
  then show ?thesis
    using kind assms(2) nc run_kind_frame(1) [of W t "current_exec (task_id t) st" n "entered t st"]
    by (auto simp: adds_success_def tells_def excl_def)
qed

lemma guard_pass_recorded:
  assumes "recording W" and "guard_pass W n ts st = (None, torun, st')"
  shows "\<exists>xs. recorded st' = recorded st @ xs \<and> (\<forall>x \<in> set xs. rs_status x = TaskSkipped)
    \<and> mset (map rs_taskID xs) + mset (ids torun) = mset (ids ts)"
  using assms(2)
proof (induction ts arbitrary: n st torun st')
  case Nil
  then show ?case by (simp add: ids_def)
next
  case (Cons t ts)
  let ?te = "fresh_exec TaskRunning"
  let ?s = "st\<lparr>task_execs := (task_execs st)(task_id t := Some ?te)\<rparr>"
  have dropped: ?case
    if g: "guard_pass W (Suc n) ts s = (None, torun, st')" and r: "recorded s = recorded st @ [x]"
      and x: "rs_status x = TaskSkipped" "rs_taskID x = task_id t" for s x
  proof -
    obtain xs where "recorded st' = recorded s @ xs" "\<forall>x \<in> set xs. rs_status x = TaskSkipped"
      "mset (map rs_taskID xs) + mset (ids torun) = mset (ids ts)" using Cons.IH [OF g] by blast
    then show ?thesis using r x by (intro exI [of _ "x # xs"]) (auto simp: ids_def)
  qed
  have run: ?case
    if r: "(case guard_pass W (Suc n) ts ?s of (out, torun, st') \<Rightarrow> (out, t # torun, st')) = (None, torun, st')"
  proof -
    obtain torun' where t': "guard_pass W (Suc n) ts ?s = (None, torun', st')" "torun = t # torun'"
      using r by (auto split: prod.splits)
    then show ?thesis using Cons.IH [OF t'(1)] by (auto simp: ids_def)
  qed
  have g: "guard_pass W n (t # ts) st =
     (if task_disabled t then guard_pass W (Suc n) ts (skipDisabledTask W t ?te n ?s)
      else if \<not> has_conditions t
      then (case guard_pass W (Suc n) ts ?s of (out, torun, st') \<Rightarrow> (out, t # torun, st'))
      else (case condition_Evaluate W t (exports ?s) of
              Inl e \<Rightarrow> (case fail_task W (task_id t) n None ?te (GuardFailed e) ?s of (out, st') \<Rightarrow> (out, [], st'))
            | Inr result \<Rightarrow>
                if \<not> result then guard_pass W (Suc n) ts (guard_false W t ?te n ?s)
                else (case guard_pass W (Suc n) ts ?s of (out, torun, st') \<Rightarrow> (out, t # torun, st'))))"
    by (simp only: guard_pass.simps Let_def)
  consider "task_disabled t" | "\<not> task_disabled t" "\<not> has_conditions t"
    | e where "\<not> task_disabled t" "has_conditions t" "condition_Evaluate W t (exports ?s) = Inl e"
    | "\<not> task_disabled t" "has_conditions t" "condition_Evaluate W t (exports ?s) = Inr False"
    | "\<not> task_disabled t" "has_conditions t" "condition_Evaluate W t (exports ?s) = Inr True"
    by (cases "condition_Evaluate W t (exports ?s)") (metis (full_types))+
  then show ?case
  proof cases
    case 1
    then have "guard_pass W (Suc n) ts (skipDisabledTask W t ?te n ?s) = (None, torun, st')"
      using Cons.prems unfolding g by simp
    then show ?thesis
      by (rule dropped) (simp add: skipDisabledTask_def settle_recorded [OF assms(1)], simp_all)
  next
    case 2
    then show ?thesis using Cons.prems unfolding g by (intro run) simp
  next
    case 3
    then show ?thesis using Cons.prems unfolding g by (auto simp: fail_task_def)
  next
    case 4
    then have "guard_pass W (Suc n) ts (guard_false W t ?te n ?s) = (None, torun, st')"
      using Cons.prems unfolding g by simp
    then show ?thesis
      by (rule dropped) (simp add: guard_false_def settle_recorded [OF assms(1)], simp_all)
  next
    case 5
    then show ?thesis using Cons.prems unfolding g by (intro run) simp
  qed
qed

lemma publish_settled:
  "exports st (task_id t) = None \<Longrightarrow> exports (publishTaskResultExports (task_id t) r st) (task_id t)
     = (case r of None \<Rightarrow> None | Some r \<Rightarrow> (case tr_exports r of Some e \<Rightarrow> Some e | None \<Rightarrow> tr_data r))"
  by (auto simp: publishTaskResultExports_def split: option.split)

lemma apply_outcomes_recorded:
  assumes "recording W" and "apply_outcomes W ex n ts False None st = (False, None, st')" and "distinct (ids ts)"
    and "\<And>t. t \<in> set ts \<Longrightarrow> exports st (task_id t) = None"
  shows "\<exists>xs. recorded st' = recorded st @ xs \<and> map rs_taskID xs = ids ts
    \<and> (\<forall>x \<in> set xs. rs_status x = TaskSuccess \<and> exports st' (rs_taskID x) = rs_outputs x)"
  using assms(2-4)
proof (induction ts arbitrary: n st)
  case (Cons t ts)
  obtain result params err where x: "executeTask W t ex = (result, params, err)"
    by (cases "executeTask W t ex") auto
  let ?te = "case task_execs st (task_id t) of Some te \<Rightarrow> te | None \<Rightarrow> fresh_exec TaskRunning"
  have na: "\<not> abandoned_at W n"
  proof
    assume "abandoned_at W n"
    then have "apply_outcomes W ex (Suc n) ts True None (cancelPendingTask W (task_id t) n st) = (False, None, st')"
      using Cons.prems(1) by simp
    then show False using apply_outcomes_sticky(1) [of W ex "Suc n" ts None] by (metis fst_conv)
  qed
  have ne: "err = None"
  proof (rule ccontr)
    assume "err \<noteq> None"
    then obtain e where "err = Some e" by auto
    then have "apply_outcomes W ex (Suc n) ts False (Some e)
        (snd (fail_task W (task_id t) n params (?te\<lparr>te_result := result\<rparr>) e st)) = (False, None, st')"
      using Cons.prems(1) na x by (simp add: Let_def)
    then show False using apply_outcomes_sticky(2) [of "Some e" W ex "Suc n" ts] by (metis fst_conv option.distinct(1) snd_conv)
  qed
  let ?s = "settle_task W (task_id t) n params (?te\<lparr>te_status := TaskSuccess, te_result := result\<rparr>)
              (publishTaskResultExports (task_id t) result st)"
  have r: "apply_outcomes W ex (Suc n) ts False None ?s = (False, None, st')"
    using Cons.prems(1) na x ne by (simp add: Let_def)
  have new: "task_id t \<notin> task_id ` set ts" and d: "distinct (ids ts)" using Cons.prems(2) by (simp_all add: ids_def)
  have "\<exists>xs. recorded st' = recorded ?s @ xs \<and> map rs_taskID xs = ids ts
      \<and> (\<forall>x \<in> set xs. rs_status x = TaskSuccess \<and> exports st' (rs_taskID x) = rs_outputs x)"
  proof (rule Cons.IH [OF r d])
    fix u assume u: "u \<in> set ts"
    then have "task_id u \<noteq> task_id t" using new by (metis imageI)
    then show "exports ?s (task_id u) = None" using Cons.prems(3) [of u] u by (simp add: publish_exports)
  qed
  then obtain xs where xs: "recorded st' = recorded ?s @ xs" "map rs_taskID xs = ids ts"
    "\<forall>x \<in> set xs. rs_status x = TaskSuccess \<and> exports st' (rs_taskID x) = rs_outputs x" by blast
  have "exports st' (task_id t) = exports ?s (task_id t)"
    using apply_outcomes_frame [OF r] new by blast
  then show ?case
    using xs Cons.prems(3) [of t]
    by (auto simp: settle_recorded [OF assms(1)] publish_settled ids_def)
qed (simp add: ids_def)

lemma stretch_recorded:
  assumes w: "recording W" and i: "i < length order" and d: "distinct (ids order)"
    and r: "run_stretch W order i st = (None, s)" and ts_def: "ts = take (next_index W order i st - i) (drop i order)"
    and "\<And>t. t \<in> set ts \<Longrightarrow> exports st (task_id t) = None"
    and "\<And>t. t \<in> set ts \<Longrightarrow> task_type t = TaskTypeCondition \<Longrightarrow> decides t"
  shows "\<exists>xs. recorded s = recorded st @ xs \<and> mset (map rs_taskID xs) = mset (ids ts)
    \<and> (\<forall>t \<in> set ts. \<forall>x \<in> set xs. rs_taskID x = task_id t \<longrightarrow>
         tells t x (exports s (task_id t)) \<and> (task_id t \<in> skipped st \<longrightarrow> rs_status x = TaskSkipped))
    \<and> skipped s = skipped st \<union> (\<Union>t \<in> set ts. \<Union>x \<in> {x \<in> set xs. rs_taskID x = task_id t}. excl t x)"
proof (cases "1 < Len (plan_at W order i st)")
  case False
  then have e: "run_task W (order ! i) i st = (None, s)" using r by (simp add: run_stretch_def)
  have ts: "ts = [order ! i]" using False i by (simp add: ts_def next_index_def take_Suc hd_drop_conv_nth)
  obtain x where "recorded s = recorded st @ [x]" "tells (order ! i) x (exports s (task_id (order ! i)))"
    "task_id (order ! i) \<in> skipped st \<longrightarrow> rs_status x = TaskSkipped" "skipped s = skipped st \<union> excl (order ! i) x"
    using run_task_recorded [OF w, of "order ! i" i st] e assms(6,7) ts by auto
  then show ?thesis by (intro exI [of _ "[x]"]) (auto simp: ts tells_def ids_def)
next
  case True
  let ?r = "plan_at W order i st"
  note m = plan_at_members [OF i True]
  have ts: "members order ?r = ts" using m(2) by (simp add: ts_def)
  have safe: "isConcurrencySafe t \<and> task_id t \<notin> skipped st" if "t \<in> set ts" for t
    using m(1) that by (simp add: ts list_all_iff)
  have dts: "distinct (ids ts)" using d by (simp add: ts_def ids_def take_map [symmetric] drop_map [symmetric])
  obtain torun st1 where g: "guard_pass W (Start ?r) ts st = (None, torun, st1)"
    and a: "apply_outcomes W (exports st1) (Start ?r) torun False None
        (st1\<lparr>performed := performed st1 @ map task_id torun\<rparr>) = (False, None, s)"
    using r True by (auto simp: run_stretch_def executeConcurrentRun_def ts split: prod.splits option.splits if_splits)
  note gf = guard_pass_frame [OF g] and af = apply_outcomes_frame [OF a]
  obtain xs where xs: "recorded st1 = recorded st @ xs" "\<forall>x \<in> set xs. rs_status x = TaskSkipped"
    "mset (map rs_taskID xs) + mset (ids torun) = mset (ids ts)" using guard_pass_recorded [OF w g] by blast
  have sub: "set torun \<subseteq> set ts" using gf by (auto dest: list_emb_set)
  have "subseq (ids torun) (ids ts)" using gf by (auto simp: ids_def intro: subseq_map)
  then have dt: "distinct (ids torun)" using dts by (auto simp: subseq_conv_nths)
  have n: "exports (st1\<lparr>performed := performed st1 @ map task_id torun\<rparr>) (task_id t) = None" if "t \<in> set torun" for t
    using assms(6) [of t] sub that gf by auto
  obtain ys where ys: "recorded s = recorded st1 @ ys" "map rs_taskID ys = ids torun"
    "\<forall>x \<in> set ys. rs_status x = TaskSuccess \<and> exports s (rs_taskID x) = rs_outputs x"
    using apply_outcomes_recorded [OF w a dt n] by auto
  have "distinct (map rs_taskID xs @ ids torun)"
    using xs(3) dts by (metis mset_append mset_eq_imp_distinct_iff)
  then have xn: "rs_taskID x \<notin> task_id ` set torun" if "x \<in> set xs" for x using that by (auto simp: ids_def)
  have nc: "task_type t \<noteq> TaskTypeCondition" if "t \<in> set ts" for t
    using safe [OF that] by (simp add: isConcurrencySafe_def)
  have "tells t x (exports s (task_id t))" if "t \<in> set ts" "x \<in> set (xs @ ys)" "rs_taskID x = task_id t" for t x
  proof (cases "x \<in> set xs")
    case True
    then have "exports s (task_id t) = exports st1 (task_id t)" using af xn [of x] that(3) by auto
    then show ?thesis using True xs(2) that gf assms(6) [OF that(1)] by (simp add: tells_def)
  next
    case False
    then show ?thesis using ys(3) that nc [OF that(1)] by (auto simp: tells_def)
  qed
  moreover have "skipped s = skipped st" using af gf by simp
  moreover have "excl t x = {}" if "t \<in> set ts" for t x using nc [OF that] by (simp add: excl_def)
  ultimately show ?thesis using xs ys safe by (intro exI [of _ "xs @ ys"]) auto
qed

subsection \<open>A run part-way through\<close>

text \<open>The states in which the loop of a run stands before its \<open>i\<close>-th task.\<close>

inductive loop_at :: "world \<Rightarrow> TaskDefinition list \<Rightarrow> nat \<Rightarrow> run \<Rightarrow> bool" for W order where
  start: "loop_at W order 0 start_run"
| stretch: "loop_at W order i st \<Longrightarrow> i < length order \<Longrightarrow> \<not> cancelled_at W i \<Longrightarrow>
    run_stretch W order i st = (None, s) \<Longrightarrow> loop_at W order (next_index W order i st) s"

lemma loop_at_bound: "loop_at W order i st \<Longrightarrow> i \<le> length order"
  by (induction rule: loop_at.induct) (auto dest: next_index_grows)

text \<open>The loop goes on from where it stands, and a run that completes has been everywhere.\<close>

lemma loop_at_continues:
  "loop_at W order i st \<Longrightarrow> runTasksFrom W order 0 start_run = runTasksFrom W order i st"
proof (induction rule: loop_at.induct)
  case (stretch i st s)
  then show ?case by (simp add: runTasksFrom.simps [of W order i st])
qed simp

definition excluded :: "TaskDefinition list \<Rightarrow> RunStep list \<Rightarrow> nat \<Rightarrow> string set" where
  "excluded order xs k = (\<Union>t \<in> set (take k order). \<Union>x \<in> {x \<in> set xs. rs_taskID x = task_id t}. excl t x)"

definition replayable :: "TaskDefinition list \<Rightarrow> nat \<Rightarrow> run \<Rightarrow> bool" where
  "replayable order i st \<longleftrightarrow>
     mset (map rs_taskID (recorded st)) = mset (ids (take i order))
     \<and> (\<forall>n. n \<notin> set (ids (take i order)) \<longrightarrow> exports st n = None)
     \<and> (\<forall>k < i. \<forall>x \<in> set (recorded st). rs_taskID x = task_id (order ! k) \<longrightarrow>
          tells (order ! k) x (exports st (task_id (order ! k)))
          \<and> (task_id (order ! k) \<in> excluded order (recorded st) k \<longrightarrow> rs_status x = TaskSkipped))
     \<and> skipped st = excluded order (recorded st) i"

lemma excluded_append:
  assumes "\<And>x. x \<in> set xs \<Longrightarrow> rs_taskID x \<notin> set (ids (take k order))"
  shows "excluded order (ys @ xs) k = excluded order ys k"
  using assms by (auto simp: excluded_def ids_def)

lemma excluded_split:
  "i \<le> j \<Longrightarrow> excluded order xs j
     = excluded order xs i \<union> (\<Union>t \<in> set (take (j - i) (drop i order)). \<Union>x \<in> {x \<in> set xs. rs_taskID x = task_id t}. excl t x)"
  using take_split [of i j order] by (simp add: excluded_def)

lemma replayable_start: "replayable order 0 start_run"
  by (simp add: replayable_def start_run_def excluded_def ids_def)

lemma replayable_stretch:
  assumes w: "recording W" and i: "i < length order" and d: "distinct (ids order)"
    and c: "\<And>t. t \<in> set order \<Longrightarrow> task_type t = TaskTypeCondition \<Longrightarrow> decides t"
    and r: "run_stretch W order i st = (None, s)" and inv: "replayable order i st"
  shows "replayable order (next_index W order i st) s"
proof -
  let ?j = "next_index W order i st"
  let ?ts = "take (?j - i) (drop i order)"
  note j = next_index_grows [OF i, of W st]
  have split: "take ?j order = take i order @ ?ts" using take_split [of i ?j order] j by simp
  have dj: "distinct (ids (take i order) @ ids ?ts)"
    using d split by (metis distinct_take ids_def map_append take_map)
  have m: "mset (map rs_taskID (recorded st)) = mset (ids (take i order))" using inv by (simp add: replayable_def)
  have new: "exports st (task_id t) = None" if "t \<in> set ?ts" for t
    using inv dj that by (auto simp: replayable_def ids_def)
  have ct: "decides t" if "t \<in> set ?ts" "task_type t = TaskTypeCondition" for t
    using c that by (meson in_set_dropD in_set_takeD)
  have "\<exists>xs. recorded s = recorded st @ xs \<and> mset (map rs_taskID xs) = mset (ids ?ts)
    \<and> (\<forall>t \<in> set ?ts. \<forall>x \<in> set xs. rs_taskID x = task_id t \<longrightarrow>
         tells t x (exports s (task_id t)) \<and> (task_id t \<in> skipped st \<longrightarrow> rs_status x = TaskSkipped))
    \<and> skipped s = skipped st \<union> (\<Union>t \<in> set ?ts. \<Union>x \<in> {x \<in> set xs. rs_taskID x = task_id t}. excl t x)"
    by (rule stretch_recorded [OF w i d r refl]) (fact new, fact ct)
  then obtain xs where xs: "recorded s = recorded st @ xs" "mset (map rs_taskID xs) = mset (ids ?ts)"
    and tl: "\<And>t x. t \<in> set ?ts \<Longrightarrow> x \<in> set xs \<Longrightarrow> rs_taskID x = task_id t \<Longrightarrow>
         tells t x (exports s (task_id t)) \<and> (task_id t \<in> skipped st \<longrightarrow> rs_status x = TaskSkipped)"
    and sk: "skipped s = skipped st \<union> (\<Union>t \<in> set ?ts. \<Union>x \<in> {x \<in> set xs. rs_taskID x = task_id t}. excl t x)"
    by (elim exE conjE) (rule that, auto)
  have xn: "rs_taskID x \<in> set (ids ?ts)" "rs_taskID x \<notin> set (ids (take i order))" if "x \<in> set xs" for x
  proof -
    show "rs_taskID x \<in> set (ids ?ts)" using mset_eq_setD [OF xs(2)] that by (metis imageI list.set_map)
    then show "rs_taskID x \<notin> set (ids (take i order))" using dj by auto
  qed
  have on: "rs_taskID x \<in> set (ids (take i order))" if "x \<in> set (recorded st)" for x
    using mset_eq_setD [OF m] that by (metis imageI list.set_map)
  have old: "excluded order (recorded s) k = excluded order (recorded st) k" if "k \<le> i" for k
  proof -
    have "set (ids (take k order)) \<subseteq> set (ids (take i order))"
      using that by (auto simp: take_ids dest: set_take_subset_set_take [THEN subsetD])
    then show ?thesis unfolding xs(1) using xn(2) by (intro excluded_append) blast
  qed
  have only: "{x \<in> set (recorded s). rs_taskID x = task_id t} = {x \<in> set xs. rs_taskID x = task_id t}" if "t \<in> set ?ts" for t
    using on dj that by (auto simp: xs(1) ids_def)
  have sks: "skipped s = excluded order (recorded s) ?j"
    using excluded_split [of i ?j order "recorded s"] j inv old [of i] only by (simp add: sk replayable_def)
  have mid: "excluded order (recorded s) k \<subseteq> skipped st" if "i \<le> k" "k < ?j" for k
  proof (cases "k = i")
    case True
    then show ?thesis using old [of i] inv by (simp add: replayable_def)
  next
    case False
    then have l: "1 < Len (plan_at W order i st)" using that by (simp add: next_index_def split: if_splits)
    have "task_type t \<noteq> TaskTypeCondition" if "t \<in> set ?ts" for t
      using plan_at_members [OF i l] that by (auto simp: list_all_iff isConcurrencySafe_def)
    moreover have "set (take (k - i) (drop i order)) \<subseteq> set ?ts" using that by (intro set_take_subset_set_take) simp
    ultimately show ?thesis
      using excluded_split [of i k order "recorded s"] that old [of i] inv by (auto simp: replayable_def excl_def)
  qed
  have ex: "exports s n = exports st n" if "n \<notin> set (ids ?ts)" for n
    using run_stretch_ok(4) [OF i refl refl that] r by (metis snd_conv)
  have tells_all: "tells (order ! k) x (exports s (task_id (order ! k)))
      \<and> (task_id (order ! k) \<in> excluded order (recorded s) k \<longrightarrow> rs_status x = TaskSkipped)"
    if k: "k < ?j" and x: "x \<in> set (recorded s)" "rs_taskID x = task_id (order ! k)" for k x
  proof (cases "k < i")
    case True
    have "order ! k \<in> set (take i order)" using True i by (auto simp: in_set_conv_nth intro!: exI [of _ k])
    then have kn: "task_id (order ! k) \<notin> set (ids ?ts)" using dj by (auto simp: ids_def)
    have "x \<notin> set xs" using xn(1) [of x] x(2) kn by auto
    then have "x \<in> set (recorded st)" using x(1) by (simp add: xs(1))
    then show ?thesis using inv True x(2) ex [OF kn] old [of k] by (simp add: replayable_def)
  next
    case False
    then have t: "order ! k \<in> set ?ts" using k j by (auto simp: in_set_conv_nth intro!: exI [of _ "k - i"])
    then have "x \<in> set xs" using only [OF t] x by blast
    then show ?thesis using tl [OF t] x(2) mid [of k] False k by auto
  qed
  have "mset (map rs_taskID (recorded s)) = mset (ids (take ?j order))"
    using xs(2) m by (simp add: xs(1) split ids_def)
  moreover have "exports s n = None" if "n \<notin> set (ids (take ?j order))" for n
    using that ex [of n] inv by (auto simp: replayable_def split ids_def)
  ultimately show ?thesis using tells_all sks unfolding replayable_def by blast
qed

lemma loop_at_replayable:
  assumes "loop_at W order i st" and "recording W" and "distinct (ids order)"
    and "\<And>t. t \<in> set order \<Longrightarrow> task_type t = TaskTypeCondition \<Longrightarrow> decides t"
  shows "replayable order i st"
  using assms(1)
proof (induction rule: loop_at.induct)
  case (stretch i st s)
  from replayable_stretch [OF assms(2) stretch.hyps(2) assms(3,4) stretch.hyps(4) stretch.IH] show ?case .
qed (rule replayable_start)

subsection \<open>What a resume restores\<close>

lemma latest_known:
  "distinct (map rp_taskID steps) \<Longrightarrow>
   (\<forall>s \<in> set steps. latest_attempts steps (rp_taskID s) = Some s)
   \<and> (\<forall>n. n \<notin> rp_taskID ` set steps \<longrightarrow> latest_attempts steps n = None)"
proof (induction steps rule: rev_induct)
  case (snoc y ys)
  then have IH: "\<forall>s \<in> set ys. latest_attempts ys (rp_taskID s) = Some s"
    "\<forall>n. n \<notin> rp_taskID ` set ys \<longrightarrow> latest_attempts ys n = None" by simp_all
  have "rp_taskID y \<notin> rp_taskID ` set ys" using snoc.prems by simp
  moreover from this have "latest_attempts (ys @ [y]) = (latest_attempts ys)(rp_taskID y := Some y)"
    using IH(2) by (simp add: latest_attempts_def)
  ultimately show ?case using IH by (auto simp: image_iff)
qed (simp add: latest_attempts_def)

lemma resume_loop_append:
  "resume_loop L (xs @ ys) ex sk = bind_res (resume_loop L xs ex sk) (\<lambda>(ex, sk). resume_loop L ys ex sk)"
  by (induction xs arbitrary: ex sk) (auto split: option.split val.split)

text \<open>The exports a resume has for a task that exported \<open>e\<close>.\<close>

definition restored :: "TaskDefinition \<Rightarrow> obj option \<Rightarrow> obj option" where
  "restored t e =
     (case e of
        None \<Rightarrow> None
      | Some m \<Rightarrow> if m = [] then None else Some (if task_type t = TaskTypeWait then RestoreWaitExports m else m))"

lemma resume_prefix:
  assumes inv: "replayable order i st" and d: "distinct (ids order)" and "k \<le> i" "i \<le> length order"
  shows "\<exists>ex sk. resume_loop (latest_attempts (map recorded_step (recorded st))) (take k order) (\<lambda>_. None) {} = Inr (ex, sk)
    \<and> sk \<inter> set (ids (drop k order)) = excluded order (recorded st) k \<inter> set (ids (drop k order))
    \<and> (\<forall>t \<in> set (take k order). ex (task_id t) = restored t (exports st (task_id t)))
    \<and> (\<forall>n. n \<notin> set (ids (take k order)) \<longrightarrow> ex n = None)"
  using assms(3)
proof (induction k)
  case 0
  then show ?case by (simp add: excluded_def)
next
  case (Suc k)
  let ?L = "latest_attempts (map recorded_step (recorded st))" and ?t = "order ! k"
  obtain ex sk where IH: "resume_loop ?L (take k order) (\<lambda>_. None) {} = Inr (ex, sk)"
    "sk \<inter> set (ids (drop k order)) = excluded order (recorded st) k \<inter> set (ids (drop k order))"
    "\<forall>t \<in> set (take k order). ex (task_id t) = restored t (exports st (task_id t))"
    "\<forall>n. n \<notin> set (ids (take k order)) \<longrightarrow> ex n = None" using Suc by auto
  have k: "k < length order" "k < i" using Suc.prems assms(4) by simp_all
  have dr: "drop k order = ?t # drop (Suc k) order" using k by (simp add: Cons_nth_drop_Suc)
  have tk: "take (Suc k) order = take k order @ [?t]" using k by (simp add: take_Suc_conv_app_nth)
  have dd: "distinct (ids (take k order) @ task_id ?t # ids (drop (Suc k) order))"
    using d dr by (metis append_take_drop_id ids_def list.simps(9) map_append)
  have m: "mset (map rs_taskID (recorded st)) = mset (ids (take i order))" using inv by (simp add: replayable_def)
  have dr': "distinct (map rs_taskID (recorded st))"
    using m d by (metis distinct_take ids_def mset_eq_imp_distinct_iff take_map)
  have "?t \<in> set (take i order)" using k by (auto simp: in_set_conv_nth intro!: exI [of _ k])
  then have "task_id ?t \<in> set (map rs_taskID (recorded st))" using mset_eq_setD [OF m] by (simp add: ids_def)
  then obtain x where x: "x \<in> set (recorded st)" "rs_taskID x = task_id ?t" by auto
  have one: "{y \<in> set (recorded st). rs_taskID y = task_id ?t} = {x}"
    using dr' x by (auto simp: distinct_map inj_on_def)
  have "distinct (map rp_taskID (map recorded_step (recorded st)))"
    using dr' by (simp add: comp_def recorded_step_def)
  then have L: "?L (task_id ?t) = Some (recorded_step x)"
    using latest_known [of "map recorded_step (recorded st)"] x by (force simp: recorded_step_def)
  have tl: "tells ?t x (exports st (task_id ?t))"
    and ske: "task_id ?t \<in> excluded order (recorded st) k \<Longrightarrow> rs_status x = TaskSkipped"
    using inv k(2) x by (auto simp: replayable_def)
  have sk_iff: "task_id ?t \<in> sk \<longleftrightarrow> task_id ?t \<in> excluded order (recorded st) k"
    using IH(2) unfolding dr ids_def by (metis Int_iff list.map(2) list.set_intros(1))
  have next_excl: "excluded order (recorded st) (Suc k) = excluded order (recorded st) k \<union> excl ?t x"
    unfolding excluded_def tk by (simp add: one Un_commute)
  have sub: "set (ids (drop (Suc k) order)) \<subseteq> set (ids (drop k order))" by (auto simp: dr ids_def)
  have agree: "sk' \<inter> set (ids (drop (Suc k) order))
      = excluded order (recorded st) (Suc k) \<inter> set (ids (drop (Suc k) order))"
    if "sk' = sk \<union> excl ?t x \<or> sk' = sk \<union> {task_id ?t} \<union> excl ?t x" for sk'
  proof -
    have "sk \<inter> set (ids (drop (Suc k) order)) = excluded order (recorded st) k \<inter> set (ids (drop (Suc k) order))"
      using IH(2) sub by blast
    then show ?thesis using that dd unfolding next_excl by auto
  qed
  have step: ?case
    if "resume_loop ?L [?t] ex sk = Inr (ex', sk')" and "sk' = sk \<union> excl ?t x \<or> sk' = sk \<union> {task_id ?t} \<union> excl ?t x"
      and "ex' = ex(task_id ?t := restored ?t (exports st (task_id ?t)))" for ex' sk'
  proof -
    have "resume_loop ?L (take (Suc k) order) (\<lambda>_. None) {} = Inr (ex', sk')"
      by (simp only: tk resume_loop_append IH(1) bind_res_simps prod.case that(1))
    moreover have "ex' (task_id u) = restored u (exports st (task_id u))" if "u \<in> set (take (Suc k) order)" for u
    proof (cases "u = ?t")
      case False
      then have u: "u \<in> set (take k order)" using that(1) by (simp add: tk)
      then have "task_id u \<in> set (ids (take k order))" by (simp add: ids_def)
      then have "task_id u \<noteq> task_id ?t" using dd by auto
      then show ?thesis using IH(3) u \<open>ex' = _\<close> by simp
    qed (simp add: \<open>ex' = _\<close>)
    moreover have "ex' n = None" if "n \<notin> set (ids (take (Suc k) order))" for n
      using that IH(4) \<open>ex' = _\<close> by (auto simp: tk ids_def)
    ultimately show ?thesis using agree [OF that(2)] by blast
  qed
  have exn: "ex (task_id ?t) = None" using IH(4) dd by auto
  show ?case
  proof (cases "rs_status x = TaskSkipped")
    case True
    then have "exports st (task_id ?t) = None" using tl by (simp add: tells_def)
    then have e: "ex(task_id ?t := restored ?t (exports st (task_id ?t))) = ex" using exn by (auto simp: restored_def)
    have b: "skipBranchesOfSkippedCondition ?t s = s \<union> excl ?t x" for s
      using True by (auto simp: skipBranchesOfSkippedCondition_def excl_def)
    show ?thesis
    proof (cases "task_id ?t \<in> sk")
      case s: True
      show ?thesis by (rule step [of ex "sk \<union> excl ?t x"]) (use s b e in simp_all)
    next
      case s: False
      show ?thesis
        by (rule step [of ex "sk \<union> {task_id ?t} \<union> excl ?t x"])
          (use s b e True L in \<open>simp_all add: recorded_step_def status_text_inj\<close>)
    qed
  next
    case False
    have succ: "rs_status x = TaskSuccess" "exports st (task_id ?t) = rs_outputs x"
      using tl False by (auto simp: tells_def)
    have ns: "task_id ?t \<notin> sk" using ske sk_iff False by blast
    have ro: "restore_outputs ?t (recorded_step x) ex = ex(task_id ?t := restored ?t (exports st (task_id ?t)))"
      using exn succ by (auto simp: restore_outputs_def recorded_step_def restored_def split: option.split)
    show ?thesis
    proof (cases "task_type ?t = TaskTypeCondition")
      case True
      then obtain b where b: "rs_outputs x = Some [(''result'', VBool b)]"
        using tl False unfolding tells_def by metis
      show ?thesis
        by (rule step [of "ex(task_id ?t := restored ?t (exports st (task_id ?t)))" "sk \<union> excl ?t x"])
          (use True b ns L succ ro in \<open>simp_all add: recorded_step_def status_text_inj excl_def\<close>)
    next
      case nc: False
      show ?thesis
        by (rule step [of "ex(task_id ?t := restored ?t (exports st (task_id ?t)))" "sk \<union> excl ?t x"])
          (use nc ns L succ ro in \<open>simp_all add: recorded_step_def status_text_inj excl_def\<close>)
    qed
  qed
qed

lemma position_from_distinct:
  assumes "distinct (ids order)" and "i < length order"
  shows "position_from order (task_id (order ! i)) = Some i"
proof -
  have "task_id (order ! k) = task_id (order ! i) \<longleftrightarrow> k = i" if "k < length order" for k
    using nth_eq_iff_index_eq [OF assms(1), of k i] that assms(2) by (simp add: ids_def)
  then show ?thesis
    using assms(2) by (auto simp: position_from_def find_Some_iff intro!: exI [of _ i])
qed

lemma resume_restores:
  assumes "loop_at W order i st" and "i < length order" and "task_id (order ! i) \<noteq> ''''"
    and "recording W" and "distinct (ids order)"
    and "\<forall>t \<in> set order. task_type t = TaskTypeCondition \<longrightarrow> decides t"
  shows "\<exists>ex sk. planResume order (map recorded_step (recorded st)) (task_id (order ! i)) = Inr (i, ex, sk)
    \<and> (\<forall>t \<in> set (drop i order). task_id t \<in> sk \<longleftrightarrow> task_id t \<in> skipped st)
    \<and> (\<forall>t \<in> set (take i order). ex (task_id t) = restored t (exports st (task_id t)))
    \<and> (\<forall>n. n \<notin> set (ids (take i order)) \<longrightarrow> ex n = None \<and> exports st n = None)"
proof -
  have inv: "replayable order i st" by (rule loop_at_replayable [OF assms(1,4,5)]) (use assms(6) in blast)
  obtain ex sk where r: "resume_loop (latest_attempts (map recorded_step (recorded st))) (take i order) (\<lambda>_. None) {} = Inr (ex, sk)"
    "sk \<inter> set (ids (drop i order)) = excluded order (recorded st) i \<inter> set (ids (drop i order))"
    "\<forall>t \<in> set (take i order). ex (task_id t) = restored t (exports st (task_id t))"
    "\<forall>n. n \<notin> set (ids (take i order)) \<longrightarrow> ex n = None"
    using resume_prefix [OF inv assms(5) order.refl] assms(2) by auto
  have "planResume order (map recorded_step (recorded st)) (task_id (order ! i)) = Inr (i, ex, sk)"
    using assms(3) r(1) by (simp add: planResume_def position_from_distinct [OF assms(5,2)])
  moreover have "task_id t \<in> sk \<longleftrightarrow> task_id t \<in> skipped st" if "t \<in> set (drop i order)" for t
    using r(2) that inv by (auto simp: replayable_def ids_def)
  ultimately show ?thesis using r(3,4) inv by (auto simp: replayable_def)
qed



end
