(* ===== verification/Resume.thy ===== *)
theory Resume
  imports Replay
begin

text \<open>
  A resumed run goes on as the run it resumes: the loop of \<open>runTasksFrom\<close> depends on the tasks
  already done only through their exports, so a run started from what \<open>planResume\<close> restores
  takes the same steps from there. The relation \<open>sim\<close> is the simulation between the two.
\<close>

subsection \<open>What a stretch leaves of the executions\<close>

lemma run_kind_execs: "i \<noteq> task_id t \<Longrightarrow> task_execs (snd (run_kind W t te n st)) i = task_execs st i"
  by (auto simp: run_kind_def run_action_def run_wait_def run_workflow_def completeDryRunWait_def
      finish_wait_def fail_task_def cancelPendingTask_def Let_def
      split: prod.splits option.splits wait_result.splits sum.splits wf_result.splits)

lemma run_task_execs: "i \<noteq> task_id t \<Longrightarrow> task_execs (snd (run_task W t n st)) i = task_execs st i"
  by (cases rule: run_task_elim [of t st W n])
    (simp_all add: run_kind_execs skip_task_def skipDisabledTask_def settleCondition_def guard_false_def fail_task_def Let_def)

lemma guard_pass_execs:
  "i \<notin> task_id ` set ts \<Longrightarrow> task_execs (snd (snd (guard_pass W n ts st))) i = task_execs st i"
proof (induction ts arbitrary: n st)
  case (Cons t ts)
  then show ?case
    by (auto simp: Let_def fail_task_def skipDisabledTask_def guard_false_def split: sum.split prod.split
        dest: arg_cong [where f = "\<lambda>p. task_execs (snd (snd p)) i"])
qed simp

lemma apply_outcomes_execs:
  "i \<notin> task_id ` set ts \<Longrightarrow> task_execs (snd (snd (apply_outcomes W ex n ts c f st))) i = task_execs st i"
proof (induction ts arbitrary: n c f st)
  case (Cons t ts)
  then show ?case
    by (simp add: Let_def fail_task_def cancelPendingTask_def split: option.split prod.split)
qed simp

lemma run_stretch_execs:
  assumes "i < length order" and "n \<notin> set (ids (take (next_index W order i st - i) (drop i order)))"
  shows "task_execs (snd (run_stretch W order i st)) n = task_execs st n"
proof (cases "1 < Len (plan_at W order i st)")
  case True
  have n: "n \<notin> task_id ` set (members order (plan_at W order i st))"
    using assms(2) plan_at_members(2) [OF assms(1) True] by (simp add: ids_def)
  obtain out torun st1 where g: "guard_pass W (Start (plan_at W order i st)) (members order (plan_at W order i st)) st
      = (out, torun, st1)" by (metis prod_cases3)
  have "set torun \<subseteq> set (members order (plan_at W order i st))"
    using guard_pass_frame [OF g] by (auto dest: list_emb_set)
  then have "n \<notin> task_id ` set torun" using n by blast
  then show ?thesis
    using True g guard_pass_execs [OF n, of W "Start (plan_at W order i st)" st]
      apply_outcomes_execs [of n torun W "exports st1" "Start (plan_at W order i st)" False None
        "st1\<lparr>performed := performed st1 @ map task_id torun\<rparr>"]
    by (auto simp: run_stretch_def executeConcurrentRun_def split: option.split prod.split)
next
  case False
  then have "n \<noteq> task_id (order ! i)"
    using assms by (simp add: next_index_def take_Suc hd_drop_conv_nth ids_def)
  then show ?thesis using False by (simp add: run_stretch_def run_task_execs)
qed

lemma loop_at_execs: "loop_at W order i st \<Longrightarrow> n \<notin> set (ids (take i order)) \<Longrightarrow> task_execs st n = None"
proof (induction rule: loop_at.induct)
  case start
  then show ?case by (simp add: start_run_def)
next
  case (stretch i st s)
  have "take (next_index W order i st) order
      = take i order @ take (next_index W order i st - i) (drop i order)"
    using take_split next_index_grows [OF stretch.hyps(2)] by (metis less_imp_le)
  then have "n \<notin> set (ids (take i order))" "n \<notin> set (ids (take (next_index W order i st - i) (drop i order)))"
    using stretch.prems by (simp_all add: ids_def)
  then show ?case
    using stretch.IH run_stretch_execs [OF stretch.hyps(2), of n W st] stretch.hyps(4) by simp
qed

subsection \<open>The simulation\<close>

text \<open>Two runs that differ only in what they hold of the tasks of \<open>N\<close>, which are done.\<close>

definition sim :: "string set \<Rightarrow> run \<Rightarrow> run \<Rightarrow> bool" where
  "sim N st st' \<longleftrightarrow> exports st = exports st'
     \<and> (\<forall>n. n \<notin> N \<longrightarrow> (n \<in> skipped st \<longleftrightarrow> n \<in> skipped st') \<and> task_execs st n = task_execs st' n)"

text \<open>The actions the second run executed are those by which the first grew.\<close>

definition grown :: "string list \<Rightarrow> run \<Rightarrow> run \<Rightarrow> bool" where
  "grown ps st st' \<longleftrightarrow> performed st = ps @ performed st'"

named_theorems sim_intros \<open>steps that keep two runs alike\<close>

lemma sim_settle [sim_intros]: "sim N st st' \<Longrightarrow> sim N (settle_task W i n inp te st) (settle_task W i n inp te st')"
  by (simp add: sim_def)

lemma sim_exports [sim_intros]: "sim N st st' \<Longrightarrow> sim N (set_exports i e st) (set_exports i e st')"
  by (simp add: sim_def)

lemma sim_publish [sim_intros]:
  "sim N st st' \<Longrightarrow> sim N (publishTaskResultExports i r st) (publishTaskResultExports i r st')"
  by (auto simp: publishTaskResultExports_def sim_intros split: option.split)

lemma sim_put [sim_intros]:
  "sim N st st' \<Longrightarrow> sim N (st\<lparr>task_execs := (task_execs st)(i := x)\<rparr>) (st'\<lparr>task_execs := (task_execs st')(i := x)\<rparr>)"
  by (simp add: sim_def)

lemma sim_cancel [sim_intros]:
  "sim N st st' \<Longrightarrow> i \<notin> N \<Longrightarrow> sim N (cancelPendingTask W i n st) (cancelPendingTask W i n st')"
  by (auto simp: cancelPendingTask_def Let_def sim_def)

lemma sim_fail [sim_intros]:
  "sim N st st' \<Longrightarrow> sim N (snd (fail_task W i n inp te e st)) (snd (fail_task W i n inp te e st'))"
  by (simp add: fail_task_def sim_intros)

lemma sim_condition [sim_intros]:
  "sim N st st' \<Longrightarrow> sim N (settleCondition W t te n b d st) (settleCondition W t te n b d st')"
  by (auto simp: settleCondition_def Let_def sim_def)

lemma sim_skip [sim_intros]:
  "sim N st st' \<Longrightarrow> sim N (skip_task W t n st) (skip_task W t n st')"
  "sim N st st' \<Longrightarrow> sim N (skipDisabledTask W t te n st) (skipDisabledTask W t te n st')"
  "sim N st st' \<Longrightarrow> sim N (guard_false W t te n st) (guard_false W t te n st')"
  by (auto simp: skip_task_def skipDisabledTask_def guard_false_def sim_def skipBranchesOfSkippedCondition_def)

lemma sim_performed [sim_intros]:
  "sim N st st' \<Longrightarrow> sim N (st\<lparr>performed := ps\<rparr>) (st'\<lparr>performed := qs\<rparr>)"
  by (simp add: sim_def)

text \<open>A step of both runs: the same way out, and states alike again.\<close>

definition sim_step :: "string set \<Rightarrow> string list \<Rightarrow> outcome option \<times> run \<Rightarrow> outcome option \<times> run \<Rightarrow> bool" where
  "sim_step N ps r r' \<longleftrightarrow> fst r = fst r' \<and> sim N (snd r) (snd r') \<and> grown ps (snd r) (snd r')"

lemma sim_action:
  assumes "sim N st st'" and "grown ps st st'" and "task_id t \<notin> N"
  shows "sim_step N ps (run_action W t te n st) (run_action W t te n st')"
proof -
  have e: "exports st = exports st'" using assms(1) by (simp add: sim_def)
  show ?thesis
    using assms by (auto simp: run_action_def Let_def sim_step_def grown_def e sim_intros split: prod.split option.split)
qed

lemma sim_wait:
  assumes "sim N st st'" and "grown ps st st'" and "task_id t \<notin> N"
  shows "sim_step N ps (run_wait W t te n st) (run_wait W t te n st')"
  using assms
  by (auto simp: run_wait_def Let_def sim_step_def grown_def finish_wait_def sim_intros
      split: prod.split option.split wait_result.split)

lemma sim_workflow:
  assumes "sim N st st'" and "grown ps st st'" and "task_id t \<notin> N"
  shows "sim_step N ps (run_workflow W t te n st) (run_workflow W t te n st')"
proof -
  have e: "exports st = exports st'" using assms(1) by (simp add: sim_def)
  show ?thesis
    using assms
    by (auto simp: run_workflow_def Let_def sim_step_def grown_def finish_wait_def e sim_intros
        split: prod.split sum.split wf_result.split)
qed

lemma sim_dry_run:
  assumes "sim N st st'" and "grown ps st st'"
  shows "sim_step N ps (completeDryRunWait W t te n st) (completeDryRunWait W t te n st')"
  using assms by (simp add: completeDryRunWait_def Let_def sim_step_def grown_def sim_intros)

lemma sim_kind:
  assumes "sim N st st'" and "grown ps st st'" and "task_id t \<notin> N"
  shows "sim_step N ps (run_kind W t te n st) (run_kind W t te n st')"
  using assms by (auto simp: run_kind_def intro: sim_action sim_wait sim_workflow sim_dry_run)

lemma sim_task:
  assumes s: "sim N st st'" and g: "grown ps st st'" and n: "task_id t \<notin> N"
  shows "sim_step N ps (run_task W t k st) (run_task W t k st')"
proof -
  have e: "exports st = exports st'" and sk: "task_id t \<in> skipped st \<longleftrightarrow> task_id t \<in> skipped st'"
    and te: "current_exec (task_id t) st = current_exec (task_id t) st'"
    using s n by (simp_all add: sim_def current_exec_def)
  have se: "sim N (entered t st) (entered t st')" and ge: "grown ps (entered t st) (entered t st')"
    using s g te unfolding entered_def by (simp_all add: sim_intros grown_def)
  show ?thesis
  proof (cases "task_id t \<in> skipped st")
    case True
    then show ?thesis using s g sk by (simp add: run_task_def sim_step_def sim_intros grown_def)
  next
    case False
    then have "task_id t \<notin> skipped st'" using sk by simp
    from run_task_eq [OF False] run_task_eq [OF this] show ?thesis
      using se ge sim_kind [OF se ge n]
      by (auto simp: te e sim_step_def sim_intros grown_def split: sum.split)
  qed
qed

lemma sim_guard_pass:
  assumes "sim N st st'" and "grown ps st st'" and "guard_pass W n ts st = (out, torun, s)"
    and "guard_pass W n ts st' = (out', torun', s')"
  shows "out = out' \<and> torun = torun' \<and> sim N s s' \<and> grown ps s s'"
  using assms
proof (induction ts arbitrary: n st st' torun torun')
  case (Cons t ts)
  let ?te = "fresh_exec TaskRunning"
  let ?s = "\<lambda>st. st\<lparr>task_execs := (task_execs st)(task_id t := Some ?te)\<rparr>"
  have e: "exports (?s st') = exports (?s st)" using Cons.prems(1) by (simp add: sim_def)
  have ss: "sim N (?s st) (?s st')" "grown ps (?s st) (?s st')"
    using Cons.prems(1,2) sim_put by (auto simp: grown_def)
  have g: "guard_pass W n (t # ts) st =
     (if task_disabled t then guard_pass W (Suc n) ts (skipDisabledTask W t ?te n (?s st))
      else if \<not> has_conditions t
      then (case guard_pass W (Suc n) ts (?s st) of (out, torun, st') \<Rightarrow> (out, t # torun, st'))
      else (case condition_Evaluate W t (exports (?s st)) of
              Inl e \<Rightarrow> (case fail_task W (task_id t) n None ?te (GuardFailed e) (?s st) of (out, st') \<Rightarrow> (out, [], st'))
            | Inr result \<Rightarrow>
                if \<not> result then guard_pass W (Suc n) ts (guard_false W t ?te n (?s st))
                else (case guard_pass W (Suc n) ts (?s st) of (out, torun, st') \<Rightarrow> (out, t # torun, st'))))" for st
    by (simp only: guard_pass.simps Let_def)
  have pass: ?case
    if "guard_pass W (Suc n) ts u = (out, torun, s)" "guard_pass W (Suc n) ts u' = (out', torun', s')"
      "sim N u u'" "grown ps u u'" for u u'
    using Cons.IH [OF that(3,4,1,2)] .
  have run: ?case
    if "(case guard_pass W (Suc n) ts (?s st) of (out, torun, st') \<Rightarrow> (out, t # torun, st')) = (out, torun, s)"
      "(case guard_pass W (Suc n) ts (?s st') of (out, torun, st') \<Rightarrow> (out, t # torun, st')) = (out', torun', s')"
    using that Cons.IH [OF ss] by (auto split: prod.splits)
  show ?case
  proof (cases "task_disabled t")
    case True
    show ?thesis
      by (rule pass [of "skipDisabledTask W t ?te n (?s st)" "skipDisabledTask W t ?te n (?s st')"])
        (use Cons.prems(3,4) True ss in \<open>simp_all add: g sim_skip(2) grown_def del: guard_pass.simps\<close>)
  next
    case nd: False
    show ?thesis
    proof (cases "has_conditions t")
      case False
      show ?thesis by (rule run) (use Cons.prems(3,4) nd False in \<open>simp_all add: g del: guard_pass.simps\<close>)
    next
      case hc: True
      show ?thesis
      proof (cases "condition_Evaluate W t (exports (?s st))")
        case (Inl x)
        show ?thesis
          using Cons.prems(3,4) nd hc Inl ss sim_fail [OF ss(1)]
          by (auto simp: g e fail_task_def grown_def simp del: guard_pass.simps)
      next
        case (Inr b)
        show ?thesis
        proof (cases b)
          case True
          show ?thesis by (rule run) (use Cons.prems(3,4) nd hc Inr True in \<open>simp_all add: g e del: guard_pass.simps\<close>)
        next
          case False
          show ?thesis
            by (rule pass [of "guard_false W t ?te n (?s st)" "guard_false W t ?te n (?s st')"])
              (use Cons.prems(3,4) nd hc Inr False ss in \<open>simp_all add: g e sim_skip(3) grown_def del: guard_pass.simps\<close>)
        qed
      qed
    qed
  qed
qed simp

lemma sim_apply_outcomes:
  assumes "sim N st st'" and "grown ps st st'" and "\<And>t. t \<in> set ts \<Longrightarrow> task_id t \<notin> N"
    and "apply_outcomes W ex n ts c f st = (c1, f1, s)" and "apply_outcomes W ex n ts c f st' = (c2, f2, s')"
  shows "c1 = c2 \<and> f1 = f2 \<and> sim N s s' \<and> grown ps s s'"
  using assms
proof (induction ts arbitrary: n c f st st')
  case (Cons t ts)
  have n: "task_id t \<notin> N" using Cons.prems(3) by simp
  have te: "task_execs st' (task_id t) = task_execs st (task_id t)" using Cons.prems(1) n by (simp add: sim_def)
  have step: ?case
    if "apply_outcomes W ex (Suc n) ts d g u = (c1, f1, s)" "apply_outcomes W ex (Suc n) ts d g u' = (c2, f2, s')"
      "sim N u u'" "grown ps u u'" for d g u u'
    using Cons.IH [OF that(3,4) _ that(1,2)] Cons.prems(3) by simp
  obtain result params err where x: "executeTask W t ex = (result, params, err)"
    by (cases "executeTask W t ex") auto
  let ?te = "case task_execs st (task_id t) of Some te \<Rightarrow> te | None \<Rightarrow> fresh_exec TaskRunning"
  consider "abandoned_at W n" | e where "\<not> abandoned_at W n" "err = Some e" | "\<not> abandoned_at W n" "err = None"
    by (cases err) auto
  then show ?case
  proof cases
    case 1
    show ?thesis
      by (rule step [of True f "cancelPendingTask W (task_id t) n st" "cancelPendingTask W (task_id t) n st'"])
        (use Cons.prems 1 n in \<open>simp_all add: sim_cancel grown_def\<close>)
  next
    case (2 e)
    show ?thesis
      by (rule step [of c "if f = None then Some e else f"
            "snd (fail_task W (task_id t) n params (?te\<lparr>te_result := result\<rparr>) e st)"
            "snd (fail_task W (task_id t) n params (?te\<lparr>te_result := result\<rparr>) e st')"])
        (use Cons.prems 2 n x te in \<open>simp_all add: sim_fail grown_def Let_def\<close>)
  next
    case 3
    show ?thesis
      by (rule step [of c f
            "settle_task W (task_id t) n params (?te\<lparr>te_status := TaskSuccess, te_result := result\<rparr>)
               (publishTaskResultExports (task_id t) result st)"
            "settle_task W (task_id t) n params (?te\<lparr>te_status := TaskSuccess, te_result := result\<rparr>)
               (publishTaskResultExports (task_id t) result st')"])
        (use Cons.prems 3 n x te in \<open>simp_all add: sim_settle sim_publish grown_def Let_def\<close>)
  qed
qed simp

lemma grow_run_same:
  "(\<And>t. t \<in> set ts \<Longrightarrow> task_id t \<in> sk \<longleftrightarrow> task_id t \<in> sk') \<Longrightarrow> grow_run sk l run ts = grow_run sk' l run ts"
  by (induction ts arbitrary: run) (auto simp: grow_run.simps)

lemma plan_same:
  assumes "\<And>t. t \<in> set (drop i order) \<Longrightarrow> task_id t \<in> sk \<longleftrightarrow> task_id t \<in> sk'"
  shows "planConcurrentRun order i sk l = planConcurrentRun order i sk' l"
proof (cases "i < length order")
  case True
  then have d: "drop i order = order ! i # drop (i + 1) order" by (simp add: Cons_nth_drop_Suc)
  then have "task_id (order ! i) \<in> sk \<longleftrightarrow> task_id (order ! i) \<in> sk'" using assms by simp
  moreover have "grow_run sk m [order ! i] (drop (i + 1) order) = grow_run sk' m [order ! i] (drop (i + 1) order)" for m
    by (rule grow_run_same) (use assms d in simp)
  ultimately show ?thesis by (simp add: planConcurrentRun_def Let_def)
qed (simp add: planConcurrentRun_def)

lemma sim_stretch:
  assumes s: "sim N st st'" and g: "grown ps st st'" and i: "i < length order"
    and n: "\<And>t. t \<in> set (drop i order) \<Longrightarrow> task_id t \<notin> N"
  shows "sim_step N ps (run_stretch W order i st) (run_stretch W order i st')
    \<and> next_index W order i st = next_index W order i st'"
proof -
  have "task_id t \<in> skipped st \<longleftrightarrow> task_id t \<in> skipped st'" if "t \<in> set (drop i order)" for t
    using s n [OF that] by (simp add: sim_def)
  then have p: "plan_at W order i st = plan_at W order i st'" unfolding plan_at_def by (rule plan_same)
  have hd: "order ! i \<in> set (drop i order)" using i by (metis hd_drop_conv_nth drop_eq_Nil hd_in_set not_le)
  have "sim_step N ps (run_stretch W order i st) (run_stretch W order i st')"
  proof (cases "1 < Len (plan_at W order i st)")
    case False
    then show ?thesis using p sim_task [OF s g n [OF hd]] by (simp add: run_stretch_def)
  next
    case True
    let ?r = "plan_at W order i st"
    obtain out torun s1 where a: "guard_pass W (Start ?r) (members order ?r) st = (out, torun, s1)" by (metis prod_cases3)
    obtain out' torun' s1' where b: "guard_pass W (Start ?r) (members order ?r) st' = (out', torun', s1')" by (metis prod_cases3)
    have same: "out' = out" "torun' = torun" "sim N s1 s1'" "grown ps s1 s1'" using sim_guard_pass [OF s g a b] by auto
    have "set (members order ?r) \<subseteq> set (drop i order)"
      unfolding plan_at_members(2) [OF i True] by (rule set_take_subset)
    then have tn: "task_id t \<notin> N" if "t \<in> set torun" for t
      using guard_pass_frame [OF a] that n by (auto dest: list_emb_set)
    let ?p = "\<lambda>st1. st1\<lparr>performed := performed st1 @ map task_id torun\<rparr>"
    obtain c f s2 where c: "apply_outcomes W (exports s1) (Start ?r) torun False None (?p s1) = (c, f, s2)" by (metis prod_cases3)
    obtain c' f' s2' where d: "apply_outcomes W (exports s1) (Start ?r) torun False None (?p s1') = (c', f', s2')" by (metis prod_cases3)
    have sp: "sim N (?p s1) (?p s1')" "grown ps (?p s1) (?p s1')" using same by (simp_all add: sim_performed grown_def)
    have e: "exports s1' = exports s1" using same(3) by (simp add: sim_def)
    show ?thesis
      using True p a b c d same e sim_apply_outcomes [OF sp tn c d]
      by (auto simp: run_stretch_def executeConcurrentRun_def sim_step_def split: option.split)
  qed
  then show ?thesis using p by (simp add: next_index_def)
qed

lemma sim_loop:
  "sim N st st' \<Longrightarrow> grown ps st st' \<Longrightarrow> (\<And>t. t \<in> set (drop i order) \<Longrightarrow> task_id t \<notin> N) \<Longrightarrow>
   sim_step N ps (map_prod Some (\<lambda>s. s) (runTasksFrom W order i st)) (map_prod Some (\<lambda>s. s) (runTasksFrom W order i st'))"
proof (induction W order i st arbitrary: st' rule: runTasksFrom.induct)
  case (1 W order i st)
  show ?case
  proof (cases "length order \<le> i \<or> cancelled_at W i")
    case True
    then show ?thesis using "1.prems" by (auto simp: runTasksFrom.simps [of W order i] sim_step_def)
  next
    case False
    then have i: "i < length order" by simp
    note s = sim_stretch [OF "1.prems"(1,2) i "1.prems"(3), of W]
    obtain out u where r: "run_stretch W order i st = (out, u)" by (cases "run_stretch W order i st")
    obtain u' where r': "run_stretch W order i st' = (out, u')"
      using s r by (cases "run_stretch W order i st'") (auto simp: sim_step_def)
    have su: "sim N u u'" "grown ps u u'" using s r r' by (auto simp: sim_step_def)
    show ?thesis
    proof (cases out)
      case (Some x)
      then show ?thesis using False r r' su by (auto simp: runTasksFrom.simps [of W order i] sim_step_def)
    next
      case None
      let ?j = "next_index W order i st"
      have "set (drop ?j order) \<subseteq> set (drop i order)"
        using next_index_grows [OF i, of W st] by (intro set_drop_subset_set_drop) simp
      then have "sim_step N ps (map_prod Some (\<lambda>s. s) (runTasksFrom W order ?j u)) (map_prod Some (\<lambda>s. s) (runTasksFrom W order ?j u'))"
        using "1.IH" [OF _ _ r [symmetric] None su] False "1.prems"(3) by blast
      then show ?thesis using False r r' None s by (simp add: runTasksFrom.simps [of W order i])
    qed
  qed
qed

subsection \<open>Replaying from a step\<close>


definition two_steps :: WorkflowDefinition where
  "two_steps = \<lparr>def_id = ''w'', def_name = ''two'', def_description = '''', def_trigger = None,
     def_tasks = [step_task ''a'' ''hello'', step_task ''b'' ''${a.text}''], def_options = None, def_ephemeral = False\<rparr>"


end
