(* ===== verification/Publish_Guard.thy ===== *)
theory Publish_Guard
  imports Workflow_Types
begin

text \<open>
  What a workflow may publish: \<open>validatePublishedEventType\<close> and \<open>validatePublishSteps\<close> of
  \<open>workflow/internal/engine/engine.go\<close> over the reserved subjects of
  \<open>shared/common/golang/cloudevents\<close>. Go strings are bytes here, so the loop over runes that
  \<open>strings.ContainsFunc\<close> makes is written out, with an invalid byte read as U+FFFD.
\<close>

subsection \<open>Runes\<close>

definition byte :: "char \<Rightarrow> int" where "byte c = of_char c"

definition cont :: "int \<Rightarrow> int \<Rightarrow> char \<Rightarrow> bool" where
  "cont lo hi c \<longleftrightarrow> lo \<le> byte c \<and> byte c \<le> hi"

text \<open>The range of a lead byte's second byte, and how many bytes follow it.\<close>

definition lead :: "int \<Rightarrow> (int \<times> int \<times> nat) option" where
  "lead b =
     (if 0xC2 \<le> b \<and> b \<le> 0xDF then Some (0x80, 0xBF, 1)
      else if b = 0xE0 then Some (0xA0, 0xBF, 2)
      else if b = 0xED then Some (0x80, 0x9F, 2)
      else if 0xE1 \<le> b \<and> b \<le> 0xEF then Some (0x80, 0xBF, 2)
      else if b = 0xF0 then Some (0x90, 0xBF, 3)
      else if 0xF1 \<le> b \<and> b \<le> 0xF3 then Some (0x80, 0xBF, 3)
      else if b = 0xF4 then Some (0x80, 0x8F, 3)
      else None)"

definition decode_rune :: "char \<Rightarrow> string \<Rightarrow> int \<times> nat" where
  "decode_rune c s =
     (if byte c < 0x80 then (byte c, 0)
      else (case lead (byte c) of
              None \<Rightarrow> (0xFFFD, 0)
            | Some (lo, hi, n) \<Rightarrow>
                if n \<le> length s \<and> cont lo hi (s ! 0) \<and> list_all (cont 0x80 0xBF) (take n s)
                then (foldl (\<lambda>r x. r * 64 + byte x mod 64)
                        (byte c mod (if n = 1 then 32 else if n = 2 then 16 else 8)) (take n s), n)
                else (0xFFFD, 0)))"

function runes :: "string \<Rightarrow> int list" where
  "runes [] = []"
| "runes (c # s) = (case decode_rune c s of (r, n) \<Rightarrow> r # runes (drop n s))"
  by pat_completeness auto
termination runes by (relation "measure length") auto

definition IsSpace :: "int \<Rightarrow> bool" where
  "IsSpace r \<longleftrightarrow> r \<in> {0x09, 0x0A, 0x0B, 0x0C, 0x0D, 0x20, 0x85, 0xA0, 0x1680, 0x2028, 0x2029, 0x202F, 0x205F, 0x3000}
     \<or> (0x2000 \<le> r \<and> r \<le> 0x200A)"

definition IsControl :: "int \<Rightarrow> bool" where
  "IsControl r \<longleftrightarrow> r \<le> 0x1F \<or> (0x7F \<le> r \<and> r \<le> 0x9F)"

definition isSpaceOrControl :: "int \<Rightarrow> bool" where
  "isSpaceOrControl r \<longleftrightarrow> IsSpace r \<or> IsControl r \<or> r = 0xFEFF"

subsection \<open>Reserved subjects\<close>

definition CommandSubjectPrefixes :: "string list" where
  "CommandSubjectPrefixes = [''webhook.'', ''db.'', ''engine.'', ''twitchapi'', ''message.send'', ''ui.notify.'',
     ''ui.alert.'', ''platform.gateway.'', ''widget.queue.'', ''workflow.execute'', ''workflow.replay'',
     ''workflow.cancel'', ''workflow.command.execute'', ''action.execute'']"

definition EngineEventSubjectPrefixes :: "string list" where
  "EngineEventSubjectPrefixes = [''HEARTBEAT'', ''MESSAGEBUS_INIT'', ''barkloader.'', ''channel.'', ''channelpoints.'',
     ''chat.command.'', ''command.'', ''database.'', ''module.'', ''session.'', ''setting.'', ''stream.offline'',
     ''stream.online'', ''stream.status.'', ''user.message'', ''userpage.'', ''viewer.'', ''widget.event'',
     ''workflow.health.'', ''workflow.run.'']"

definition platformEventEntries :: "string list" where
  "platformEventEntries = [''channel.'', ''channelpoints.'', ''chat.command.'', ''stream.offline'', ''stream.online'',
     ''user.message'']"

definition entryMatches :: "string \<Rightarrow> string \<Rightarrow> bool" where
  "entryMatches entry subject = (if has_suffix entry ''.'' then has_prefix subject entry else subject = entry)"

definition ReservedSubjectMatch :: "string \<Rightarrow> string option" where
  "ReservedSubjectMatch subject =
     List.find (\<lambda>entry. entryMatches entry subject) (CommandSubjectPrefixes @ EngineEventSubjectPrefixes)"

definition IsPlatformEventReservation :: "string \<Rightarrow> bool" where
  "IsPlatformEventReservation entry = List.member platformEventEntries entry"

subsection \<open>Validation\<close>

datatype publish_error =
    NotASubject string
  | ReservedPlatform string string
  | ReservedEngine string string

definition validatePublishedEventType :: "string \<Rightarrow> publish_error option" where
  "validatePublishedEventType eventType =
     (if contains_any eventType ''*>'' \<or> list_ex isSpaceOrControl (runes eventType)
      then Some (NotASubject eventType)
      else (case ReservedSubjectMatch eventType of
              None \<Rightarrow> None
            | Some m \<Rightarrow> Some (if IsPlatformEventReservation m then ReservedPlatform eventType m
                             else ReservedEngine eventType m)))"

definition publishEventAction :: string where "publishEventAction = ''publish_event''"

definition validate_publish_step :: "TaskDefinition \<Rightarrow> (string \<times> publish_error) option" where
  "validate_publish_step task =
     (if task_type task \<noteq> TaskTypeAction \<or> task_action task \<noteq> publishEventAction then None
      else (case map_of (parameters task) ''eventType'' of
              Some (VStr eventType) \<Rightarrow>
                if contains eventType ''${'' then None
                else map_option (\<lambda>e. (task_id task, e)) (validatePublishedEventType eventType)
            | _ \<Rightarrow> None))"

definition validatePublishSteps :: "TaskDefinition list \<Rightarrow> (string \<times> publish_error) option" where
  "validatePublishSteps ts = check_all validate_publish_step ts"

subsection \<open>The action\<close>

datatype publish_failure = EventTypeRequired | MayNotPublish publish_error | BadChainLink string

definition publish_source :: "obj \<Rightarrow> string" where
  "publish_source params = (case map_of params ''source'' of Some (VStr s) \<Rightarrow> s | _ \<Rightarrow> ''workflow'')"

definition publish_data :: "obj \<Rightarrow> obj" where
  "publish_data params = (case map_of params ''data'' of Some (VMap m) \<Rightarrow> m | _ \<Rightarrow> [])"

text \<open>
  The event the \<open>publish_event\<close> action sends, its id and time given. \<open>BadChainLink\<close> is the
  panic of \<open>ChainThrough\<close>.
\<close>

definition published_event ::
  "string \<Rightarrow> time \<Rightarrow> Event option \<Rightarrow> string \<Rightarrow> obj \<Rightarrow> (publish_failure, Event) res" where
  "published_event i now cause workflowID params =
     (case map_of params ''eventType'' of
        Some (VStr eventType) \<Rightarrow>
          if eventType = '''' then Inl EventTypeRequired
          else (case validatePublishedEventType eventType of
                  Some e \<Rightarrow> Inl (MayNotPublish e)
                | None \<Rightarrow>
                    (case ChainThrough cause workflowID of
                       None \<Rightarrow> Inl (BadChainLink workflowID)
                     | Some chain \<Rightarrow>
                         Inr \<lparr>ev_id = i, ev_type = eventType,
                           ev_source = publish_source params,
                           ev_time = now, ev_platform = '''', ev_sessionId = '''', ev_triggerId = '''',
                           ev_triggeredBy = '''', ev_workflowChain = chain, ev_dryRun = False,
                           ev_data = publish_data params\<rparr>))
      | _ \<Rightarrow> Inl EventTypeRequired)"

subsection \<open>Properties\<close>

lemma reserved_None_iff:
  "ReservedSubjectMatch s = None \<longleftrightarrow>
     (\<forall>e \<in> set (CommandSubjectPrefixes @ EngineEventSubjectPrefixes). \<not> entryMatches e s)"
  unfolding ReservedSubjectMatch_def find_None_iff by blast

lemma published_type:
  "published_event i now cause w params = Inr e \<Longrightarrow> validatePublishedEventType (ev_type e) = None \<and> ev_type e \<noteq> ''''"
  by (auto simp: published_event_def split: option.splits val.splits if_splits)

lemma published_chain:
  "published_event i now cause w params = Inr e \<Longrightarrow> ChainThrough cause w = Some (ev_workflowChain e)"
  by (auto simp: published_event_def split: option.splits val.splits if_splits)

text \<open>
  C16. Whatever parameters a step resolves to, the subject of an event a workflow publishes is
  none of the engine's: it lies in no reserved namespace and is no reserved name, so it cannot
  be taken for a command, a platform event or the lifecycle event of a run; and it holds no
  wildcard.
\<close>

theorem published_subject_is_free:
  assumes "published_event i now cause w params = Inr e"
  shows "(\<forall>r \<in> set (CommandSubjectPrefixes @ EngineEventSubjectPrefixes).
            ev_type e \<noteq> r \<and> (has_suffix r ''.'' \<longrightarrow> \<not> prefix r (ev_type e)))
    \<and> CHR ''*'' \<notin> set (ev_type e) \<and> CHR ''>'' \<notin> set (ev_type e)"
proof -
  have v: "validatePublishedEventType (ev_type e) = None" using published_type [OF assms] by simp
  then have "ReservedSubjectMatch (ev_type e) = None"
    by (auto simp: validatePublishedEventType_def split: if_splits option.splits)
  then have "\<not> entryMatches r (ev_type e)" if "r \<in> set (CommandSubjectPrefixes @ EngineEventSubjectPrefixes)" for r
    using that by (simp add: reserved_None_iff)
  moreover have "CHR ''*'' \<notin> set (ev_type e)" "CHR ''>'' \<notin> set (ev_type e)"
    using v by (auto simp: validatePublishedEventType_def contains_any_def list_ex_iff split: if_splits)
  ultimately show ?thesis by (fastforce simp: entryMatches_def has_prefix_def split: if_splits)
qed

lemma runes_ascii: "list_all (\<lambda>c. byte c < 0x80) s \<Longrightarrow> runes s = map byte s"
  by (induction s) (auto simp: decode_rune_def)

theorem published_subject_is_free_witness:
  "\<exists>e. published_event ''i'' 0 None ''w'' [(''eventType'', VStr ''alert.done'')] = Inr e
     \<and> \<not> prefix ''workflow.run.'' (ev_type e)"
proof -
  let ?t = "''alert.done''"
  have "runes ?t = map byte ?t" by (rule runes_ascii) code_simp
  moreover have "\<not> list_ex isSpaceOrControl (map byte ?t)" by code_simp
  moreover have "\<not> contains_any ?t ''*>''" "ReservedSubjectMatch ?t = None" by code_simp+
  ultimately have "validatePublishedEventType ?t = None" by (simp add: validatePublishedEventType_def)
  then have "published_event ''i'' 0 None ''w'' [(''eventType'', VStr ?t)]
      = Inr \<lparr>ev_id = ''i'', ev_type = ?t, ev_source = ''workflow'', ev_time = 0, ev_platform = '''',
             ev_sessionId = '''', ev_triggerId = '''', ev_triggeredBy = '''', ev_workflowChain = ''w'',
             ev_dryRun = False, ev_data = []\<rparr>" (is "_ = Inr ?e")
    by (simp add: published_event_def ChainThrough_def publish_source_def publish_data_def)
  moreover from published_subject_is_free [OF this] have "\<not> prefix ''workflow.run.'' (ev_type ?e)"
    by (simp add: EngineEventSubjectPrefixes_def has_suffix_def suffix_def)
  ultimately show ?thesis by blast
qed

end
