(* ===== verification/Loop_Guard.thy ===== *)
theory Loop_Guard
  imports Publish_Guard
begin

text \<open>
  \<open>workflow/internal/engine/loopguard.go\<close> and the three places that stamp an event a run causes
  with the chain of runs that led to it: the \<open>publish_event\<close> action, the lifecycle events of a
  run and the event that starts a sub-workflow. Event ids are parameters.
\<close>

subsection \<open>The code\<close>

definition MaxWorkflowChainRuns :: nat where "MaxWorkflowChainRuns = 8"

record LoopError =
  loop_path :: "string list"
  loop_cycle :: "string list"

definition checkWorkflowChain :: "Event \<Rightarrow> string \<Rightarrow> (string \<Rightarrow> string) \<Rightarrow> LoopError option" where
  "checkWorkflowChain event workflowID name =
     (let chain = Chain (Some event)
      in if length chain < MaxWorkflowChainRuns then None
         else
           (let path = map name (chain @ [workflowID])
            in Some \<lparr>loop_path = path,
                 loop_cycle = (case List.find (\<lambda>i. chain ! i = workflowID) (rev [0..<length chain]) of
                                 None \<Rightarrow> []
                               | Some i \<Rightarrow> drop i path)\<rparr>))"

text \<open>An arrow between spaces, as its UTF-8 bytes.\<close>

definition arrow :: string where
  "arrow = '' '' @ [CHR 0xE2, CHR 0x86, CHR 0x92] @ '' ''"

definition LoopError_Error :: "LoopError \<Rightarrow> string" where
  "LoopError_Error e =
     (case loop_cycle e of
        c # cs \<Rightarrow> ''stopped a workflow loop: '' @ c @ '' keeps triggering itself ('' @ join arrow (c # cs) @ ''), ''
          @ itoa (int (length (loop_path e)) - 1) @ '' runs deep''
      | [] \<Rightarrow> ''stopped a chain of '' @ itoa (int (length (loop_path e)) - 1)
          @ '' workflow runs, each triggered by the last: '' @ join arrow (loop_path e))"

definition workflowName :: "(string \<Rightarrow> WorkflowDefinition option) \<Rightarrow> string \<Rightarrow> string" where
  "workflowName registry i =
     (case registry i of
        Some def \<Rightarrow> if def_name def \<noteq> '''' then def_name def else i
      | None \<Rightarrow> i)"

subsection \<open>Events a run causes\<close>

text \<open>
  \<open>Inl\<close> is the panic of \<open>ChainThrough\<close> on a workflow id that is empty or holds a comma; the
  engine makes no lifecycle event of a run that waits.
\<close>

definition caused_event :: "string \<Rightarrow> time \<Rightarrow> string \<Rightarrow> string \<Rightarrow> Event option \<Rightarrow> string \<Rightarrow> obj \<Rightarrow> (publish_failure, Event) res" where
  "caused_event i now type src cause workflowID data =
     (case ChainThrough cause workflowID of
        None \<Rightarrow> Inl (BadChainLink workflowID)
      | Some c \<Rightarrow> Inr \<lparr>ev_id = i, ev_type = type, ev_source = src, ev_time = now, ev_platform = '''',
          ev_sessionId = '''', ev_triggerId = '''', ev_triggeredBy = '''', ev_workflowChain = c,
          ev_dryRun = False, ev_data = data\<rparr>)"

fun lifecycle_subject :: "ExecutionStatus \<Rightarrow> string option" where
  "lifecycle_subject ExecRunning = Some ''workflow.run.started''"
| "lifecycle_subject ExecCompleted = Some ''workflow.run.completed''"
| "lifecycle_subject ExecFailed = Some ''workflow.run.failed''"
| "lifecycle_subject ExecCancelled = Some ''workflow.run.cancelled''"
| "lifecycle_subject ExecWaiting = None"

definition correlate :: "Event option \<Rightarrow> Event \<Rightarrow> Event" where
  "correlate cause e =
     (case cause of
        None \<Rightarrow> e
      | Some c \<Rightarrow> e\<lparr>ev_triggerId := ev_triggerId c, ev_triggeredBy := ev_triggeredBy c, ev_sessionId := ev_sessionId c\<rparr>)"

definition lifecycle_event ::
  "string \<Rightarrow> time \<Rightarrow> Event option \<Rightarrow> string \<Rightarrow> string \<Rightarrow> ExecutionStatus \<Rightarrow> string \<Rightarrow> bool
   \<Rightarrow> (publish_failure, Event) res option" where
  "lifecycle_event i now cause workflowID executionID status err dry =
     map_option (\<lambda>subject.
       bind_res (caused_event i now subject ''workflow'' cause workflowID
           ([(''workflowId'', VStr workflowID), (''executionId'', VStr executionID)]
            @ (if err \<noteq> '''' then [(''error'', VStr err)] else [])))
         (\<lambda>e. Inr (correlate cause (e\<lparr>ev_dryRun := dry\<rparr>))))
     (lifecycle_subject status)"

definition subworkflow_subject :: "WorkflowConfig \<Rightarrow> WorkflowDefinition \<Rightarrow> string" where
  "subworkflow_subject config def =
     (let subject = (if wf_event config = '''' then (case def_trigger def of Some t \<Rightarrow> trigger_event t | None \<Rightarrow> '''')
                     else wf_event config)
      in if subject = '''' then ''workflow.trigger'' else subject)"

definition subworkflow_event ::
  "string \<Rightarrow> time \<Rightarrow> Event option \<Rightarrow> string \<Rightarrow> WorkflowConfig \<Rightarrow> WorkflowDefinition \<Rightarrow> (publish_failure, Event) res" where
  "subworkflow_event i now cause workflowID config def =
     caused_event i now (subworkflow_subject config def) ''workflow-task'' cause workflowID (wf_eventData config)"

subsection \<open>Cascades\<close>

text \<open>What a run of \<open>w\<close> started by the event \<open>e\<close> may publish.\<close>

inductive causes :: "Event \<Rightarrow> string \<Rightarrow> Event \<Rightarrow> bool" for e w where
  publish: "published_event i now (Some e) w params = Inr e' \<Longrightarrow> causes e w e'"
| lifecycle: "lifecycle_event i now (Some e) w x status err dry = Some (Inr e') \<Longrightarrow> causes e w e'"
| subflow: "subworkflow_event i now (Some e) w config def = Inr e' \<Longrightarrow> causes e w e'"

inductive_cases causes_elim: "causes e w e'"

text \<open>
  Runs each caused by the one before it, as pairs of a workflow and the event it was run for.
  The first event carries no chain, and no run was refused.
\<close>

inductive cascade :: "(string \<Rightarrow> string) \<Rightarrow> (string \<times> Event) list \<Rightarrow> bool" for name where
  first: "ev_workflowChain e = '''' \<Longrightarrow> checkWorkflowChain e w name = None \<Longrightarrow> cascade name [(w, e)]"
| further: "cascade name (rs @ [(w, e)]) \<Longrightarrow> causes e w e' \<Longrightarrow> checkWorkflowChain e' w' name = None \<Longrightarrow>
    cascade name (rs @ [(w, e), (w', e')])"

lemma caused_chain: "caused_event i now t s (Some e) w d = Inr e' \<Longrightarrow> Chain (Some e') = Chain (Some e) @ [w]"
  by (auto simp: caused_event_def intro: Chain_through split: option.splits)

lemma Chain_same: "ev_workflowChain e = ev_workflowChain e' \<Longrightarrow> Chain (Some e) = Chain (Some e')"
  by (simp add: Chain_def)

lemma causes_chain: "causes e w e' \<Longrightarrow> Chain (Some e') = Chain (Some e) @ [w]"
proof (induction rule: causes.induct)
  case (publish i now params e')
  then have "\<exists>c. ChainThrough (Some e) w = Some c \<and> ev_workflowChain e' = c"
    using published_chain by blast
  then show ?case using Chain_through by blast
next
  case (lifecycle i now x status err dry e')
  then obtain t d e0 where "caused_event i now t ''workflow'' (Some e) w d = Inr e0"
    "e' = correlate (Some e) (e0\<lparr>ev_dryRun := dry\<rparr>)"
    by (auto simp: lifecycle_event_def res_simps)
  moreover from this(2) have "ev_workflowChain e' = ev_workflowChain e0" by (simp add: correlate_def)
  ultimately show ?case using caused_chain Chain_same by metis
next
  case (subflow i now config def e')
  then show ?case using caused_chain by (simp add: subworkflow_event_def)
qed

lemma cascade_chain:
  "cascade name rs \<Longrightarrow> rs \<noteq> [] \<and> Chain (Some (snd (last rs))) = map fst (butlast rs)
     \<and> checkWorkflowChain (snd (last rs)) (fst (last rs)) name = None"
proof (induction rule: cascade.induct)
  case (further rs w e e' w')
  then show ?case using causes_chain [OF further.hyps(2)] by (simp add: butlast_append)
qed (simp add: Chain_def)

lemma refused_iff: "checkWorkflowChain e w name = None \<longleftrightarrow> length (Chain (Some e)) < MaxWorkflowChainRuns"
  by (simp add: checkWorkflowChain_def Let_def)

lemma find_last_visit:
  assumes "List.find (\<lambda>i. xs ! i = x) (rev [0..<length xs]) = Some i"
  shows "i < length xs" and "xs ! i = x" and "\<And>j. i < j \<Longrightarrow> j < length xs \<Longrightarrow> xs ! j \<noteq> x"
proof -
  obtain k where k: "k < length xs" "xs ! (rev [0..<length xs] ! k) = x" "rev [0..<length xs] ! k = i"
    "\<forall>j<k. xs ! (rev [0..<length xs] ! j) \<noteq> x" using assms by (auto simp: find_Some_iff)
  have at: "rev [0..<length xs] ! j = length xs - Suc j" if "j < length xs" for j
    using that by (simp add: rev_nth)
  show "i < length xs" "xs ! i = x" using k at by auto
  fix j assume j: "i < j" "j < length xs"
  then have "length xs - Suc j < k" using k at by auto
  moreover have "rev [0..<length xs] ! (length xs - Suc j) = j" using j by (simp add: at)
  ultimately show "xs ! j \<noteq> x" using k(4) by metis
qed

text \<open>
  The cycle a refusal names runs from the refused workflow's last visit to its refused run, and
  is empty when the chain did not visit it.
\<close>

lemma loop_cycle_closes:
  assumes "checkWorkflowChain e w name = Some err"
  shows "loop_path err = map name (Chain (Some e) @ [w])"
    and "loop_cycle err = [] \<longleftrightarrow> w \<notin> set (Chain (Some e))"
    and "loop_cycle err \<noteq> [] \<Longrightarrow> hd (loop_cycle err) = name w \<and> last (loop_cycle err) = name w
           \<and> (\<exists>i. loop_cycle err = drop i (loop_path err) \<and> w \<notin> set (drop (Suc i) (Chain (Some e))))"
proof -
  let ?c = "Chain (Some e)"
  have r: "err = \<lparr>loop_path = map name (?c @ [w]), loop_cycle = (case List.find (\<lambda>i. ?c ! i = w) (rev [0..<length ?c]) of
      None \<Rightarrow> [] | Some i \<Rightarrow> drop i (map name (?c @ [w])))\<rparr>"
    using assms by (auto simp: checkWorkflowChain_def Let_def drop_map split: if_splits option.splits)
  then show "loop_path err = map name (?c @ [w])" by simp
  show "loop_cycle err = [] \<longleftrightarrow> w \<notin> set ?c"
  proof (cases "List.find (\<lambda>i. ?c ! i = w) (rev [0..<length ?c])")
    case None
    then have "w \<notin> set ?c" by (auto simp: find_None_iff in_set_conv_nth)
    then show ?thesis using None r by simp
  next
    case (Some i)
    then show ?thesis using r find_last_visit(1,2) [OF Some] by (auto simp: nth_mem)
  qed
  assume "loop_cycle err \<noteq> []"
  then obtain i where i: "List.find (\<lambda>i. ?c ! i = w) (rev [0..<length ?c]) = Some i"
    using r by (cases "List.find (\<lambda>i. ?c ! i = w) (rev [0..<length ?c])") auto
  note f = find_last_visit [OF i]
  have "hd (drop i (map name (?c @ [w]))) = name w" "last (drop i (map name (?c @ [w]))) = name w"
    using f(1,2) by (simp_all add: hd_drop_conv_nth nth_append)
  moreover have "w \<notin> set (drop (Suc i) ?c)"
    using f(3) by (auto simp: in_set_conv_nth)
  ultimately show "hd (loop_cycle err) = name w \<and> last (loop_cycle err) = name w
      \<and> (\<exists>i. loop_cycle err = drop i (loop_path err) \<and> w \<notin> set (drop (Suc i) ?c))"
    using r i by auto
qed


definition sample_start :: Event where
  "sample_start = \<lparr>ev_id = ''e'', ev_type = ''chat'', ev_source = '''', ev_time = 0, ev_platform = '''',
     ev_sessionId = '''', ev_triggerId = '''', ev_triggeredBy = '''', ev_workflowChain = '''',
     ev_dryRun = False, ev_data = []\<rparr>"

definition sample_sub :: WorkflowConfig where
  "sample_sub = \<lparr>wf_workflowID = ''b'', wf_waitUntilCompletion = False, wf_event = '''', wf_eventData = [], wf_timeout = None\<rparr>"

definition sample_def :: WorkflowDefinition where
  "sample_def = \<lparr>def_id = ''b'', def_name = ''B'', def_description = '''', def_trigger = None, def_tasks = [], def_options = None, def_ephemeral = False\<rparr>"


text \<open>
  A workflow whose id holds a comma can be registered, but no run of it can announce itself:
  \<open>ChainThrough\<close> panics on the id.
\<close>

lemma comma_id_panics:
  "CHR '','' \<in> set w \<Longrightarrow> lifecycle_event i now cause w x ExecRunning err dry = Some (Inl (BadChainLink w))"
  by (simp add: lifecycle_event_def caused_event_def ChainThrough_def)

end
