(* ===== verification/Run_Control.thy ===== *)
theory Run_Control
  imports Workflow_Types
begin

text \<open>
  The cancellation state of one run, \<open>runControl\<close> of \<open>workflow/internal/engine/cancel.go\<close>, and
  \<open>setExecutionStatus\<close> of \<open>engine.go\<close>. Every operation here runs under the control's mutex, so
  it is one step. The locale \<open>claim\<close> is the contract several of the engine's operations
  share: many callers race, and exactly one of them wins.
\<close>

subsection \<open>Claims\<close>

text \<open>
  A claim reports whether the caller won; it wins when nothing was taken, and leaves it taken.
\<close>

locale claim =
  fixes taken :: "'s \<Rightarrow> bool" and claim :: "'i \<Rightarrow> 's \<Rightarrow> bool \<times> 's"
  assumes wins_iff: "fst (claim i s) \<longleftrightarrow> \<not> taken s"
    and taken_after: "taken (snd (claim i s))"
    and loser_changes_nothing: "taken s \<Longrightarrow> snd (claim i s) = s"
begin

fun race :: "'i list \<Rightarrow> 's \<Rightarrow> bool list \<times> 's" where
  "race [] s = ([], s)"
| "race (i # is) s = (case claim i s of (w, s') \<Rightarrow> (case race is s' of (ws, s'') \<Rightarrow> (w # ws, s'')))"

lemma race_taken: "taken s \<Longrightarrow> race is s = (replicate (length is) False, s)"
proof (induction "is")
  case (Cons i "is")
  have "claim i s = (False, s)"
    using wins_iff [of i s] loser_changes_nothing [OF Cons.prems, of i] Cons.prems by (cases "claim i s") auto
  then show ?case using Cons by simp
qed simp

text \<open>Of any callers, in any order, the first wins and no other, and only it changes the state.\<close>

lemma first_caller_wins:
  "\<not> taken s \<Longrightarrow> race (i # is) s = (True # replicate (length is) False, snd (claim i s))"
  using wins_iff [of i s] race_taken [OF taken_after, of "is" i s] by (cases "claim i s") simp

lemma one_winner: "length (filter id (fst (race is s))) \<le> 1"
proof (cases "taken s")
  case True
  then show ?thesis by (simp add: race_taken)
next
  case False
  then show ?thesis by (cases "is") (simp_all add: first_caller_wins del: race.simps(2))
qed

end

subsection \<open>The control of a run\<close>

datatype settle_error = EngineStoppedErr | CancelledErr string | OtherErr string

record runControl =
  ctx_done :: bool
  settled :: bool
  finalStatus :: "ExecutionStatus option"
  finalErr :: "settle_error option"
  cancelRequested :: bool
  reason :: string
  stopped :: bool
  queued :: bool

definition newRunControl :: runControl where
  "newRunControl = \<lparr>ctx_done = False, settled = False, finalStatus = None, finalErr = None,
     cancelRequested = False, reason = '''', stopped = False, queued = False\<rparr>"

definition isTerminalStatus :: "ExecutionStatus \<Rightarrow> bool" where
  "isTerminalStatus s \<longleftrightarrow> s \<in> {ExecCompleted, ExecFailed, ExecCancelled}"

text \<open>What \<open>claimSettle\<close> makes of an outcome once a cancel, or a stop, has been accepted.\<close>

definition decide :: "runControl \<Rightarrow> ExecutionStatus \<Rightarrow> settle_error option \<Rightarrow> ExecutionStatus \<times> settle_error option" where
  "decide c status err =
     (if cancelRequested c \<and> status \<noteq> ExecCancelled then (ExecCancelled, Some (CancelledErr (reason c)))
      else if stopped c \<and> \<not> cancelRequested c \<and> status = ExecCancelled then (ExecFailed, Some EngineStoppedErr)
      else (status, err))"

definition claimSettle ::
  "ExecutionStatus \<Rightarrow> settle_error option \<Rightarrow> runControl
   \<Rightarrow> (ExecutionStatus option \<times> settle_error option \<times> bool) \<times> runControl" where
  "claimSettle status err c =
     (if settled c then ((finalStatus c, None, False), c)
      else (case decide c status err of
              (status', err') \<Rightarrow>
                ((Some status', err', True), c\<lparr>settled := True, finalStatus := Some status', finalErr := err'\<rparr>)))"

definition settledByStop :: "runControl \<Rightarrow> bool" where
  "settledByStop c \<longleftrightarrow> settled c \<and> finalErr c = Some EngineStoppedErr"

datatype abandon_error = StoppedAbandon | CancelAbandon

definition abandonedBy :: "runControl \<Rightarrow> abandon_error" where
  "abandonedBy c = (if stopped c \<and> \<not> cancelRequested c then StoppedAbandon else CancelAbandon)"

definition markStopped :: "runControl \<Rightarrow> bool \<times> runControl" where
  "markStopped c = (if stopped c \<or> settled c then (False, c) else (True, c\<lparr>stopped := True\<rparr>))"

definition startQueued :: "runControl \<Rightarrow> bool \<times> runControl" where
  "startQueued c =
     (if settled c \<or> cancelRequested c \<or> stopped c then (False, c) else (True, c\<lparr>queued := False\<rparr>))"

datatype CancelOutcome = CancelOutcomeCancelled | CancelOutcomeAlreadyFinished

text \<open>
  The critical section of \<open>Cancel\<close>: its answer, whether it goes on to abandon the run, and
  the control after it.
\<close>

definition Cancel :: "string \<Rightarrow> runControl \<Rightarrow> (CancelOutcome \<times> ExecutionStatus option) \<times> bool \<times> runControl" where
  "Cancel why c =
     (if settled c
      then ((if finalStatus c = Some ExecCancelled then CancelOutcomeCancelled else CancelOutcomeAlreadyFinished,
             finalStatus c), False, c)
      else if cancelRequested c then ((CancelOutcomeCancelled, Some ExecCancelled), False, c)
      else ((CancelOutcomeCancelled, Some ExecCancelled), True,
            c\<lparr>cancelRequested := True, reason := (if why = '''' then ''cancelled by user'' else why)\<rparr>))"

subsection \<open>Settling a run\<close>

record execution =
  ex_status :: ExecutionStatus
  ex_error :: "settle_error option"
  completedAt :: "time option"

text \<open>
  A run in the table: its control and execution, the stamp \<open>runTable.settle\<close> puts on it, and
  what has been announced and recorded of it, in order.
\<close>

record run_entry =
  control :: runControl
  exec :: execution
  settledAt :: "time option"
  announced :: "ExecutionStatus list"
  history :: "(ExecutionStatus \<times> settle_error option) list"

definition stamp :: "time \<Rightarrow> run_entry \<Rightarrow> run_entry" where
  "stamp now r = (if settledAt r = None then r\<lparr>settledAt := Some now\<rparr> else r)"

definition set_status :: "time \<Rightarrow> ExecutionStatus \<Rightarrow> settle_error option \<Rightarrow> run_entry \<Rightarrow> run_entry" where
  "set_status now status err r =
     (let x = (exec r)\<lparr>ex_status := status, ex_error := (if err = None then ex_error (exec r) else err)\<rparr>;
          r' = (if isTerminalStatus status then stamp now (r\<lparr>exec := x\<lparr>completedAt := Some now\<rparr>\<rparr>) else r\<lparr>exec := x\<rparr>)
      in r'\<lparr>announced := announced r' @ [status], history := history r' @ [(status, ex_error (exec r'))]\<rparr>)"

definition setExecutionStatus :: "time \<Rightarrow> ExecutionStatus \<Rightarrow> settle_error option \<Rightarrow> run_entry \<Rightarrow> run_entry" where
  "setExecutionStatus now status err r =
     (if isTerminalStatus status
      then (case claimSettle status err (control r) of
              ((Some status', err', True), c) \<Rightarrow> set_status now status' err' (r\<lparr>control := c\<rparr>)
            | _ \<Rightarrow> r)
      else set_status now status err r)"

definition settleCancelled :: "time \<Rightarrow> run_entry \<Rightarrow> run_entry" where
  "settleCancelled now r = setExecutionStatus now ExecCancelled (Some (CancelledErr (reason (control r)))) r"

text \<open>A run just begun: announced as running, and recorded.\<close>

definition begin_run :: "bool \<Rightarrow> run_entry" where
  "begin_run q = \<lparr>control = newRunControl\<lparr>queued := q\<rparr>,
     exec = \<lparr>ex_status = ExecRunning, ex_error = None, completedAt = None\<rparr>,
     settledAt = None, announced = [ExecRunning], history = []\<rparr>"

subsection \<open>The claims\<close>

definition claim_settle :: "ExecutionStatus \<times> settle_error option \<Rightarrow> runControl \<Rightarrow> bool \<times> runControl" where
  "claim_settle o' c = (case claimSettle (fst o') (snd o') c of ((_, _, w), c') \<Rightarrow> (w, c'))"

interpretation settling: claim settled claim_settle
  by unfold_locales (auto simp: claim_settle_def claimSettle_def split: prod.splits)

interpretation stopping: claim "\<lambda>c. stopped c \<or> settled c" "\<lambda>_. markStopped"
  by unfold_locales (auto simp: markStopped_def)

interpretation cancelling: claim "\<lambda>c. cancelRequested c \<or> settled c" "\<lambda>why c. snd (Cancel why c)"
  by unfold_locales (auto simp: Cancel_def)

definition claim_stamp :: "time \<Rightarrow> run_entry \<Rightarrow> bool \<times> run_entry" where
  "claim_stamp now r = (settledAt r = None, stamp now r)"

interpretation stamping: claim "\<lambda>r. settledAt r \<noteq> None" claim_stamp
  by unfold_locales (auto simp: claim_stamp_def stamp_def)

lemma set_status_frame [simp]:
  "control (set_status now status err r) = control r"
  "announced (set_status now status err r) = announced r @ [status]"
  "ex_status (exec (set_status now status err r)) = status"
  by (auto simp: set_status_def stamp_def Let_def)

lemma settled_again: "settled (control r) \<Longrightarrow> isTerminalStatus s \<Longrightarrow> setExecutionStatus now s e r = r"
  by (simp add: setExecutionStatus_def claimSettle_def split: option.split)

lemma settle_now:
  assumes "\<not> settled (control r)" and "isTerminalStatus s"
  shows "setExecutionStatus now s e r
    = set_status now (fst (decide (control r) s e)) (snd (decide (control r) s e))
        (r\<lparr>control := (control r)\<lparr>settled := True, finalStatus := Some (fst (decide (control r) s e)),
             finalErr := snd (decide (control r) s e)\<rparr>\<rparr>)"
  using assms by (simp add: setExecutionStatus_def claimSettle_def split: prod.splits)

lemma decide_terminal: "isTerminalStatus s \<Longrightarrow> isTerminalStatus (fst (decide c s e))"
  by (simp add: decide_def isTerminalStatus_def)

end
