(* ===== verification/Run_Life.thy ===== *)
theory Run_Life
  imports Run_Control
begin

text \<open>
  The life of one run among those who act on it: the goroutine that runs its tasks, the queue
  it may wait its turn in, the event or timer that ends a wait, the sub-workflow it waits on, a
  cancel, and the engine stopping. Each rule of \<open>step\<close> is one critical section of
  \<open>workflow/internal/engine\<close>; between two of them anyone else may act. A cancel and a stop
  both go through \<open>abandonRun\<close>, whose steps are the stages of \<open>stage\<close>.
\<close>

subsection \<open>States\<close>

datatype pause = OnWait | OnChild

text \<open>
  Where the run is: in the queue, on a goroutine, registered at a pause, claimed from the pause
  by whoever resumes it, claimed by an abandoner that has to settle it, or with no one.
\<close>

datatype phase = Queued | Working | Paused pause | Resuming pause | Claimed | Gone

datatype abandoner = ByCancel | ByStop

text \<open>
  How far \<open>abandonRun\<close> has come: not called, about to end the context, about to ask whether the
  run is queued, about to claim its waits, about to claim its waiters, about to settle it, done.
\<close>

datatype stage = Idle | Flagged | ContextDone | ClaimWaits | ClaimWaiters | Settling | Finished

record life =
  entry :: run_entry
  phase :: phase
  stage :: "abandoner \<Rightarrow> stage"
  engine_stopped :: bool

abbreviation ctl :: "life \<Rightarrow> runControl" where
  "ctl s \<equiv> control (entry s)"

definition begin_life :: "bool \<Rightarrow> life" where
  "begin_life q = \<lparr>entry = begin_run q, phase = (if q then Queued else Working), stage = (\<lambda>_. Idle), engine_stopped = False\<rparr>"

definition with_ctl :: "runControl \<Rightarrow> life \<Rightarrow> life" where
  "with_ctl c s = s\<lparr>entry := (entry s)\<lparr>control := c\<rparr>\<rparr>"

definition settle :: "time \<Rightarrow> ExecutionStatus \<Rightarrow> settle_error option \<Rightarrow> life \<Rightarrow> life" where
  "settle now st err s = s\<lparr>entry := setExecutionStatus now st err (entry s)\<rparr>"

definition cancelled :: "time \<Rightarrow> life \<Rightarrow> life" where
  "cancelled now s = s\<lparr>entry := settleCancelled now (entry s)\<rparr>"

definition phase_to :: "phase \<Rightarrow> life \<Rightarrow> life" where "phase_to p s = s\<lparr>phase := p\<rparr>"

definition stage_to :: "abandoner \<Rightarrow> stage \<Rightarrow> life \<Rightarrow> life" where "stage_to a g s = s\<lparr>stage := (stage s)(a := g)\<rparr>"

subsection \<open>Steps\<close>

inductive step :: "life \<Rightarrow> life \<Rightarrow> bool" where
  \<comment> \<open>a cancel request, and the engine giving up on the run\<close>
  cancel: "Cancel why (ctl s) = (answer, goes_on, c) \<Longrightarrow>
    step s ((if goes_on then stage_to ByCancel Flagged else (\<lambda>s. s)) (with_ctl c s))"
| stop_engine: "step s (s\<lparr>engine_stopped := True\<rparr>)"
| give_up: "engine_stopped s \<Longrightarrow> markStopped (ctl s) = (won, c) \<Longrightarrow>
    step s ((if won then stage_to ByStop Flagged else (\<lambda>s. s)) (with_ctl c s))"
  \<comment> \<open>abandonRun\<close>
| end_context: "stage s a = Flagged \<Longrightarrow> step s (stage_to a ContextDone (with_ctl ((ctl s)\<lparr>ctx_done := True\<rparr>) s))"
| find_queued: "stage s a = ContextDone \<Longrightarrow> queued (ctl s) \<Longrightarrow> step s (stage_to a Settling s)"
| find_started: "stage s a = ContextDone \<Longrightarrow> \<not> queued (ctl s) \<Longrightarrow> step s (stage_to a ClaimWaits s)"
| claim_wait: "stage s a = ClaimWaits \<Longrightarrow> phase s = Paused OnWait \<Longrightarrow> step s (stage_to a Settling (phase_to Claimed s))"
| no_wait: "stage s a = ClaimWaits \<Longrightarrow> phase s \<noteq> Paused OnWait \<Longrightarrow> step s (stage_to a ClaimWaiters s)"
| claim_waiter: "stage s a = ClaimWaiters \<Longrightarrow> phase s = Paused OnChild \<Longrightarrow> step s (stage_to a Settling (phase_to Claimed s))"
| no_waiter: "stage s a = ClaimWaiters \<Longrightarrow> phase s \<noteq> Paused OnChild \<Longrightarrow> step s (stage_to a Finished s)"
| settle_abandoned: "stage s a = Settling \<Longrightarrow> step s (stage_to a Finished (phase_to Gone (cancelled now s)))"
  \<comment> \<open>the queue reaching the run\<close>
| start_queued: "phase s = Queued \<Longrightarrow> startQueued (ctl s) = (True, c) \<Longrightarrow> step s (phase_to Working (with_ctl c s))"
  \<comment> \<open>the goroutine running the tasks\<close>
| finish: "phase s = Working \<Longrightarrow> st \<in> {ExecCompleted, ExecFailed} \<Longrightarrow> step s (phase_to Gone (settle now st err s))"
| see_cancel: "phase s = Working \<Longrightarrow> ctx_done (ctl s) \<Longrightarrow> step s (phase_to Gone (cancelled now s))"
| arm: "phase s = Working \<Longrightarrow> \<not> ctx_done (ctl s) \<Longrightarrow> \<not> engine_stopped s \<Longrightarrow> step s (phase_to (Paused OnWait) s)"
| refuse_stopped: "phase s = Working \<Longrightarrow> \<not> ctx_done (ctl s) \<Longrightarrow> engine_stopped s \<Longrightarrow>
    step s (phase_to Gone (settle now ExecFailed (Some EngineStoppedErr) s))"
| await_child: "phase s = Working \<Longrightarrow> \<not> ctx_done (ctl s) \<Longrightarrow> step s (phase_to (Paused OnChild) s)"
  \<comment> \<open>what ends a pause: an event, a timer, the sub-workflow settling\<close>
| wake: "phase s = Paused p \<Longrightarrow> step s (phase_to (Resuming p) s)"
| resume: "phase s = Resuming p \<Longrightarrow> p = OnChild \<or> \<not> engine_stopped s \<Longrightarrow> step s (phase_to Working s)"
| resume_fails: "phase s = Resuming OnChild \<Longrightarrow> step s (phase_to Gone (settle now ExecFailed err s))"
| resume_stopped: "phase s = Resuming p \<Longrightarrow> engine_stopped s \<Longrightarrow> markStopped (ctl s) = (won, c) \<Longrightarrow>
    step s (phase_to Gone (cancelled now (with_ctl c s)))"

inductive reach :: "life \<Rightarrow> bool" where
  init: "reach (begin_life q)"
| step: "reach s \<Longrightarrow> step s s' \<Longrightarrow> reach s'"

inductive_cases step_elim: "step s s'"

subsection \<open>Invariants\<close>

text \<open>The run's one outcome, as decided, announced, recorded and shown.\<close>

definition one_outcome :: "life \<Rightarrow> bool" where
  "one_outcome s \<longleftrightarrow>
     (if settled (ctl s)
      then (\<exists>st. finalStatus (ctl s) = Some st \<and> isTerminalStatus st
              \<and> announced (entry s) = [ExecRunning, st]
              \<and> (\<exists>e. history (entry s) = [(st, e)]) \<and> ex_status (exec (entry s)) = st)
      else announced (entry s) = [ExecRunning] \<and> history (entry s) = [])"

definition flags :: "life \<Rightarrow> bool" where
  "flags s \<longleftrightarrow>
     (stage s ByCancel \<noteq> Idle \<longrightarrow> cancelRequested (ctl s))
     \<and> (stage s ByStop \<noteq> Idle \<longrightarrow> stopped (ctl s))
     \<and> (ctx_done (ctl s) \<longrightarrow> cancelRequested (ctl s) \<or> stopped (ctl s))
     \<and> (settled (ctl s) \<and> cancelRequested (ctl s) \<longrightarrow> finalStatus (ctl s) = Some ExecCancelled)
     \<and> (settled (ctl s) \<and> finalStatus (ctl s) = Some ExecCancelled \<longrightarrow> cancelRequested (ctl s))"

text \<open>Someone has the run in hand until it settles.\<close>

definition busy :: "stage set \<Rightarrow> life \<Rightarrow> bool" where
  "busy S s \<longleftrightarrow> stage s ByCancel \<in> S \<or> stage s ByStop \<in> S"

definition in_hand :: "life \<Rightarrow> bool" where
  "in_hand s \<longleftrightarrow>
     (settled (ctl s) \<longleftrightarrow> phase s = Gone)
     \<and> (queued (ctl s) \<longrightarrow> phase s = Queued \<or> phase s = Gone) \<and> (phase s = Queued \<longrightarrow> queued (ctl s))
     \<and> (phase s = Claimed \<longrightarrow> busy {Settling} s)
     \<and> (busy {Settling} s \<longrightarrow> phase s \<in> {Claimed, Queued, Gone})
     \<and> (phase s = Queued \<and> (cancelRequested (ctl s) \<or> stopped (ctl s)) \<longrightarrow> busy {Flagged, ContextDone, Settling} s)
     \<and> (phase s = Paused OnWait \<and> ctx_done (ctl s) \<longrightarrow> busy {ContextDone, ClaimWaits} s)
     \<and> (phase s = Paused OnChild \<and> ctx_done (ctl s) \<longrightarrow> busy {ContextDone, ClaimWaits, ClaimWaiters} s)"

lemma life_frame [simp]:
  "ctl (with_ctl c s) = c" "phase (with_ctl c s) = phase s" "stage (with_ctl c s) = stage s"
  "announced (entry (with_ctl c s)) = announced (entry s)" "history (entry (with_ctl c s)) = history (entry s)"
  "exec (entry (with_ctl c s)) = exec (entry s)" "engine_stopped (with_ctl c s) = engine_stopped s"
  "entry (phase_to p s) = entry s" "phase (phase_to p s) = p" "stage (phase_to p s) = stage s"
  "entry (stage_to a g s) = entry s" "phase (stage_to a g s) = phase s" "stage (stage_to a g s) = (stage s)(a := g)"
  "phase (settle now st e s) = phase s" "stage (settle now st e s) = stage s"
  "phase (cancelled now s) = phase s" "stage (cancelled now s) = stage s"
  by (simp_all add: with_ctl_def phase_to_def stage_to_def settle_def cancelled_def)

lemma cancelled_settle: "cancelled now s = settle now ExecCancelled (Some (CancelledErr (reason (ctl s)))) s"
  by (simp add: cancelled_def settle_def settleCancelled_def)

text \<open>What settling does to the control: nothing the second time.\<close>

lemma settle_ctl:
  assumes "isTerminalStatus st"
  shows "ctl (settle now st e s) = (if settled (ctl s) then ctl s
    else (ctl s)\<lparr>settled := True, finalStatus := Some (fst (decide (ctl s) st e)), finalErr := snd (decide (ctl s) st e)\<rparr>)"
  using assms by (simp add: settle_def settled_again settle_now)

lemma settle_outcome:
  assumes "isTerminalStatus st" and "one_outcome s"
  shows "one_outcome (settle now st e s)"
proof (cases "settled (ctl s)")
  case True
  then show ?thesis using assms by (simp add: settle_def settled_again)
next
  case False
  then have "setExecutionStatus now st e (entry s) = set_status now (fst (decide (ctl s) st e)) (snd (decide (ctl s) st e))
      ((entry s)\<lparr>control := (ctl s)\<lparr>settled := True, finalStatus := Some (fst (decide (ctl s) st e)),
         finalErr := snd (decide (ctl s) st e)\<rparr>\<rparr>)" (is "_ = set_status now ?st ?e ?r")
    by (rule settle_now [OF _ assms(1)])
  moreover have "\<exists>x. history (set_status now ?st ?e ?r) = [(?st, x)]"
    using assms(2) False by (auto simp: set_status_def stamp_def Let_def one_outcome_def)
  moreover have "isTerminalStatus ?st" by (rule decide_terminal [OF assms(1)])
  ultimately show ?thesis using assms(2) False by (auto simp: one_outcome_def settle_def)
qed

lemma terminal [simp]: "isTerminalStatus ExecCompleted" "isTerminalStatus ExecFailed" "isTerminalStatus ExecCancelled"
  by (simp_all add: isTerminalStatus_def)

lemma outcome_step: "step s s' \<Longrightarrow> one_outcome s \<Longrightarrow> one_outcome s'"
proof (induction rule: step.induct)
  case (cancel why s answer goes_on c)
  then show ?case by (auto simp: Cancel_def one_outcome_def split: if_splits)
next
  case (give_up s won c)
  then show ?case by (auto simp: markStopped_def one_outcome_def split: if_splits)
next
  case (finish s st now err)
  then have "one_outcome (settle now st err s)" by (intro settle_outcome) auto
  then show ?case by (simp add: one_outcome_def)
next
  case (settle_abandoned s a now)
  then have "one_outcome (cancelled now s)" unfolding cancelled_settle by (intro settle_outcome) auto
  then show ?case by (simp add: one_outcome_def)
next
  case (see_cancel s now)
  then have "one_outcome (cancelled now s)" unfolding cancelled_settle by (intro settle_outcome) auto
  then show ?case by (simp add: one_outcome_def)
next
  case (refuse_stopped s now)
  then have "one_outcome (settle now ExecFailed (Some EngineStoppedErr) s)" by (intro settle_outcome) auto
  then show ?case by (simp add: one_outcome_def)
next
  case (resume_fails s now err)
  then have "one_outcome (settle now ExecFailed err s)" by (intro settle_outcome) auto
  then show ?case by (simp add: one_outcome_def)
next
  case (resume_stopped s p won c now)
  then have "one_outcome (with_ctl c s)" by (auto simp: markStopped_def one_outcome_def split: if_splits)
  then have "one_outcome (cancelled now (with_ctl c s))" unfolding cancelled_settle by (intro settle_outcome) auto
  then show ?case by (simp add: one_outcome_def)
qed (auto simp: one_outcome_def startQueued_def split: if_splits)

text \<open>The outcome of a settling run against its flags.\<close>

lemma flags_settle:
  assumes "flags s" and "isTerminalStatus st" and "st = ExecCancelled \<Longrightarrow> cancelRequested (ctl s) \<or> stopped (ctl s) \<or> settled (ctl s)"
  shows "flags (settle now st e s)"
  using assms by (cases "settled (ctl s)") (auto simp: flags_def settle_ctl decide_def)

lemma flags_cancelled:
  "flags s \<Longrightarrow> cancelRequested (ctl s) \<or> stopped (ctl s) \<or> settled (ctl s) \<Longrightarrow> flags (cancelled now s)"
  unfolding cancelled_settle by (rule flags_settle) auto

lemma flags_phase [simp]: "flags (phase_to p s) = flags s"
  by (simp add: flags_def)

lemma flags_step: "step s s' \<Longrightarrow> flags s \<Longrightarrow> flags s'"
proof (induction rule: step.induct)
  case (cancel why s answer goes_on c)
  then show ?case by (auto simp: Cancel_def flags_def split: if_splits)
next
  case (give_up s won c)
  then show ?case by (auto simp: markStopped_def flags_def split: if_splits)
next
  case (end_context s a)
  then show ?case by (cases a) (auto simp: flags_def)
next
  case (settle_abandoned s a now)
  then have "cancelRequested (ctl s) \<or> stopped (ctl s)" by (cases a) (auto simp: flags_def)
  then have "flags (cancelled now s)" using settle_abandoned.prems by (intro flags_cancelled) auto
  then show ?case using settle_abandoned by (cases a) (auto simp: flags_def)
next
  case (start_queued s c)
  then show ?case by (auto simp: startQueued_def flags_def split: if_splits)
next
  case (finish s st now err)
  then show ?case by (auto intro!: flags_settle)
next
  case (see_cancel s now)
  then have "cancelRequested (ctl s) \<or> stopped (ctl s)" by (auto simp: flags_def)
  then show ?case using see_cancel.prems by (auto intro!: flags_cancelled)
next
  case (refuse_stopped s now)
  then show ?case by (auto intro!: flags_settle)
next
  case (resume_fails s now err)
  then show ?case by (auto intro!: flags_settle)
next
  case (resume_stopped s p won c now)
  have "flags (with_ctl c s)" using resume_stopped by (auto simp: markStopped_def flags_def split: if_splits)
  moreover have "stopped c \<or> settled c" using resume_stopped by (auto simp: markStopped_def split: if_splits)
  ultimately show ?case by (auto intro!: flags_cancelled)
qed (auto simp: flags_def split: if_splits)

lemma ctl_cancelled:
  "ctl (cancelled now s) = (if settled (ctl s) then ctl s
    else (ctl s)\<lparr>settled := True, finalStatus := Some (fst (decide (ctl s) ExecCancelled (Some (CancelledErr (reason (ctl s)))))),
      finalErr := snd (decide (ctl s) ExecCancelled (Some (CancelledErr (reason (ctl s)))))\<rparr>)"
  unfolding cancelled_settle by (rule settle_ctl) simp

lemma in_hand_gone:
  assumes "in_hand s" and "settled (ctl s')" and "queued (ctl s') = queued (ctl s)"
    and "phase s' = Gone"
  shows "in_hand s'"
  using assms by (simp add: in_hand_def)

lemma stage_upd: "stage (stage_to a g s) b = (if b = a then g else stage s b)"
  by (simp add: stage_to_def)

lemma in_hand_flag:
  assumes "in_hand s" and "stage s a = Idle" and "queued c = queued (ctl s)" and "settled c = settled (ctl s)"
    and "ctx_done c = ctx_done (ctl s)"
  shows "in_hand (stage_to a Flagged (with_ctl c s))"
  using assms by (cases a; cases "phase s") (auto simp: in_hand_def busy_def)

lemma in_hand_step: "step s s' \<Longrightarrow> flags s \<Longrightarrow> in_hand s \<Longrightarrow> in_hand s'"
proof (induction rule: step.induct)
  case (cancel why s answer goes_on c)
  show ?case
  proof (cases goes_on)
    case True
    then have c: "\<not> cancelRequested (ctl s)" "queued c = queued (ctl s)" "settled c = settled (ctl s)" "ctx_done c = ctx_done (ctl s)"
      using cancel.hyps by (auto simp: Cancel_def split: if_splits)
    then have "stage s ByCancel = Idle" using cancel.prems(1) by (auto simp: flags_def)
    then show ?thesis using in_hand_flag [OF cancel.prems(2) _ c(2-4)] True by simp
  next
    case False
    then have "c = ctl s" using cancel.hyps by (auto simp: Cancel_def split: if_splits)
    then show ?thesis using False cancel.prems(2) by (simp add: with_ctl_def)
  qed
next
  case (give_up s won c)
  show ?case
  proof (cases won)
    case True
    then have c: "\<not> stopped (ctl s)" "queued c = queued (ctl s)" "settled c = settled (ctl s)" "ctx_done c = ctx_done (ctl s)"
      using give_up.hyps by (auto simp: markStopped_def split: if_splits)
    then have "stage s ByStop = Idle" using give_up.prems(1) by (auto simp: flags_def)
    then show ?thesis using in_hand_flag [OF give_up.prems(2) _ c(2-4)] True by simp
  next
    case False
    then have "c = ctl s" using give_up.hyps by (auto simp: markStopped_def split: if_splits)
    then show ?thesis using False give_up.prems(2) by (simp add: with_ctl_def)
  qed
next
  case (settle_abandoned s a now)
  show ?case by (rule in_hand_gone [OF settle_abandoned.prems(2)]) (simp_all add: ctl_cancelled)
next
  case (start_queued s c)
  then have "stage s ByCancel = Idle" "stage s ByStop = Idle"
    by (auto simp: startQueued_def flags_def split: if_splits)
  then show ?case using start_queued by (auto simp: startQueued_def in_hand_def busy_def split: if_splits)
next
  case (finish s st now err)
  have "isTerminalStatus st" using finish by auto
  then show ?case by (intro in_hand_gone [OF finish.prems(2)]) (simp_all add: settle_ctl)
next
  case (see_cancel s now)
  show ?case by (rule in_hand_gone [OF see_cancel.prems(2)]) (simp_all add: ctl_cancelled)
next
  case (refuse_stopped s now)
  show ?case by (rule in_hand_gone [OF refuse_stopped.prems(2)]) (simp_all add: settle_ctl)
next
  case (resume_fails s now err)
  show ?case by (rule in_hand_gone [OF resume_fails.prems(2)]) (simp_all add: settle_ctl)
next
  case (resume_stopped s p won c now)
  show ?case
    by (rule in_hand_gone [OF resume_stopped.prems(2)])
      (use resume_stopped.hyps in \<open>auto simp: ctl_cancelled markStopped_def split: if_splits\<close>)
next
  case (end_context s a)
  then show ?case by (cases a; cases "phase s") (auto simp: in_hand_def busy_def)
next
  case (find_queued s a)
  then show ?case by (cases a; cases "phase s") (auto simp: in_hand_def busy_def)
next
  case (find_started s a)
  then show ?case by (cases a; cases "phase s") (auto simp: in_hand_def busy_def)
next
  case (claim_wait s a)
  then show ?case by (cases a) (simp_all add: in_hand_def busy_def)
next
  case (no_wait s a)
  then show ?case by (cases a; cases "phase s") (auto simp: in_hand_def busy_def)
next
  case (claim_waiter s a)
  then show ?case by (cases a) (simp_all add: in_hand_def busy_def)
next
  case (no_waiter s a)
  then show ?case by (cases a; cases "phase s") (auto simp: in_hand_def busy_def)
next
  case (wake s p)
  then show ?case by (cases p) (simp_all add: in_hand_def busy_def)
qed (simp_all add: in_hand_def busy_def)

lemma reach_invariants: "reach s \<Longrightarrow> one_outcome s \<and> flags s \<and> in_hand s"
proof (induction rule: reach.induct)
  case (init q)
  then show ?case
    by (simp add: begin_life_def begin_run_def newRunControl_def one_outcome_def flags_def in_hand_def busy_def)
next
  case (step s s')
  then show ?case using outcome_step flags_step in_hand_step by blast
qed

lemma reach_steps: "step\<^sup>*\<^sup>* s s' \<Longrightarrow> reach s \<Longrightarrow> reach s'"
  by (induction rule: rtranclp_induct) (auto intro: reach.step)

lemma requested_stays: "step s s' \<Longrightarrow> cancelRequested (ctl s) \<Longrightarrow> cancelRequested (ctl s')"
  by (induction rule: step.induct)
    (auto simp: Cancel_def markStopped_def startQueued_def settle_ctl ctl_cancelled isTerminalStatus_def split: if_splits)

lemma requested_stays_steps: "step\<^sup>*\<^sup>* s s' \<Longrightarrow> cancelRequested (ctl s) \<Longrightarrow> cancelRequested (ctl s')"
  by (induction rule: rtranclp_induct) (auto intro: requested_stays)

text \<open>An abandoner past its first step has ended the run's context.\<close>

lemma ctx_kept:
  "isTerminalStatus st \<Longrightarrow> ctx_done (ctl (settle now st e s)) = ctx_done (ctl s)"
  "ctx_done (ctl (cancelled now s)) = ctx_done (ctl s)"
  by (simp_all add: settle_ctl ctl_cancelled)

lemma busy_frame:
  "busy S (with_ctl c s) = busy S s" "busy S (phase_to p s) = busy S s" "busy S (settle now st e s) = busy S s"
  "busy S (cancelled now s) = busy S s" "busy S (s\<lparr>engine_stopped := b\<rparr>) = busy S s"
  by (simp_all add: busy_def)

definition moved_on :: "stage set" where
  "moved_on = {ContextDone, ClaimWaits, ClaimWaiters, Settling, Finished}"

lemma moved_on_to:
  "busy moved_on (stage_to a g s) \<Longrightarrow> g \<notin> moved_on \<or> stage s a \<in> moved_on \<Longrightarrow> busy moved_on s"
  by (cases a) (auto simp: busy_def)

lemma context_step:
  assumes "step s s'" and "busy moved_on s \<Longrightarrow> ctx_done (ctl s)" and "busy moved_on s'"
  shows "ctx_done (ctl s')"
  using assms
proof (induction rule: step.induct)
  case (cancel why s answer goes_on c)
  have "busy moved_on s" using cancel.prems(2) moved_on_to [of ByCancel Flagged "with_ctl c s"]
    by (auto simp: busy_frame moved_on_def split: if_splits)
  then show ?case using cancel by (auto simp: Cancel_def split: if_splits)
next
  case (give_up s won c)
  have "busy moved_on s" using give_up.prems(2) moved_on_to [of ByStop Flagged "with_ctl c s"]
    by (auto simp: busy_frame moved_on_def split: if_splits)
  then show ?case using give_up by (auto simp: markStopped_def split: if_splits)
next
  case (resume_stopped s p won c now)
  then show ?case by (auto simp: ctx_kept busy_frame markStopped_def split: if_splits)
next
  case (start_queued s c)
  then show ?case by (auto simp: startQueued_def busy_frame split: if_splits)
next
  case (find_queued s a)
  then show ?case using moved_on_to [OF find_queued.prems(2)] by (simp add: moved_on_def)
next
  case (find_started s a)
  then show ?case using moved_on_to [OF find_started.prems(2)] by (simp add: moved_on_def)
next
  case (no_wait s a)
  then show ?case using moved_on_to [OF no_wait.prems(2)] by (simp add: moved_on_def)
next
  case (no_waiter s a)
  then show ?case using moved_on_to [OF no_waiter.prems(2)] by (simp add: moved_on_def)
next
  case (claim_wait s a)
  then show ?case using moved_on_to [OF claim_wait.prems(2)] by (simp add: moved_on_def busy_frame)
next
  case (claim_waiter s a)
  then show ?case using moved_on_to [OF claim_waiter.prems(2)] by (simp add: moved_on_def busy_frame)
next
  case (settle_abandoned s a now)
  then show ?case using moved_on_to [OF settle_abandoned.prems(2)] by (simp add: moved_on_def busy_frame ctx_kept)
next
  case (finish s st now err)
  then have "isTerminalStatus st" by auto
  then show ?case using finish by (simp add: busy_frame ctx_kept)
qed (simp_all add: busy_frame ctx_kept)

lemma reach_context: "reach s \<Longrightarrow> busy moved_on s \<Longrightarrow> ctx_done (ctl s)"
proof (induction rule: reach.induct)
  case (init q)
  then show ?case by (simp add: begin_life_def busy_def moved_on_def)
next
  case (step s s')
  show ?case by (rule context_step [OF step.hyps(2) step.IH step.prems])
qed

subsection \<open>Properties\<close>


text \<open>A queued run that is cancelled before its turn.\<close>

definition after_cancel :: life where
  "after_cancel = stage_to ByCancel Flagged (with_ctl (snd (snd (Cancel ''stop'' (ctl (begin_life True))))) (begin_life True))"

lemma after_cancel_reach: "reach after_cancel"
proof -
  have "Cancel ''stop'' (ctl (begin_life True))
      = ((CancelOutcomeCancelled, Some ExecCancelled), True, snd (snd (Cancel ''stop'' (ctl (begin_life True)))))"
    by (simp add: Cancel_def begin_life_def begin_run_def newRunControl_def)
  from step.cancel [OF this] have "step (begin_life True) after_cancel" by (simp add: after_cancel_def)
  with reach.init show ?thesis by (rule reach.step)
qed

definition settled_cancel :: life where
  "settled_cancel = stage_to ByCancel Finished (phase_to Gone (cancelled 5
     (stage_to ByCancel Settling (stage_to ByCancel ContextDone (with_ctl ((ctl after_cancel)\<lparr>ctx_done := True\<rparr>) after_cancel)))))"

lemma settled_cancel_steps: "step\<^sup>*\<^sup>* after_cancel settled_cancel"
proof -
  let ?a = "stage_to ByCancel ContextDone (with_ctl ((ctl after_cancel)\<lparr>ctx_done := True\<rparr>) after_cancel)"
  let ?b = "stage_to ByCancel Settling ?a"
  have "step after_cancel ?a" by (rule step.end_context) (simp add: after_cancel_def)
  moreover have "step ?a ?b"
    by (rule step.find_queued)
      (simp_all add: after_cancel_def Cancel_def begin_life_def begin_run_def newRunControl_def)
  moreover have "step ?b settled_cancel"
    unfolding settled_cancel_def by (rule step.settle_abandoned) simp
  ultimately show ?thesis by (meson converse_rtranclp_into_rtranclp rtranclp.rtrancl_refl)
qed

lemma settled_cancel_settled: "settled (ctl settled_cancel)"
  by (simp add: settled_cancel_def ctl_cancelled)


text \<open>
  C19. The answer a cancel is given is the truth: told \<open>cancelled\<close>, the run settles as cancelled
  if it settles at all, whatever happens between; told \<open>already_finished\<close>, it had settled as
  something else, and the cancel changed nothing. And no run nobody cancelled is ever recorded
  as cancelled, also when the engine stops.
\<close>

theorem cancel_answer_holds:
  assumes "reach s" and "Cancel why (ctl s) = ((answer, st), goes_on, c)"
  shows "(if answer = CancelOutcomeAlreadyFinished
      then c = ctl s \<and> settled c \<and> st = finalStatus c \<and> st \<noteq> Some ExecCancelled
      else (\<forall>s'. step\<^sup>*\<^sup>* ((if goes_on then stage_to ByCancel Flagged else (\<lambda>s. s)) (with_ctl c s)) s' \<longrightarrow>
              settled (ctl s') \<longrightarrow> announced (entry s') = [ExecRunning, ExecCancelled]))
    \<and> (settled (ctl s) \<longrightarrow> (finalStatus (ctl s) = Some ExecCancelled \<longleftrightarrow> cancelRequested (ctl s)))"
    (is "?answer \<and> ?recorded")
proof
  note inv = reach_invariants [OF assms(1)]
  show ?recorded using inv by (auto simp: flags_def)
  let ?s = "(if goes_on then stage_to ByCancel Flagged else (\<lambda>s. s)) (with_ctl c s)"
  have q: "announced (entry s') = [ExecRunning, ExecCancelled]"
    if "step\<^sup>*\<^sup>* ?s s'" "settled (ctl s')" "cancelRequested c" for s'
  proof -
    have "reach ?s" by (rule reach.step [OF assms(1) step.cancel [OF assms(2)]])
    then have i: "one_outcome s' \<and> flags s'" using reach_invariants reach_steps [OF that(1)] by blast
    have "cancelRequested (ctl s')" using requested_stays_steps [OF that(1)] that(3) by simp
    then show ?thesis using i that(2) by (auto simp: flags_def one_outcome_def)
  qed
  have "answer \<noteq> CancelOutcomeAlreadyFinished \<Longrightarrow> cancelRequested c"
    using assms(2) inv by (auto simp: Cancel_def flags_def split: if_splits)
  then show ?answer using q assms(2) by (auto simp: Cancel_def split: if_splits)
qed

theorem cancel_answer_holds_witness:
  "fst (fst (Cancel ''stop'' (ctl (begin_life True)))) = CancelOutcomeCancelled
   \<and> announced (entry settled_cancel) = [ExecRunning, ExecCancelled]"
proof -
  have c: "Cancel ''stop'' (ctl (begin_life True))
      = ((CancelOutcomeCancelled, Some ExecCancelled), True, snd (snd (Cancel ''stop'' (ctl (begin_life True)))))"
    by (simp add: Cancel_def begin_life_def begin_run_def newRunControl_def)
  from cancel_answer_holds [OF reach.init c]
  have "announced (entry settled_cancel) = [ExecRunning, ExecCancelled]"
    using settled_cancel_steps settled_cancel_settled by (simp add: after_cancel_def)
  then show ?thesis using c by (metis fst_conv)
qed

text \<open>
  C20. No run is left behind: once those who abandoned a run, for a cancel or for the engine
  stopping, are through with \<open>abandonRun\<close>, the run is settled, or a goroutine runs it or is
  about to resume it. It is not left in the queue, at a wait or waiting on a sub-workflow,
  where nothing would settle it, even when it reached the wait while it was being abandoned.
\<close>

theorem abandoned_run_is_not_left_waiting:
  assumes "reach s" and "stage s a = Finished" and "\<And>b. stage s b \<in> {Idle, Finished}"
  shows "settled (ctl s) \<or> phase s = Working \<or> (\<exists>p. phase s = Resuming p)"
proof -
  note inv = reach_invariants [OF assms(1)]
  have d: "ctx_done (ctl s)" using reach_context [OF assms(1)] assms(2) by (cases a) (auto simp: busy_def moved_on_def)
  then have f: "cancelRequested (ctl s) \<or> stopped (ctl s)" using inv by (auto simp: flags_def)
  have n: "\<not> busy S s" if "S \<subseteq> {Flagged, ContextDone, ClaimWaits, ClaimWaiters, Settling}" for S
    using assms(3) [of ByCancel] assms(3) [of ByStop] that by (auto simp: busy_def)
  have p: "phase s = Paused p \<Longrightarrow> p = OnWait \<or> p = OnChild" for p by (cases p) simp_all
  show ?thesis
    using inv d f p n [of "{Settling}"] n [of "{Flagged, ContextDone, Settling}"] n [of "{ContextDone, ClaimWaits}"]
      n [of "{ContextDone, ClaimWaits, ClaimWaiters}"]
    by (cases "phase s") (auto simp: in_hand_def)
qed

theorem abandoned_run_is_not_left_waiting_witness:
  "stage settled_cancel ByCancel = Finished \<and> (settled (ctl settled_cancel) \<or> phase settled_cancel = Working
     \<or> (\<exists>p. phase settled_cancel = Resuming p))"
proof -
  have f: "stage settled_cancel ByCancel = Finished" by (simp add: settled_cancel_def)
  have "stage settled_cancel b \<in> {Idle, Finished}" for b
    by (cases b) (simp_all add: settled_cancel_def after_cancel_def begin_life_def)
  from abandoned_run_is_not_left_waiting [OF reach_steps [OF settled_cancel_steps after_cancel_reach] f this] f
  show ?thesis by blast
qed

end
