(* ===== verification/Deliveries.thy ===== *)
theory Deliveries
  imports Prelude
begin

text \<open>
  \<open>recentDeliveries\<close> of \<open>workflow/trigger_deliveries.go\<close>: how the service recognises a further
  copy of an event that overlapping subscriptions hand it more than once. The code keeps a ring
  of keys and a set of the keys in it; the specification remembers every event it ever let
  through and looks at the last few. Each call runs under a mutex, so it is one step.
\<close>

subsection \<open>The code\<close>

record recentDeliveries =
  seen :: "string set"
  ring :: "string list"
  ring_next :: nat

definition recentDeliveryCapacity :: int where "recentDeliveryCapacity = 8192"

text \<open>No result is the panic on a capacity that is not positive.\<close>

definition newRecentDeliveries :: "int \<Rightarrow> recentDeliveries option" where
  "newRecentDeliveries capacity =
     (if capacity \<le> 0 then None
      else Some \<lparr>seen = {}, ring = replicate (nat capacity) '''', ring_next = 0\<rparr>)"

definition delivery_key :: "string \<times> string \<Rightarrow> string" where
  "delivery_key e = fst e @ [CHR 0x00] @ snd e"

definition first :: "string \<times> string \<Rightarrow> recentDeliveries \<Rightarrow> bool \<times> recentDeliveries" where
  "first e r =
     (let key = delivery_key e in
      if key \<in> seen r then (False, r)
      else
        let evicted = ring r ! ring_next r;
            kept = (if evicted \<noteq> '''' then seen r - {evicted} else seen r)
        in (True, \<lparr>seen = insert key kept, ring = (ring r)[ring_next r := key],
                   ring_next = (ring_next r + 1) mod length (ring r)\<rparr>))"

fun first_all :: "(string \<times> string) list \<Rightarrow> recentDeliveries \<Rightarrow> bool list \<times> recentDeliveries" where
  "first_all [] r = ([], r)"
| "first_all (e # es) r = (case first e r of (b, r') \<Rightarrow> (case first_all es r' of (bs, r'') \<Rightarrow> (b # bs, r'')))"

subsection \<open>The specification\<close>

text \<open>\<open>accepted\<close> holds the keys let through so far, the latest first.\<close>

fun recognise :: "nat \<Rightarrow> string list \<Rightarrow> string list \<Rightarrow> bool list" where
  "recognise n accepted [] = []"
| "recognise n accepted (k # ks) =
     (if k \<in> set (take n accepted) then False # recognise n accepted ks
      else True # recognise n (k # accepted) ks)"

subsection \<open>Refinement\<close>

text \<open>The ring read from its next slot on: empty slots first, then the keys, oldest first.\<close>

definition from_next :: "recentDeliveries \<Rightarrow> string list" where
  "from_next r = rotate (ring_next r) (ring r)"

definition refines :: "nat \<Rightarrow> string list \<Rightarrow> recentDeliveries \<Rightarrow> bool" where
  "refines n accepted r \<longleftrightarrow>
     length (ring r) = n \<and> ring_next r < n
     \<and> from_next r = replicate (n - length accepted) '''' @ rev (take n accepted)
     \<and> seen r = set (take n accepted) \<and> distinct (take n accepted) \<and> '''' \<notin> set accepted"

lemma rotate_write:
  assumes "i < length xs"
  shows "rotate ((i + 1) mod length xs) (xs[i := x]) = tl (rotate i xs) @ [x]"
proof -
  have "rotate ((i + 1) mod length xs) (xs[i := x]) = rotate (i + 1) (xs[i := x])"
    by (metis length_list_update rotate_conv_mod)
  also have "\<dots> = rotate1 (rotate i (xs[i := x]))" by simp
  also have "rotate i (xs[i := x]) = x # drop (Suc i) xs @ take i xs"
    using assms by (simp add: rotate_drop_take flip: Cons_nth_drop_Suc)
  also have "rotate1 \<dots> = tl (rotate i xs) @ [x]"
    using assms by (simp add: rotate_drop_take flip: Cons_nth_drop_Suc)
  finally show ?thesis .
qed

lemma key_nonempty: "delivery_key e \<noteq> ''''"
  by (simp add: delivery_key_def)

lemma first_refines:
  assumes "refines n accepted r"
  shows "fst (first e r) \<longleftrightarrow> delivery_key e \<notin> set (take n accepted)"
    and "refines n (if fst (first e r) then delivery_key e # accepted else accepted) (snd (first e r))"
proof -
  show new: "fst (first e r) \<longleftrightarrow> delivery_key e \<notin> set (take n accepted)"
    using assms by (simp add: first_def Let_def refines_def)
  show "refines n (if fst (first e r) then delivery_key e # accepted else accepted) (snd (first e r))"
  proof (cases "fst (first e r)")
    case False
    then show ?thesis using assms by (simp add: first_def Let_def split: if_splits)
  next
    case True
    let ?k = "delivery_key e" and ?old = "ring r ! ring_next r"
    have n: "length (ring r) = n" "ring_next r < n" "0 < n" using assms by (auto simp: refines_def)
    have f: "from_next r = replicate (n - length accepted) '''' @ rev (take n accepted)"
      using assms by (simp add: refines_def)
    have old: "?old = hd (from_next r)" "from_next r \<noteq> []"
      using n hd_rotate_conv_nth [of "ring r" "ring_next r"] by (fastforce simp: from_next_def)+
    have r': "snd (first e r) = \<lparr>seen = insert ?k (if ?old \<noteq> '''' then seen r - {?old} else seen r),
        ring = (ring r)[ring_next r := ?k], ring_next = (ring_next r + 1) mod n\<rparr>"
      using True n by (simp add: first_def Let_def split: if_splits)
    have tl: "from_next (snd (first e r)) = tl (from_next r) @ [?k]"
      using n rotate_write [of "ring_next r" "ring r" ?k] by (simp add: r' from_next_def)
    show ?thesis
    proof (cases "length accepted < n")
      case small: True
      then have "?old = ''''" using old f by (simp add: replicate_app_Cons_same Suc_diff_Suc [symmetric])
      then show ?thesis
        using small assms True new tl n f key_nonempty [of e]
        by (simp add: refines_def r' Suc_diff_Suc [symmetric])
    next
      case False
      then obtain m where m: "n = Suc m" "m < length accepted" using n by (metis Suc_le_eq not0_implies_Suc not_less less_nat_zero_code)
      have t: "take n accepted = take m accepted @ [accepted ! m]" using m by (simp add: take_Suc_conv_app_nth)
      have d: "?old = accepted ! m" using old f t m False by simp
      moreover have "accepted ! m \<noteq> ''''" using assms m by (metis nth_mem refines_def)
      moreover have "accepted ! m \<notin> set (take m accepted)" using assms t by (auto simp: refines_def)
      ultimately show ?thesis
        using assms True new tl n f t m False key_nonempty [of e] by (auto simp: refines_def r')
    qed
  qed
qed

lemma first_all_refines:
  "refines n accepted r \<Longrightarrow> fst (first_all es r) = recognise n accepted (map delivery_key es)"
proof (induction es arbitrary: accepted r)
  case (Cons e es)
  note f = first_refines [OF Cons.prems, of e]
  show ?case
    using f Cons.IH [OF f(2)] by (cases "first e r"; cases "first_all es (snd (first e r))") auto
qed simp

text \<open>
  C21. The bounded memory of deliveries does what its documentation promises: whatever events
  arrive in whatever order, a delivery is reported as the first of its event exactly when the
  event is not among the last \<open>capacity\<close> ones reported so, as if every event were remembered.
\<close>

theorem deliveries_refine_window:
  assumes "newRecentDeliveries capacity = Some r"
  shows "fst (first_all es r) = recognise (nat capacity) [] (map delivery_key es)"
proof -
  have "refines (nat capacity) [] r" using assms by (auto simp: newRecentDeliveries_def refines_def from_next_def split: if_splits)
  then show ?thesis by (rule first_all_refines)
qed

definition two_copies :: "(string \<times> string) list" where
  "two_copies = [(''bus'', ''1''), (''bus'', ''1''), (''bus'', ''2''), (''bus'', ''3''), (''bus'', ''1'')]"

theorem deliveries_refine_window_witness:
  "fst (first_all two_copies \<lparr>seen = {}, ring = ['''', ''''], ring_next = 0\<rparr>) = [True, False, True, True, True]"
proof -
  have "newRecentDeliveries 2 = Some \<lparr>seen = {}, ring = ['''', ''''], ring_next = 0\<rparr>"
    by (simp add: newRecentDeliveries_def numeral_2_eq_2)
  from deliveries_refine_window [OF this, of two_copies] show ?thesis
    by (simp add: two_copies_def delivery_key_def numeral_2_eq_2)
qed

text \<open>
  Copies of one event that arrive within a window of the capacity: only the first counts.
\<close>

lemma recognise_copies:
  "k \<in> set (take n accepted) \<Longrightarrow> set ks \<subseteq> {k} \<Longrightarrow> recognise n accepted ks = replicate (length ks) False"
  by (induction ks) auto

lemma copies_count_once:
  assumes "refines n accepted r" and "0 < n" and "set es = {e}" and "delivery_key e \<notin> set (take n accepted)"
  shows "fst (first_all es r) = True # replicate (length es - 1) False"
proof -
  obtain es' where es: "es = e # es'" "set es' \<subseteq> {e}" using assms(3) by (cases es) auto
  have "recognise n (delivery_key e # accepted) (map delivery_key es') = replicate (length es') False"
    using recognise_copies [of "delivery_key e" n "delivery_key e # accepted" "map delivery_key es'"] assms(2) es(2)
    by (cases n) auto
  then show ?thesis using first_all_refines [OF assms(1), of es] assms(4) by (simp add: es(1))
qed

lemma first_all_state:
  "refines n accepted r \<Longrightarrow> \<exists>accepted'. refines n accepted' (snd (first_all es r))
     \<and> set accepted' \<subseteq> set accepted \<union> delivery_key ` set es"
proof (induction es arbitrary: accepted r)
  case (Cons e es)
  note f = first_refines [OF Cons.prems, of e]
  obtain accepted' where "refines n accepted' (snd (first_all es (snd (first e r))))"
    "set accepted' \<subseteq> set (if fst (first e r) then delivery_key e # accepted else accepted) \<union> delivery_key ` set es"
    using Cons.IH [OF f(2)] by blast
  then show ?case
    by (cases "first e r"; cases "first_all es (snd (first e r))") (auto split: if_splits)
qed auto

lemma new_refines: "newRecentDeliveries capacity = Some r \<Longrightarrow> refines (nat capacity) [] r"
  by (auto simp: newRecentDeliveries_def refines_def from_next_def split: if_splits)

text \<open>An event no delivery before was of is let through, and no copy of it right after.\<close>

lemma new_event_first:
  assumes "newRecentDeliveries capacity = Some r" and "delivery_key e \<notin> delivery_key ` set es"
  shows "fst (first e (snd (first_all es r)))"
proof -
  obtain accepted where "refines (nat capacity) accepted (snd (first_all es r))" "set accepted \<subseteq> delivery_key ` set es"
    using first_all_state [OF new_refines [OF assms(1)], of es] by auto
  then show ?thesis using first_refines(1) [of "nat capacity" accepted _ e] assms(2) by (auto dest: in_set_takeD)
qed

lemma copy_not_first: "first e D = (True, D') \<Longrightarrow> first e D' = (False, D')"
  by (auto simp: first_def Let_def split: if_splits)

end
