(* ===== verification/Validation.thy ===== *)
theory Validation
  imports Publish_Guard Wait_Task Reads Graph_Order
begin

text \<open>
  What a definition must pass before the engine registers it or runs it as an action list:
  \<open>checkDefinition\<close> of \<open>workflow/internal/engine/registry.go\<close>, \<open>validateDefinition\<close> of \<open>engine.go\<close>
  and the walks of \<open>env_refusal.go\<close> over the definition as JSON. What an action demands of its
  parameters (\<open>ValidateParams\<close>) is an argument.
\<close>

subsection \<open>A definition as JSON\<close>

text \<open>
  \<open>encoding/json\<close> by the tags of \<open>types.go\<close>, and decoded again: numbers come back as \<open>float64\<close>,
  a nil pointer, slice or map as null unless its tag omits it. A \<open>Duration\<close> is a struct with one
  embedded field. The values of a definition were read from JSON or YAML themselves, so
  encoding them cannot fail.
\<close>

fun decoded :: "val \<Rightarrow> val" where
  "decoded (VInt i) = VFloat (f_of_int i)"
| "decoded (VList vs) = VList (map decoded vs)"
| "decoded (VMap kvs) = VMap (map (\<lambda>kv. (fst kv, decoded (snd kv))) kvs)"
| "decoded (VOpen kvs) = VMap (map (\<lambda>kv. (fst kv, decoded (snd kv))) kvs)"
| "decoded v = v"

definition omit_if :: "bool \<Rightarrow> string \<Rightarrow> val \<Rightarrow> obj" where
  "omit_if out k v = (if out then [] else [(k, v)])"

definition omit_text :: "string \<Rightarrow> string \<Rightarrow> obj" where
  "omit_text k s = omit_if (s = '''') k (VStr s)"

definition omit_nil :: "string \<Rightarrow> ('a \<Rightarrow> val) \<Rightarrow> 'a option \<Rightarrow> obj" where
  "omit_nil k f x = (case x of None \<Rightarrow> [] | Some y \<Rightarrow> [(k, f y)])"

definition omit_list :: "string \<Rightarrow> ('a \<Rightarrow> val) \<Rightarrow> 'a list \<Rightarrow> obj" where
  "omit_list k f xs = omit_if (xs = []) k (VList (map f xs))"

definition json_int :: "int \<Rightarrow> val" where "json_int i = VFloat (f_of_int i)"

definition json_duration :: "duration \<Rightarrow> val" where
  "json_duration d = VMap [(''Duration'', json_int d)]"

definition json_condition :: "condition \<Rightarrow> val" where
  "json_condition c = VMap [(''field'', VStr (Field c)), (''operator'', VStr (Operator c)), (''value'', decoded (Value c))]"

definition json_trigger :: "TriggerConfig \<Rightarrow> val" where
  "json_trigger t = VMap ([(''type'', VStr (trigger_type t))]
     @ omit_text ''event'' (trigger_event t) @ omit_text ''schedule'' (trigger_schedule t)
     @ omit_list ''conditions'' json_condition (trigger_conditions t) @ omit_nil ''order'' json_int (trigger_order t))"

definition json_aggregation :: "AggregationConfig \<Rightarrow> val" where
  "json_aggregation a = VMap ([(''strategy'', VStr (ac_strategy a))] @ omit_text ''field'' (ac_field a)
     @ [(''threshold'', VFloat (ac_threshold a))] @ omit_nil ''timeWindow'' json_duration (ac_window a))"

definition json_wait :: "WaitConfig \<Rightarrow> val" where
  "json_wait w = VMap ([(''type'', VStr (wc_type w))] @ omit_text ''event'' (wc_event w)
     @ omit_list ''conditions'' json_condition (wc_conditions w)
     @ omit_nil ''aggregation'' json_aggregation (wc_aggregation w)
     @ omit_nil ''timeout'' json_duration (wc_timeout w) @ omit_text ''onTimeout'' (wc_onTimeout w)
     @ omit_if (wc_durationMs w = 0) ''durationMs'' (json_int (wc_durationMs w)))"

definition json_workflow :: "WorkflowConfig \<Rightarrow> val" where
  "json_workflow w = VMap ([(''workflowId'', VStr (wf_workflowID w)), (''waitUntilCompletion'', VBool (wf_waitUntilCompletion w))]
     @ omit_text ''event'' (wf_event w)
     @ omit_if (wf_eventData w = []) ''eventData'' (decoded (VMap (wf_eventData w)))
     @ omit_nil ''timeout'' json_duration (wf_timeout w))"

definition json_task :: "TaskDefinition \<Rightarrow> val" where
  "json_task t = VMap ([(''id'', VStr (task_id t)), (''type'', VStr (task_type t))]
     @ omit_text ''action'' (task_action t) @ omit_list ''dependsOn'' VStr (dependsOn t)
     @ [(''parameters'', decoded (VMap (parameters t)))]
     @ omit_text ''$ref'' (task_ref t) @ omit_text ''function'' (task_function t)
     @ omit_if (task_exports t \<in> {None, Some []}) ''exports''
         (VMap (map (\<lambda>kv. (fst kv, VStr (snd kv))) (case task_exports t of None \<Rightarrow> [] | Some e \<Rightarrow> e)))
     @ omit_text ''onError'' (onError t) @ omit_nil ''timeout'' json_duration (task_timeout t)
     @ omit_nil ''wait'' json_wait (task_wait t) @ omit_nil ''condition'' json_condition (task_condition t)
     @ omit_list ''conditions'' json_condition (task_conditions t)
     @ omit_text ''conditionLogic'' (conditionLogic t)
     @ omit_list ''onTrue'' VStr (onTrue t) @ omit_list ''onFalse'' VStr (onFalse t)
     @ omit_nil ''workflow'' json_workflow (task_workflow t)
     @ omit_if (\<not> task_disabled t) ''disabled'' (VBool True))"

definition json_options :: "WorkflowOptions \<Rightarrow> val" where
  "json_options p = VMap (omit_nil ''timeout'' json_duration (opt_timeout p)
     @ omit_if (opt_maxConcurrent p = 0) ''maxConcurrent'' (json_int (opt_maxConcurrent p)))"

definition json_definition :: "WorkflowDefinition \<Rightarrow> val" where
  "json_definition d = VMap ([(''id'', VStr (def_id d)), (''name'', VStr (def_name d))]
     @ omit_text ''description'' (def_description d)
     @ [(''trigger'', case def_trigger d of None \<Rightarrow> VNil | Some t \<Rightarrow> json_trigger t),
        (''tasks'', VList (map json_task (def_tasks d)))]
     @ omit_nil ''options'' json_options (def_options d))"

subsection \<open>The walks\<close>

definition envReferenceMarker :: string where "envReferenceMarker = ''${env.''"

definition item_path :: "string \<Rightarrow> nat \<Rightarrow> string" where
  "item_path path i = path @ ''['' @ itoa (int i) @ '']''"

definition child_path :: "string \<Rightarrow> string \<Rightarrow> string" where
  "child_path path key = (if path \<noteq> '''' then path @ ''.'' @ key else key)"

text \<open>
  Both walks have one shape: check every string, in the order of the list and of the sorted
  keys, and stop at the first that is refused.
\<close>

function walk_strings :: "(string \<Rightarrow> 'e option) \<Rightarrow> val \<Rightarrow> string \<Rightarrow> (string \<times> 'e) option" where
  "walk_strings f (VStr s) path = map_option (\<lambda>e. (path, e)) (f s)"
| "walk_strings f (VList vs) path =
     check_all (\<lambda>(i, v). walk_strings f v (item_path path i)) (enumerate 0 vs)"
| "walk_strings f (VMap kvs) path =
     check_all (\<lambda>(k, v). walk_strings f v (child_path path k)) (sort_keys kvs)"
| "walk_strings f VNil path = None"
| "walk_strings f (VBool b) path = None"
| "walk_strings f (VInt n) path = None"
| "walk_strings f (VFloat x) path = None"
| "walk_strings f (VOpen kvs) path = None"
| "walk_strings f (VOther t s) path = None"
  by pat_completeness auto
termination
proof (relation "measure (\<lambda>(f, v, p). size v)")
  fix f :: "string \<Rightarrow> 'e option" and vs path z i and v :: val
  assume "z \<in> set (enumerate 0 vs)" and "(i, v) = z"
  then have "v \<in> set vs" by (auto simp: in_set_enumerate_eq)
  then have "size v < size (VList vs)" by (induction vs) auto
  then show "((f, v, item_path path i), (f, VList vs, path)) \<in> measure (\<lambda>(f, v, p). size v)" by simp
next
  fix f :: "string \<Rightarrow> 'e option" and kvs path z k and v :: val
  assume "z \<in> set (sort_keys kvs)" and "(k, v) = z"
  then have "(k, v) \<in> set kvs" by simp
  then have "size v < size (VMap kvs)" by (induction kvs) auto
  then show "((f, v, child_path path k), (f, VMap kvs, path)) \<in> measure (\<lambda>(f, v, p). size v)" by simp
qed simp

definition findEnvReference :: "val \<Rightarrow> string \<Rightarrow> string option" where
  "findEnvReference v path =
     map_option fst (walk_strings (\<lambda>s. if contains s envReferenceMarker then Some () else None) v path)"

definition findInvalidFunctionCall :: "val \<Rightarrow> string \<Rightarrow> (string \<times> xerr) option" where
  "findInvalidFunctionCall v path = walk_strings ValidateFunctionCalls v path"

subsection \<open>The checks\<close>

datatype 'p def_error =
    GraphError gerr
  | EnvReference string
  | BadFunctionCall string xerr
  | BadParams string string 'p
  | BadWait string wait_error

definition refuseEnvReferences :: "WorkflowDefinition \<Rightarrow> string option" where
  "refuseEnvReferences d = findEnvReference (json_definition d) ''''"

definition refuseInvalidFunctionCalls :: "WorkflowDefinition \<Rightarrow> (string \<times> xerr) option" where
  "refuseInvalidFunctionCalls d = findInvalidFunctionCall (json_definition d) ''''"

definition validate_task :: "(string \<Rightarrow> obj \<Rightarrow> 'p option) \<Rightarrow> TaskDefinition \<Rightarrow> 'p def_error option" where
  "validate_task P t =
     (if task_disabled t then None
      else if task_type t = TaskTypeAction
      then map_option (BadParams (task_id t) (task_action t)) (P (task_action t) (parameters t))
      else if task_type t = TaskTypeWait
      then map_option (BadWait (task_id t)) (ValidateWaitConfig (task_wait t))
      else None)"

definition validateDefinition :: "(string \<Rightarrow> obj \<Rightarrow> 'p option) \<Rightarrow> WorkflowDefinition \<Rightarrow> 'p def_error option" where
  "validateDefinition P d =
     (case NewDependencyGraph (def_tasks d) of
        Inl e \<Rightarrow> Some (GraphError e)
      | Inr _ \<Rightarrow>
          (case refuseEnvReferences d of
             Some path \<Rightarrow> Some (EnvReference path)
           | None \<Rightarrow>
               (case refuseInvalidFunctionCalls d of
                  Some (path, e) \<Rightarrow> Some (BadFunctionCall path e)
                | None \<Rightarrow> check_all (validate_task P) (def_tasks d))))"

datatype 'p check_error =
    IDRequired
  | NameRequired
  | NoTasks
  | BadPublishStep string publish_error
  | Invalid "'p def_error"

definition checkDefinition :: "WorkflowDefinition \<Rightarrow> 'p check_error option" where
  "checkDefinition d =
     (if def_id d = '''' then Some IDRequired
      else if def_name d = '''' then Some NameRequired
      else if def_tasks d = [] then Some NoTasks
      else map_option (\<lambda>(t, e). BadPublishStep t e) (validatePublishSteps (def_tasks d)))"

definition check :: "(string \<Rightarrow> obj \<Rightarrow> 'p option) \<Rightarrow> WorkflowDefinition \<Rightarrow> 'p check_error option" where
  "check P d = (case checkDefinition d of Some e \<Rightarrow> Some e | None \<Rightarrow> map_option Invalid (validateDefinition P d))"
subsection \<open>What the walks find\<close>

text \<open>\<open>text_at v path p s\<close>: the text \<open>s\<close> is in \<open>v\<close>, at the path \<open>p\<close> when \<open>v\<close> is at \<open>path\<close>.\<close>

inductive text_at :: "val \<Rightarrow> string \<Rightarrow> string \<Rightarrow> string \<Rightarrow> bool" where
  here: "text_at (VStr s) path path s"
| item: "i < length vs \<Longrightarrow> text_at (vs ! i) (item_path path i) p s \<Longrightarrow> text_at (VList vs) path p s"
| child: "(k, v) \<in> set kvs \<Longrightarrow> text_at v (child_path path k) p s \<Longrightarrow> text_at (VMap kvs) path p s"

lemma walk_found: "walk_strings f v path = Some (p, e) \<Longrightarrow> \<exists>s. text_at v path p s \<and> f s = Some e"
proof (induction f v path rule: walk_strings.induct)
  case (1 f s path)
  then show ?case by (auto intro: text_at.here)
next
  case (2 f vs path)
  then obtain i where "i < length vs" "walk_strings f (vs ! i) (item_path path i) = Some (p, e)"
    by (auto simp: in_set_enumerate_eq dest!: check_all_Some)
  moreover from this have "(i, vs ! i) \<in> set (enumerate 0 vs)" by (auto simp: in_set_enumerate_eq)
  ultimately show ?case using "2.IH" by (metis text_at.item)
next
  case (3 f kvs path)
  then obtain k v where "(k, v) \<in> set kvs" "walk_strings f v (child_path path k) = Some (p, e)"
    by (auto dest!: check_all_Some)
  with "3.IH" show ?case by (metis set_sort_keys text_at.child)
qed simp_all

lemma walk_clean: "walk_strings f v path = None \<Longrightarrow> text_at v path p s \<Longrightarrow> f s = None"
proof (induction f v path arbitrary: p s rule: walk_strings.induct)
  case (1 f t path)
  then show ?case by (auto elim: text_at.cases)
next
  case (2 f vs path)
  from "2.prems"(2) obtain i where i: "i < length vs" "text_at (vs ! i) (item_path path i) p s"
    by (auto elim: text_at.cases)
  then have m: "(i, vs ! i) \<in> set (enumerate 0 vs)" by (auto simp: in_set_enumerate_eq)
  then have "walk_strings f (vs ! i) (item_path path i) = None"
    using "2.prems"(1) by (auto simp: check_all_None_iff)
  then show ?case using "2.IH" [OF m refl _ i(2)] by simp
next
  case (3 f kvs path)
  from "3.prems"(2) obtain k v where k: "(k, v) \<in> set kvs" "text_at v (child_path path k) p s"
    by (auto elim: text_at.cases)
  then have "walk_strings f v (child_path path k) = None" using "3.prems"(1) by (auto simp: check_all_None_iff)
  then show ?case using "3.IH" [of "(k, v)" k v p s] k by simp
qed (auto elim: text_at.cases)

text \<open>The texts of a value do not depend on where it stands.\<close>

definition texts :: "val \<Rightarrow> string set" where
  "texts v = {s. \<exists>p. text_at v '''' p s}"

lemma text_at_anywhere: "text_at v path p s \<Longrightarrow> \<exists>q. text_at v path' q s"
  by (induction arbitrary: path' rule: text_at.induct) (blast intro: text_at.intros)+

lemma texts_at: "s \<in> texts v \<longleftrightarrow> (\<exists>p. text_at v path p s)"
  unfolding texts_def using text_at_anywhere by blast

lemma walk_None_iff: "walk_strings f v path = None \<longleftrightarrow> (\<forall>s \<in> texts v. f s = None)"
proof
  show "walk_strings f v path = None \<Longrightarrow> \<forall>s \<in> texts v. f s = None" using walk_clean texts_at by metis
next
  assume a: "\<forall>s \<in> texts v. f s = None"
  show "walk_strings f v path = None"
  proof (cases "walk_strings f v path")
    case (Some x)
    then obtain s where "text_at v path (fst x) s" "f s = Some (snd x)" using walk_found [of f v path "fst x" "snd x"] by auto
    then show ?thesis using a texts_at [of s v path] by fastforce
  qed simp
qed

inductive_simps text_at_simps [simp]:
  "text_at (VStr t) path p s" "text_at (VList vs) path p s" "text_at (VMap kvs) path p s" "text_at VNil path p s"
  "text_at (VBool b) path p s" "text_at (VFloat x) path p s" "text_at (VInt n) path p s"
  "text_at (VOther tn tx) path p s" "text_at (VOpen kvs) path p s"

lemma texts_simps [simp]:
  "texts (VStr t) = {t}" "texts (VList vs) = (\<Union>v \<in> set vs. texts v)"
  "texts (VMap kvs) = (\<Union>kv \<in> set kvs. texts (snd kv))" "texts VNil = {}" "texts (VBool b) = {}" "texts (VFloat x) = {}"
  "texts (VInt n) = {}" "texts (VOther tn tx) = {}" "texts (VOpen kvs) = {}"
proof -
  show "texts (VStr t) = {t}" "texts VNil = {}" "texts (VBool b) = {}" "texts (VFloat x) = {}"
    "texts (VInt n) = {}" "texts (VOther tn tx) = {}" "texts (VOpen kvs) = {}" by (auto simp: texts_def)
  show "texts (VList vs) = (\<Union>v \<in> set vs. texts v)"
  proof (rule set_eqI)
    fix s
    have "s \<in> texts (VList vs) \<longleftrightarrow> (\<exists>i < length vs. s \<in> texts (vs ! i))"
      unfolding texts_at [of s "VList vs" "''''"] by (auto simp: texts_at [of s "vs ! i" "item_path '''' i" for i])
    then show "s \<in> texts (VList vs) \<longleftrightarrow> s \<in> (\<Union>v \<in> set vs. texts v)" by (metis (no_types, lifting) UN_iff in_set_conv_nth)
  qed
  show "texts (VMap kvs) = (\<Union>kv \<in> set kvs. texts (snd kv))"
  proof (rule set_eqI)
    fix s
    have "s \<in> texts (VMap kvs) \<longleftrightarrow> (\<exists>k v. (k, v) \<in> set kvs \<and> s \<in> texts v)"
      unfolding texts_at [of s "VMap kvs" "''''"]
      using texts_at [of s] by simp metis
    then show "s \<in> texts (VMap kvs) \<longleftrightarrow> s \<in> (\<Union>kv \<in> set kvs. texts (snd kv))" by force
  qed
qed

lemma texts_decoded: "set (value_strings v) \<subseteq> texts (decoded v)"
  by (induction v rule: decoded.induct) auto
subsection \<open>Properties\<close>

lemma refuse_env_iff: "refuseEnvReferences d = None \<longleftrightarrow> (\<forall>s \<in> texts (json_definition d). \<not> contains s envReferenceMarker)"
  by (simp add: refuseEnvReferences_def findEnvReference_def walk_None_iff)

lemma refuse_calls_iff: "refuseInvalidFunctionCalls d = None \<longleftrightarrow> (\<forall>s \<in> texts (json_definition d). ValidateFunctionCalls s = None)"
  by (simp add: refuseInvalidFunctionCalls_def findInvalidFunctionCall_def walk_None_iff)

text \<open>A refusal names the place: the path it reports leads to the text it refuses.\<close>

lemma refused_reference_located:
  "refuseEnvReferences d = Some p \<Longrightarrow> \<exists>s. text_at (json_definition d) '''' p s \<and> contains s envReferenceMarker"
  using walk_found [of "\<lambda>s. if contains s envReferenceMarker then Some () else None" "json_definition d" "''''" p]
  by (fastforce simp: refuseEnvReferences_def findEnvReference_def split: if_splits)

lemma refused_call_located:
  "refuseInvalidFunctionCalls d = Some (p, e) \<Longrightarrow> \<exists>s. text_at (json_definition d) '''' p s \<and> ValidateFunctionCalls s = Some e"
  unfolding refuseInvalidFunctionCalls_def findInvalidFunctionCall_def by (rule walk_found)

text \<open>The walks cover what the steps of a workflow resolve.\<close>

lemma parameters_walked:
  assumes "t \<in> set (def_tasks d)"
  shows "set (value_strings (VMap (parameters t))) \<subseteq> texts (json_definition d)"
proof -
  have "set (value_strings (VMap (parameters t))) \<subseteq> texts (decoded (VMap (parameters t)))" by (rule texts_decoded)
  also have "\<dots> \<subseteq> texts (json_task t)" by (auto simp: json_task_def simp del: decoded.simps)
  also have "\<dots> \<subseteq> texts (json_definition d)" using assms by (auto simp: json_definition_def)
  finally show ?thesis .
qed

definition task_accepted :: "(string \<Rightarrow> obj \<Rightarrow> 'p option) \<Rightarrow> TaskDefinition \<Rightarrow> bool" where
  "task_accepted P t \<longleftrightarrow> validate_publish_step t = None
     \<and> (\<not> task_disabled t \<and> task_type t = TaskTypeAction \<longrightarrow> P (task_action t) (parameters t) = None)
     \<and> (\<not> task_disabled t \<and> task_type t = TaskTypeWait \<longrightarrow> ValidateWaitConfig (task_wait t) = None)"

lemma task_types_differ [simp]: "TaskTypeWait \<noteq> TaskTypeAction" "TaskTypeAction \<noteq> TaskTypeWait"
  by (simp_all add: TaskTypeWait_def TaskTypeAction_def)

lemma validate_task_None: "validate_task P t = None \<and> validate_publish_step t = None \<longleftrightarrow> task_accepted P t"
  by (auto simp: validate_task_def task_accepted_def)

lemma accepted_iff:
  "check P d = None \<longleftrightarrow>
     def_id d \<noteq> '''' \<and> def_name d \<noteq> '''' \<and> def_tasks d \<noteq> [] \<and> acceptable (def_tasks d)
     \<and> (\<forall>s \<in> texts (json_definition d). \<not> contains s envReferenceMarker \<and> ValidateFunctionCalls s = None)
     \<and> (\<forall>t \<in> set (def_tasks d). task_accepted P t)"
proof -
  have g: "(\<exists>g. NewDependencyGraph (def_tasks d) = Inr g) \<longleftrightarrow> acceptable (def_tasks d)" by (rule graph_acceptable)
  have "validateDefinition P d = None \<longleftrightarrow> acceptable (def_tasks d)
     \<and> (\<forall>s \<in> texts (json_definition d). \<not> contains s envReferenceMarker \<and> ValidateFunctionCalls s = None)
     \<and> (\<forall>t \<in> set (def_tasks d). validate_task P t = None)"
    unfolding g [symmetric] ball_conj_distrib refuse_env_iff [symmetric] refuse_calls_iff [symmetric]
    by (auto simp: validateDefinition_def check_all_None_iff split: sum.splits option.splits)
  then show ?thesis
    unfolding validate_task_None [symmetric] ball_conj_distrib check_all_None_iff [of validate_publish_step, symmetric]
    by (cases "check_all validate_publish_step (def_tasks d)"; simp add: check_def checkDefinition_def validatePublishSteps_def case_prod_beta)
qed

lemma accepted_tasks: "check P d = None \<Longrightarrow> acceptable (def_tasks d) \<and> def_tasks d \<noteq> []"
  by (simp add: accepted_iff)

text \<open>
  C22. A definition is accepted exactly when it has an id, a name and tasks, its tasks make a
  dependency graph, no text anywhere in it refers to the environment or calls a function
  wrongly, no step publishes an event under a reserved subject, and every enabled step passes the
  check of its type.
\<close>

theorem definition_accepted_iff:
  "check P d = None \<longleftrightarrow>
     def_id d \<noteq> '''' \<and> def_name d \<noteq> '''' \<and> def_tasks d \<noteq> [] \<and> acceptable (def_tasks d)
     \<and> (\<forall>s \<in> texts (json_definition d). \<not> contains s envReferenceMarker \<and> ValidateFunctionCalls s = None)
     \<and> (\<forall>t \<in> set (def_tasks d). task_accepted P t)"
  by (rule accepted_iff)

definition greeting :: WorkflowDefinition where
  "greeting = \<lparr>def_id = ''w'', def_name = ''greet'', def_description = '''', def_trigger = None,
     def_tasks = [blank_task\<lparr>task_id := ''a'', task_type := TaskTypeAction, task_action := ''chat'',
                    parameters := [(''text'', VStr ''hello ${trigger.data.user}'')]\<rparr>],
     def_options = None, def_ephemeral = False\<rparr>"

lemma greeting_accepted: "check (\<lambda>_ _. None :: string option) greeting = None"
  by code_simp

theorem definition_accepted_iff_witness: "acceptable (def_tasks greeting) \<and> def_tasks greeting \<noteq> []"
  using definition_accepted_iff [of "\<lambda>_ _. None :: string option" greeting] greeting_accepted by simp

end
