(* ===== verification/Triggers.thy ===== *)
theory Triggers
  imports Workflow_Types
begin

text \<open>
  The registrars of \<open>workflow/internal/triggers\<close>: what connects a workflow to the machinery that
  fires it. The event registrar keeps one bus subscription per subject, counted by the workflows
  on it; the schedule registrar keeps one cron job per workflow; the composite routes by the
  type of the trigger. The bus and the cron library are parameters: each operation takes what
  they answer during it. The locale \<open>registrar\<close> is the contract of the interface \<open>Registrar\<close>.
\<close>

datatype trigger_error =
    NamesNoEvent
  | CannotSubscribe string string
  | CannotUnsubscribe string string
  | NamesNoSchedule
  | BadSchedule string string
  | NotSupported string
  | NoRegistrar string

subsection \<open>The contract of a registrar\<close>

text \<open>
  \<open>on s w\<close> is what fires the workflow \<open>w\<close>: the subject, or the schedule, it is registered on.
  A registration that fails leaves the workflow off, or where it was.
\<close>

locale registrar =
  fixes kind :: string and topic :: "TriggerConfig \<Rightarrow> string"
    and register :: "'env \<Rightarrow> string \<Rightarrow> TriggerConfig option \<Rightarrow> 's \<Rightarrow> trigger_error option \<times> 's"
    and unregister :: "'env \<Rightarrow> string \<Rightarrow> TriggerConfig option \<Rightarrow> 's \<Rightarrow> trigger_error option \<times> 's"
    and on :: "'s \<Rightarrow> string \<Rightarrow> string option"
    and inv :: "'s \<Rightarrow> bool" and fair :: "'env \<Rightarrow> 's \<Rightarrow> bool"
  assumes registered: "inv s \<Longrightarrow> fair env s \<Longrightarrow> trigger_type t = kind \<Longrightarrow> register env w (Some t) s = (None, s') \<Longrightarrow>
      on s' = (on s)(w \<mapsto> topic t)"
    and refused: "inv s \<Longrightarrow> fair env s \<Longrightarrow> register env w (Some t) s = (Some e, s') \<Longrightarrow>
      on s' = (on s)(w := None) \<or> on s' = on s"
    and unregistered: "inv s \<Longrightarrow> unregister env w t' s = (e', s') \<Longrightarrow> on s' = (on s)(w := None)"
    and register_inv: "inv s \<Longrightarrow> fair env s \<Longrightarrow> inv (snd (register env w t' s))"
    and unregister_inv: "inv s \<Longrightarrow> inv (snd (unregister env w t' s))"
begin

text \<open>Registering a workflow again replaces what it was on; unregistering undoes either.\<close>

lemma registered_again:
  assumes "inv s" and "fair env s" and "fair env' s'" and "trigger_type t = kind" and "trigger_type t' = kind"
    and "register env w (Some t) s = (None, s')" and "register env' w (Some t') s' = (None, s'')"
  shows "on s'' = (on s)(w \<mapsto> topic t')"
proof -
  have "inv s'" using register_inv [OF assms(1,2), of w "Some t"] assms(6) by simp
  then show ?thesis using registered [OF assms(1,2,4,6)] registered [OF _ assms(3,5,7)] by simp
qed

lemma register_then_unregister:
  assumes "inv s" and "fair env s" and "trigger_type t = kind" and "on s w = None"
    and "register env w (Some t) s = (e, s')"
  shows "on (snd (unregister env' w t' s')) = on s"
proof -
  have i: "inv s'" using register_inv [OF assms(1,2), of w "Some t"] assms(5) by simp
  have "on s' = (on s)(w \<mapsto> topic t) \<or> on s' = (on s)(w := None) \<or> on s' = on s"
    using registered [OF assms(1-3)] refused [OF assms(1,2)] assms(5) by (cases e) auto
  moreover have "on (snd (unregister env' w t' s')) = (on s')(w := None)"
    using unregistered [OF i] by (cases "unregister env' w t' s'") simp
  ultimately show ?thesis using assms(4) by (auto simp: fun_upd_idem)
qed

lemma unregister_idempotent:
  assumes "inv s"
  shows "on (snd (unregister env' w t' (snd (unregister env w t s)))) = on (snd (unregister env w t s))"
  using unregistered [OF assms, of env w t] unregistered [OF unregister_inv [OF assms, of env w t], of env' w t']
  by (cases "unregister env w t s"; cases "unregister env' w t' (snd (unregister env w t s))") simp

text \<open>A registration of one workflow does not touch the others.\<close>

lemma register_others:
  assumes "inv s" and "fair env s" and "trigger_type t = kind" and "v \<noteq> w"
  shows "on (snd (register env w (Some t) s)) v = on s v"
proof (cases "register env w (Some t) s")
  case (Pair e s')
  then show ?thesis
    using registered [OF assms(1-3), of w s'] refused [OF assms(1,2), of w t] assms(4) by (cases e) auto
qed

end

subsection \<open>The event registrar\<close>

text \<open>What the bus answers during an operation: the error it gives for a subject, if any.\<close>

record bus =
  subscribe_fails :: "string \<Rightarrow> string option"
  unsubscribe_fails :: "string \<Rightarrow> string option"

text \<open>
  The maps of \<open>EventTriggerRegistrar\<close>; the entry of a subject is its \<open>refWorkflows\<close>. The list
  \<open>live\<close> is the bus's side: the subjects subscribed and not unsubscribed, one per subscription.
\<close>

record event_registrar =
  subjects :: "string \<Rightarrow> string set option"
  er_workflows :: "string \<Rightarrow> string option"
  live :: "string list"

definition NewEventTriggerRegistrar :: event_registrar where
  "NewEventTriggerRegistrar = \<lparr>subjects = (\<lambda>_. None), er_workflows = (\<lambda>_. None), live = []\<rparr>"

definition releaseLocked :: "bus \<Rightarrow> string \<Rightarrow> string \<Rightarrow> event_registrar \<Rightarrow> trigger_error option \<times> event_registrar" where
  "releaseLocked B w subject r =
     (case subjects r subject of
        None \<Rightarrow> (None, r\<lparr>er_workflows := (er_workflows r)(w := None)\<rparr>)
      | Some refs \<Rightarrow>
          let refs' = refs - {w};
              r = r\<lparr>subjects := (subjects r)(subject \<mapsto> refs'), er_workflows := (er_workflows r)(w := None)\<rparr>
          in if refs' \<noteq> {} then (None, r)
             else let r = r\<lparr>subjects := (subjects r)(subject := None)\<rparr>
                  in (case unsubscribe_fails B subject of
                        Some why \<Rightarrow> (Some (CannotUnsubscribe subject why), r)
                      | None \<Rightarrow> (None, r\<lparr>live := remove1 subject (live r)\<rparr>)))"

definition event_attach :: "bus \<Rightarrow> string \<Rightarrow> string \<Rightarrow> event_registrar \<Rightarrow> trigger_error option \<times> event_registrar" where
  "event_attach B w subject r =
     (case subjects r subject of
        Some refs \<Rightarrow>
          (None, r\<lparr>subjects := (subjects r)(subject \<mapsto> insert w refs), er_workflows := (er_workflows r)(w \<mapsto> subject)\<rparr>)
      | None \<Rightarrow>
          (case subscribe_fails B subject of
             Some why \<Rightarrow> (Some (CannotSubscribe subject why), r)
           | None \<Rightarrow>
               (None, r\<lparr>subjects := (subjects r)(subject \<mapsto> {w}), er_workflows := (er_workflows r)(w \<mapsto> subject),
                        live := subject # live r\<rparr>)))"

definition event_Register :: "bus \<Rightarrow> string \<Rightarrow> TriggerConfig option \<Rightarrow> event_registrar \<Rightarrow> trigger_error option \<times> event_registrar" where
  "event_Register B w trigger r =
     (case trigger of
        None \<Rightarrow> (None, r)
      | Some t \<Rightarrow>
          if trigger_type t \<noteq> TriggerTypeEvent then (None, r)
          else if trigger_event t = '''' then (Some NamesNoEvent, r)
          else (case er_workflows r w of
                  None \<Rightarrow> event_attach B w (trigger_event t) r
                | Some prev \<Rightarrow>
                    if prev = trigger_event t then (None, r)
                    else event_attach B w (trigger_event t) (snd (releaseLocked B w prev r))))"

definition event_Unregister :: "bus \<Rightarrow> string \<Rightarrow> TriggerConfig option \<Rightarrow> event_registrar \<Rightarrow> trigger_error option \<times> event_registrar" where
  "event_Unregister B w trigger r =
     (case er_workflows r w of None \<Rightarrow> (None, r) | Some subject \<Rightarrow> releaseLocked B w subject r)"

text \<open>
  The invariant: the entry of a subject holds the workflows on it, and exists when there are
  any; the bus holds a subscription for each entry.
\<close>

definition users :: "(string \<Rightarrow> string option) \<Rightarrow> string \<Rightarrow> string set" where
  "users m s = {w. m w = Some s}"

definition event_inv :: "event_registrar \<Rightarrow> bool" where
  "event_inv r \<longleftrightarrow>
     (\<forall>s. subjects r s = (if users (er_workflows r) s = {} then None else Some (users (er_workflows r) s)))
     \<and> (\<forall>s. users (er_workflows r) s \<noteq> {} \<longrightarrow> s \<in> set (live r)) \<and> '''' \<notin> ran (er_workflows r)"

lemma users_off: "m w = Some s \<Longrightarrow> users (m(w := None)) t = (if t = s then users m s - {w} else users m t)"
  by (auto simp: users_def)

lemma users_on: "m w = None \<Longrightarrow> users (m(w \<mapsto> s)) t = (if t = s then insert w (users m s) else users m t)"
  by (auto simp: users_def)

lemma released:
  assumes "event_inv r" and "er_workflows r w = Some s"
  shows "er_workflows (snd (releaseLocked B w s r)) = (er_workflows r)(w := None)"
    and "event_inv (snd (releaseLocked B w s r))"
proof -
  let ?refs = "users (er_workflows r) s" and ?r = "snd (releaseLocked B w s r)"
  have "w \<in> ?refs" using assms(2) by (simp add: users_def)
  then have e: "subjects r s = Some ?refs" using assms(1) by (auto simp: event_inv_def)
  show w: "er_workflows ?r = (er_workflows r)(w := None)"
    by (auto simp: releaseLocked_def e Let_def split: option.splits)
  have sub: "subjects ?r = (subjects r)(s := (if ?refs - {w} = {} then None else Some (?refs - {w})))"
    by (auto simp: releaseLocked_def e Let_def split: option.splits)
  have rm: "set xs - {s} \<subseteq> set (remove1 s xs)" for xs by (induction xs) auto
  have "set (live r) - {s} \<subseteq> set (live ?r)" "?refs - {w} \<noteq> {} \<Longrightarrow> live ?r = live r"
    using rm [of "live r"] by (auto simp: releaseLocked_def e Let_def split: option.splits)
  moreover have "'''' \<notin> ran ((er_workflows r)(w := None))" using assms(1) by (auto simp: event_inv_def ran_def)
  moreover have "s \<in> set (live r)" using assms(1) \<open>w \<in> ?refs\<close> by (auto simp: event_inv_def)
  ultimately show "event_inv ?r"
    unfolding event_inv_def w sub users_off [of "er_workflows r", OF assms(2)]
    using assms(1) by (auto simp: event_inv_def)
qed

lemma attached:
  assumes "event_inv r" and "er_workflows r w = None" and "s \<noteq> ''''"
  shows "fst (event_attach B w s r) = None \<Longrightarrow> er_workflows (snd (event_attach B w s r)) = (er_workflows r)(w \<mapsto> s)"
    and "fst (event_attach B w s r) \<noteq> None \<Longrightarrow> snd (event_attach B w s r) = r"
    and "event_inv (snd (event_attach B w s r))"
proof -
  let ?r = "snd (event_attach B w s r)"
  show ok: "fst (event_attach B w s r) = None \<Longrightarrow> er_workflows ?r = (er_workflows r)(w \<mapsto> s)"
    and bad: "fst (event_attach B w s r) \<noteq> None \<Longrightarrow> ?r = r"
    by (auto simp: event_attach_def split: option.splits)
  show "event_inv ?r"
  proof (cases "fst (event_attach B w s r)")
    case None
    have sub: "subjects ?r = (subjects r)(s \<mapsto> insert w (users (er_workflows r) s))"
      using None assms(1) by (auto simp: event_attach_def event_inv_def split: option.splits if_splits)
    have "set (live r) \<subseteq> set (live ?r)" "s \<in> set (live ?r)"
      using None assms(1) by (auto simp: event_attach_def event_inv_def split: option.splits if_splits)
    moreover have "'''' \<notin> ran ((er_workflows r)(w \<mapsto> s))" using assms by (auto simp: event_inv_def ran_def)
    ultimately show ?thesis
      unfolding event_inv_def ok [OF None] sub users_on [of "er_workflows r", OF assms(2)]
      using assms(1) by (auto simp: event_inv_def)
  next
    case (Some e)
    then show ?thesis using bad assms(1) by simp
  qed
qed

lemma event_registered:
  assumes "event_inv r" and "trigger_type t = TriggerTypeEvent" and "event_Register B w (Some t) r = (None, r')"
  shows "er_workflows r' = (er_workflows r)(w \<mapsto> trigger_event t)"
proof (cases "er_workflows r w")
  case None
  then show ?thesis
    using assms attached(1) [OF assms(1) None, of "trigger_event t" B] by (auto simp: event_Register_def split: if_splits)
next
  case (Some prev)
  note rel = released [OF assms(1) Some, of B]
  show ?thesis
    using assms Some rel attached(1) [OF rel(2), of w "trigger_event t" B]
    by (auto simp: event_Register_def fun_upd_idem split: if_splits)
qed

lemma event_refused:
  assumes "event_inv r" and "event_Register B w (Some t) r = (Some e, r')"
  shows "er_workflows r' = (er_workflows r)(w := None) \<or> er_workflows r' = er_workflows r"
proof (cases "er_workflows r w")
  case None
  then show ?thesis
    using assms attached(2) [OF assms(1) None, of "trigger_event t" B] by (auto simp: event_Register_def split: if_splits)
next
  case (Some prev)
  note rel = released [OF assms(1) Some, of B]
  show ?thesis
    using assms Some rel attached(2) [OF rel(2), of w "trigger_event t" B]
    by (auto simp: event_Register_def split: if_splits)
qed

lemma event_register_inv:
  assumes "event_inv r"
  shows "event_inv (snd (event_Register B w t r))"
proof (cases t)
  case (Some t')
  show ?thesis
  proof (cases "er_workflows r w")
    case None
    then show ?thesis using assms attached(3) [OF assms None] Some by (auto simp: event_Register_def)
  next
    case (Some prev)
    note rel = released [OF assms Some, of B]
    show ?thesis using assms Some \<open>t = Some t'\<close> rel attached(3) [OF rel(2)] by (auto simp: event_Register_def)
  qed
qed (use assms in \<open>simp add: event_Register_def\<close>)

interpretation events: registrar TriggerTypeEvent trigger_event event_Register event_Unregister er_workflows event_inv "\<lambda>_ _. True"
proof
  show "event_inv s \<Longrightarrow> True \<Longrightarrow> trigger_type t = TriggerTypeEvent \<Longrightarrow> event_Register env w (Some t) s = (None, s') \<Longrightarrow>
      er_workflows s' = (er_workflows s)(w \<mapsto> trigger_event t)" for s env t w s'
    by (rule event_registered)
  show "event_inv s \<Longrightarrow> True \<Longrightarrow> event_Register env w (Some t) s = (Some e, s') \<Longrightarrow>
      er_workflows s' = (er_workflows s)(w := None) \<or> er_workflows s' = er_workflows s" for s env w t e s'
    by (rule event_refused)
  show "event_inv s \<Longrightarrow> event_Unregister env w t' s = (e', s') \<Longrightarrow> er_workflows s' = (er_workflows s)(w := None)" for s env w t' e' s'
    using released(1) [of s w _ env] by (auto simp: event_Unregister_def fun_upd_idem split: option.splits)
  show "event_inv s \<Longrightarrow> True \<Longrightarrow> event_inv (snd (event_Register env w t' s))" for s env w t'
    by (rule event_register_inv)
  show "event_inv s \<Longrightarrow> event_inv (snd (event_Unregister env w t' s))" for s env w t'
    using released(2) [of s w _ env] by (auto simp: event_Unregister_def split: option.splits)
qed
subsection \<open>The schedule registrar\<close>

text \<open>
  \<open>ScheduleTriggerRegistrar\<close>. The cron library answers \<open>AddFunc\<close> with an error for a schedule it
  cannot parse, or the id of the new entry, which it never uses twice. The list \<open>entries\<close> is
  the library's side: its jobs, each with its schedule and the workflow it fires.
\<close>

type_synonym cron = "string \<Rightarrow> (string, nat) res"

record schedule_registrar =
  jobs :: "string \<Rightarrow> nat option"
  entries :: "(nat \<times> string \<times> string) list"

definition NewScheduleTriggerRegistrar :: schedule_registrar where
  "NewScheduleTriggerRegistrar = \<lparr>jobs = (\<lambda>_. None), entries = []\<rparr>"

definition remove_job :: "string \<Rightarrow> schedule_registrar \<Rightarrow> schedule_registrar" where
  "remove_job w r =
     (case jobs r w of
        None \<Rightarrow> r
      | Some i \<Rightarrow> r\<lparr>jobs := (jobs r)(w := None), entries := filter (\<lambda>e. fst e \<noteq> i) (entries r)\<rparr>)"

definition schedule_Register ::
  "cron \<Rightarrow> string \<Rightarrow> TriggerConfig option \<Rightarrow> schedule_registrar \<Rightarrow> trigger_error option \<times> schedule_registrar" where
  "schedule_Register C w trigger r =
     (case trigger of
        None \<Rightarrow> (None, r)
      | Some t \<Rightarrow>
          if trigger_type t \<noteq> TriggerTypeSchedule then (None, r)
          else if trigger_schedule t = '''' then (Some NamesNoSchedule, r)
          else
            let r = remove_job w r in
            (case C (trigger_schedule t) of
               Inl why \<Rightarrow> (Some (BadSchedule (trigger_schedule t) why), r)
             | Inr i \<Rightarrow> (None, r\<lparr>jobs := (jobs r)(w \<mapsto> i), entries := (i, trigger_schedule t, w) # entries r\<rparr>)))"

definition schedule_Unregister ::
  "cron \<Rightarrow> string \<Rightarrow> TriggerConfig option \<Rightarrow> schedule_registrar \<Rightarrow> trigger_error option \<times> schedule_registrar" where
  "schedule_Unregister C w trigger r = (None, remove_job w r)"

text \<open>The schedule a workflow fires on: that of the entry its job names.\<close>

definition scheduled :: "schedule_registrar \<Rightarrow> string \<Rightarrow> string option" where
  "scheduled r w = (case jobs r w of None \<Rightarrow> None | Some i \<Rightarrow> map_option fst (map_of (entries r) i))"

definition fresh_ids :: "cron \<Rightarrow> schedule_registrar \<Rightarrow> bool" where
  "fresh_ids C r \<longleftrightarrow> (\<forall>s i. C s = Inr i \<longrightarrow> i \<notin> fst ` set (entries r))"

text \<open>Each entry is the job of its workflow, and each job has its entry.\<close>

definition schedule_inv :: "schedule_registrar \<Rightarrow> bool" where
  "schedule_inv r \<longleftrightarrow> distinct (map fst (entries r))
     \<and> (\<forall>w i. jobs r w = Some i \<longleftrightarrow> (\<exists>s. (i, s, w) \<in> set (entries r)))"

lemma jobs_distinct: "schedule_inv r \<Longrightarrow> jobs r v = Some i \<Longrightarrow> jobs r w = Some i \<Longrightarrow> v = w"
  unfolding schedule_inv_def by (metis Pair_inject eq_key_imp_eq_value)

lemma scheduled_eq: "schedule_inv r \<Longrightarrow> scheduled r w = Some s \<longleftrightarrow> (\<exists>i. (i, s, w) \<in> set (entries r))"
proof
  assume i: "schedule_inv r" and "scheduled r w = Some s"
  then obtain i v where "jobs r w = Some i" "map_of (entries r) i = Some (s, v)"
    by (auto simp: scheduled_def split: option.splits)
  moreover from this(2) have "(i, s, v) \<in> set (entries r)" by (rule map_of_SomeD)
  moreover from this have "jobs r v = Some i" using i by (auto simp: schedule_inv_def)
  ultimately show "\<exists>i. (i, s, w) \<in> set (entries r)" using jobs_distinct [OF i] by blast
next
  assume i: "schedule_inv r" and "\<exists>i. (i, s, w) \<in> set (entries r)"
  then obtain i where "(i, s, w) \<in> set (entries r)" by blast
  then have "jobs r w = Some i" "map_of (entries r) i = Some (s, w)" using i by (auto simp: schedule_inv_def)
  then show "scheduled r w = Some s" by (simp add: scheduled_def)
qed

lemma remove_job_entries:
  assumes "schedule_inv r"
  shows "set (entries (remove_job w r)) = {e \<in> set (entries r). snd (snd e) \<noteq> w}"
proof -
  have "e \<in> set (entries r) \<Longrightarrow> jobs r (snd (snd e)) = Some (fst e)" for e
    using assms by (cases e) (auto simp: schedule_inv_def)
  then show ?thesis
    using jobs_distinct [OF assms] by (fastforce simp: remove_job_def split: option.splits)
qed

lemma remove_job_inv:
  assumes "schedule_inv r"
  shows "schedule_inv (remove_job w r)"
proof -
  have "distinct (map fst (entries (remove_job w r)))"
    using assms by (auto simp: remove_job_def schedule_inv_def distinct_filter_fst split: option.splits)
  moreover have "jobs (remove_job w r) = (jobs r)(w := None)"
    by (auto simp: remove_job_def fun_upd_idem split: option.splits)
  ultimately show ?thesis
    using assms unfolding schedule_inv_def remove_job_entries [OF assms] by auto
qed

lemma option_ext: "(\<And>a. x = Some a \<longleftrightarrow> y = Some a) \<Longrightarrow> x = y"
  by (cases x; cases y) auto

lemma scheduled_removed:
  assumes "schedule_inv r"
  shows "scheduled (remove_job w r) = (scheduled r)(w := None)"
proof (intro ext option_ext)
  fix v s
  show "scheduled (remove_job w r) v = Some s \<longleftrightarrow> ((scheduled r)(w := None)) v = Some s"
    using scheduled_eq [OF remove_job_inv [OF assms], of w v s] scheduled_eq [OF assms, of v s]
    by (auto simp: remove_job_entries [OF assms])
qed

lemma added_job:
  assumes "schedule_inv r" and "jobs r w = None" and "i \<notin> fst ` set (entries r)"
  shows "schedule_inv (r\<lparr>jobs := (jobs r)(w \<mapsto> i), entries := (i, s, w) # entries r\<rparr>)" (is "schedule_inv ?r")
    and "scheduled (r\<lparr>jobs := (jobs r)(w \<mapsto> i), entries := (i, s, w) # entries r\<rparr>) = (scheduled r)(w \<mapsto> s)"
proof -
  have "(j, s', w) \<notin> set (entries r)" for j s' using assms(1,2) unfolding schedule_inv_def by (metis option.discI)
  moreover have "jobs r v \<noteq> Some i" for v using assms(1,3) by (force simp: schedule_inv_def)
  ultimately show i: "schedule_inv ?r"
    using assms unfolding schedule_inv_def by (auto simp: image_iff)
  show "scheduled ?r = (scheduled r)(w \<mapsto> s)"
  proof (intro ext option_ext)
    fix v s'
    show "scheduled ?r v = Some s' \<longleftrightarrow> ((scheduled r)(w \<mapsto> s)) v = Some s'"
      using scheduled_eq [OF i, of v s'] scheduled_eq [OF assms(1), of v s'] \<open>\<And>j s'. (j, s', w) \<notin> set (entries r)\<close>
      by auto
  qed
qed

lemma jobs_removed: "jobs (remove_job w r) = (jobs r)(w := None)"
  by (auto simp: remove_job_def fun_upd_idem split: option.splits)

lemma fresh_removed: "fresh_ids C r \<Longrightarrow> C s = Inr i \<Longrightarrow> i \<notin> fst ` set (entries (remove_job w r))"
  by (auto simp: fresh_ids_def remove_job_def split: option.splits)

interpretation schedules: registrar TriggerTypeSchedule trigger_schedule schedule_Register schedule_Unregister
  scheduled schedule_inv fresh_ids
proof
  fix s C w s' and t :: TriggerConfig
  assume i: "schedule_inv s" and f: "fresh_ids C s" and "trigger_type t = TriggerTypeSchedule"
    and "schedule_Register C w (Some t) s = (None, s')"
  then obtain j where "C (trigger_schedule t) = Inr j"
    "s' = (remove_job w s)\<lparr>jobs := (jobs (remove_job w s))(w \<mapsto> j), entries := (j, trigger_schedule t, w) # entries (remove_job w s)\<rparr>"
    by (auto simp: schedule_Register_def Let_def split: if_splits sum.splits)
  then show "scheduled s' = (scheduled s)(w \<mapsto> trigger_schedule t)"
    using added_job(2) [OF remove_job_inv [OF i], of w w j] fresh_removed [OF f] scheduled_removed [OF i, of w]
    by (simp add: jobs_removed)
next
  fix s C w s' and t :: TriggerConfig and e
  assume i: "schedule_inv s" and "fresh_ids C s" and r: "schedule_Register C w (Some t) s = (Some e, s')"
  then show "scheduled s' = (scheduled s)(w := None) \<or> scheduled s' = scheduled s"
    using scheduled_removed [OF i, of w] by (auto simp: schedule_Register_def Let_def split: if_splits sum.splits)
next
  fix s C w t' e' s'
  assume i: "schedule_inv s" and "schedule_Unregister C w t' s = (e', s')"
  then show "scheduled s' = (scheduled s)(w := None)"
    using scheduled_removed [OF i, of w] by (simp add: schedule_Unregister_def)
next
  fix s C w t'
  assume i: "schedule_inv s" and f: "fresh_ids C s"
  show "schedule_inv (snd (schedule_Register C w t' s))"
  proof (cases t')
    case (Some t)
    show ?thesis
      using i added_job(1) [OF remove_job_inv [OF i], of w w] fresh_removed [OF f] remove_job_inv [OF i, of w] Some
      by (auto simp: schedule_Register_def Let_def jobs_removed split: sum.splits)
  qed (use i in \<open>simp add: schedule_Register_def\<close>)
next
  fix s C w t'
  assume "schedule_inv s"
  then show "schedule_inv (snd (schedule_Unregister C w t' s))" by (simp add: schedule_Unregister_def remove_job_inv)
qed

subsection \<open>The composite\<close>

text \<open>
  \<open>CompositeRegistrar\<close> as \<open>app.go\<close> sets it up: the types event and schedule have the registrars
  above, the type command one that does nothing, and no other type is supported.
\<close>

record composite =
  event_reg :: event_registrar
  schedule_reg :: schedule_registrar

definition NewCompositeRegistrar :: composite where
  "NewCompositeRegistrar = \<lparr>event_reg = NewEventTriggerRegistrar, schedule_reg = NewScheduleTriggerRegistrar\<rparr>"

definition with_event :: "composite \<Rightarrow> 'e \<times> event_registrar \<Rightarrow> 'e \<times> composite" where
  "with_event c r = (fst r, c\<lparr>event_reg := snd r\<rparr>)"

definition with_schedule :: "composite \<Rightarrow> 'e \<times> schedule_registrar \<Rightarrow> 'e \<times> composite" where
  "with_schedule c r = (fst r, c\<lparr>schedule_reg := snd r\<rparr>)"

definition composite_Register :: "bus \<times> cron \<Rightarrow> string \<Rightarrow> TriggerConfig option \<Rightarrow> composite \<Rightarrow> trigger_error option \<times> composite" where
  "composite_Register env w trigger c =
     (case trigger of
        None \<Rightarrow> (None, c)
      | Some t \<Rightarrow>
          if trigger_type t = TriggerTypeEvent then with_event c (event_Register (fst env) w trigger (event_reg c))
          else if trigger_type t = TriggerTypeSchedule then with_schedule c (schedule_Register (snd env) w trigger (schedule_reg c))
          else if trigger_type t = TriggerTypeCommand then (None, c)
          else (Some (NotSupported (trigger_type t)), c))"

definition composite_Unregister :: "bus \<times> cron \<Rightarrow> string \<Rightarrow> TriggerConfig option \<Rightarrow> composite \<Rightarrow> trigger_error option \<times> composite" where
  "composite_Unregister env w trigger c =
     (case trigger of
        None \<Rightarrow> (None, c)
      | Some t \<Rightarrow>
          if trigger_type t = TriggerTypeEvent then with_event c (event_Unregister (fst env) w trigger (event_reg c))
          else if trigger_type t = TriggerTypeSchedule then with_schedule c (schedule_Unregister (snd env) w trigger (schedule_reg c))
          else if trigger_type t = TriggerTypeCommand then (None, c)
          else (Some (NoRegistrar (trigger_type t)), c))"

definition composite_inv :: "composite \<Rightarrow> bool" where
  "composite_inv c \<longleftrightarrow> event_inv (event_reg c) \<and> schedule_inv (schedule_reg c)"

definition composite_fair :: "bus \<times> cron \<Rightarrow> composite \<Rightarrow> bool" where
  "composite_fair env c \<longleftrightarrow> fresh_ids (snd env) (schedule_reg c)"

lemma composite_start: "composite_inv NewCompositeRegistrar"
  by (simp add: composite_inv_def NewCompositeRegistrar_def event_inv_def schedule_inv_def users_def
      NewEventTriggerRegistrar_def NewScheduleTriggerRegistrar_def)

lemma trigger_types [simp]:
  "TriggerTypeEvent \<noteq> TriggerTypeSchedule" "TriggerTypeSchedule \<noteq> TriggerTypeEvent"
  "TriggerTypeCommand \<noteq> TriggerTypeEvent" "TriggerTypeCommand \<noteq> TriggerTypeSchedule"
  by (simp_all add: TriggerTypeEvent_def TriggerTypeSchedule_def TriggerTypeCommand_def)

end
