(* ===== verification/Registry.thy ===== *)
theory Registry
  imports Validation Triggers Event_Match Run_Branches "HOL-Library.AList"
begin

text \<open>
  \<open>WorkflowRegistry\<close> of \<open>workflow/internal/engine/registry.go\<close> with the composite registrar \<open>app.go\<close>
  gives it. A registry is used from several goroutines, but the bookkeeping of one workflow is
  driven by one of them at a time, so an operation is one step. The answers of the bus and the
  cron library are an argument of each operation.
\<close>

subsection \<open>The registry\<close>

text \<open>The definitions are listed in the order the runtime iterates the map; ids are distinct.\<close>

record registry =
  workflows :: "(string \<times> WorkflowDefinition) list"
  registrar_state :: composite

definition NewWorkflowRegistry :: registry where
  "NewWorkflowRegistry = \<lparr>workflows = [], registrar_state = NewCompositeRegistrar\<rparr>"

datatype 'p register_error = Refused "'p check_error" | TriggerFailed trigger_error

definition Get :: "string \<Rightarrow> registry \<Rightarrow> WorkflowDefinition option" where
  "Get i r = map_of (workflows r) i"

text \<open>The error of unregistering a trigger is logged only.\<close>

definition drop_trigger :: "bus \<times> cron \<Rightarrow> string \<Rightarrow> TriggerConfig option \<Rightarrow> registry \<Rightarrow> registry" where
  "drop_trigger env i t r =
     (if t = None then r else r\<lparr>registrar_state := snd (composite_Unregister env i t (registrar_state r))\<rparr>)"

definition Remove :: "bus \<times> cron \<Rightarrow> string \<Rightarrow> registry \<Rightarrow> registry" where
  "Remove env i r =
     (case map_of (workflows r) i of
        None \<Rightarrow> r
      | Some d \<Rightarrow> drop_trigger env i (def_trigger d) (r\<lparr>workflows := AList.delete i (workflows r)\<rparr>))"

definition Register ::
  "(string \<Rightarrow> obj \<Rightarrow> 'p option) \<Rightarrow> bus \<times> cron \<Rightarrow> WorkflowDefinition \<Rightarrow> registry \<Rightarrow> 'p register_error option \<times> registry" where
  "Register P env d r =
     (case check P d of
        Some e \<Rightarrow> (Some (Refused e), if def_id d \<noteq> '''' then Remove env (def_id d) r else r)
      | None \<Rightarrow>
          let prev = map_of (workflows r) (def_id d);
              r = r\<lparr>workflows := AList.update (def_id d) d (workflows r)\<rparr>;
              r = (case prev of Some p \<Rightarrow> drop_trigger env (def_id d) (def_trigger p) r | None \<Rightarrow> r)
          in (if def_trigger d = None then (None, r)
              else (case composite_Register env (def_id d) (def_trigger d) (registrar_state r) of
                      (e, c) \<Rightarrow> (map_option TriggerFailed e, r\<lparr>registrar_state := c\<rparr>))))"

definition listens_to :: "WorkflowDefinition \<Rightarrow> string \<Rightarrow> bool" where
  "listens_to d event =
     (case def_trigger d of
        None \<Rightarrow> False
      | Some t \<Rightarrow> trigger_type t = TriggerTypeEvent \<and> Matches (trigger_event t) event)"

definition GetByEvent :: "string \<Rightarrow> registry \<Rightarrow> WorkflowDefinition list" where
  "GetByEvent event r = filter (\<lambda>d. listens_to d event) (map snd (workflows r))"

definition List :: "registry \<Rightarrow> WorkflowDefinition list" where
  "List r = map snd (workflows r)"

subsection \<open>Agreement with the registrars\<close>

text \<open>What the registrars have a workflow on: the type of trigger and the subject or schedule.\<close>

definition armed :: "composite \<Rightarrow> string \<Rightarrow> (string \<times> string) set" where
  "armed c w = {(TriggerTypeEvent, s) | s. er_workflows (event_reg c) w = Some s}
             \<union> {(TriggerTypeSchedule, s) | s. scheduled (schedule_reg c) w = Some s}"

fun wanted :: "TriggerConfig option \<Rightarrow> (string \<times> string) set" where
  "wanted None = {}"
| "wanted (Some t) =
     (if trigger_type t = TriggerTypeEvent then {(TriggerTypeEvent, trigger_event t)}
      else if trigger_type t = TriggerTypeSchedule then {(TriggerTypeSchedule, trigger_schedule t)} else {})"

lemma armed_unregister:
  assumes "composite_inv c" and "armed c w \<subseteq> wanted t" and "composite_Unregister env w t c = (e, c')"
  shows "composite_inv c' \<and> armed c' w = {} \<and> (\<forall>v. v \<noteq> w \<longrightarrow> armed c' v = armed c v)"
proof (cases t)
  case None
  then show ?thesis using assms by (simp add: composite_Unregister_def)
next
  case (Some tr)
  have i: "event_inv (event_reg c)" "schedule_inv (schedule_reg c)" using assms(1) by (simp_all add: composite_inv_def)
  show ?thesis
  proof (cases "trigger_type tr = TriggerTypeEvent")
    case True
    obtain e' r' where r: "event_Unregister (fst env) w t (event_reg c) = (e', r')" by fastforce
    have "er_workflows r' = (er_workflows (event_reg c))(w := None)" "event_inv r'"
      using events.unregistered [OF i(1) r] events.unregister_inv [OF i(1), of "fst env" w t] r by simp_all
    moreover have "scheduled (schedule_reg c) w = None"
      using assms(2) True Some by (cases "scheduled (schedule_reg c) w") (auto simp: armed_def)
    ultimately show ?thesis
      using assms(3) True Some r i by (auto simp: composite_Unregister_def with_event_def composite_inv_def armed_def)
  next
    case ev: False
    have "er_workflows (event_reg c) w = None"
      using assms(2) ev Some by (cases "er_workflows (event_reg c) w") (auto simp: armed_def split: if_splits)
    show ?thesis
    proof (cases "trigger_type tr = TriggerTypeSchedule")
      case True
      obtain e' r' where r: "schedule_Unregister (snd env) w t (schedule_reg c) = (e', r')" by fastforce
      have "scheduled r' = (scheduled (schedule_reg c))(w := None)" "schedule_inv r'"
        using schedules.unregistered [OF i(2) r] schedules.unregister_inv [OF i(2), of "snd env" w t] r by simp_all
      then show ?thesis
        using assms(3) True Some r i ev \<open>er_workflows (event_reg c) w = None\<close>
        by (auto simp: composite_Unregister_def with_schedule_def composite_inv_def armed_def)
    next
      case False
      then show ?thesis using assms ev Some by (auto simp: composite_Unregister_def split: if_splits)
    qed
  qed
qed

lemma armed_register:
  assumes "composite_inv c" and "composite_fair env c" and "armed c w = {}" and "composite_Register env w t c = (e, c')"
  shows "composite_inv c' \<and> (\<forall>v. v \<noteq> w \<longrightarrow> armed c' v = armed c v)
    \<and> armed c' w = (if e = None then wanted t else {})"
proof (cases t)
  case None
  then show ?thesis using assms by (simp add: composite_Register_def)
next
  case (Some tr)
  have i: "event_inv (event_reg c)" "schedule_inv (schedule_reg c)" "fresh_ids (snd env) (schedule_reg c)"
    using assms(1,2) by (simp_all add: composite_inv_def composite_fair_def)
  have n: "er_workflows (event_reg c) w = None" "scheduled (schedule_reg c) w = None"
    using assms(3) by (auto simp: armed_def)
  show ?thesis
  proof (cases "trigger_type tr = TriggerTypeEvent")
    case True
    obtain e' r' where r: "event_Register (fst env) w t (event_reg c) = (e', r')" by fastforce
    have "er_workflows r' = (if e' = None then (er_workflows (event_reg c))(w \<mapsto> trigger_event tr) else er_workflows (event_reg c))"
      using events.registered [OF i(1) _ True, of "fst env" w r'] events.refused [OF i(1), of "fst env" w tr _ r'] r n(1) Some
      by (cases e') (auto simp: fun_upd_idem)
    moreover have "event_inv r'" using events.register_inv [OF i(1), of "fst env" w t] r by simp
    ultimately show ?thesis
      using assms(4) True Some r i n
      by (auto simp: composite_Register_def with_event_def composite_inv_def armed_def split: if_splits)
  next
    case ev: False
    show ?thesis
    proof (cases "trigger_type tr = TriggerTypeSchedule")
      case True
      obtain e' r' where r: "schedule_Register (snd env) w t (schedule_reg c) = (e', r')" by fastforce
      have "scheduled r' = (if e' = None then (scheduled (schedule_reg c))(w \<mapsto> trigger_schedule tr) else scheduled (schedule_reg c))"
        using schedules.registered [OF i(2,3) True, of w r'] schedules.refused [OF i(2,3), of w tr _ r'] r n(2) Some
        by (cases e') (auto simp: fun_upd_idem)
      moreover have "schedule_inv r'" using schedules.register_inv [OF i(2,3), of w t] r by simp
      ultimately show ?thesis
        using assms(4) ev True Some r i n
        by (auto simp: composite_Register_def with_schedule_def composite_inv_def armed_def split: if_splits)
    next
      case False
      then show ?thesis using assms ev Some by (auto simp: composite_Register_def split: if_splits)
    qed
  qed
qed
subsection \<open>Operations in sequence\<close>

datatype registry_op =
    Do_register "bus \<times> cron" WorkflowDefinition
  | Do_remove "bus \<times> cron" string

text \<open>
  The second component holds the workflows whose last registration reported no error and that
  were not removed since.
\<close>

fun perform_op :: "(string \<Rightarrow> obj \<Rightarrow> 'p option) \<Rightarrow> registry_op \<Rightarrow> registry \<times> string set \<Rightarrow> registry \<times> string set" where
  "perform_op P (Do_register env d) (r, H) =
     (case Register P env d r of
        (None, r') \<Rightarrow> (r', insert (def_id d) H) | (Some e, r') \<Rightarrow> (r', H - {def_id d}))"
| "perform_op P (Do_remove env i) (r, H) = (Remove env i r, H - {i})"

definition perform_ops :: "(string \<Rightarrow> obj \<Rightarrow> 'p option) \<Rightarrow> registry_op list \<Rightarrow> registry \<times> string set \<Rightarrow> registry \<times> string set" where
  "perform_ops P ops s = fold (perform_op P) ops s"

text \<open>What is relied on of the cron library: it never hands out an id twice.\<close>

fun op_env :: "registry_op \<Rightarrow> bus \<times> cron" where
  "op_env (Do_register env d) = env"
| "op_env (Do_remove env i) = env"

fun fair_ops :: "(string \<Rightarrow> obj \<Rightarrow> 'p option) \<Rightarrow> registry_op list \<Rightarrow> registry \<times> string set \<Rightarrow> bool" where
  "fair_ops P [] s = True"
| "fair_ops P (p # ps) s = (composite_fair (op_env p) (registrar_state (fst s)) \<and> fair_ops P ps (perform_op P p s))"

definition agrees :: "registry \<Rightarrow> bool" where
  "agrees r \<longleftrightarrow> composite_inv (registrar_state r)
     \<and> (\<forall>w. armed (registrar_state r) w \<subseteq>
            (case map_of (workflows r) w of None \<Rightarrow> {} | Some d \<Rightarrow> wanted (def_trigger d)))"

definition registered :: "(string \<Rightarrow> obj \<Rightarrow> 'p option) \<Rightarrow> registry \<Rightarrow> bool" where
  "registered P r \<longleftrightarrow> distinct (map fst (workflows r))
     \<and> (\<forall>w d. map_of (workflows r) w = Some d \<longrightarrow> def_id d = w \<and> check P d = None)"

definition healthy :: "registry \<times> string set \<Rightarrow> bool" where
  "healthy s \<longleftrightarrow> (\<forall>w \<in> snd s. \<exists>d. map_of (workflows (fst s)) w = Some d \<and> armed (registrar_state (fst s)) w = wanted (def_trigger d))"

lemma wanted_None [simp]: "t = None \<Longrightarrow> wanted t = {}"
  by simp

lemma dropped:
  assumes "composite_inv (registrar_state r)" and "armed (registrar_state r) w \<subseteq> wanted t"
  shows "composite_inv (registrar_state (drop_trigger env w t r))"
    and "armed (registrar_state (drop_trigger env w t r)) w = {}"
    and "v \<noteq> w \<Longrightarrow> armed (registrar_state (drop_trigger env w t r)) v = armed (registrar_state r) v"
    and "workflows (drop_trigger env w t r) = workflows r"
proof -
  obtain e c' where c: "composite_Unregister env w t (registrar_state r) = (e, c')" by fastforce
  note u = armed_unregister [OF assms c]
  show "composite_inv (registrar_state (drop_trigger env w t r))"
    "armed (registrar_state (drop_trigger env w t r)) w = {}"
    "v \<noteq> w \<Longrightarrow> armed (registrar_state (drop_trigger env w t r)) v = armed (registrar_state r) v"
    "workflows (drop_trigger env w t r) = workflows r"
    using u assms c by (auto simp: drop_trigger_def)
qed

lemma removed:
  assumes "agrees r"
  shows "agrees (Remove env i r)" and "armed (registrar_state (Remove env i r)) i = {}"
    and "v \<noteq> i \<Longrightarrow> armed (registrar_state (Remove env i r)) v = armed (registrar_state r) v"
    and "map_of (workflows (Remove env i r)) = (map_of (workflows r))(i := None)"
proof -
  have i: "composite_inv (registrar_state r)" using assms by (simp add: agrees_def)
  have a: "armed (registrar_state r) w \<subseteq>
      (case map_of (workflows r) w of None \<Rightarrow> {} | Some d \<Rightarrow> wanted (def_trigger d))" for w
    using assms by (simp add: agrees_def)
  show m: "map_of (workflows (Remove env i r)) = (map_of (workflows r))(i := None)"
    by (auto simp: Remove_def drop_trigger_def fun_upd_idem delete_conv split: option.splits)
  have "composite_inv (registrar_state (Remove env i r)) \<and> armed (registrar_state (Remove env i r)) i = {}
      \<and> (\<forall>v. v \<noteq> i \<longrightarrow> armed (registrar_state (Remove env i r)) v = armed (registrar_state r) v)"
  proof (cases "map_of (workflows r) i")
    case None
    then show ?thesis using i a [of i] by (simp add: Remove_def)
  next
    case (Some d)
    then show ?thesis
      using dropped [of "r\<lparr>workflows := AList.delete i (workflows r)\<rparr>" i "def_trigger d"] i a [of i]
      by (simp add: Remove_def)
  qed
  then show "agrees (Remove env i r)" "armed (registrar_state (Remove env i r)) i = {}"
    "v \<noteq> i \<Longrightarrow> armed (registrar_state (Remove env i r)) v = armed (registrar_state r) v"
    using a m by (auto simp: agrees_def)
qed

lemma fair_dropped:
  "composite_fair env (registrar_state r) \<Longrightarrow> composite_fair env (registrar_state (drop_trigger env' w t r))"
  by (auto simp: composite_fair_def drop_trigger_def composite_Unregister_def with_event_def with_schedule_def
      schedule_Unregister_def fresh_ids_def remove_job_def split: option.splits)

lemma register_accepted:
  assumes "agrees r" and "composite_fair env (registrar_state r)" and "check P d = None" and "Register P env d r = (e, r')"
  shows "agrees r'" and "map_of (workflows r') = (map_of (workflows r))(def_id d \<mapsto> d)"
    and "armed (registrar_state r') (def_id d) = (if e = None then wanted (def_trigger d) else {})"
    and "v \<noteq> def_id d \<Longrightarrow> armed (registrar_state r') v = armed (registrar_state r) v"
proof -
  let ?i = "def_id d"
  let ?r = "r\<lparr>workflows := AList.update ?i d (workflows r)\<rparr>"
  let ?s = "case map_of (workflows r) ?i of Some p \<Rightarrow> drop_trigger env ?i (def_trigger p) ?r | None \<Rightarrow> ?r"
  have i: "composite_inv (registrar_state r)" using assms(1) by (simp add: agrees_def)
  have a: "armed (registrar_state r) w \<subseteq>
      (case map_of (workflows r) w of None \<Rightarrow> {} | Some d \<Rightarrow> wanted (def_trigger d))" for w
    using assms(1) by (simp add: agrees_def)
  have s: "composite_inv (registrar_state ?s)" "armed (registrar_state ?s) ?i = {}"
    "v \<noteq> ?i \<Longrightarrow> armed (registrar_state ?s) v = armed (registrar_state r) v"
    "map_of (workflows ?s) = (map_of (workflows r))(?i \<mapsto> d)" "composite_fair env (registrar_state ?s)" for v
    using i a [of ?i] dropped [of ?r ?i] fair_dropped [of env ?r env ?i] assms(2)
    by (auto simp: update_conv' split: option.splits)
  obtain e' c' where c: "composite_Register env ?i (def_trigger d) (registrar_state ?s) = (e', c')" by fastforce
  note reg = armed_register [OF s(1,5,2) c]
  have r': "(e, r') = (if def_trigger d = None then (None, ?s) else (map_option TriggerFailed e', ?s\<lparr>registrar_state := c'\<rparr>))"
    using assms(3,4) c by (cases "def_trigger d") (auto simp: Register_def Let_def)
  show m: "map_of (workflows r') = (map_of (workflows r))(?i \<mapsto> d)" using r' s(4) by (auto split: if_splits)
  show w: "armed (registrar_state r') ?i = (if e = None then wanted (def_trigger d) else {})"
    using r' reg s(2) by (auto split: if_splits)
  show oth: "v \<noteq> ?i \<Longrightarrow> armed (registrar_state r') v = armed (registrar_state r) v" for v
    using r' reg s(3) by (auto split: if_splits)
  have "composite_inv (registrar_state r')" using r' reg s(1) by (auto split: if_splits)
  moreover have "armed (registrar_state r') v \<subseteq> (case map_of (workflows r') v of None \<Rightarrow> {} | Some d \<Rightarrow> wanted (def_trigger d))" for v
    using w oth [of v] a [of v] m by (cases "v = ?i") auto
  ultimately show "agrees r'" by (simp add: agrees_def)
qed
lemma distinct_register:
  "distinct (map fst (workflows r)) \<Longrightarrow> distinct (map fst (workflows (snd (Register P env d r))))"
  by (auto simp: Register_def Remove_def drop_trigger_def distinct_update distinct_delete Let_def split: option.splits prod.splits)

lemma distinct_remove:
  "distinct (map fst (workflows r)) \<Longrightarrow> distinct (map fst (workflows (Remove env i r)))"
  by (auto simp: Remove_def drop_trigger_def distinct_delete split: option.splits)

lemma register_refused: "check P d = Some x \<Longrightarrow> Register P env d r =
    (Some (Refused x), if def_id d \<noteq> '''' then Remove env (def_id d) r else r)"
  by (simp add: Register_def)

lemma remove_keeps:
  assumes "registered P r" and "agrees r" and "healthy (r, H)"
  shows "registered P (Remove env i r) \<and> agrees (Remove env i r) \<and> healthy (Remove env i r, H - {i})"
  using assms removed [OF assms(2), where env = env and i = i] distinct_remove [of r, where env = env and i = i]
  by (auto simp: registered_def healthy_def split: if_splits)

lemma perform_op_keeps:
  assumes "registered P r" and "agrees r" and "healthy (r, H)" and "composite_fair (op_env p) (registrar_state r)"
  shows "registered P (fst (perform_op P p (r, H))) \<and> agrees (fst (perform_op P p (r, H))) \<and> healthy (perform_op P p (r, H))"
proof (cases p)
  case (Do_remove env i)
  then show ?thesis using remove_keeps [OF assms(1-3)] by simp
next
  case (Do_register env d)
  show ?thesis
  proof (cases "check P d")
    case None
    obtain e r' where R: "Register P env d r = (e, r')" by fastforce
    have f: "composite_fair env (registrar_state r)" using assms(4) Do_register by simp
    note acc = register_accepted [OF assms(2) f None R]
    have "distinct (map fst (workflows r'))" using distinct_register [of r P env d] assms(1) R by (simp add: registered_def)
    then have "registered P r'" using assms(1) acc(2) None by (auto simp: registered_def)
    moreover have "healthy (r', if e = None then insert (def_id d) H else H - {def_id d})"
      using assms(3) acc(2,3) acc(4) by (fastforce simp: healthy_def)
    ultimately show ?thesis using acc(1) R Do_register by (cases e) simp_all
  next
    case (Some x)
    have "healthy (r, H - {i})" for i using assms(3) by (auto simp: healthy_def)
    then show ?thesis
      using assms remove_keeps [OF assms(1-3)] Do_register by (simp add: register_refused [OF Some])
  qed
qed

lemma perform_ops_keep:
  "registered P (fst s) \<Longrightarrow> agrees (fst s) \<Longrightarrow> healthy s \<Longrightarrow> fair_ops P ps s \<Longrightarrow>
   registered P (fst (perform_ops P ps s)) \<and> agrees (fst (perform_ops P ps s)) \<and> healthy (perform_ops P ps s)"
proof (induction ps arbitrary: s)
  case Nil
  then show ?case by (simp add: perform_ops_def)
next
  case (Cons p ps)
  obtain r H where s: "s = (r, H)" by fastforce
  have "registered P (fst (perform_op P p s)) \<and> agrees (fst (perform_op P p s)) \<and> healthy (perform_op P p s)"
    unfolding s using Cons.prems s by (intro perform_op_keeps) simp_all
  then show ?case using Cons.IH [of "perform_op P p s"] Cons.prems by (simp add: perform_ops_def)
qed

lemma start_keeps: "registered P NewWorkflowRegistry \<and> agrees NewWorkflowRegistry \<and> healthy (NewWorkflowRegistry, {})"
  by (simp add: registered_def agrees_def healthy_def NewWorkflowRegistry_def composite_start)
    (simp add: armed_def NewCompositeRegistrar_def NewEventTriggerRegistrar_def NewScheduleTriggerRegistrar_def scheduled_def)

subsection \<open>Properties\<close>


definition calm :: "bus \<times> cron" where
  "calm = (\<lparr>subscribe_fails = (\<lambda>_. None), unsubscribe_fails = (\<lambda>_. None)\<rparr>, \<lambda>_. Inr 0)"

definition on_follow :: WorkflowDefinition where
  "on_follow = greeting\<lparr>def_trigger := Some \<lparr>trigger_type = TriggerTypeEvent, trigger_event = ''channel.follow'',
     trigger_schedule = '''', trigger_conditions = [], trigger_order = None\<rparr>\<rparr>"

abbreviation no_params :: "string \<Rightarrow> obj \<Rightarrow> string option" where "no_params \<equiv> \<lambda>_ _. None"

lemma on_follow_accepted: "check no_params on_follow = None"
  by code_simp

lemma register_on_follow:
  "fst (Register no_params calm on_follow NewWorkflowRegistry) = None"
  by (simp add: Register_def on_follow_accepted Let_def NewWorkflowRegistry_def)
    (simp add: on_follow_def composite_Register_def with_event_def event_Register_def event_attach_def
      NewCompositeRegistrar_def NewEventTriggerRegistrar_def calm_def)




end
