(* ===== verification/Actions.thy ===== *)
theory Actions
  imports Run_Branches
begin

text \<open>
  The registries of \<open>workflow/internal/tasks\<close>: the actions a step can name with what the engine
  knows about each, the factories of the task types, and what executing a task of each type
  does. Action handlers are arguments: an action's Go function is what it returns for its
  parameters. Executing a task yields the handlers it called beside its result.
\<close>

subsection \<open>The action registry\<close>

type_synonym ActionFunc = "obj \<Rightarrow> (string, obj) res"

record ActionSpec =
  SideEffect :: bool
  DryRun :: "(obj \<Rightarrow> (string, string) res) option"
  ValidateSpec :: "(obj \<Rightarrow> string option) option"

type_synonym ActionRegistry = "string \<Rightarrow> (ActionFunc \<times> ActionSpec) option"

datatype action_error = ActionRegistered string | ValidatorRequired string | ActionNotFound string

definition NewActionRegistry :: ActionRegistry where "NewActionRegistry = (\<lambda>_. None)"

definition RegisterWithSpec :: "string \<Rightarrow> ActionFunc \<Rightarrow> ActionSpec \<Rightarrow> ActionRegistry \<Rightarrow> action_error option \<times> ActionRegistry" where
  "RegisterWithSpec name f spec R =
     (if R name \<noteq> None then (Some (ActionRegistered name), R) else (None, R(name \<mapsto> (f, spec))))"

definition RegisterAction :: "string \<Rightarrow> ActionFunc \<Rightarrow> ActionRegistry \<Rightarrow> action_error option \<times> ActionRegistry" where
  "RegisterAction name f = RegisterWithSpec name f \<lparr>SideEffect = True, DryRun = None, ValidateSpec = None\<rparr>"

definition RegisterValidated ::
  "string \<Rightarrow> ActionFunc \<Rightarrow> (obj \<Rightarrow> string option) option \<Rightarrow> ActionRegistry \<Rightarrow> action_error option \<times> ActionRegistry" where
  "RegisterValidated name f validate R =
     (if validate = None then (Some (ValidatorRequired name), R)
      else RegisterWithSpec name f \<lparr>SideEffect = True, DryRun = None, ValidateSpec = validate\<rparr> R)"

definition ValidateParams :: "ActionRegistry \<Rightarrow> string \<Rightarrow> obj \<Rightarrow> string option" where
  "ValidateParams R name params =
     (case R name of
        None \<Rightarrow> None
      | Some (f, spec) \<Rightarrow> (case ValidateSpec spec of None \<Rightarrow> None | Some v \<Rightarrow> v params))"

definition Spec :: "ActionRegistry \<Rightarrow> string \<Rightarrow> (action_error, ActionSpec) res" where
  "Spec R name = (case R name of None \<Rightarrow> Inl (ActionNotFound name) | Some (f, spec) \<Rightarrow> Inr spec)"

definition GetAction :: "ActionRegistry \<Rightarrow> string \<Rightarrow> (action_error, ActionFunc) res" where
  "GetAction R name = (case R name of None \<Rightarrow> Inl (ActionNotFound name) | Some (f, spec) \<Rightarrow> Inr f)"

subsection \<open>Tasks\<close>

definition TaskTypeLog :: string where "TaskTypeLog = ''log''"

datatype task = LogTask string | ActionTask string obj | WaitTask | ConditionTask | WorkflowTask

datatype task_error =
    MessageRequired
  | ActionRequired
  | UnknownTaskType string
  | NoAction action_error
  | Handler string
  | DryRunRefused string

definition NewLogTask :: "TaskDefinition \<Rightarrow> obj \<Rightarrow> (task_error, task) res" where
  "NewLogTask t params = (case map_of params ''message'' of Some (VStr m) \<Rightarrow> Inr (LogTask m) | _ \<Rightarrow> Inl MessageRequired)"

definition NewActionTask :: "TaskDefinition \<Rightarrow> obj \<Rightarrow> (task_error, task) res" where
  "NewActionTask t params =
     (if task_action t = '''' then Inl ActionRequired
      else Inr (ActionTask (task_action t)
                  (if task_function t \<noteq> '''' then put_key ''function'' (VStr (task_function t)) params else params)))"

type_synonym TaskRegistry = "string \<Rightarrow> (TaskDefinition \<Rightarrow> obj \<Rightarrow> (task_error, task) res) option"

definition RegisterTask ::
  "string \<Rightarrow> (TaskDefinition \<Rightarrow> obj \<Rightarrow> (task_error, task) res) \<Rightarrow> TaskRegistry \<Rightarrow> string option \<times> TaskRegistry" where
  "RegisterTask ty f R = (if R ty \<noteq> None then (Some ty, R) else (None, R(ty \<mapsto> f)))"

definition registerBuiltInTasks :: TaskRegistry where
  "registerBuiltInTasks = fold (\<lambda>(ty, f) R. snd (RegisterTask ty f R))
     [(TaskTypeLog, NewLogTask), (TaskTypeAction, NewActionTask), (TaskTypeWait, \<lambda>_ _. Inr WaitTask),
      (TaskTypeCondition, \<lambda>_ _. Inr ConditionTask), (TaskTypeWorkflow, \<lambda>_ _. Inr WorkflowTask)] (\<lambda>_. None)"

definition Create :: "TaskRegistry \<Rightarrow> TaskDefinition \<Rightarrow> obj \<Rightarrow> (task_error, task) res" where
  "Create R t params =
     (case R (task_type t) of None \<Rightarrow> Inl (UnknownTaskType (task_type t)) | Some factory \<Rightarrow> factory t params)"

definition task_result :: "TaskStatus \<Rightarrow> obj option \<Rightarrow> TaskResult" where
  "task_result s data = \<lparr>tr_status = s, tr_data = data, tr_exports = None\<rparr>"

text \<open>\<open>json\<close> is the compact JSON of parameters, or nothing when they cannot be encoded; \<open>text\<close> is \<open>%v\<close>.\<close>

definition DescribeParams :: "(obj \<Rightarrow> string option) \<Rightarrow> obj \<Rightarrow> string" where
  "DescribeParams json params =
     (case json params of
        None \<Rightarrow> fmt_v (VMap params)
      | Some raw \<Rightarrow> if 200 < length raw then take 200 raw @ ''...'' else raw)"

definition dryRun :: "(obj \<Rightarrow> string option) \<Rightarrow> string \<Rightarrow> obj \<Rightarrow> ActionSpec \<Rightarrow> TaskResult \<times> task_error option" where
  "dryRun json name params spec =
     (let done = (\<lambda>wouldDo. (task_result TaskSuccess (Some [(''dryRun'', VBool True), (''wouldDo'', VStr wouldDo)]), None))
      in (case DryRun spec of
            None \<Rightarrow> done (''would run '' @ name @ '' with '' @ DescribeParams json params)
          | Some describe \<Rightarrow>
              (case describe params of
                 Inl e \<Rightarrow> (task_result TaskFailed None, Some (DryRunRefused e))
               | Inr described \<Rightarrow> done described)))"

text \<open>The handlers called come first: a list of at most one action with its parameters.\<close>

definition action_Execute ::
  "(obj \<Rightarrow> string option) \<Rightarrow> ActionRegistry \<Rightarrow> bool \<Rightarrow> string \<Rightarrow> obj \<Rightarrow> (string \<times> obj) list \<times> TaskResult \<times> task_error option" where
  "action_Execute json R dry name params =
     (case GetAction R name of
        Inl e \<Rightarrow> ([], task_result TaskFailed None, Some (NoAction e))
      | Inr action \<Rightarrow>
          let call = (case action params of
                        Inl e \<Rightarrow> ([(name, params)], task_result TaskFailed None, Some (Handler e))
                      | Inr data \<Rightarrow> ([(name, params)], task_result TaskSuccess (Some data), None))
          in if dry
             then (case Spec R name of
                     Inl e \<Rightarrow> ([], task_result TaskFailed None, Some (NoAction e))
                   | Inr spec \<Rightarrow> if SideEffect spec then ([], dryRun json name params spec) else call)
             else call)"

definition Execute ::
  "(obj \<Rightarrow> string option) \<Rightarrow> ActionRegistry \<Rightarrow> bool \<Rightarrow> task \<Rightarrow> (string \<times> obj) list \<times> TaskResult \<times> task_error option" where
  "Execute json R dry t =
     (case t of
        LogTask m \<Rightarrow> ([], task_result TaskSuccess (Some [(''message'', VStr m)]), None)
      | ActionTask name params \<Rightarrow> action_Execute json R dry name params
      | WaitTask \<Rightarrow> ([], task_result TaskWaiting (Some [(''waiting'', VBool True)]), None)
      | ConditionTask \<Rightarrow> ([], task_result TaskSuccess (Some [(''evaluated'', VBool True)]), None)
      | WorkflowTask \<Rightarrow> ([], task_result TaskSuccess (Some [(''workflow'', VStr ''executed'')]), None))"

text \<open>What \<open>executeTask\<close> does of it once the parameters are resolved.\<close>

definition create_and_execute ::
  "(obj \<Rightarrow> string option) \<Rightarrow> ActionRegistry \<Rightarrow> bool \<Rightarrow> TaskDefinition \<Rightarrow> obj \<Rightarrow> (string \<times> obj) list \<times> TaskResult option \<times> task_error option" where
  "create_and_execute json R dry t params =
     (case Create registerBuiltInTasks t params of
        Inl e \<Rightarrow> ([], None, Some e)
      | Inr task \<Rightarrow> (case Execute json R dry task of (invoked, result, e) \<Rightarrow> (invoked, Some result, e)))"
text \<open>The world of a run whose tasks are executed through the registries; errors as their text.\<close>

definition with_actions ::
  "(obj \<Rightarrow> string option) \<Rightarrow> (task_error \<Rightarrow> string) \<Rightarrow> ActionRegistry \<Rightarrow> world \<Rightarrow> world" where
  "with_actions json show R W = W\<lparr>perform := (\<lambda>t params.
     case create_and_execute json R (dry_run W) t params of (_, result, e) \<Rightarrow> (result, map_option show e))\<rparr>"

subsection \<open>Facts\<close>

text \<open>The first registration of a name wins; nothing replaces it.\<close>

lemma registered_action_stays:
  "R name = Some x \<Longrightarrow> snd (RegisterWithSpec other f spec R) name = Some x"
  "R name = Some x \<Longrightarrow> snd (RegisterAction other f R) name = Some x"
  "R name = Some x \<Longrightarrow> snd (RegisterValidated other f v R) name = Some x"
  by (cases x; auto simp: RegisterWithSpec_def RegisterAction_def RegisterValidated_def)+

lemma undescribed_is_side_effect:
  "RegisterAction name f R = (None, R') \<Longrightarrow> \<exists>spec. Spec R' name = Inr spec \<and> SideEffect spec"
  "RegisterValidated name f v R = (None, R') \<Longrightarrow> \<exists>spec. Spec R' name = Inr spec \<and> SideEffect spec"
  by (auto simp: RegisterAction_def RegisterValidated_def RegisterWithSpec_def Spec_def split: if_splits)

lemma task_type_names [simp]:
  "TaskTypeLog \<noteq> TaskTypeAction" "TaskTypeLog \<noteq> TaskTypeWait" "TaskTypeLog \<noteq> TaskTypeCondition" "TaskTypeLog \<noteq> TaskTypeWorkflow"
  "TaskTypeAction \<noteq> TaskTypeWait" "TaskTypeAction \<noteq> TaskTypeCondition" "TaskTypeAction \<noteq> TaskTypeWorkflow"
  "TaskTypeWait \<noteq> TaskTypeCondition" "TaskTypeWait \<noteq> TaskTypeWorkflow" "TaskTypeCondition \<noteq> TaskTypeWorkflow"
  by (simp_all add: TaskTypeLog_def TaskTypeAction_def TaskTypeWait_def TaskTypeCondition_def TaskTypeWorkflow_def)

lemmas task_type_names' [simp] = task_type_names [THEN not_sym]

lemma built_in [simp]:
  "registerBuiltInTasks TaskTypeAction = Some NewActionTask"
  "registerBuiltInTasks TaskTypeLog = Some NewLogTask"
  by (simp_all add: registerBuiltInTasks_def RegisterTask_def)

lemma action_called:
  assumes "(name, ps) \<in> set (fst (create_and_execute json R dry t params))"
  shows "task_type t = TaskTypeAction \<and> name = task_action t \<and> (dry \<longrightarrow> (\<exists>f spec. R name = Some (f, spec) \<and> \<not> SideEffect spec))"
proof -
  obtain task where c: "Create registerBuiltInTasks t params = Inr task" "(name, ps) \<in> set (fst (Execute json R dry task))"
    using assms by (auto simp: create_and_execute_def split: sum.splits prod.splits)
  then obtain ps' where task: "task = ActionTask name ps'"
    by (cases task) (auto simp: Execute_def action_Execute_def Let_def split: sum.splits if_splits prod.splits)
  have "task_type t = TaskTypeAction \<and> task_action t = name"
    using c(1) unfolding task
    by (auto simp: Create_def registerBuiltInTasks_def RegisterTask_def NewLogTask_def NewActionTask_def
        split: if_splits option.splits val.splits)
  then show ?thesis
    using c(2) unfolding task
    by (auto simp: Execute_def action_Execute_def GetAction_def Spec_def Let_def split: sum.splits option.splits if_splits prod.splits)
qed

subsection \<open>Properties\<close>


definition chat_registry :: ActionRegistry where
  "chat_registry = snd (RegisterAction ''chat'' (\<lambda>p. Inr [(''sent'', VBool True)]) NewActionRegistry)"

definition chat_task :: TaskDefinition where
  "chat_task = (step_task ''a'' ''hello'')\<lparr>task_action := ''chat''\<rparr>"


end
