(* ===== verification/Dispatch.thy ===== *)
theory Dispatch
  imports Registry Deliveries Loop_Guard Run_Control "HOL-Library.Multiset"
    "HOL-Library.Char_ord" "HOL-Library.List_Lexorder" "HOL-Library.Product_Lexorder"
begin

text \<open>
  How an event becomes runs: \<open>handleTriggerEvent\<close> of \<open>workflow/app.go\<close> and \<open>HandleEventWith\<close>,
  \<open>evaluateTrigger\<close>, \<open>unmetTriggerConditions\<close>, \<open>queueInOrder\<close>, \<open>executeInOrder\<close> and
  \<open>FireByWorkflowID\<close> of \<open>workflow/internal/engine/engine.go\<close>, with \<open>RunManual\<close> and \<open>RunCommand\<close> of
  \<open>manual.go\<close> and \<open>command_run.go\<close>. What a run then does is not part of it: a dispatch only says
  which workflows are begun, in which order, and on what event.
\<close>

subsection \<open>Trigger conditions\<close>

text \<open>
  The viewer's facts are a parameter: what \<open>ViewerFacts\<close> answers for the event through a trigger
  pattern. A loader reads at most once, so it is the answer itself, and two workflows that share
  a pattern share it.
\<close>

type_synonym viewer_facts = "string \<Rightarrow> Event \<Rightarrow> (xerr, val) res"

definition viewerTrigger :: "WorkflowDefinition \<Rightarrow> string" where
  "viewerTrigger d =
     (case def_trigger d of
        None \<Rightarrow> ''''
      | Some t \<Rightarrow> if trigger_type t \<noteq> TriggerTypeEvent \<and> trigger_type t \<noteq> TriggerTypeCommand then '''' else trigger_event t)"

definition newViewerLoader :: "viewer_facts option \<Rightarrow> string \<Rightarrow> Event option \<Rightarrow> loader" where
  "newViewerLoader facts pattern event =
     (\<lambda>_. case (facts, event) of
            (Some f, Some e) \<Rightarrow> if pattern = '''' then Inr VNil else f pattern e
          | _ \<Rightarrow> Inr VNil)"

record UnmetCondition =
  unmet :: condition
  unmet_error :: "xerr option"

fun unmet_loop :: "golib \<Rightarrow> condition list \<Rightarrow> resolver \<Rightarrow> UnmetCondition list" where
  "unmet_loop L [] r = []"
| "unmet_loop L (c # cs) r =
     (case Evaluate L c r of
        (Inl e, r') \<Rightarrow> \<lparr>unmet = c, unmet_error = Some e\<rparr> # unmet_loop L cs r'
      | (Inr ok, r') \<Rightarrow> (if ok then [] else [\<lparr>unmet = c, unmet_error = None\<rparr>]) @ unmet_loop L cs r')"

definition trigger_resolver :: "Event \<Rightarrow> loader \<Rightarrow> resolver" where
  "trigger_resolver event viewer =
     (let r = AddSource ''trigger'' (TriggerFields event) NewResolver
      in (case AddLazySource ''viewer'' viewer r of Some r' \<Rightarrow> r' | None \<Rightarrow> r))"

definition unmetTriggerConditions :: "golib \<Rightarrow> WorkflowDefinition \<Rightarrow> Event \<Rightarrow> loader \<Rightarrow> UnmetCondition list" where
  "unmetTriggerConditions L d event viewer =
     (case def_trigger d of
        None \<Rightarrow> []
      | Some t \<Rightarrow>
          if trigger_conditions t = [] then []
          else unmet_loop L (trigger_conditions t) (trigger_resolver event viewer))"

datatype trigger_refusal =
    NoTrigger
  | NotAnEventTrigger
  | EventMismatch string string
  | ConditionsUnmet "UnmetCondition list"

definition evaluateTrigger :: "golib \<Rightarrow> WorkflowDefinition \<Rightarrow> Event \<Rightarrow> loader \<Rightarrow> trigger_refusal option" where
  "evaluateTrigger L d event viewer =
     (case def_trigger d of
        None \<Rightarrow> Some NoTrigger
      | Some t \<Rightarrow>
          if trigger_type t \<noteq> TriggerTypeEvent then Some NotAnEventTrigger
          else if \<not> Matches (trigger_event t) (ev_type event) then Some (EventMismatch (trigger_event t) (ev_type event))
          else (case unmetTriggerConditions L d event viewer of
                  [] \<Rightarrow> None
                | u # us \<Rightarrow> Some (ConditionsUnmet (u # us))))"

subsection \<open>Handling an event\<close>

text \<open>
  The workflows an event starts at once, those it queues, in the order of their turns, and those
  whose trigger refused it. A stopping engine starts nothing. Resuming the runs that wait for
  the event comes first and is left to the wait registry.
\<close>

record dispatch =
  started :: "WorkflowDefinition list"
  queue :: "WorkflowDefinition list"
  refused :: "(WorkflowDefinition \<times> trigger_refusal) list"

definition is_ordered :: "WorkflowDefinition \<Rightarrow> bool" where
  "is_ordered d \<longleftrightarrow> (case def_trigger d of None \<Rightarrow> False | Some t \<Rightarrow> trigger_order t \<noteq> None)"

definition turn_key :: "WorkflowDefinition \<Rightarrow> int \<times> string" where
  "turn_key d = (case def_trigger d of None \<Rightarrow> 0 | Some t \<Rightarrow> (case trigger_order t of None \<Rightarrow> 0 | Some n \<Rightarrow> n), def_id d)"

definition queueInOrder :: "WorkflowDefinition list \<Rightarrow> WorkflowDefinition list" where
  "queueInOrder matched = sort_key turn_key matched"

definition HandleEventWith ::
  "golib \<Rightarrow> viewer_facts option \<Rightarrow> bool \<Rightarrow> Event \<Rightarrow> registry \<Rightarrow> dispatch option" where
  "HandleEventWith L facts ending event r =
     (if ending then None
      else
        let ws = GetByEvent (ev_type event) r;
            verdict = (\<lambda>d. evaluateTrigger L d event (newViewerLoader facts (viewerTrigger d) (Some event)));
            accepted = filter (\<lambda>d. verdict d = None) ws
        in Some \<lparr>started = filter (\<lambda>d. \<not> is_ordered d) accepted,
                 queue = queueInOrder (filter is_ordered accepted),
                 refused = concat (map (\<lambda>d. case verdict d of None \<Rightarrow> [] | Some why \<Rightarrow> [(d, why)]) ws)\<rparr>)"

definition FireByWorkflowID :: "bool \<Rightarrow> string \<Rightarrow> registry \<Rightarrow> WorkflowDefinition option" where
  "FireByWorkflowID ending i r = (if ending then None else Get i r)"

text \<open>\<open>handleTriggerEvent\<close> for one delivery; an event that is not a CloudEvent is dropped.\<close>

definition validateCloudEvent :: "Event \<Rightarrow> bool" where
  "validateCloudEvent e \<longleftrightarrow> ev_id e \<noteq> '''' \<and> ev_type e \<noteq> '''' \<and> ev_source e \<noteq> ''''"

definition handleTriggerEvent ::
  "golib \<Rightarrow> viewer_facts option \<Rightarrow> bool \<Rightarrow> registry \<Rightarrow> Event \<Rightarrow> recentDeliveries \<Rightarrow> dispatch option \<times> recentDeliveries" where
  "handleTriggerEvent L facts ending r e D =
     (if \<not> validateCloudEvent e then (None, D)
      else (case first (ev_source e, ev_id e) D of
              (False, D') \<Rightarrow> (None, D')
            | (True, D') \<Rightarrow> (HandleEventWith L facts ending e r, D')))"

fun deliver_copies ::
  "golib \<Rightarrow> viewer_facts option \<Rightarrow> bool \<Rightarrow> registry \<Rightarrow> Event \<Rightarrow> nat \<Rightarrow> recentDeliveries \<Rightarrow> dispatch list \<times> recentDeliveries" where
  "deliver_copies L facts ending r e 0 D = ([], D)"
| "deliver_copies L facts ending r e (Suc n) D =
     (case handleTriggerEvent L facts ending r e D of
        (None, D') \<Rightarrow> deliver_copies L facts ending r e n D'
      | (Some d, D') \<Rightarrow> (case deliver_copies L facts ending r e n D' of (ds, D'') \<Rightarrow> (d # ds, D'')))"

subsection \<open>The queue of ordered runs\<close>

text \<open>
  \<open>executeInOrder\<close> sees, at each turn, whether the engine is stopping, the control of the run,
  and how waiting for the run ended. A run it starts executes, one it passes over was settled by
  someone else, and those left when the engine stops are given up.
\<close>

datatype awaited = Returned | Overran | StoppedWaiting

record turn =
  stopping :: bool
  turn_control :: runControl
  ended :: awaited

datatype fate = Executed | PassedOver | GivenUp bool

definition abandon_queued :: "turn list \<Rightarrow> fate list" where
  "abandon_queued ts = map (\<lambda>t. GivenUp (fst (markStopped (turn_control t)))) ts"

fun executeInOrder :: "turn list \<Rightarrow> fate list" where
  "executeInOrder [] = []"
| "executeInOrder (t # ts) =
     (if stopping t then abandon_queued (t # ts)
      else if \<not> fst (startQueued (turn_control t)) then PassedOver # executeInOrder ts
      else if ended t = StoppedWaiting then Executed # abandon_queued ts
      else Executed # executeInOrder ts)"

subsection \<open>Runs on request\<close>

record ManualRun =
  mr_workflowID :: string
  mr_request :: "Event option"
  mr_triggerData :: "obj option"
  mr_platform :: string
  mr_skipConditions :: bool
  mr_dryRun :: bool

datatype run_refusal =
    NoRequestEvent
  | WorkflowNotFound string
  | NotJSON string
  | TooMuchData nat
  | EngineStopping
  | NotACommand string
  | WrongCommand string string string

text \<open>What a request leads to: a run of a workflow on an event, dry or not, or the conditions it fails.\<close>

datatype request_outcome =
    RunStarted WorkflowDefinition Event bool
  | ConditionsNotMet string "UnmetCondition list"

definition MaxTriggerDataBytes :: nat where "MaxTriggerDataBytes = 16 * 1024"

text \<open>\<open>json\<close> gives the encoded length of the data or the error of encoding it.\<close>

definition sampleTriggerEvent ::
  "(obj \<Rightarrow> (string, nat) res) \<Rightarrow> time \<Rightarrow> WorkflowDefinition \<Rightarrow> ManualRun \<Rightarrow> Event \<Rightarrow> obj \<Rightarrow> (run_refusal, Event) res" where
  "sampleTriggerEvent json now d req request data =
     (case json data of
        Inl e \<Rightarrow> Inl (NotJSON e)
      | Inr n \<Rightarrow>
          if MaxTriggerDataBytes < n then Inl (TooMuchData n)
          else Inr \<lparr>ev_id = ev_id request,
                 ev_type = (case def_trigger d of
                    Some t \<Rightarrow> if trigger_type t \<in> {TriggerTypeEvent, TriggerTypeCommand} \<and> trigger_event t \<noteq> ''''
                              then trigger_event t else ev_type request
                  | None \<Rightarrow> ev_type request),
                 ev_source = ev_source request, ev_time = (if ev_time request = 0 then now else ev_time request),
                 ev_platform = mr_platform req, ev_sessionId = ev_sessionId request,
                 ev_triggerId = ev_triggerId request, ev_triggeredBy = ev_triggeredBy request,
                 ev_workflowChain = '''', ev_dryRun = False, ev_data = data\<rparr>)"

definition RunManual ::
  "golib \<Rightarrow> viewer_facts option \<Rightarrow> (obj \<Rightarrow> (string, nat) res) \<Rightarrow> time \<Rightarrow> registry \<Rightarrow> ManualRun \<Rightarrow> (run_refusal, request_outcome) res" where
  "RunManual L facts json now r req =
     (case mr_request req of
        None \<Rightarrow> Inl NoRequestEvent
      | Some request \<Rightarrow>
          (case Get (mr_workflowID req) r of
             None \<Rightarrow> Inl (WorkflowNotFound (mr_workflowID req))
           | Some d \<Rightarrow>
               bind_res (case mr_triggerData req of
                           None \<Rightarrow> Inr request
                         | Some data \<Rightarrow> sampleTriggerEvent json now d req request data)
                 (\<lambda>event.
                   let us = (if mr_triggerData req \<noteq> None \<and> \<not> mr_skipConditions req
                             then unmetTriggerConditions L d event (newViewerLoader facts (viewerTrigger d) (Some event)) else [])
                   in if us \<noteq> [] then Inr (ConditionsNotMet (ev_type event) us)
                      else Inr (RunStarted d event (mr_dryRun req \<or> ev_dryRun event)))))"

definition RunCommand ::
  "golib \<Rightarrow> viewer_facts option \<Rightarrow> bool \<Rightarrow> registry \<Rightarrow> string \<Rightarrow> Event option \<Rightarrow> (run_refusal, request_outcome) res" where
  "RunCommand L facts ending r i event =
     (if ending then Inl EngineStopping
      else (case event of
              None \<Rightarrow> Inl NoRequestEvent
            | Some e \<Rightarrow>
                (case Get i r of
                   None \<Rightarrow> Inl (WorkflowNotFound i)
                 | Some d \<Rightarrow>
                     (case def_trigger d of
                        None \<Rightarrow> Inl (NotACommand (def_id d))
                      | Some t \<Rightarrow>
                          if trigger_type t \<noteq> TriggerTypeCommand then Inl (NotACommand (def_id d))
                          else if \<not> Matches (trigger_event t) (ev_type e)
                          then Inl (WrongCommand (def_id d) (trigger_event t) (ev_type e))
                          else (case unmetTriggerConditions L d e (newViewerLoader facts (viewerTrigger d) (Some e)) of
                                  [] \<Rightarrow> Inr (RunStarted d e (ev_dryRun e))
                                | u # us \<Rightarrow> Inr (ConditionsNotMet (ev_type e) (u # us)))))))"
subsection \<open>Facts\<close>

lemma GetByEvent_iff:
  "distinct (map fst (workflows r)) \<Longrightarrow> d \<in> set (GetByEvent ev r) \<longleftrightarrow> (\<exists>w. Get w r = Some d) \<and> listens_to d ev"
  by (auto simp: GetByEvent_def Get_def intro: rev_image_eqI)

lemma filter_one:
  "distinct (map fst ps) \<Longrightarrow> map_of ps w = Some d \<Longrightarrow> (\<And>v x. map_of ps v = Some x \<Longrightarrow> f x = v) \<Longrightarrow>
   filter (\<lambda>x. f x = w) (map snd ps) = [d]"
proof (induction ps)
  case (Cons p ps)
  obtain v x where p: "p = (v, x)" by fastforce
  have ids: "\<And>u y. map_of ps u = Some y \<Longrightarrow> f y = u"
  proof -
    fix u y assume "map_of ps u = Some y"
    moreover from this have "u \<in> fst ` set ps" by (force dest: map_of_SomeD)
    then have "u \<noteq> v" using Cons.prems(1) p by auto
    ultimately show "f y = u" using Cons.prems(3) [of u y] p by simp
  qed
  have x: "f x = v" using Cons.prems(3) [of v x] p by simp
  show ?case
  proof (cases "v = w")
    case True
    have "filter (\<lambda>x. f x = w) (map snd ps) = []"
    proof (rule ccontr)
      assume "filter (\<lambda>x. f x = w) (map snd ps) \<noteq> []"
      then obtain u y where "(u, y) \<in> set ps" "f y = w" by (fastforce simp: filter_empty_conv)
      then have "map_of ps u = Some y" "u \<in> fst ` set ps" using Cons.prems(1) p by (auto intro: rev_image_eqI)
      then have "u = w" using ids [of u y] \<open>f y = w\<close> by simp
      then show False using \<open>u \<in> fst ` set ps\<close> Cons.prems(1) p True by simp
    qed
    then show ?thesis using p True x Cons.prems(2) by simp
  next
    case False
    then show ?thesis using p x ids Cons.IH Cons.prems(1,2) by simp
  qed
qed simp

text \<open>Only workflows whose trigger is an event are offered events.\<close>

lemma dispatched_listen:
  assumes "HandleEventWith L facts ending e r = Some x" and "d \<in> set (started x) \<union> set (queue x)"
  shows "d \<in> snd ` set (workflows r) \<and> listens_to d (ev_type e)"
  using assms by (auto simp: HandleEventWith_def queueInOrder_def GetByEvent_def Let_def split: if_splits)

lemma command_not_offered:
  "HandleEventWith L facts ending e r = Some x \<Longrightarrow> def_trigger d = Some t \<Longrightarrow> trigger_type t = TriggerTypeCommand \<Longrightarrow>
   d \<notin> set (started x) \<union> set (queue x)"
  using dispatched_listen [of L facts ending e r x d] by (auto simp: listens_to_def)

lemma evaluateTrigger_None:
  "evaluateTrigger L d e v = None \<longleftrightarrow> listens_to d (ev_type e) \<and> unmetTriggerConditions L d e v = []"
  by (auto simp: evaluateTrigger_def listens_to_def split: option.splits list.splits)

lemma dispatch_of:
  assumes "HandleEventWith L facts False e r = Some x" and "registered P r" and "Get w r = Some d"
    and "listens_to d (ev_type e)" and "unmetTriggerConditions L d e (newViewerLoader facts (viewerTrigger d) (Some e)) = []"
  shows "filter (\<lambda>d. def_id d = w) (started x @ queue x) = [d]"
proof -
  let ?ok = "\<lambda>d. evaluateTrigger L d e (newViewerLoader facts (viewerTrigger d) (Some e)) = None"
  let ?l = "filter ?ok (GetByEvent (ev_type e) r)"
  have one: "filter (\<lambda>d. def_id d = w) (map snd (workflows r)) = [d]"
    using assms(2,3) by (intro filter_one) (auto simp: registered_def Get_def)
  have ok: "?ok d" using assms(4,5) by (simp add: evaluateTrigger_None)
  have l: "filter (\<lambda>d. def_id d = w) ?l = [d]"
  proof -
    have "filter (\<lambda>d. def_id d = w) ?l = filter (\<lambda>d. ?ok d \<and> listens_to d (ev_type e)) (filter (\<lambda>d. def_id d = w) (map snd (workflows r)))"
      by (simp add: GetByEvent_def conj_commute conj_left_commute)
    then show ?thesis unfolding one using ok assms(4) by simp
  qed
  have x: "started x = filter (\<lambda>d. \<not> is_ordered d) ?l" "queue x = queueInOrder (filter is_ordered ?l)"
    using assms(1) by (auto simp: HandleEventWith_def Let_def)
  have "mset (filter (\<lambda>d. def_id d = w) (started x @ queue x)) = mset (filter (\<lambda>d. def_id d = w) ?l)"
    unfolding x by (simp add: queueInOrder_def mset_filter flip: filter_union_mset) (simp add: multiset_eq_iff)
  then have "mset (filter (\<lambda>d. def_id d = w) (started x @ queue x)) = {#d#}" unfolding l by simp
  then show ?thesis by (simp only: mset_single_iff)
qed

lemma sort_key_perm:
  "mset xs = mset ys \<Longrightarrow> inj_on f (set xs) \<Longrightarrow> sort_key f xs = sort_key f ys"
  by (rule sort_key_inj_key_eq) simp_all

lemma distinct_map_sort: "distinct (map g xs) \<Longrightarrow> distinct (map g (sort_key f xs))"
  by (simp add: distinct_map)

lemma deliver_one:
  assumes "validateCloudEvent e" and "fst (first (ev_source e, ev_id e) D)" and "HandleEventWith L facts ending e r = Some x"
  shows "\<exists>D'. deliver_copies L facts ending r e (Suc n) D = ([x], D')"
proof -
  obtain D' where D': "first (ev_source e, ev_id e) D = (True, D')" using assms(2) by (metis prod.collapse)
  have "deliver_copies L facts ending r e n D' = ([], D')"
    by (induction n) (simp_all add: handleTriggerEvent_def assms(1) copy_not_first [OF D'])
  then show ?thesis by (simp add: handleTriggerEvent_def assms(1,3) D')
qed

subsection \<open>Properties\<close>


definition follow_event :: Event where
  "follow_event = (sample_event ''channel.follow'' [])\<lparr>ev_id := ''1'', ev_source := ''twitch''\<rparr>"


text \<open>
  The turns of the ordered workflows an event starts are those of their numbers, and of their
  ids among equals, whatever order the registry lists them in; each is queued once.
\<close>

theorem turns_do_not_depend_on_listing:
  assumes "mset (workflows r) = mset (workflows r')" and "distinct (map fst (workflows r))"
    and "\<forall>(w, d) \<in> set (workflows r). def_id d = w"
    and "HandleEventWith L facts ending e r = Some x" and "HandleEventWith L facts ending e r' = Some x'"
  shows "queue x = queue x' \<and> sorted (map turn_key (queue x)) \<and> distinct (map def_id (queue x))"
proof -
  let ?ok = "\<lambda>d. evaluateTrigger L d e (newViewerLoader facts (viewerTrigger d) (Some e)) = None"
  let ?l = "\<lambda>r. filter is_ordered (filter ?ok (GetByEvent (ev_type e) r))"
  have q: "queue x = sort_key turn_key (?l r)" "queue x' = sort_key turn_key (?l r')"
    using assms(4,5) by (auto simp: HandleEventWith_def queueInOrder_def Let_def split: if_splits)
  have "mset (map snd (workflows r)) = mset (map snd (workflows r'))" using assms(1) by (simp only: mset_map)
  then have m: "mset (?l r) = mset (?l r')" by (simp add: GetByEvent_def del: mset_map)
  have "map def_id (map snd (workflows r)) = map fst (workflows r)" using assms(3) by auto
  then have "distinct (map def_id (map snd (workflows r)))" using assms(2) by metis
  then have d: "distinct (map def_id (?l r))" by (simp add: GetByEvent_def distinct_map_filter)
  then have "inj_on def_id (set (?l r))" by (simp add: distinct_map del: filter_filter)
  then have "inj_on turn_key (set (?l r))" unfolding inj_on_def turn_key_def by blast
  then have "sort_key turn_key (?l r) = sort_key turn_key (?l r')"
    by (rule sort_key_perm [OF m])
  moreover have "distinct (map def_id (sort_key turn_key (?l r)))" by (rule distinct_map_sort [OF d])
  moreover have "sorted (map turn_key (sort_key turn_key (?l r)))" by (rule sorted_sort_key)
  ultimately show ?thesis unfolding q by blast
qed
definition ordered_follow :: "string \<Rightarrow> int \<Rightarrow> WorkflowDefinition" where
  "ordered_follow i n = on_follow\<lparr>def_id := i, def_trigger := Some \<lparr>trigger_type = TriggerTypeEvent,
     trigger_event = ''channel.*'', trigger_schedule = '''', trigger_conditions = [], trigger_order = Some n\<rparr>\<rparr>"

definition listing :: "string list \<Rightarrow> registry" where
  "listing is = NewWorkflowRegistry\<lparr>workflows := map (\<lambda>i. (i, ordered_follow i (if i = ''a'' then 2 else 1))) is\<rparr>"

theorem turns_do_not_depend_on_listing_witness:
  "\<exists>x x'. HandleEventWith ascii_lib None False follow_event (listing [''a'', ''c'', ''b'']) = Some x
     \<and> HandleEventWith ascii_lib None False follow_event (listing [''b'', ''a'', ''c'']) = Some x'
     \<and> queue x = queue x' \<and> map def_id (queue x) = [''b'', ''c'', ''a'']"
proof -
  let ?r = "listing [''a'', ''c'', ''b'']" and ?r' = "listing [''b'', ''a'', ''c'']"
  obtain x x' where x: "HandleEventWith ascii_lib None False follow_event ?r = Some x"
    "HandleEventWith ascii_lib None False follow_event ?r' = Some x'"
    by (simp add: HandleEventWith_def Let_def)
  have "mset (workflows ?r) = mset (workflows ?r')" by (simp add: listing_def)
  moreover have "distinct (map fst (workflows ?r))" by (simp add: listing_def)
  moreover have "\<forall>(w, d) \<in> set (workflows ?r). def_id d = w" by (simp add: listing_def ordered_follow_def)
  ultimately have "queue x = queue x'" using turns_do_not_depend_on_listing [OF _ _ _ x] by blast
  moreover have "map def_id (queue (the (HandleEventWith ascii_lib None False follow_event ?r))) = [''b'', ''c'', ''a'']"
    by code_simp
  ultimately show ?thesis using x by simp
qed

subsection \<open>Turns and requests\<close>

lemma one_fate_each: "length (executeInOrder ts) = length ts"
  by (induction ts) (simp_all add: abandon_queued_def)

text \<open>
  A run executes only after those before it were executed or found settled, and one is passed
  over only because it was settled, cancelled or abandoned. Once a turn is given up, so are the rest.
\<close>

lemma abandoned_not_executed: "i < length ts \<Longrightarrow> abandon_queued ts ! i \<noteq> Executed"
  by (simp add: abandon_queued_def)

lemma executed_in_turn:
  "i < length ts \<Longrightarrow> executeInOrder ts ! i = Executed \<Longrightarrow>
   fst (startQueued (turn_control (ts ! i))) \<and> (\<forall>j < i. executeInOrder ts ! j = Executed \<or> executeInOrder ts ! j = PassedOver)"
proof (induction ts arbitrary: i)
  case (Cons t ts)
  have running: "\<not> stopping t"
    using Cons.prems abandoned_not_executed [of i "t # ts"] by (auto simp: nth_Cons')
  show ?case
  proof (cases i)
    case 0
    then show ?thesis using Cons.prems running by (simp split: if_splits)
  next
    case (Suc k)
    then have k: "k < length ts" using Cons.prems(1) by simp
    then have rest: "executeInOrder ts ! k = Executed"
      "fst (startQueued (turn_control t)) \<longrightarrow> ended t \<noteq> StoppedWaiting"
      using Cons.prems(2) running Suc abandoned_not_executed [OF k] by (auto split: if_splits)
    show ?thesis
      using Cons.IH [OF k rest(1)] rest(2) running Suc by (simp add: less_Suc_eq_0_disj all_conj_distrib) auto
  qed
qed simp

lemma passed_over_because:
  "i < length ts \<Longrightarrow> executeInOrder ts ! i = PassedOver \<Longrightarrow>
   settled (turn_control (ts ! i)) \<or> cancelRequested (turn_control (ts ! i)) \<or> stopped (turn_control (ts ! i))"
proof (induction ts arbitrary: i)
  case (Cons t ts)
  then show ?case
    by (cases i) (auto simp: abandon_queued_def startQueued_def split: if_splits)
qed simp

text \<open>
  A manual run on sample data: the sample event takes the correlation of the request but not its
  dry-run mark, so only the request's own option makes such a run dry.
\<close>

lemma sample_loses_dry_run:
  "RunManual L facts json now r req = Inr (RunStarted d e dry) \<Longrightarrow> mr_triggerData req \<noteq> None \<Longrightarrow> dry = mr_dryRun req"
  by (auto simp: RunManual_def sampleTriggerEvent_def res_simps Let_def split: option.splits sum.splits if_splits)

lemma manual_run_keeps_correlation:
  "RunManual L facts json now r req = Inr (RunStarted d e dry) \<Longrightarrow> mr_request req = Some q \<Longrightarrow>
   Get (mr_workflowID req) r = Some d \<and> ev_id e = ev_id q \<and> ev_triggerId e = ev_triggerId q \<and> ev_triggeredBy e = ev_triggeredBy q"
  by (auto simp: RunManual_def sampleTriggerEvent_def res_simps Let_def split: option.splits sum.splits if_splits)

text \<open>A run of a command is of a command's workflow, on an event its trigger names, with its conditions met.\<close>

lemma command_run_checked:
  "RunCommand L facts ending r i event = Inr (RunStarted d e dry) \<Longrightarrow>
   Get i r = Some d \<and> event = Some e \<and> dry = ev_dryRun e
   \<and> (\<exists>t. def_trigger d = Some t \<and> trigger_type t = TriggerTypeCommand \<and> Matches (trigger_event t) (ev_type e))
   \<and> unmetTriggerConditions L d e (newViewerLoader facts (viewerTrigger d) (Some e)) = []"
  by (auto simp: RunCommand_def split: option.splits if_splits list.splits)

end
