(* ===== verification/Run_Table.thy ===== *)
theory Run_Table
  imports Run_Control "HOL-Library.AList"
    "HOL-Library.Char_ord" "HOL-Library.List_Lexorder" "HOL-Library.Product_Lexorder"
begin

text \<open>
  The runs the engine holds in memory, \<open>workflow/internal/engine/run_table.go\<close>, and the retention
  that bounds the settled ones. The table is an association list, since only its iteration order
  is unspecified and the sweep sorts; ids are its distinct keys.
\<close>

subsection \<open>Retention\<close>

record RetentionConfig =
  RetentionTTL :: duration
  SweepInterval :: duration
  MaxSettledRuns :: int

definition DefaultRetentionConfig :: RetentionConfig where
  "DefaultRetentionConfig =
     \<lparr>RetentionTTL = 2 * 60 * 1000000000, SweepInterval = 30 * 1000000000, MaxSettledRuns = 10000\<rparr>"

datatype retention_error =
    TTLNotPositive duration
  | IntervalNotPositive duration
  | CapNotPositive int
  | RetentionAfterStart

definition RetentionConfig_Validate :: "RetentionConfig \<Rightarrow> retention_error option" where
  "RetentionConfig_Validate c =
     (if RetentionTTL c \<le> 0 then Some (TTLNotPositive (RetentionTTL c))
      else if SweepInterval c \<le> 0 then Some (IntervalNotPositive (SweepInterval c))
      else if MaxSettledRuns c \<le> 0 then Some (CapNotPositive (MaxSettledRuns c))
      else None)"

text \<open>The engine's own part: its retention, and whether \<open>Start\<close> has read it.\<close>

record retention_state =
  retention :: RetentionConfig
  engine_started :: bool

definition SetRetention :: "RetentionConfig \<Rightarrow> retention_state \<Rightarrow> retention_error option \<times> retention_state" where
  "SetRetention c s =
     (case RetentionConfig_Validate c of
        Some e \<Rightarrow> (Some e, s)
      | None \<Rightarrow> if engine_started s then (Some RetentionAfterStart, s) else (None, s\<lparr>retention := c\<rparr>))"

text \<open>\<open>Start\<close> reads the sweep interval once and gives it to its ticker.\<close>

definition Start :: "retention_state \<Rightarrow> duration \<times> retention_state" where
  "Start s = (SweepInterval (retention s), s\<lparr>engine_started := True\<rparr>)"

subsection \<open>The table\<close>

type_synonym runTable = "(string \<times> run_entry) list"

definition newRunTable :: runTable where "newRunTable = []"

text \<open>\<open>put\<close> panics on an id it holds already.\<close>

definition put :: "string \<Rightarrow> run_entry \<Rightarrow> runTable \<Rightarrow> runTable option" where
  "put i r t = (if map_of t i = None then Some ((i, r) # t) else None)"

definition get_run :: "string \<Rightarrow> runTable \<Rightarrow> run_entry option" where
  "get_run i t = map_of t i"

definition settle_run :: "string \<Rightarrow> time \<Rightarrow> runTable \<Rightarrow> runTable" where
  "settle_run i at' t =
     (case map_of t i of
        None \<Rightarrow> t
      | Some r \<Rightarrow> if settledAt r \<noteq> None then t else AList.update i (r\<lparr>settledAt := Some at'\<rparr>) t)"

definition snapshotUnsettled :: "runTable \<Rightarrow> (string \<times> run_entry) list" where
  "snapshotUnsettled t = filter (\<lambda>(i, r). \<not> settled (control r)) t"

subsection \<open>The sweep\<close>

text \<open>The settled runs, and of these the ones nothing pins, each with its stamp, oldest first and by id among equals.\<close>

definition settled_runs :: "runTable \<Rightarrow> (time \<times> string) list" where
  "settled_runs t = concat (map (\<lambda>(i, r). case settledAt r of None \<Rightarrow> [] | Some at' \<Rightarrow> [(at', i)]) t)"

definition evictable :: "(string \<Rightarrow> bool) \<Rightarrow> runTable \<Rightarrow> (time \<times> string) list" where
  "evictable pinned t = sort (filter (\<lambda>(at', i). \<not> pinned i) (settled_runs t))"

definition expired :: "time \<Rightarrow> RetentionConfig \<Rightarrow> time \<Rightarrow> bool" where
  "expired now c at' \<longleftrightarrow> now - at' \<ge> RetentionTTL c"

fun evict_loop :: "time \<Rightarrow> RetentionConfig \<Rightarrow> int \<Rightarrow> int \<Rightarrow> (time \<times> string) list \<Rightarrow> runTable \<Rightarrow> int \<times> runTable" where
  "evict_loop now c n evicted [] t = (evicted, t)"
| "evict_loop now c n evicted ((at', i) # es) t =
     (if \<not> expired now c at' \<and> n - evicted \<le> MaxSettledRuns c then (evicted, t)
      else evict_loop now c n (evicted + 1) es (AList.delete i t))"

definition sweep :: "time \<Rightarrow> RetentionConfig \<Rightarrow> (string \<Rightarrow> bool) \<Rightarrow> runTable \<Rightarrow> int \<times> runTable" where
  "sweep now c pinned t = evict_loop now c (int (length (settled_runs t))) 0 (evictable pinned t) t"
subsection \<open>What a sweep evicts\<close>

definition keys_distinct :: "runTable \<Rightarrow> bool" where "keys_distinct t \<longleftrightarrow> distinct (map fst t)"

definition without :: "string set \<Rightarrow> runTable \<Rightarrow> runTable" where
  "without I t = filter (\<lambda>(i, r). i \<notin> I) t"

lemma without_simps [simp]:
  "without {} t = t" "without I [] = []" "without I (AList.delete i t) = without (insert i I) t"
  "set (without I t) = {(i, r) \<in> set t. i \<notin> I}"
  by (auto simp: without_def AList.delete_eq intro!: filter_cong)

text \<open>How many runs go: those past their time, or as many of the evictable as are over the cap.\<close>

definition quota :: "time \<Rightarrow> RetentionConfig \<Rightarrow> int \<Rightarrow> (time \<times> string) list \<Rightarrow> nat" where
  "quota now c n es =
     max (length (filter (expired now c) (map fst es))) (min (length es) (nat (n - MaxSettledRuns c)))"

lemma expired_older: "a \<le> b \<Longrightarrow> expired now c b \<Longrightarrow> expired now c a"
  by (simp add: expired_def)

lemma none_expired:
  "sorted (map fst ((a, i) # es)) \<Longrightarrow> \<not> expired now c a \<Longrightarrow> filter (expired now c) (map fst ((a, i) # es)) = []"
  using expired_older [of a _ now c] by (auto simp: filter_empty_conv)

lemma evict_loop_quota:
  "sorted (map fst es) \<Longrightarrow>
   evict_loop now c n e es t = (e + int (quota now c (n - e) es), without (set (map snd (take (quota now c (n - e) es) es))) t)"
proof (induction es arbitrary: e t)
  case Nil
  then show ?case by (simp add: quota_def)
next
  case (Cons x es)
  obtain a i where x: "x = (a, i)" by fastforce
  show ?case
  proof (cases "\<not> expired now c a \<and> n - e \<le> MaxSettledRuns c")
    case True
    then have "quota now c (n - e) (x # es) = 0"
      using none_expired [of a i es now c] Cons.prems by (simp add: quota_def x)
    then show ?thesis using True by (simp add: x)
  next
    case False
    have q: "quota now c (n - e) (x # es) = Suc (quota now c (n - (e + 1)) es)"
    proof (cases "expired now c a")
      case True
      moreover have "nat (n - e - MaxSettledRuns c) = Suc (nat (n - (e + 1) - MaxSettledRuns c))
          \<or> nat (n - e - MaxSettledRuns c) = 0 \<and> nat (n - (e + 1) - MaxSettledRuns c) = 0" by linarith
      ultimately show ?thesis by (auto simp: quota_def x)
    next
      case nx: False
      then have z: "length (filter (expired now c) (map fst es)) = 0"
        using none_expired [of a i es now c] Cons.prems by (simp add: x)
      have "n - e > MaxSettledRuns c" using False nx by simp
      then have "nat (n - e - MaxSettledRuns c) = Suc (nat (n - (e + 1) - MaxSettledRuns c))" by linarith
      then show ?thesis using z nx by (simp add: quota_def x)
    qed
    show ?thesis
      unfolding q using False Cons.IH [of "e + 1"] Cons.prems by (auto simp: x insert_commute Un_commute)
  qed
qed

lemma evictable_sorted: "sorted (map fst (evictable pinned t))"
proof -
  have "sorted (evictable pinned t)" by (simp add: evictable_def)
  then show ?thesis by (auto simp: sorted_map intro: sorted_wrt_mono_rel [rotated] simp: less_eq_prod_def le_less)
qed

lemma sweep_quota:
  "sweep now c pinned t =
     (int (quota now c (int (length (settled_runs t))) (evictable pinned t)),
      without (set (map snd (take (quota now c (int (length (settled_runs t))) (evictable pinned t)) (evictable pinned t)))) t)"
  by (simp add: sweep_def evict_loop_quota [OF evictable_sorted])
lemma settled_runs_in: "(a, i) \<in> set (settled_runs t) \<longleftrightarrow> (\<exists>r. (i, r) \<in> set t \<and> settledAt r = Some a)"
  by (force simp: settled_runs_def split: option.splits)

lemma settled_ids_distinct: "keys_distinct t \<Longrightarrow> distinct (map snd (settled_runs t))"
proof (induction t)
  case (Cons x t)
  then show ?case by (cases x) (force simp: settled_runs_def keys_distinct_def split: option.splits)
qed (simp add: settled_runs_def)

lemma settled_runs_without: "settled_runs (without I t) = filter (\<lambda>(a, i). i \<notin> I) (settled_runs t)"
  by (induction t) (auto simp: settled_runs_def without_def split: option.splits)

lemma evictable_facts:
  "set (evictable pinned t) = {(a, i). (a, i) \<in> set (settled_runs t) \<and> \<not> pinned i}"
  "keys_distinct t \<Longrightarrow> distinct (map snd (evictable pinned t))"
  using settled_ids_distinct [of t] by (auto simp: evictable_def distinct_map) (auto simp: inj_on_def)

lemma evicted_count:
  assumes "keys_distinct t" and "I = set (map snd (take k (evictable pinned t)))"
  shows "length (settled_runs (without I t)) = length (settled_runs t) - min k (length (evictable pinned t))"
proof -
  let ?S = "settled_runs t" and ?T = "take k (evictable pinned t)"
  have d: "distinct (map snd ?S)" using settled_ids_distinct [OF assms(1)] .
  have sub: "set ?T \<subseteq> set ?S" using set_take_subset [of k "evictable pinned t"] by (auto simp: evictable_facts)
  have same: "(a, i) \<in> set ?T" if "(a, i) \<in> set ?S" "(b, i) \<in> set ?T" for a b i
  proof -
    have "(b, i) \<in> set ?S" using that(2) sub by blast
    then have "a = b" using that(1) d inj_onD [of snd "set ?S" "(a, i)" "(b, i)"] by (simp add: distinct_map)
    then show ?thesis using that(2) by simp
  qed
  have "set (filter (\<lambda>(a, i). i \<in> I) ?S) = set ?T"
  proof (intro equalityI subsetI)
    fix x assume x: "x \<in> set (filter (\<lambda>(a, i). i \<in> I) ?S)"
    obtain b where "(b, snd x) \<in> set ?T" using x unfolding assms(2) by (cases x rule: prod.exhaust) auto
    then show "x \<in> set ?T" using same [of "fst x" "snd x" b] x by (cases x rule: prod.exhaust) simp
  next
    fix x assume x: "x \<in> set ?T"
    then have "snd x \<in> I" unfolding assms(2) by simp
    then show "x \<in> set (filter (\<lambda>(a, i). i \<in> I) ?S)" using subsetD [OF sub x] by (simp add: case_prod_unfold)
  qed
  moreover have "distinct ?T" using evictable_facts(2) [OF assms(1), of pinned] by (simp add: distinct_map)
  moreover have "distinct (filter (\<lambda>(a, i). i \<in> I) ?S)" using d by (simp add: distinct_map)
  ultimately have "length (filter (\<lambda>(a, i). i \<in> I) ?S) = length ?T"
    by (metis distinct_card)
  then show ?thesis
    using sum_length_filter_compl [of "\<lambda>(a, i). i \<in> I" ?S]
    by (simp add: settled_runs_without case_prod_unfold min.commute)
qed
text \<open>The two halves of the guarantee: what stays because it must, and what is left at most.\<close>

lemma kept_by_sweep:
  assumes k: "keys_distinct t" and s: "sweep now c pinned t = (n, t')"
  shows "set t' \<subseteq> set t" and "i \<notin> fst ` set t' \<Longrightarrow> (i, r) \<in> set t \<Longrightarrow> \<exists>a. settledAt r = Some a \<and> \<not> pinned i"
proof -
  obtain I m where I: "I = set (map snd (take m (evictable pinned t)))" "t' = without I t"
    using s by (auto simp: sweep_quota)
  show "set t' \<subseteq> set t" by (auto simp: I(2))
  assume i: "i \<notin> fst ` set t'" "(i, r) \<in> set t"
  then have "i \<in> I" by (force simp: I(2))
  then obtain a where "(a, i) \<in> set (settled_runs t)" "\<not> pinned i"
    using set_take_subset [of m "evictable pinned t"] by (auto simp: I(1) evictable_facts)
  moreover obtain q where "(i, q) \<in> set t" "settledAt q = Some a" using calculation(1) by (auto simp: settled_runs_in)
  ultimately show "\<exists>a. settledAt r = Some a \<and> \<not> pinned i"
    using i(2) k by (auto simp: keys_distinct_def dest: eq_key_imp_eq_value)
qed

lemma sorted_take_drop: "sorted xs \<Longrightarrow> x \<in> set (take k xs) \<Longrightarrow> y \<in> set (drop k xs) \<Longrightarrow> x \<le> y"
  by (metis append_take_drop_id sorted_append)

lemma left_after_quota:
  assumes "sorted (map fst es)" and "(a, i) \<in> set (drop (quota now c n es) es)"
  shows "\<not> expired now c a"
proof
  assume x: "expired now c a"
  let ?k = "quota now c n es"
  have e: "expired now c (fst e)" if "e \<in> set (take ?k es)" for e
    using sorted_take_drop [of "map fst es" "fst e" ?k a] assms that x expired_older
    by (force simp: take_map drop_map)
  have "length (filter (expired now c) (map fst es)) \<ge> Suc ?k"
  proof -
    have l: "?k < length es" using assms(2) by (cases "?k < length es") auto
    have "length (filter (expired now c) (map fst (take ?k es))) = ?k"
      using e l by (simp add: filter_map filter_id_conv)
    moreover have "length (filter (expired now c) (map fst (drop ?k es))) > 0"
      using assms(2) x by (force simp: filter_empty_conv filter_map)
    moreover have "filter (expired now c) (map fst es)
        = filter (expired now c) (map fst (take ?k es)) @ filter (expired now c) (map fst (drop ?k es))"
      by (metis append_take_drop_id filter_append map_append)
    ultimately show ?thesis by (simp only: length_append)
  qed
  then show False by (simp add: quota_def)
qed
lemma swept_entry:
  assumes k: "keys_distinct t" and s: "sweep now c pinned t = (n, t')"
    and "(i, r) \<in> set t'" and "settledAt r = Some a" and "\<not> pinned i"
  shows "(a, i) \<in> set (drop (quota now c (int (length (settled_runs t))) (evictable pinned t)) (evictable pinned t))"
proof -
  let ?E = "evictable pinned t" and ?k = "quota now c (int (length (settled_runs t))) (evictable pinned t)"
  have t': "t' = without (set (map snd (take ?k ?E))) t" using s by (simp add: sweep_quota)
  have "(a, i) \<in> set ?E" using assms(3-5) by (auto simp: t' evictable_facts settled_runs_in)
  moreover have "(a, i) \<notin> set (take ?k ?E)" using assms(3) by (force simp: t')
  ultimately show ?thesis by (metis Un_iff append_take_drop_id set_append)
qed

lemma sweep_counts:
  assumes k: "keys_distinct t" and s: "sweep now c pinned t = (n, t')"
  shows "length (settled_runs t')
    = length (settled_runs t) - quota now c (int (length (settled_runs t))) (evictable pinned t)"
    and "quota now c (int (length (settled_runs t))) (evictable pinned t) \<le> length (evictable pinned t)"
    and "length (evictable pinned t) \<le> length (settled_runs t)"
    and "n = int (length (settled_runs t) - length (settled_runs t'))"
proof -
  let ?E = "evictable pinned t" and ?k = "quota now c (int (length (settled_runs t))) (evictable pinned t)"
  have t': "t' = without (set (map snd (take ?k ?E))) t" "n = int ?k" using s by (simp_all add: sweep_quota)
  show k1: "?k \<le> length ?E" using length_filter_le [of "expired now c" "map fst ?E"] by (simp add: quota_def)
  show e: "length ?E \<le> length (settled_runs t)" by (simp add: evictable_def)
  show l: "length (settled_runs t') = length (settled_runs t) - ?k"
    using evicted_count [OF k refl, of ?k pinned] k1 by (simp add: t' min_absorb1)
  show "n = int (length (settled_runs t) - length (settled_runs t'))" using l k1 e by (simp add: t'(2))
qed

text \<open>
  C27. A sweep takes from memory only settled runs that nothing waits for, the oldest first, and
  none before its time unless there are too many; what it leaves is bounded: every settled run
  left that is not pinned is younger than the retention, and no more settled runs than the cap
  are left, unless all of them are pinned.
\<close>

theorem sweep_evicts_what_is_due:
  assumes "keys_distinct t" and "RetentionConfig_Validate c = None" and "sweep now c pinned t = (n, t')"
  shows "set t' \<subseteq> set t
    \<and> (\<forall>(i, r) \<in> set t - set t'. \<exists>a. settledAt r = Some a \<and> \<not> pinned i
         \<and> (\<forall>(j, q) \<in> set t'. \<forall>b. settledAt q = Some b \<longrightarrow> pinned j \<or> a \<le> b)
         \<and> (now - a < RetentionTTL c \<longrightarrow> int (length (settled_runs t')) \<ge> MaxSettledRuns c))
    \<and> (\<forall>(i, r) \<in> set t'. \<forall>a. settledAt r = Some a \<longrightarrow> pinned i \<or> now - a < RetentionTTL c)
    \<and> (int (length (settled_runs t')) \<le> MaxSettledRuns c \<or> (\<forall>(a, i) \<in> set (settled_runs t'). pinned i))
    \<and> n = int (length (settled_runs t) - length (settled_runs t'))"
proof -
  let ?E = "evictable pinned t" and ?S = "settled_runs t"
  let ?k = "quota now c (int (length ?S)) ?E"
  note k = assms(1) and s = assms(3)
  note cs = sweep_counts [OF k s] and sorted = evictable_sorted [of pinned t]
  have t': "t' = without (set (map snd (take ?k ?E))) t" using s by (simp add: sweep_quota)
  have left: "\<not> expired now c a" "(a, i) \<in> set (drop ?k ?E)"
    if "(i, r) \<in> set t'" "settledAt r = Some a" "\<not> pinned i" for i r a
    using swept_entry [OF k s that] left_after_quota [OF sorted] by blast+
  have gone: "\<exists>a. settledAt r = Some a \<and> \<not> pinned i \<and> (a, i) \<in> set (take ?k ?E)"
    if "(i, r) \<in> set t - set t'" for i r
  proof -
    have "i \<in> set (map snd (take ?k ?E))" using that unfolding t' without_simps by blast
    then obtain a where a: "(a, i) \<in> set (take ?k ?E)" by force
    then have "(a, i) \<in> set ?E" by (rule in_set_takeD)
    then obtain q where "(i, q) \<in> set t" "settledAt q = Some a" "\<not> pinned i"
      by (auto simp: evictable_facts settled_runs_in)
    then show ?thesis using that a k by (auto simp: keys_distinct_def dest: eq_key_imp_eq_value)
  qed
  have oldest: "a \<le> b" if "(a, i) \<in> set (take ?k ?E)" "(b, j) \<in> set (drop ?k ?E)" for a b i j
    using sorted_take_drop [OF sorted, of a ?k b] that by (force simp: take_map drop_map)
  have due: "int (length (settled_runs t')) \<ge> MaxSettledRuns c"
    if a: "(a, i) \<in> set (take ?k ?E)" "now - a < RetentionTTL c" for a i
  proof (rule ccontr)
    assume low: "\<not> ?thesis"
    have "?k \<noteq> 0" using a by (cases "?k = 0") simp_all
    with low cs(1-3) have "nat (int (length ?S) - MaxSettledRuns c) < ?k" by linarith
    then have "?k = length (filter (expired now c) (map fst ?E))" by (auto simp: quota_def)
    moreover have "filter (expired now c) (map fst ?E) = filter (expired now c) (map fst (take ?k ?E))"
    proof -
      have "filter (expired now c) (map fst (drop ?k ?E)) = []"
        using left_after_quota [OF sorted] by (force simp: filter_empty_conv)
      then show ?thesis by (metis append_Nil2 append_take_drop_id filter_append map_append)
    qed
    ultimately have "length (filter (expired now c) (map fst (take ?k ?E))) = length (map fst (take ?k ?E))"
      using cs(2) by simp
    moreover have "a \<in> set (map fst (take ?k ?E))" using a(1) by force
    ultimately have "expired now c a" using length_filter_less [of a "map fst (take ?k ?E)" "expired now c"] by auto
    then show False using a(2) by (simp add: expired_def)
  qed
  have cap: "int (length (settled_runs t')) \<le> MaxSettledRuns c \<or> (\<forall>(a, i) \<in> set (settled_runs t'). pinned i)"
  proof (cases "int (length ?S) - MaxSettledRuns c \<le> int (length ?E)")
    case True
    then have "nat (int (length ?S) - MaxSettledRuns c) \<le> ?k" by (simp add: quota_def)
    then show ?thesis using cs(1) assms(2) by (simp add: RetentionConfig_Validate_def split: if_splits) linarith
  next
    case False
    then have "drop ?k ?E = []" by (simp add: quota_def)
    then show ?thesis using left(2) by (fastforce simp: settled_runs_in)
  qed
  have away: "\<exists>a. settledAt r = Some a \<and> \<not> pinned i
      \<and> (\<forall>(j, q) \<in> set t'. \<forall>b. settledAt q = Some b \<longrightarrow> pinned j \<or> a \<le> b)
      \<and> (now - a < RetentionTTL c \<longrightarrow> int (length (settled_runs t')) \<ge> MaxSettledRuns c)"
    if x: "(i, r) \<in> set t - set t'" for i r
  proof -
    obtain a where a: "settledAt r = Some a" "\<not> pinned i" "(a, i) \<in> set (take ?k ?E)" using gone [OF x] by blast
    have "\<forall>(j, q) \<in> set t'. \<forall>b. settledAt q = Some b \<longrightarrow> pinned j \<or> a \<le> b"
      using left(2) oldest [OF a(3)] by blast
    then show ?thesis using a due [OF a(3)] by blast
  qed
  have young: "\<forall>(i, r) \<in> set t'. \<forall>a. settledAt r = Some a \<longrightarrow> pinned i \<or> now - a < RetentionTTL c"
    using left(1) by (fastforce simp: expired_def)
  show ?thesis
    by (intro conjI kept_by_sweep(1) [OF k s] young cap cs(4)) (use away in blast)
qed
definition settled_at :: "time \<Rightarrow> run_entry" where
  "settled_at a = set_status a ExecCompleted None (begin_run False)"

definition busy_table :: runTable where
  "busy_table = [(''a'', settled_at 10), (''b'', begin_run False), (''c'', settled_at 70), (''d'', settled_at 40), (''e'', settled_at 5)]"

definition small_retention :: RetentionConfig where
  "small_retention = \<lparr>RetentionTTL = 60, SweepInterval = 30, MaxSettledRuns = 2\<rparr>"

theorem sweep_evicts_what_is_due_witness:
  "sweep 80 small_retention (\<lambda>i. i = ''e'') busy_table = (2, without {''a'', ''d''} busy_table)
   \<and> int (length (settled_runs (without {''a'', ''d''} busy_table))) \<le> MaxSettledRuns small_retention"
proof -
  have s: "sweep 80 small_retention (\<lambda>i. i = ''e'') busy_table = (2, without {''a'', ''d''} busy_table)" by code_simp
  have "keys_distinct busy_table" "RetentionConfig_Validate small_retention = None" by code_simp+
  from sweep_evicts_what_is_due [OF this s] have "int (length (settled_runs (without {''a'', ''d''} busy_table))) \<le> MaxSettledRuns small_retention
      \<or> (\<forall>(a, i) \<in> set (settled_runs (without {''a'', ''d''} busy_table)). i = ''e'')" by (elim conjE)
  moreover have "(70, ''c'') \<in> set (settled_runs (without {''a'', ''d''} busy_table))" by code_simp
  ultimately show ?thesis using s by auto
qed

subsection \<open>The table as the engine uses it\<close>

lemma table_keys:
  "put i r t = Some t' \<Longrightarrow> keys_distinct t \<Longrightarrow> keys_distinct t'"
  "keys_distinct t \<Longrightarrow> keys_distinct (settle_run i a t)"
  "keys_distinct t \<Longrightarrow> keys_distinct (without I t)"
  "keys_distinct t \<Longrightarrow> sweep now c pinned t = (n, t') \<Longrightarrow> keys_distinct t'"
  by (auto simp: put_def keys_distinct_def map_of_eq_None_iff settle_run_def without_def distinct_update
        distinct_map_filter sweep_quota split: if_splits option.splits)

lemma get_run_simps:
  "put i r t = Some t' \<Longrightarrow> get_run j t' = (if j = i then Some r else get_run j t)"
  "put i r t = None \<longleftrightarrow> get_run i t \<noteq> None"
  "get_run j (without I t) = (if j \<in> I then None else get_run j t)"
  by (auto simp: put_def get_run_def without_def map_of_filter_in split: if_splits)
    (induction t; auto)+

text \<open>The first stamp wins, so a run's retention is never extended.\<close>

lemma settle_run_once:
  "get_run j (settle_run i a t) =
     (case get_run j t of None \<Rightarrow> None | Some r \<Rightarrow> Some (if j = i then stamp a r else r))"
  "settle_run i b (settle_run i a t) = settle_run i a t"
  by (auto simp: get_run_def settle_run_def stamp_def update_conv split: option.splits)

lemma retention_is_valid:
  "RetentionConfig_Validate DefaultRetentionConfig = None"
  "SetRetention c s = (e, s') \<Longrightarrow> RetentionConfig_Validate (retention s) = None
     \<Longrightarrow> RetentionConfig_Validate (retention s') = None \<and> (engine_started s \<longrightarrow> s' = s)"
  by (auto simp: RetentionConfig_Validate_def DefaultRetentionConfig_def SetRetention_def split: option.splits if_splits)

end
