(* ===== verification/Sub_Workflow.thy ===== *)
theory Sub_Workflow
  imports Run_Table Wait_Task "HOL-Library.Multiset"
begin

text \<open>
  Runs that wait for the run of a sub-workflow: the waiting part of \<open>handleWorkflowTask\<close>,
  \<open>executeWorkflowSync\<close>, \<open>checkSubWorkflowCompletion\<close>, \<open>abandonWaitingParent\<close>,
  \<open>resumeSubWorkflowExecution\<close> and \<open>sweepSettledRuns\<close> of \<open>workflow/internal/engine/engine.go\<close>, and
  \<open>claimSubWorkflowWaiters\<close>, \<open>cancelPendingTask\<close>, \<open>abandonRun\<close> and the recursion of \<open>Cancel\<close> of
  \<open>cancel.go\<close>. The calls these make of one another, across runs, are the acts of a stack.
\<close>

subsection \<open>The engine's runs and who waits for them\<close>

text \<open>A waiter carries what the parent needs to go on; here only the task it waits in and its position.\<close>

record SubWorkflowWaiter =
  sw_parent :: string
  sw_parentWorkflow :: string
  sw_task :: string
  sw_index :: nat

text \<open>What the operations touch of an execution's task: status, error and sub-workflow state.\<close>

record sub_task =
  st_status :: TaskStatus
  st_error :: string
  st_workflow :: "WorkflowState option"

text \<open>
  \<open>subWorkflowWaiters\<close> is keyed by the child's id and has no empty entry. \<open>at_wait\<close> are the runs
  with an armed wait, which \<open>claimWaits\<close> takes; \<open>went_on\<close> are the waiters whose parents were
  handed back to the task loop.
\<close>

record sub_engine =
  table :: runTable
  waiters :: "(string \<times> SubWorkflowWaiter list) list"
  sub_tasks :: "string \<Rightarrow> string \<Rightarrow> sub_task option"
  at_wait :: "string list"
  went_on :: "SubWorkflowWaiter list"

definition waiters_of :: "string \<Rightarrow> sub_engine \<Rightarrow> SubWorkflowWaiter list" where
  "waiters_of c s = (case map_of (waiters s) c of None \<Rightarrow> [] | Some ws \<Rightarrow> ws)"

definition set_entry :: "string \<Rightarrow> run_entry \<Rightarrow> sub_engine \<Rightarrow> sub_engine" where
  "set_entry x r s = s\<lparr>table := AList.update x r (table s)\<rparr>"

definition sub_ctxDone :: "string \<Rightarrow> sub_engine \<Rightarrow> bool" where
  "sub_ctxDone x s = (case get_run x (table s) of None \<Rightarrow> False | Some r \<Rightarrow> ctx_done (control r))"

subsection \<open>Waiting for a sub-workflow\<close>

text \<open>\<open>executeWorkflowSync\<close> puts the child in the table before its goroutine starts; a duplicate id would panic.\<close>

definition executeWorkflowSync :: "string \<Rightarrow> sub_engine \<Rightarrow> sub_engine option" where
  "executeWorkflowSync child s = map_option (\<lambda>t. s\<lparr>table := t\<rparr>) (put child (begin_run False) (table s))"

text \<open>
  The end of the first part of \<open>handleWorkflowTask\<close>, after the child was started: the task of a
  parent whose context has ended is not made to wait, and the child is cancelled with it.
\<close>

definition wait_for_child :: "SubWorkflowWaiter \<Rightarrow> string \<Rightarrow> sub_engine \<Rightarrow> string \<times> sub_engine" where
  "wait_for_child w child s =
     (if sub_ctxDone (sw_parent w) s then (''cancelled'', s)
      else (''waiting'', s\<lparr>waiters := AList.update child (waiters_of child s @ [w]) (waiters s)\<rparr>))"

text \<open>The second part: a parent that re-enters the task asks what became of the child.\<close>

definition child_outcome ::
  "(settle_error option \<Rightarrow> string) \<Rightarrow> time \<Rightarrow> WorkflowState \<Rightarrow> sub_engine \<Rightarrow> (string \<times> string) \<times> WorkflowState" where
  "child_outcome show now ws s =
     (case get_run (sub_executionID ws) (table s) of
        None \<Rightarrow> ((''failed'', ''sub-workflow run '' @ sub_executionID ws @ '' not found''), ws)
      | Some r \<Rightarrow>
          if sub_timeout ws < now
          then ((''failed'', ''timed out waiting for sub-workflow run '' @ sub_executionID ws), ws)
          else (case ex_status (exec r) of
                  ExecCompleted \<Rightarrow> ((''completed'', ''''), ws\<lparr>sub_completed := True, sub_result := Some []\<rparr>)
                | ExecFailed \<Rightarrow> ((''failed'', ''sub-workflow execution failed: '' @ show (ex_error (exec r))), ws)
                | _ \<Rightarrow> ((''waiting'', ''''), ws)))"

subsection \<open>The end of a child\<close>

datatype completion =
    NoWaiters
  | ChildGone
  | AbandonParents "SubWorkflowWaiter list"
  | ResumeParents "SubWorkflowWaiter list" run_entry

definition checkSubWorkflowCompletion :: "string \<Rightarrow> sub_engine \<Rightarrow> completion \<times> sub_engine" where
  "checkSubWorkflowCompletion child s =
     (let ws = waiters_of child s; s' = s\<lparr>waiters := AList.delete child (waiters s)\<rparr>
      in if ws = [] then (NoWaiters, s)
         else (case get_run child (table s) of
                 None \<Rightarrow> (ChildGone, s')
               | Some r \<Rightarrow> (if settledByStop (control r) then AbandonParents ws else ResumeParents ws r, s')))"

definition cancelPendingTask :: "string \<Rightarrow> string \<Rightarrow> sub_engine \<Rightarrow> sub_engine" where
  "cancelPendingTask x task s =
     (let why = (case get_run x (table s) of None \<Rightarrow> CancelAbandon | Some r \<Rightarrow> abandonedBy (control r));
          old = (case sub_tasks s x task of None \<Rightarrow> \<lparr>st_status = TaskCancelled, st_error = '''', st_workflow = None\<rparr> | Some t \<Rightarrow> t);
          new = old\<lparr>st_status := TaskCancelled,
                    st_error := (if why = StoppedAbandon then ''engine stopped'' else ''run cancelled'')\<rparr>
      in s\<lparr>sub_tasks := (sub_tasks s)(x := (sub_tasks s x)(task \<mapsto> new))\<rparr>)"

text \<open>What the end of the child makes of the parent's task.\<close>

definition task_after_child :: "(settle_error option \<Rightarrow> string) \<Rightarrow> run_entry \<Rightarrow> sub_task \<Rightarrow> sub_task" where
  "task_after_child show child t =
     (case st_workflow t of
        None \<Rightarrow> t
      | Some ws \<Rightarrow>
          (let done_ws = ws\<lparr>sub_completed := True\<rparr>
           in (case ex_status (exec child) of
                 ExecCompleted \<Rightarrow> t\<lparr>st_status := TaskSuccess, st_workflow := Some (done_ws\<lparr>sub_result := Some []\<rparr>)\<rparr>
               | ExecFailed \<Rightarrow> t\<lparr>st_status := TaskFailed, st_workflow := Some done_ws,
                     st_error := ''sub-workflow execution failed: '' @ show (ex_error (exec child))\<rparr>
               | ExecCancelled \<Rightarrow> t\<lparr>st_status := TaskFailed, st_workflow := Some done_ws,
                     st_error := ''sub-workflow run was cancelled: '' @ show (ex_error (exec child))\<rparr>
               | _ \<Rightarrow> t\<lparr>st_status := TaskFailed, st_workflow := Some done_ws,
                     st_error := ''sub-workflow execution status unknown''\<rparr>)))"

text \<open>Whether the parent's run ended with the task; otherwise it goes on after it.\<close>

definition resumeSubWorkflowExecution ::
  "(settle_error option \<Rightarrow> string) \<Rightarrow> time \<Rightarrow> SubWorkflowWaiter \<Rightarrow> run_entry \<Rightarrow> sub_engine \<Rightarrow> bool \<times> sub_engine" where
  "resumeSubWorkflowExecution show now w child s =
     (case get_run (sw_parent w) (table s) of
        None \<Rightarrow> (False, s)
      | Some r \<Rightarrow>
          (let t = map_option (task_after_child show child) (sub_tasks s (sw_parent w) (sw_task w));
               s1 = s\<lparr>sub_tasks := (sub_tasks s)(sw_parent w := (sub_tasks s (sw_parent w))(sw_task w := t))\<rparr>
           in (case t of
                 Some t' \<Rightarrow>
                   if st_status t' = TaskFailed
                   then (True, set_entry (sw_parent w) (setExecutionStatus now ExecFailed (Some (OtherErr (st_error t'))) r) s1)
                   else (False, (set_entry (sw_parent w) (r\<lparr>exec := (exec r)\<lparr>ex_status := ExecRunning\<rparr>\<rparr>) s1)
                      \<lparr>went_on := went_on s1 @ [w]\<rparr>)
               | None \<Rightarrow> (False, (set_entry (sw_parent w) (r\<lparr>exec := (exec r)\<lparr>ex_status := ExecRunning\<rparr>\<rparr>) s1)
                      \<lparr>went_on := went_on s1 @ [w]\<rparr>))))"

definition claimSubWorkflowWaiters :: "string \<Rightarrow> sub_engine \<Rightarrow> (string \<times> SubWorkflowWaiter) list \<times> sub_engine" where
  "claimSubWorkflowWaiters x s =
     (let mine = concat (map (\<lambda>(c, ws). case filter (\<lambda>w. sw_parent w = x) ws of [] \<Rightarrow> [] | vs \<Rightarrow> [(c, last vs)]) (waiters s));
          kept = filter (\<lambda>(c, ws). ws \<noteq> []) (map (\<lambda>(c, ws). (c, filter (\<lambda>w. sw_parent w \<noteq> x) ws)) (waiters s))
      in (mine, s\<lparr>waiters := kept\<rparr>))"
subsection \<open>What one run's end does to the others\<close>

text \<open>
  The calls the engine makes of one another, as a stack of acts: \<open>Cancel\<close> of a run, \<open>Stop\<close>
  giving up on one, \<open>settleCancelled\<close>, \<open>checkSubWorkflowCompletion\<close>, \<open>abandonWaitingParent\<close> and
  \<open>resumeSubWorkflowExecution\<close>. The stack runs what the code puts on goroutines of their own at once.
\<close>

datatype act =
    CancelIt string string
  | StopIt string
  | SettleIt string
  | CheckIt string
  | AbandonIt SubWorkflowWaiter
  | ResumeIt SubWorkflowWaiter run_entry

definition cancel_tasks :: "string \<Rightarrow> (string \<times> SubWorkflowWaiter) list \<Rightarrow> sub_engine \<Rightarrow> sub_engine" where
  "cancel_tasks x mine s = fold (\<lambda>(c, w). cancelPendingTask x (sw_task w)) mine s"

text \<open>\<open>abandonRun\<close>; the flag says whether the sub-workflows of a paused run are cancelled with it.\<close>

definition abandonRun :: "bool \<Rightarrow> string \<Rightarrow> run_entry \<Rightarrow> sub_engine \<Rightarrow> act list \<times> sub_engine" where
  "abandonRun with_children x r s =
     (let s1 = set_entry x (r\<lparr>control := (control r)\<lparr>ctx_done := True\<rparr>\<rparr>) s
      in if queued (control r) then ([SettleIt x], s1)
         else if x \<in> set (at_wait s1) then ([SettleIt x], s1\<lparr>at_wait := filter (\<lambda>y. y \<noteq> x) (at_wait s1)\<rparr>)
         else (case claimSubWorkflowWaiters x s1 of
                 ([], s2) \<Rightarrow> ([], s2)
               | (mine, s2) \<Rightarrow>
                   ((if with_children then map (\<lambda>(c, w). CancelIt c ''parent run cancelled'') mine else []) @ [SettleIt x],
                    cancel_tasks x mine s2)))"

definition act_step ::
  "(settle_error option \<Rightarrow> string) \<Rightarrow> time \<Rightarrow> act \<Rightarrow> sub_engine \<Rightarrow> act list \<times> sub_engine" where
  "act_step show now a s =
     (case a of
        CancelIt x why \<Rightarrow>
          (case get_run x (table s) of
             None \<Rightarrow> ([], s)
           | Some r \<Rightarrow>
               (case Cancel why (control r) of
                  (_, False, _) \<Rightarrow> ([], s)
                | (_, True, c) \<Rightarrow> abandonRun True x (r\<lparr>control := c\<rparr>) s))
      | StopIt x \<Rightarrow>
          (case get_run x (table s) of
             None \<Rightarrow> ([], s)
           | Some r \<Rightarrow>
               (case markStopped (control r) of
                  (False, _) \<Rightarrow> ([], s)
                | (True, c) \<Rightarrow> abandonRun False x (r\<lparr>control := c\<rparr>) s))
      | SettleIt x \<Rightarrow>
          ([CheckIt x],
           case get_run x (table s) of None \<Rightarrow> s | Some r \<Rightarrow> set_entry x (settleCancelled now r) s)
      | CheckIt c \<Rightarrow>
          (case checkSubWorkflowCompletion c s of
             (AbandonParents ws, s') \<Rightarrow> (map AbandonIt ws, s')
           | (ResumeParents ws r, s') \<Rightarrow> (map (\<lambda>w. ResumeIt w r) ws, s')
           | (_, s') \<Rightarrow> ([], s'))
      | AbandonIt w \<Rightarrow>
          (case get_run (sw_parent w) (table s) of
             None \<Rightarrow> ([], s)
           | Some r \<Rightarrow>
               ([SettleIt (sw_parent w)],
                cancelPendingTask (sw_parent w) (sw_task w)
                  (set_entry (sw_parent w) (r\<lparr>control := snd (markStopped (control r))\<rparr>) s)))
      | ResumeIt w child \<Rightarrow>
          (case resumeSubWorkflowExecution show now w child s of
             (ended, s') \<Rightarrow> (if ended then [CheckIt (sw_parent w)] else [], s')))"

subsection \<open>The acts end\<close>

text \<open>What an act uses up: a run not yet told to stop, a registered waiter, or itself.\<close>

definition still_free :: "run_entry \<Rightarrow> nat" where
  "still_free r = (if cancelRequested (control r) then 0 else 1) + (if stopped (control r) then 0 else 1)"

definition free_runs :: "sub_engine \<Rightarrow> nat" where
  "free_runs s = sum_list (map (\<lambda>(x, r). still_free r) (table s))"

definition waiting_count :: "sub_engine \<Rightarrow> nat" where
  "waiting_count s = sum_list (map (\<lambda>(c, ws). length ws) (waiters s))"

fun act_weight :: "act \<Rightarrow> nat" where
  "act_weight (AbandonIt w) = 3"
| "act_weight (ResumeIt w r) = 2"
| "act_weight (SettleIt x) = 2"
| "act_weight _ = 1"

definition acts_weight :: "act list \<Rightarrow> nat" where
  "acts_weight as = sum_list (map act_weight as)"

lemma free_runs_update:
  "map_of t x = Some r \<Longrightarrow>
   sum_list (map (\<lambda>(x, r). still_free r) (AList.update x r' t)) + still_free r
     = sum_list (map (\<lambda>(x, r). still_free r) t) + still_free r'"
  by (induction t) (auto split: if_splits)

lemma set_entry_frame [simp]:
  "waiters (set_entry x r s) = waiters s"
  "at_wait (set_entry x r s) = at_wait s"
  "sub_tasks (set_entry x r s) = sub_tasks s"
  "went_on (set_entry x r s) = went_on s"
  "waiters_of c (set_entry x r s) = waiters_of c s"
  "waiting_count (set_entry x r s) = waiting_count s"
  "get_run y (table (set_entry x r s)) = (if y = x then Some r else get_run y (table s))"
  by (auto simp: set_entry_def waiters_of_def waiting_count_def get_run_def update_conv)

lemma set_entry_free: "get_run x (table s) = Some r \<Longrightarrow> still_free r' \<le> still_free r \<Longrightarrow> free_runs (set_entry x r' s) \<le> free_runs s"
  using free_runs_update [of "table s" x r r'] by (simp add: free_runs_def set_entry_def get_run_def)

lemma set_entry_freed: "get_run x (table s) = Some r \<Longrightarrow> still_free r' < still_free r \<Longrightarrow> free_runs (set_entry x r' s) < free_runs s"
  using free_runs_update [of "table s" x r r'] by (simp add: free_runs_def set_entry_def get_run_def)

lemma cancelPendingTask_frame [simp]:
  "table (cancelPendingTask x t s) = table s"
  "waiters (cancelPendingTask x t s) = waiters s"
  "at_wait (cancelPendingTask x t s) = at_wait s"
  "waiters_of c (cancelPendingTask x t s) = waiters_of c s"
  "free_runs (cancelPendingTask x t s) = free_runs s"
  "waiting_count (cancelPendingTask x t s) = waiting_count s"
  by (simp_all add: cancelPendingTask_def waiters_of_def free_runs_def waiting_count_def Let_def)

lemma cancel_tasks_frame [simp]:
  "table (cancel_tasks x mine s) = table s"
  "waiters (cancel_tasks x mine s) = waiters s"
  "at_wait (cancel_tasks x mine s) = at_wait s"
  "waiters_of c (cancel_tasks x mine s) = waiters_of c s"
  "free_runs (cancel_tasks x mine s) = free_runs s"
  "waiting_count (cancel_tasks x mine s) = waiting_count s"
  by (induction mine arbitrary: s) (auto simp: cancel_tasks_def split: prod.splits)

lemma setExecutionStatus_flags [simp]:
  "cancelRequested (control (setExecutionStatus now st e r)) = cancelRequested (control r)"
  "stopped (control (setExecutionStatus now st e r)) = stopped (control r)"
  "queued (control (setExecutionStatus now st e r)) = queued (control r)"
  "ctx_done (control (setExecutionStatus now st e r)) = ctx_done (control r)"
  by (auto simp: setExecutionStatus_def claimSettle_def split: prod.splits option.splits bool.splits)
lemma claim_count: "claimSubWorkflowWaiters x s = (mine, s') \<Longrightarrow> waiting_count s' \<le> waiting_count s"
proof -
  assume "claimSubWorkflowWaiters x s = (mine, s')"
  then have s': "s' = s\<lparr>waiters := filter (\<lambda>(c, ws). ws \<noteq> []) (map (\<lambda>(c, ws). (c, filter (\<lambda>w. sw_parent w \<noteq> x) ws)) (waiters s))\<rparr>"
    by (simp add: claimSubWorkflowWaiters_def Let_def)
  have "sum_list (map (\<lambda>(c, ws). length ws) (filter (\<lambda>(c, ws). ws \<noteq> []) (map (\<lambda>(c, ws). (c, filter P ws)) l)))
      \<le> sum_list (map (\<lambda>(c, ws). length ws) l)" for P :: "SubWorkflowWaiter \<Rightarrow> bool" and l :: "(string \<times> SubWorkflowWaiter list) list"
    by (induction l) (auto intro: add_mono le_trans [OF _ length_filter_le])
  then show ?thesis by (simp add: s' waiting_count_def)
qed

lemma claim_frame [simp]:
  "claimSubWorkflowWaiters x s = (mine, s') \<Longrightarrow> table s' = table s"
  "claimSubWorkflowWaiters x s = (mine, s') \<Longrightarrow> at_wait s' = at_wait s"
  "claimSubWorkflowWaiters x s = (mine, s') \<Longrightarrow> free_runs s' = free_runs s"
  by (auto simp: claimSubWorkflowWaiters_def Let_def free_runs_def)

lemma completion_count:
  "checkSubWorkflowCompletion c s = (k, s') \<Longrightarrow> waiters_of c s \<noteq> [] \<Longrightarrow> waiting_count s' < waiting_count s"
  "checkSubWorkflowCompletion c s = (k, s') \<Longrightarrow> waiters_of c s = [] \<Longrightarrow> k = NoWaiters \<and> s' = s"
  "checkSubWorkflowCompletion c s = (k, s') \<Longrightarrow> table s' = table s \<and> free_runs s' = free_runs s"
proof -
  have less: "ws \<noteq> [] \<Longrightarrow> map_of l c = Some ws \<Longrightarrow>
      sum_list (map (\<lambda>(c, ws). length ws) (AList.delete c l)) < sum_list (map (\<lambda>(c, ws). length ws) l)"
    for l :: "(string \<times> SubWorkflowWaiter list) list" and ws
  proof (induction l)
    case (Cons a l)
    have le: "sum_list (map (\<lambda>(c, ws). length ws) (AList.delete c l)) \<le> sum_list (map (\<lambda>(c, ws). length ws) l)" for l :: "(string \<times> SubWorkflowWaiter list) list"
      by (induction l) auto
    show ?case
      using Cons le [of l] by (cases a) (auto split: if_splits simp: add_strict_increasing simp flip: length_greater_0_conv)
  qed simp
  show "waiting_count s' < waiting_count s" if k: "checkSubWorkflowCompletion c s = (k, s')" and ws: "waiters_of c s \<noteq> []"
  proof -
    obtain ws where "map_of (waiters s) c = Some ws" "ws \<noteq> []" using ws by (auto simp: waiters_of_def split: option.splits)
    moreover have "s' = s\<lparr>waiters := AList.delete c (waiters s)\<rparr>"
      using k ws by (auto simp: checkSubWorkflowCompletion_def Let_def split: option.splits)
    ultimately show ?thesis using less [of ws "waiters s"] by (simp add: waiting_count_def)
  qed
  show "checkSubWorkflowCompletion c s = (k, s') \<Longrightarrow> waiters_of c s = [] \<Longrightarrow> k = NoWaiters \<and> s' = s"
    by (simp add: checkSubWorkflowCompletion_def Let_def)
  show "checkSubWorkflowCompletion c s = (k, s') \<Longrightarrow> table s' = table s \<and> free_runs s' = free_runs s"
    by (auto simp: checkSubWorkflowCompletion_def Let_def free_runs_def split: if_splits option.splits)
qed

lemma resume_counts:
  assumes "resumeSubWorkflowExecution show now w child s = (b, s')"
  shows "waiters s' = waiters s" "free_runs s' \<le> free_runs s"
proof -
  have ok: "free_runs (set_entry x r' (s\<lparr>sub_tasks := f\<rparr>)) \<le> free_runs s"
    if "get_run x (table s) = Some r" "still_free r' = still_free r" for x r r' f
    using set_entry_free [of x "s\<lparr>sub_tasks := f\<rparr>" r r'] that by (simp add: free_runs_def)
  show "free_runs s' \<le> free_runs s" "waiters s' = waiters s"
    using assms ok
    by (auto simp: resumeSubWorkflowExecution_def Let_def free_runs_def still_free_def split: option.splits if_splits)
qed
lemma Cancel_new: "Cancel why c = (o', True, c') \<Longrightarrow> \<not> cancelRequested c \<and> \<not> settled c \<and> c' = c\<lparr>cancelRequested := True, reason := reason c'\<rparr>"
  by (auto simp: Cancel_def split: if_splits)

lemma markStopped_new: "markStopped c = (True, c') \<Longrightarrow> \<not> stopped c \<and> \<not> settled c \<and> c' = c\<lparr>stopped := True\<rparr>"
  by (auto simp: markStopped_def split: if_splits)

lemma abandonRun_free:
  assumes "get_run x (table s) = Some r0" and "still_free r < still_free r0"
  shows "free_runs (snd (abandonRun b x r s)) < free_runs s"
proof -
  let ?s1 = "set_entry x (r\<lparr>control := (control r)\<lparr>ctx_done := True\<rparr>\<rparr>) s"
  have "free_runs ?s1 < free_runs s" using assms by (intro set_entry_freed) (simp_all add: still_free_def)
  moreover have "free_runs (?s1\<lparr>at_wait := l\<rparr>) = free_runs ?s1" for l by (simp add: free_runs_def)
  ultimately show ?thesis
    by (auto simp: abandonRun_def Let_def split: prod.splits list.splits)
qed

text \<open>Every act frees fewer runs, or leaves fewer waiters, or puts lighter acts in its place.\<close>

lemma act_step_less:
  assumes "act_step show now a s = (bs, s')"
  shows "free_runs s' < free_runs s
    \<or> free_runs s' \<le> free_runs s \<and> (waiting_count s' < waiting_count s
        \<or> waiting_count s' \<le> waiting_count s \<and> acts_weight bs < act_weight a)"
proof (cases a)
  case (CancelIt x why)
  show ?thesis
  proof (cases "get_run x (table s)")
    case None
    then show ?thesis using assms by (simp add: act_step_def CancelIt acts_weight_def)
  next
    case (Some r)
    obtain o' new c where k: "Cancel why (control r) = (o', new, c)" by (metis prod.exhaust)
    show ?thesis
    proof (cases new)
      case True
      have "still_free (r\<lparr>control := c\<rparr>) < still_free r"
        using Cancel_new [of why "control r" o' c] k True by (cases c) (auto simp: still_free_def)
      then have "free_runs (snd (abandonRun True x (r\<lparr>control := c\<rparr>) s)) < free_runs s"
        using abandonRun_free [OF Some] by blast
      then show ?thesis using assms Some k True by (simp add: act_step_def CancelIt)
    next
      case False
      then show ?thesis using assms Some k by (simp add: act_step_def CancelIt acts_weight_def)
    qed
  qed
next
  case (StopIt x)
  show ?thesis
  proof (cases "get_run x (table s)")
    case None
    then show ?thesis using assms by (simp add: act_step_def StopIt acts_weight_def)
  next
    case (Some r)
    obtain new c where k: "markStopped (control r) = (new, c)" by fastforce
    show ?thesis
    proof (cases new)
      case True
      have "still_free (r\<lparr>control := c\<rparr>) < still_free r"
        using markStopped_new [of "control r" c] k True by (auto simp: still_free_def)
      then have "free_runs (snd (abandonRun False x (r\<lparr>control := c\<rparr>) s)) < free_runs s"
        using abandonRun_free [OF Some] by blast
      then show ?thesis using assms Some k True by (simp add: act_step_def StopIt)
    next
      case False
      then show ?thesis using assms Some k by (simp add: act_step_def StopIt acts_weight_def)
    qed
  qed
next
  case (SettleIt x)
  show ?thesis
  proof (cases "get_run x (table s)")
    case None
    then show ?thesis using assms by (auto simp: act_step_def SettleIt acts_weight_def)
  next
    case (Some r)
    have "free_runs (set_entry x (settleCancelled now r) s) \<le> free_runs s"
      by (rule set_entry_free [OF Some]) (simp add: settleCancelled_def still_free_def)
    then show ?thesis using assms Some by (auto simp: act_step_def SettleIt acts_weight_def)
  qed
next
  case (CheckIt c)
  obtain k s1 where k: "checkSubWorkflowCompletion c s = (k, s1)" by fastforce
  have s': "s' = s1" using assms k by (auto simp: act_step_def CheckIt split: completion.splits)
  show ?thesis
  proof (cases "waiters_of c s = []")
    case True
    then show ?thesis using completion_count(2) [OF k] assms k by (simp add: act_step_def CheckIt acts_weight_def)
  next
    case False
    then show ?thesis using completion_count(1,3) [OF k] s' by simp
  qed
next
  case (AbandonIt w)
  show ?thesis
  proof (cases "get_run (sw_parent w) (table s)")
    case None
    then show ?thesis using assms by (auto simp: act_step_def AbandonIt acts_weight_def)
  next
    case (Some r)
    have "free_runs (set_entry (sw_parent w) (r\<lparr>control := snd (markStopped (control r))\<rparr>) s) \<le> free_runs s"
      by (rule set_entry_free [OF Some]) (simp add: markStopped_def still_free_def)
    then show ?thesis using assms Some by (auto simp: act_step_def AbandonIt acts_weight_def)
  qed
next
  case (ResumeIt w child)
  obtain b s1 where r: "resumeSubWorkflowExecution show now w child s = (b, s1)" by fastforce
  show ?thesis
    using resume_counts [OF r] r assms by (auto simp: act_step_def ResumeIt acts_weight_def waiting_count_def split: if_splits)
qed

function run_acts :: "(settle_error option \<Rightarrow> string) \<Rightarrow> time \<Rightarrow> act list \<Rightarrow> sub_engine \<Rightarrow> sub_engine" where
  "run_acts show now [] s = s"
| "run_acts show now (a # as) s = (case act_step show now a s of (bs, s') \<Rightarrow> run_acts show now (bs @ as) s')"
  by pat_completeness auto

termination
proof (relation "measures [\<lambda>(_, _, as, s). free_runs s, \<lambda>(_, _, as, s). waiting_count s, \<lambda>(_, _, as, s). acts_weight as]")
  fix "show" :: "settle_error option \<Rightarrow> string" and now :: time and a as s x y
  assume "(x, y) = act_step show now a s"
  then have "act_step show now a s = (x, y)" by simp
  from act_step_less [OF this]
  show "((show, now, x @ as, y), show, now, a # as, s)
      \<in> measures [\<lambda>(_, _, as, s). free_runs s, \<lambda>(_, _, as, s). waiting_count s, \<lambda>(_, _, as, s). acts_weight as]"
    by (auto simp: acts_weight_def)
qed simp

text \<open>What holds of a stack of acts and the engine, and of every act, holds when the stack is empty.\<close>

lemma run_acts_invariant:
  assumes "I as s" and "\<And>show now a as s bs s'. I (a # as) s \<Longrightarrow> act_step show now a s = (bs, s') \<Longrightarrow> I (bs @ as) s'"
  shows "I [] (run_acts show now as s)"
  using assms(1)
proof (induction "show" now as s rule: run_acts.induct)
  case (2 "show" now a as s)
  obtain bs s' where a: "act_step show now a s = (bs, s')" by fastforce
  show ?case using 2(1) [OF a [symmetric]] assms(2) [OF 2(2) a] a by simp
qed simp
subsection \<open>Nobody waits for a settled run\<close>

definition unsettled_run :: "string \<Rightarrow> sub_engine \<Rightarrow> bool" where
  "unsettled_run c s \<longleftrightarrow> (case get_run c (table s) of None \<Rightarrow> False | Some r \<Rightarrow> \<not> settled (control r))"

definition awaited_runs :: "sub_engine \<Rightarrow> string set" where
  "awaited_runs s = {c. waiters_of c s \<noteq> []}"

text \<open>The waiters' keys are those of a map.\<close>

definition waiters_ok :: "sub_engine \<Rightarrow> bool" where
  "waiters_ok s \<longleftrightarrow> distinct (map fst (waiters s))"

lemma map_of_kept:
  "distinct (map fst l) \<Longrightarrow> map_of (filter (\<lambda>(c, ws). ws \<noteq> []) (map (\<lambda>(c, ws). (c, filter P ws)) l)) c
    = (case map_of l c of None \<Rightarrow> None | Some ws \<Rightarrow> if filter P ws = [] then None else Some (filter P ws))"
proof (induction l)
  case (Cons a l)
  obtain d ws where a: "a = (d, ws)" by fastforce
  have none: "map_of l d = None" using Cons.prems by (simp add: a map_of_eq_None_iff)
  show ?case
  proof (cases "d = c")
    case True
    then show ?thesis using Cons.IH Cons.prems none by (simp add: a)
  next
    case False
    then show ?thesis using Cons.IH Cons.prems by (simp add: a)
  qed
qed simp

lemma claim_waiters_of:
  assumes "claimSubWorkflowWaiters x s = (mine, s')" and "waiters_ok s"
  shows "waiters_of c s' = filter (\<lambda>w. sw_parent w \<noteq> x) (waiters_of c s)" and "waiters_ok s'"
    and "c \<in> fst ` set mine \<longleftrightarrow> x \<in> sw_parent ` set (waiters_of c s)"
proof -
  have s': "s' = s\<lparr>waiters := filter (\<lambda>(c, ws). ws \<noteq> []) (map (\<lambda>(c, ws). (c, filter (\<lambda>w. sw_parent w \<noteq> x) ws)) (waiters s))\<rparr>"
    using arg_cong [OF assms(1), of snd] by (simp only: claimSubWorkflowWaiters_def Let_def snd_conv)
  have d: "distinct (map fst (waiters s))" using assms(2) by (simp add: waiters_ok_def)
  show "waiters_of c s' = filter (\<lambda>w. sw_parent w \<noteq> x) (waiters_of c s)"
    unfolding waiters_of_def s' using map_of_kept [OF d, of "\<lambda>w. sw_parent w \<noteq> x" c]
    by (cases "map_of (waiters s) c") simp_all
  have "distinct (map fst (filter Q (map (\<lambda>(c, ws). (c, f ws)) l)))" if "distinct (map fst l)"
    for Q and f :: "SubWorkflowWaiter list \<Rightarrow> SubWorkflowWaiter list" and l :: "(string \<times> SubWorkflowWaiter list) list"
    using that distinct_map_filter [of fst "map (\<lambda>(c, ws). (c, f ws)) l" Q] by (simp add: case_prod_unfold comp_def)
  then show "waiters_ok s'" using assms(2) by (simp add: s' waiters_ok_def)
  let ?g = "\<lambda>(c, ws). case filter (\<lambda>w. sw_parent w = x) ws of [] \<Rightarrow> [] | vs \<Rightarrow> [(c, last vs)]"
  have mine: "mine = concat (map ?g (waiters s))"
    using arg_cong [OF assms(1), of fst] by (simp only: claimSubWorkflowWaiters_def Let_def fst_conv)
  have g: "c \<in> fst ` set (?g p) \<longleftrightarrow> fst p = c \<and> x \<in> sw_parent ` set (snd p)" for p
  proof (cases p)
    case (Pair e ws)
    then show ?thesis by (cases "filter (\<lambda>w. sw_parent w = x) ws") (auto simp: filter_empty_conv dest: filter_eq_ConsD)
  qed
  have "c \<in> fst ` set mine \<longleftrightarrow> (\<exists>p \<in> set (waiters s). c \<in> fst ` set (?g p))"
    unfolding mine by (simp only: set_concat set_map image_Union image_UN UN_iff bex_simps)
  also have "\<dots> \<longleftrightarrow> (\<exists>p \<in> set (waiters s). fst p = c \<and> x \<in> sw_parent ` set (snd p))" by (simp only: g)
  also have "\<dots> \<longleftrightarrow> (\<exists>ws. map_of (waiters s) c = Some ws \<and> x \<in> sw_parent ` set ws)"
    by (simp only: map_of_eq_Some_iff [OF d]) (metis prod.collapse fst_conv snd_conv)
  finally show "c \<in> fst ` set mine \<longleftrightarrow> x \<in> sw_parent ` set (waiters_of c s)"
    by (cases "map_of (waiters s) c") (simp_all add: waiters_of_def)
qed

lemma completion_waiters:
  assumes "checkSubWorkflowCompletion c s = (k, s')" and "waiters_ok s"
  shows "waiters_of d s' = (if d = c then [] else waiters_of d s)" and "waiters_ok s'"
proof -
  have "s' = (if waiters_of c s = [] then s else s\<lparr>waiters := AList.delete c (waiters s)\<rparr>)"
    using assms(1) by (auto simp: checkSubWorkflowCompletion_def Let_def split: option.splits if_splits)
  then show "waiters_of d s' = (if d = c then [] else waiters_of d s)" "waiters_ok s'"
    using assms(2) by (auto simp: waiters_of_def waiters_ok_def delete_conv' distinct_delete)
qed

text \<open>
  How an act changes the engine: the waiters only go, and a run only settles through an act that
  goes on to look for those waiting for it.
\<close>

definition act_effect :: "act \<Rightarrow> sub_engine \<Rightarrow> act list \<Rightarrow> sub_engine \<Rightarrow> bool" where
  "act_effect a s bs s' \<longleftrightarrow>
     waiters_ok s'
     \<and> (\<forall>c. set (waiters_of c s') \<subseteq> set (waiters_of c s))
     \<and> (\<forall>c. waiters_of c s' \<noteq> [] \<longrightarrow> a \<noteq> CheckIt c)
     \<and> (\<forall>c. unsettled_run c s \<longrightarrow> unsettled_run c s' \<or> CheckIt c \<in> set bs)
     \<and> (\<forall>c. a = SettleIt c \<longrightarrow> CheckIt c \<in> set bs)"
lemma unsettled_set_entry:
  "get_run x (table s) = Some r \<Longrightarrow> settled (control r') = settled (control r) \<Longrightarrow>
   unsettled_run c (set_entry x r' s) = unsettled_run c s"
  by (auto simp: unsettled_run_def)

lemma unsettled_frame [simp]:
  "unsettled_run c (cancelPendingTask x t s) = unsettled_run c s"
  "unsettled_run c (cancel_tasks x mine s) = unsettled_run c s"
  "unsettled_run c (s\<lparr>at_wait := l\<rparr>) = unsettled_run c s"
  by (simp_all add: unsettled_run_def)

lemma waiters_ok_frame [simp]:
  "waiters_ok (set_entry x r s) = waiters_ok s"
  "waiters_ok (cancelPendingTask x t s) = waiters_ok s"
  "waiters_ok (cancel_tasks x mine s) = waiters_ok s"
  "waiters_ok (s\<lparr>at_wait := l\<rparr>) = waiters_ok s"
  "waiters_of c (s\<lparr>at_wait := l\<rparr>) = waiters_of c s"
  by (simp_all add: waiters_ok_def waiters_of_def)

text \<open>\<open>abandonRun\<close> settles nothing itself.\<close>

lemma abandonRun_effect:
  assumes k: "abandonRun b x r s = (bs, s')" and ok: "waiters_ok s"
    and r: "get_run x (table s) = Some r0" "settled (control r) = settled (control r0)"
  shows "waiters_ok s'" and "set (waiters_of c s') \<subseteq> set (waiters_of c s)" and "unsettled_run c s' = unsettled_run c s"
proof -
  let ?s1 = "set_entry x (r\<lparr>control := (control r)\<lparr>ctx_done := True\<rparr>\<rparr>) s"
  have u: "unsettled_run c ?s1 = unsettled_run c s" by (rule unsettled_set_entry [OF r(1)]) (simp add: r(2))
  obtain mine s2 where cl: "claimSubWorkflowWaiters x ?s1 = (mine, s2)" by fastforce
  have ok1: "waiters_ok ?s1" using ok by simp
  have w2: "set (waiters_of c s2) \<subseteq> set (waiters_of c s)" "waiters_ok s2" "unsettled_run c s2 = unsettled_run c s"
    using claim_waiters_of(1,2) [OF cl ok1] u claim_frame(1) [OF cl] by (auto simp: unsettled_run_def)
  have o': "s' = ?s1 \<or> s' = ?s1\<lparr>at_wait := filter (\<lambda>y. y \<noteq> x) (at_wait ?s1)\<rparr> \<or> s' = s2 \<or> s' = cancel_tasks x mine s2"
    using k cl by (cases mine) (simp_all add: abandonRun_def Let_def split: if_splits)
  show "waiters_ok s'" using o' w2(2) ok by (elim disjE) simp_all
  show "set (waiters_of c s') \<subseteq> set (waiters_of c s)" using o' w2(1) by (elim disjE) simp_all
  show "unsettled_run c s' = unsettled_run c s" using o' w2(3) u by (elim disjE) simp_all
qed

lemma act_step_effect:
  assumes ok: "waiters_ok s" and k: "act_step show now a s = (bs, s')"
  shows "act_effect a s bs s'"
proof (cases a)
  case (CancelIt x why)
  show ?thesis
  proof (cases "get_run x (table s)")
    case None
    then show ?thesis using k ok by (auto simp: act_step_def CancelIt act_effect_def)
  next
    case (Some r)
    obtain o' new c where c: "Cancel why (control r) = (o', new, c)" by (metis prod.exhaust)
    show ?thesis
    proof (cases new)
      case True
      then have ab: "abandonRun True x (r\<lparr>control := c\<rparr>) s = (bs, s')" using k Some c by (simp add: act_step_def CancelIt)
      have "settled c = settled (control r)" using Cancel_new [of why "control r" o' c] c True by (cases c) auto
      then show ?thesis
        using abandonRun_effect [OF ab ok Some] by (simp add: act_effect_def CancelIt)
    next
      case False
      then show ?thesis using k ok Some c by (auto simp: act_step_def CancelIt act_effect_def)
    qed
  qed
next
  case (StopIt x)
  show ?thesis
  proof (cases "get_run x (table s)")
    case None
    then show ?thesis using k ok by (auto simp: act_step_def StopIt act_effect_def)
  next
    case (Some r)
    obtain new c where c: "markStopped (control r) = (new, c)" by fastforce
    show ?thesis
    proof (cases new)
      case True
      then have ab: "abandonRun False x (r\<lparr>control := c\<rparr>) s = (bs, s')" using k Some c by (simp add: act_step_def StopIt)
      have "settled c = settled (control r)" using markStopped_new [of "control r" c] c True by simp
      then show ?thesis
        using abandonRun_effect [OF ab ok Some] by (simp add: act_effect_def StopIt)
    next
      case False
      then show ?thesis using k ok Some c by (auto simp: act_step_def StopIt act_effect_def)
    qed
  qed
next
  case (SettleIt x)
  then show ?thesis
    using k ok by (auto simp: act_step_def act_effect_def unsettled_run_def split: option.splits if_splits)
next
  case (CheckIt c)
  obtain o' s1 where o': "checkSubWorkflowCompletion c s = (o', s1)" by fastforce
  then have "s' = s1" using k by (auto simp: act_step_def CheckIt split: completion.splits)
  moreover have "unsettled_run d s1 = unsettled_run d s" for d
    using completion_count(3) [OF o'] by (simp add: unsettled_run_def)
  ultimately show ?thesis
    using completion_waiters [OF o' ok] by (simp add: act_effect_def CheckIt)
next
  case (AbandonIt w)
  have "settled (snd (markStopped c)) = settled c" for c by (simp add: markStopped_def)
  then show ?thesis
    using k ok by (auto simp: act_step_def AbandonIt act_effect_def unsettled_set_entry split: option.splits)
next
  case (ResumeIt w child)
  obtain b s1 where r: "resumeSubWorkflowExecution show now w child s = (b, s1)" by fastforce
  have w: "waiters s1 = waiters s" using resume_counts(1) [OF r] .
  have u: "\<forall>c. unsettled_run c s \<longrightarrow> unsettled_run c s1 \<or> b \<and> c = sw_parent w"
    using r by (auto simp: resumeSubWorkflowExecution_def Let_def unsettled_run_def split: option.splits if_splits)
  have s': "s' = s1" "bs = (if b then [CheckIt (sw_parent w)] else [])" using k r by (auto simp: act_step_def ResumeIt)
  have "unsettled_run c s \<longrightarrow> unsettled_run c s' \<or> CheckIt c \<in> set bs" for c using u by (auto simp: s')
  then show ?thesis using ok w by (simp add: s'(1) ResumeIt act_effect_def waiters_ok_def waiters_of_def)
qed
text \<open>Whoever is waited for has no outcome yet, or is about to be looked at.\<close>

definition due_or_unsettled :: "act list \<Rightarrow> sub_engine \<Rightarrow> bool" where
  "due_or_unsettled as s \<longleftrightarrow>
     waiters_ok s \<and> (\<forall>c \<in> awaited_runs s. unsettled_run c s \<or> CheckIt c \<in> set as \<or> SettleIt c \<in> set as)"

lemma due_step:
  assumes d: "due_or_unsettled (a # as) s" and k: "act_step show now a s = (bs, s')"
  shows "due_or_unsettled (bs @ as) s'"
proof -
  have ok: "waiters_ok s" using d by (simp add: due_or_unsettled_def)
  note e = act_step_effect [OF ok k, unfolded act_effect_def]
  have "unsettled_run c s' \<or> CheckIt c \<in> set (bs @ as) \<or> SettleIt c \<in> set (bs @ as)" if c: "waiters_of c s' \<noteq> []" for c
  proof -
    have sub: "set (waiters_of c s') \<subseteq> set (waiters_of c s)" using e by blast
    then have "waiters_of c s \<noteq> []" using c by (cases "waiters_of c s") auto
    then have "unsettled_run c s \<or> CheckIt c \<in> set (a # as) \<or> SettleIt c \<in> set (a # as)"
      using d by (simp add: due_or_unsettled_def awaited_runs_def)
    moreover have "a \<noteq> CheckIt c" using e c by blast
    moreover have "a = SettleIt c \<Longrightarrow> CheckIt c \<in> set bs" using e by blast
    moreover have "unsettled_run c s \<Longrightarrow> unsettled_run c s' \<or> CheckIt c \<in> set bs" using e by blast
    ultimately show ?thesis by auto
  qed
  then show ?thesis using e by (simp add: due_or_unsettled_def awaited_runs_def)
qed
subsection \<open>A cancel reaches the sub-workflows\<close>

text \<open>Told to stop, settled or gone.\<close>

definition marked :: "string \<Rightarrow> sub_engine \<Rightarrow> bool" where
  "marked c s \<longleftrightarrow> (case get_run c (table s) of None \<Rightarrow> True | Some r \<Rightarrow> settled (control r) \<or> cancelRequested (control r))"

definition no_stops :: "sub_engine \<Rightarrow> bool" where
  "no_stops s \<longleftrightarrow> (\<forall>(x, r) \<in> set (table s). \<not> stopped (control r) \<and> finalErr (control r) \<noteq> Some EngineStoppedErr)"

definition paused_only :: "SubWorkflowWaiter \<Rightarrow> sub_engine \<Rightarrow> bool" where
  "paused_only w s \<longleftrightarrow>
     sw_parent w \<notin> set (at_wait s)
     \<and> (case get_run (sw_parent w) (table s) of None \<Rightarrow> True | Some r \<Rightarrow> \<not> queued (control r))"

lemma no_stops_get: "no_stops s \<Longrightarrow> get_run x (table s) = Some r \<Longrightarrow> \<not> stopped (control r) \<and> finalErr (control r) \<noteq> Some EngineStoppedErr"
  by (auto simp: no_stops_def get_run_def dest!: map_of_SomeD)

lemma no_stops_set:
  "no_stops s \<Longrightarrow> \<not> stopped (control r) \<and> finalErr (control r) \<noteq> Some EngineStoppedErr \<Longrightarrow> no_stops (set_entry x r s)"
proof -
  assume a: "no_stops s" "\<not> stopped (control r) \<and> finalErr (control r) \<noteq> Some EngineStoppedErr"
  have "set (AList.update x r t) \<subseteq> insert (x, r) (set t)" for t by (induction t) auto
  then show "no_stops (set_entry x r s)" using a by (fastforce simp: no_stops_def set_entry_def)
qed

lemma marked_set_entry:
  "get_run x (table s) = Some r \<Longrightarrow> (settled (control r) \<longrightarrow> settled (control r')) \<Longrightarrow>
   (cancelRequested (control r) \<longrightarrow> cancelRequested (control r')) \<Longrightarrow> marked c s \<Longrightarrow> marked c (set_entry x r' s)"
  by (auto simp: marked_def split: if_splits)

lemma same_table:
  "table s' = table s \<Longrightarrow> marked c s' = marked c s"
  "table s' = table s \<Longrightarrow> no_stops s' = no_stops s"
  by (simp_all add: marked_def no_stops_def)

lemma settle_keeps:
  "settled (control r) \<Longrightarrow> settled (control (setExecutionStatus now st e r))"
  "\<not> stopped (control r) \<Longrightarrow> finalErr (control r) \<noteq> Some EngineStoppedErr \<Longrightarrow> e \<noteq> Some EngineStoppedErr \<Longrightarrow>
   finalErr (control (setExecutionStatus now st e r)) \<noteq> Some EngineStoppedErr"
  by (auto simp: setExecutionStatus_def claimSettle_def decide_def split: prod.splits option.splits bool.splits if_splits)

text \<open>\<open>E\<close> are the waiters of before the cancel, each with the child it waited for.\<close>

definition sound_act :: "(string \<times> SubWorkflowWaiter) set \<Rightarrow> sub_engine \<Rightarrow> act \<Rightarrow> bool" where
  "sound_act E s a \<longleftrightarrow>
     (case a of
        CancelIt x why \<Rightarrow> True
      | StopIt x \<Rightarrow> False
      | SettleIt x \<Rightarrow> marked x s
      | CheckIt c \<Rightarrow> marked c s
      | AbandonIt w \<Rightarrow> False
      | ResumeIt w r \<Rightarrow> \<exists>c. (c, w) \<in> E \<and> marked c s)"

definition one_wait_each :: "(string \<times> SubWorkflowWaiter) set \<Rightarrow> bool" where
  "one_wait_each E \<longleftrightarrow> (\<forall>(c, w) \<in> E. \<forall>(c', w') \<in> E. sw_parent w = sw_parent w' \<longrightarrow> c = c' \<and> w = w')"

definition reached :: "(string \<times> SubWorkflowWaiter) set \<Rightarrow> act list \<Rightarrow> sub_engine \<Rightarrow> bool" where
  "reached E as s \<longleftrightarrow>
     waiters_ok s \<and> no_stops s
     \<and> (\<forall>c. \<forall>w \<in> set (waiters_of c s). (c, w) \<in> E \<and> paused_only w s)
     \<and> (\<forall>(c, w) \<in> E. marked c s \<or> (\<exists>why. CancelIt c why \<in> set as)
          \<or> w \<in> set (waiters_of c s) \<and> \<not> marked (sw_parent w) s)
     \<and> (\<forall>a \<in> set as. sound_act E s a)"

lemma sound_act_mono: "(\<And>c. marked c s \<Longrightarrow> marked c s') \<Longrightarrow> sound_act E s a \<Longrightarrow> sound_act E s' a"
  by (auto simp: sound_act_def split: act.splits)
lemma reached_next:
  assumes R: "reached E (a # as) s" and ok: "waiters_ok s'" and ns: "no_stops s'"
    and mono: "\<And>c. marked c s \<Longrightarrow> marked c s'" and sub: "\<And>c. set (waiters_of c s') \<subseteq> set (waiters_of c s)"
    and paused: "\<And>w. paused_only w s \<Longrightarrow> paused_only w s'" and acts: "\<And>b. b \<in> set bs \<Longrightarrow> sound_act E s' b"
    and head: "\<And>c why. a = CancelIt c why \<Longrightarrow> marked c s'"
    and edge: "\<And>c w. (c, w) \<in> E \<Longrightarrow> w \<in> set (waiters_of c s) \<Longrightarrow> \<not> marked (sw_parent w) s \<Longrightarrow>
      marked c s' \<or> (\<exists>why. CancelIt c why \<in> set bs) \<or> w \<in> set (waiters_of c s') \<and> \<not> marked (sw_parent w) s'"
  shows "reached E (bs @ as) s'"
proof -
  have "marked c s' \<or> (\<exists>why. CancelIt c why \<in> set (bs @ as)) \<or> w \<in> set (waiters_of c s') \<and> \<not> marked (sw_parent w) s'"
    if E: "(c, w) \<in> E" for c w
  proof -
    have "marked c s \<or> (\<exists>why. CancelIt c why \<in> set (a # as)) \<or> w \<in> set (waiters_of c s) \<and> \<not> marked (sw_parent w) s"
      using R E unfolding reached_def by blast
    then show ?thesis
    proof (elim disjE exE conjE)
      assume "marked c s"
      then show ?thesis using mono by blast
    next
      fix why assume "CancelIt c why \<in> set (a # as)"
      then show ?thesis using head by auto
    next
      assume "w \<in> set (waiters_of c s)" "\<not> marked (sw_parent w) s"
      from edge [OF E this] show ?thesis by auto
    qed
  qed
  moreover have "(c, w) \<in> E \<and> paused_only w s'" if "w \<in> set (waiters_of c s')" for c w
    using that sub paused R unfolding reached_def by blast
  moreover have "sound_act E s' b" if "b \<in> set (bs @ as)" for b
  proof (cases "b \<in> set bs")
    case False
    then have "sound_act E s b" using that R by (simp add: reached_def)
    then show ?thesis using sound_act_mono mono by blast
  qed (rule acts)
  ultimately show ?thesis using ok ns unfolding reached_def by blast
qed

lemma reached_unchanged:
  assumes R: "reached E (a # as) s" and head: "\<And>c why. a = CancelIt c why \<Longrightarrow> marked c s"
  shows "reached E ([] @ as) s"
  by (rule reached_next [OF R]) (use R head in \<open>auto simp: reached_def\<close>)

lemma paused_set_entry:
  "get_run x (table s) = Some r \<Longrightarrow> queued (control r') = queued (control r) \<Longrightarrow> paused_only w s \<Longrightarrow> paused_only w (set_entry x r' s)"
  by (auto simp: paused_only_def)

lemma cancel_reached:
  assumes R: "reached E (CancelIt x why # as) s" and r: "get_run x (table s) = Some r"
    and c: "Cancel why (control r) = (o', True, c)" and ab: "abandonRun True x (r\<lparr>control := c\<rparr>) s = (bs, s')"
  shows "reached E (bs @ as) s'"
proof -
  let ?r1 = "r\<lparr>control := c\<lparr>ctx_done := True\<rparr>\<rparr>"
  let ?s1 = "set_entry x ?r1 s"
  obtain why' where c': "c = (control r)\<lparr>cancelRequested := True, reason := why'\<rparr>" using Cancel_new [OF c] by blast
  have old: "waiters_ok s" "no_stops s" using R by (simp_all add: reached_def)
  have ns1: "no_stops ?s1" using no_stops_get [OF old(2) r] by (intro no_stops_set [OF old(2)]) (simp add: c')
  have mono1: "marked d s \<Longrightarrow> marked d ?s1" for d by (rule marked_set_entry [OF r]) (simp_all add: c')
  have x1: "marked x ?s1" by (simp add: marked_def c')
  have other: "marked d ?s1 = marked d s" if "d \<noteq> x" for d using that by (simp add: marked_def)
  have p1: "paused_only w s \<Longrightarrow> paused_only w ?s1" for w by (rule paused_set_entry [OF r]) (simp_all add: c')
  obtain mine s2 where cl: "claimSubWorkflowWaiters x ?s1 = (mine, s2)" by fastforce
  have pw: "paused_only w s" if "w \<in> set (waiters_of d s)" for d w using that R by (simp add: reached_def)
  have q: "queued c = queued (control r)" by (simp add: c')
  show ?thesis
  proof (cases "queued c \<or> x \<in> set (at_wait s)")
    case True
    have none: "sw_parent w \<noteq> x" if "w \<in> set (waiters_of d s)" for d w
      using pw [OF that] True r q by (auto simp: paused_only_def)
    have bs: "bs = [SettleIt x]" and s': "s' = ?s1 \<or> (\<exists>l. set l \<subseteq> set (at_wait s) \<and> s' = ?s1\<lparr>at_wait := l\<rparr>)"
      using ab True by (auto simp: abandonRun_def Let_def split: if_splits) (metis filter_is_subset)
    have same: "marked d s' = marked d ?s1" "no_stops s' = no_stops ?s1" "waiters_of d s' = waiters_of d s" "waiters_ok s' = waiters_ok s" for d
      using s' same_table [of s' ?s1] by auto
    have "paused_only w ?s1 \<Longrightarrow> paused_only w s'" for w using s' by (auto simp: paused_only_def)
    then show ?thesis
      using same old ns1 mono1 p1 x1 none other
      by (intro reached_next [OF R]) (auto simp: bs sound_act_def)
  next
    case False
    have bs: "bs = (if mine = [] then [] else map (\<lambda>(c, w). CancelIt c ''parent run cancelled'') mine @ [SettleIt x])"
      and s': "s' = s2 \<or> s' = cancel_tasks x mine s2"
      using ab False cl by (auto simp: abandonRun_def Let_def split: list.splits)
    have ok1: "waiters_ok ?s1" using old by simp
    note w2 = claim_waiters_of [OF cl ok1]
    have "table s' = table ?s1" "at_wait s' = at_wait ?s1" using s' claim_frame(1,2) [OF cl] by auto
    note same = same_table [OF this(1)] and p2 = this
    have ws: "waiters_of d s' = filter (\<lambda>w. sw_parent w \<noteq> x) (waiters_of d s)" "waiters_ok s'" for d
      using s' w2(1,2) by auto
    show ?thesis
    proof (rule reached_next [OF R ws(2)])
      show "no_stops s'" using ns1 same by simp
      show "\<And>c. marked c s \<Longrightarrow> marked c s'" using mono1 same by simp
      show "\<And>c. set (waiters_of c s') \<subseteq> set (waiters_of c s)" by (simp add: ws(1))
      show "\<And>w. paused_only w s \<Longrightarrow> paused_only w s'" using p1 p2 by (simp add: paused_only_def)
      show "\<And>b. b \<in> set bs \<Longrightarrow> sound_act E s' b" using x1 same by (auto simp: bs sound_act_def split: if_splits)
      show "\<And>c why'. CancelIt x why = CancelIt c why' \<Longrightarrow> marked c s'" using x1 same by simp
      show "marked d s' \<or> (\<exists>why. CancelIt d why \<in> set bs) \<or> w \<in> set (waiters_of d s') \<and> \<not> marked (sw_parent w) s'"
        if "(d, w) \<in> E" "w \<in> set (waiters_of d s)" "\<not> marked (sw_parent w) s" for d w
      proof (cases "sw_parent w = x")
        case True
        then have "d \<in> fst ` set mine" using w2(3) [of d] that(2) by auto
        then have "CancelIt d ''parent run cancelled'' \<in> set bs" by (force simp: bs)
        then show ?thesis by blast
      next
        case False
        then show ?thesis using that other same by (simp add: ws(1))
      qed
    qed
  qed
qed
lemma resume_reached:
  assumes R: "reached E (ResumeIt w child # as) s" and E: "one_wait_each E"
    and k: "resumeSubWorkflowExecution show now w child s = (b, s')"
  shows "reached E ((if b then [CheckIt (sw_parent w)] else []) @ as) s'"
proof (cases "get_run (sw_parent w) (table s)")
  case None
  then have "s' = s" "\<not> b" using k by (simp_all add: resumeSubWorkflowExecution_def)
  then show ?thesis using reached_unchanged [OF R] by simp
next
  case (Some r)
  have old: "waiters_ok s" "no_stops s" using R by (simp_all add: reached_def)
  let ?fails = "\<lambda>e. setExecutionStatus now ExecFailed (Some (OtherErr e)) r"
    and ?goes = "r\<lparr>exec := (exec r)\<lparr>ex_status := ExecRunning\<rparr>\<rparr>"
  have frame: "at_wait s' = at_wait s" "waiters s' = waiters s"
    using k Some by (auto simp: resumeSubWorkflowExecution_def Let_def split: option.splits if_splits)
  have "(b \<and> (\<exists>e. table s' = table (set_entry (sw_parent w) (?fails e) s))) \<or> (\<not> b \<and> table s' = table (set_entry (sw_parent w) ?goes s))"
    using k Some by (auto simp: resumeSubWorkflowExecution_def Let_def set_entry_def split: option.splits if_splits)
  then obtain r' where t: "table s' = table (set_entry (sw_parent w) r' s)"
    and r': "control r' = control r \<and> \<not> b \<or> (\<exists>e. r' = ?fails e \<and> b)"
  proof (elim disjE conjE exE)
    fix e assume "b" "table s' = table (set_entry (sw_parent w) (?fails e) s)"
    then show thesis using that [of "?fails e"] by blast
  next
    assume "\<not> b" "table s' = table (set_entry (sw_parent w) ?goes s)"
    then show thesis using that [of ?goes] by simp
  qed
  have flags: "queued (control r') = queued (control r)" "settled (control r) \<longrightarrow> settled (control r')"
    "cancelRequested (control r) \<longrightarrow> cancelRequested (control r')"
    "\<not> stopped (control r') \<and> finalErr (control r') \<noteq> Some EngineStoppedErr"
    using r' no_stops_get [OF old(2) Some] settle_keeps by auto
  note same = same_table [OF t]
  have ws: "waiters_of c s' = waiters_of c s" "waiters_ok s' = waiters_ok s" for c
    by (simp_all add: waiters_of_def waiters_ok_def frame)
  obtain c where c: "(c, w) \<in> E" "marked c s" using R by (auto simp: reached_def sound_act_def)
  have mono: "marked d s \<Longrightarrow> marked d s'" for d
    using marked_set_entry [OF Some flags(2,3)] same(1) by simp
  have fails: "b \<Longrightarrow> marked (sw_parent w) s'"
  proof -
    assume b
    then obtain e where e: "r' = setExecutionStatus now ExecFailed (Some (OtherErr e)) r" using r' by blast
    have "settled (control r')"
      by (auto simp: e setExecutionStatus_def claimSettle_def isTerminalStatus_def decide_def split: prod.splits option.splits bool.splits if_splits)
    then show ?thesis by (simp add: marked_def t)
  qed
  show ?thesis
  proof (rule reached_next [OF R])
    show "waiters_ok s'" using old ws by simp
    show "no_stops s'" using no_stops_set [OF old(2) flags(4)] same(2) by simp
    show "\<And>c. marked c s \<Longrightarrow> marked c s'" by (rule mono)
    show "\<And>c. set (waiters_of c s') \<subseteq> set (waiters_of c s)" by (simp add: ws)
    show "paused_only v s \<Longrightarrow> paused_only v s'" for v
      using paused_set_entry [OF Some flags(1), of v] t frame by (simp add: paused_only_def)
    show "\<And>a. a \<in> set (if b then [CheckIt (sw_parent w)] else []) \<Longrightarrow> sound_act E s' a"
      using fails by (auto simp: sound_act_def split: if_splits)
    show "\<And>c why. ResumeIt w child = CancelIt c why \<Longrightarrow> marked c s'" by simp
    show "marked d s' \<or> (\<exists>why. CancelIt d why \<in> set (if b then [CheckIt (sw_parent w)] else []))
        \<or> v \<in> set (waiters_of d s') \<and> \<not> marked (sw_parent v) s'"
      if v: "(d, v) \<in> E" "v \<in> set (waiters_of d s)" "\<not> marked (sw_parent v) s" for d v
    proof (cases "sw_parent v = sw_parent w")
      case True
      then have "d = c" using E v(1) c(1) by (auto simp: one_wait_each_def)
      then show ?thesis using c(2) mono by blast
    next
      case False
      then have "\<not> marked (sw_parent v) s'" using v(3) same(1) by (simp add: marked_def)
      then show ?thesis using v(2) ws by simp
    qed
  qed
qed

lemma reached_step:
  assumes E: "one_wait_each E" and R: "reached E (a # as) s" and k: "act_step show now a s = (bs, s')"
  shows "reached E (bs @ as) s'"
proof (cases a)
  case (CancelIt x why)
  show ?thesis
  proof (cases "get_run x (table s)")
    case None
    then have "marked x s" by (simp add: marked_def)
    then show ?thesis using k reached_unchanged [OF R] None by (auto simp: act_step_def CancelIt)
  next
    case (Some r)
    obtain o' new c where c: "Cancel why (control r) = (o', new, c)" by (metis prod.exhaust)
    show ?thesis
    proof (cases new)
      case True
      then show ?thesis using cancel_reached [OF R [unfolded CancelIt] Some, of o' c bs s'] c k Some by (simp add: act_step_def CancelIt)
    next
      case False
      then have "marked x s" using c Some by (auto simp: marked_def Cancel_def split: if_splits)
      then show ?thesis using k reached_unchanged [OF R] Some c False by (auto simp: act_step_def CancelIt)
    qed
  qed
next
  case (SettleIt x)
  have old: "waiters_ok s" "no_stops s" "marked x s" using R by (simp_all add: reached_def sound_act_def SettleIt)
  show ?thesis
  proof (cases "get_run x (table s)")
    case None
    then have kk: "bs = [CheckIt x]" "s' = s" using k by (simp_all add: act_step_def SettleIt)
    show ?thesis
      unfolding kk by (rule reached_next [OF R]) (use R old in \<open>auto simp: sound_act_def SettleIt reached_def\<close>)
  next
    case (Some r)
    let ?r' = "settleCancelled now r"
    have kk: "bs = [CheckIt x]" "s' = set_entry x ?r' s" using k Some by (simp_all add: act_step_def SettleIt)
    have mono: "marked d s \<Longrightarrow> marked d s'" for d
      unfolding kk by (rule marked_set_entry [OF Some]) (simp_all add: settleCancelled_def settle_keeps)
    have same: "marked d s' = marked d s" for d
      using mono [OF old(3)] old(3) by (cases "d = x") (simp_all add: kk marked_def)
    have "\<not> stopped (control ?r') \<and> finalErr (control ?r') \<noteq> Some EngineStoppedErr"
      using no_stops_get [OF old(2) Some] by (simp add: settleCancelled_def settle_keeps)
    from no_stops_set [OF old(2) this] have "no_stops s'" by (simp add: kk)
    moreover have "paused_only w s \<Longrightarrow> paused_only w s'" for w
      unfolding kk by (rule paused_set_entry [OF Some]) (simp_all add: settleCancelled_def)
    ultimately show ?thesis
      using old same by (intro reached_next [OF R]) (auto simp: kk sound_act_def SettleIt)
  qed
next
  case (CheckIt c)
  have old: "waiters_ok s" "no_stops s" "marked c s" using R by (simp_all add: reached_def sound_act_def CheckIt)
  obtain o' s1 where o': "checkSubWorkflowCompletion c s = (o', s1)" by fastforce
  have t: "table s1 = table s" "at_wait s1 = at_wait s" using o'
    by (auto simp: checkSubWorkflowCompletion_def Let_def split: option.splits if_splits)
  note same = same_table [OF t(1)]
  have kk: "s' = s1" "\<forall>b \<in> set bs. \<exists>w r. b = ResumeIt w r \<and> w \<in> set (waiters_of c s)"
    using k o' no_stops_get [OF old(2)]
    by (auto simp: act_step_def CheckIt checkSubWorkflowCompletion_def settledByStop_def Let_def
        split: completion.splits option.splits if_splits)
  have "(c, w) \<in> E" if "w \<in> set (waiters_of c s)" for w using R that by (simp add: reached_def)
  then have acts: "b \<in> set bs \<Longrightarrow> sound_act E s' b" for b using kk old(3) same by (fastforce simp: sound_act_def)
  show ?thesis
    using completion_waiters [OF o' old(1)] old same t acts
    by (intro reached_next [OF R]) (auto simp: kk CheckIt paused_only_def split: if_splits)
next
  case (ResumeIt w child)
  obtain b s1 where r: "resumeSubWorkflowExecution show now w child s = (b, s1)" by fastforce
  show ?thesis using resume_reached [OF R [unfolded ResumeIt] E r] k r by (simp add: act_step_def ResumeIt)
qed (use R in \<open>simp_all add: reached_def sound_act_def\<close>)
subsection \<open>Properties\<close>

text \<open>
  The engine between two acts: a parent waits in one task at a time, for one child, and neither
  it nor the child has an outcome. \<open>waits_for\<close> relates the two.
\<close>

definition waits_for :: "sub_engine \<Rightarrow> (string \<times> string) set" where
  "waits_for s = {(p, c). \<exists>w \<in> set (waiters_of c s). sw_parent w = p}"

definition at_rest :: "sub_engine \<Rightarrow> bool" where
  "at_rest s \<longleftrightarrow>
     waiters_ok s \<and> no_stops s
     \<and> (\<forall>c. \<forall>w \<in> set (waiters_of c s). unsettled_run c s \<and> \<not> marked (sw_parent w) s \<and> paused_only w s)
     \<and> one_wait_each {(c, w). w \<in> set (waiters_of c s)}"


lemma fresh_parent: "\<exists>p. \<forall>c. \<forall>w \<in> set (waiters_of c s). sw_parent w \<noteq> p"
proof -
  have "finite (sw_parent ` set (concat (map snd (waiters s))))" by (intro finite_imageI finite_set)
  from ex_new_if_finite [OF infinite_UNIV_listI this]
  obtain p where p: "p \<notin> sw_parent ` set (concat (map snd (waiters s)))" ..
  have sub: "set (waiters_of c s) \<subseteq> set (concat (map snd (waiters s)))" for c
  proof
    fix w assume w: "w \<in> set (waiters_of c s)"
    then obtain ws where ws: "map_of (waiters s) c = Some ws" "w \<in> set ws"
      by (cases "map_of (waiters s) c") (simp_all add: waiters_of_def)
    have "(c, ws) \<in> set (waiters s)" using ws(1) by (rule map_of_SomeD)
    then have "ws \<in> set (map snd (waiters s))" by (metis in_set_zipE list.set_map rev_image_eqI snd_conv)
    then show "w \<in> set (concat (map snd (waiters s)))" using ws(2) by (simp only: set_concat) blast
  qed
  have "sw_parent w \<noteq> p" if "w \<in> set (waiters_of c s)" for c w
    using p imageI [OF subsetD [OF sub that], of sw_parent] by auto
  then show ?thesis by blast
qed

lemma waiters_only_go:
  "waiters_ok s \<Longrightarrow> set (waiters_of c (run_acts show now as s)) \<subseteq> set (waiters_of c s)"
proof -
  assume ok: "waiters_ok s"
  let ?I = "\<lambda>as t. waiters_ok t \<and> (\<forall>c. set (waiters_of c t) \<subseteq> set (waiters_of c s))"
  have "?I [] (run_acts show now as s)"
  proof (rule run_acts_invariant [of ?I])
    show "?I (bs @ as) t'" if "?I (a # as) t" "act_step show now a t = (bs, t')" for "show" now a as t bs t'
      using act_step_effect [OF _ that(2)] that(1) unfolding act_effect_def by blast
  qed (use ok in simp)
  then show ?thesis by blast
qed

text \<open>
  C31. A cancel reaches every run below: when a run is cancelled, each run it waits for, directly or
  through others, is told to stop too, if it had not settled by itself.
\<close>

theorem cancel_reaches_every_sub_workflow:
  assumes "at_rest s" and "(x, c) \<in> (waits_for s)\<^sup>*"
  shows "marked c (run_acts show now [CancelIt x why] s)"
proof -
  let ?s = "run_acts show now [CancelIt x why] s"
  obtain p where p: "\<forall>c. \<forall>w \<in> set (waiters_of c s). sw_parent w \<noteq> p" using fresh_parent by blast
  define v where "v = \<lparr>sw_parent = p, sw_parentWorkflow = '''', sw_task = '''', sw_index = 0\<rparr>"
  define E where "E = insert (x, v) {(c, w). w \<in> set (waiters_of c s)}"
  have E: "one_wait_each E"
    using assms(1) p by (auto simp: at_rest_def one_wait_each_def E_def v_def)
  have "reached E [CancelIt x why] s"
    using assms(1) by (auto simp: reached_def at_rest_def sound_act_def E_def)
  then have R: "reached E [] ?s" by (rule run_acts_invariant) (rule reached_step [OF E])
  have "sw_parent v = p" by (simp add: v_def)
  then have "v \<notin> set (waiters_of x s)" using p by blast
  then have v: "v \<notin> set (waiters_of x ?s)"
    using waiters_only_go [of s x "show" now "[CancelIt x why]"] assms(1) by (auto simp: at_rest_def)
  show ?thesis
    using assms(2)
  proof (induction rule: rtrancl_induct)
    case base
    have "(x, v) \<in> E" by (simp add: E_def)
    then show ?case using R v by (auto simp: reached_def)
  next
    case (step q c)
    then obtain w where "w \<in> set (waiters_of c s)" "sw_parent w = q" by (auto simp: waits_for_def)
    then show ?case using R step.IH by (auto simp: reached_def E_def)
  qed
qed
subsection \<open>The sweep and the waiters\<close>

text \<open>A run someone waits for, and whoever waits, is kept in memory.\<close>

definition pinned_runs :: "sub_engine \<Rightarrow> string \<Rightarrow> bool" where
  "pinned_runs s x \<longleftrightarrow>
     x \<in> set (map fst (waiters s)) \<or> x \<in> sw_parent ` set (concat (map snd (waiters s)))"

definition sweepSettledRuns :: "time \<Rightarrow> RetentionConfig \<Rightarrow> sub_engine \<Rightarrow> int \<times> sub_engine" where
  "sweepSettledRuns now c s =
     (case sweep now c (pinned_runs s) (table s) of (n, t) \<Rightarrow> (n, s\<lparr>table := t\<rparr>))"

text \<open>
  A sweep never takes from memory a run that another waits for, nor one that waits: whatever was
  settled, expired or over the cap, both are found as they were when the child ends.
\<close>

theorem sweep_keeps_who_waits:
  assumes "keys_distinct (table s)" and "w \<in> set (waiters_of c s)" and "sweepSettledRuns now cfg s = (n, s')"
  shows "waiters_of c s' = waiters_of c s
    \<and> get_run c (table s') = get_run c (table s) \<and> get_run (sw_parent w) (table s') = get_run (sw_parent w) (table s)"
proof -
  obtain t where t: "sweep now cfg (pinned_runs s) (table s) = (n, t)" and s': "s' = s\<lparr>table := t\<rparr>"
    using assms(3) by (auto simp: sweepSettledRuns_def split: prod.splits)
  obtain ws where ws: "map_of (waiters s) c = Some ws" "w \<in> set ws"
    using assms(2) by (cases "map_of (waiters s) c") (simp_all add: waiters_of_def)
  have "(c, ws) \<in> set (waiters s)" using ws(1) by (rule map_of_SomeD)
  then have pins: "pinned_runs s c" "pinned_runs s (sw_parent w)" using ws(2) by (force simp: pinned_runs_def)+
  have kept: "get_run x t = get_run x (table s)" if x: "pinned_runs s x" for x
  proof (cases "x \<in> fst ` set t")
    case True
    have t': "distinct (map fst t)" using table_keys(4) [OF assms(1) t] by (simp add: keys_distinct_def)
    obtain r where r: "(x, r) \<in> set t" using True by auto
    then have "(x, r) \<in> set (table s)" using kept_by_sweep(1) [OF assms(1) t] by blast
    then show ?thesis using r t' assms(1) by (simp add: get_run_def keys_distinct_def)
  next
    case False
    have "x \<notin> fst ` set (table s)"
    proof
      assume "x \<in> fst ` set (table s)"
      then obtain r where "(x, r) \<in> set (table s)" by auto
      from kept_by_sweep(2) [OF assms(1) t False this] x show False by blast
    qed
    then show ?thesis using False by (simp add: get_run_def map_of_eq_None_iff [THEN iffD2])
  qed
  show ?thesis using kept pins by (simp add: s' waiters_of_def)
qed

text \<open>
  The child is started before its parent is registered. A child that settles in between finds
  no waiter, and nothing looks for the parent again: the parent is left waiting for good.
\<close>

lemma early_child_strands_its_parent:
  assumes "run_acts show now [CheckIt c] s = s'" and "waiters_of c s = []" and "\<not> sub_ctxDone (sw_parent w) s"
  shows "s' = s" and "wait_for_child w c s' = (''waiting'', s\<lparr>waiters := AList.update c [w] (waiters s)\<rparr>)"
  using assms by (auto simp: act_step_def checkSubWorkflowCompletion_def wait_for_child_def Let_def)

text \<open>What a parent's task says of the child's end, in each case.\<close>

lemma parent_follows_child:
  assumes "st_workflow t = Some ws"
  shows "ex_status (exec child) = ExecCompleted \<Longrightarrow> st_status (task_after_child show child t) = TaskSuccess"
    and "ex_status (exec child) \<noteq> ExecCompleted \<Longrightarrow> st_status (task_after_child show child t) = TaskFailed"
  using assms by (cases "ex_status (exec child)"; simp add: task_after_child_def Let_def)+
subsection \<open>Three runs, each waiting for the next\<close>

definition chain_waiter :: "string \<Rightarrow> SubWorkflowWaiter" where
  "chain_waiter p = \<lparr>sw_parent = p, sw_parentWorkflow = ''w'', sw_task = ''t'', sw_index = 0\<rparr>"

definition waiting_task :: sub_task where
  "waiting_task = \<lparr>st_status = TaskWaiting, st_error = '''',
     st_workflow = Some \<lparr>sub_workflowID = ''w'', sub_executionID = ''b'', sub_wait = True, sub_timeout = 9, sub_completed = False, sub_result = None\<rparr>\<rparr>"

definition chain_of_runs :: sub_engine where
  "chain_of_runs = \<lparr>table = [(''a'', begin_run False), (''b'', begin_run False), (''c'', begin_run False), (''d'', begin_run False)],
     waiters = [(''b'', [chain_waiter ''a'']), (''c'', [chain_waiter ''b''])],
     sub_tasks = (\<lambda>x t. if t = ''t'' then Some waiting_task else None), at_wait = [''c''], went_on = []\<rparr>"

lemma chain_waiters: "waiters_of c chain_of_runs = (if c = ''b'' then [chain_waiter ''a''] else if c = ''c'' then [chain_waiter ''b''] else [])"
  by (simp add: waiters_of_def chain_of_runs_def)

lemma chain_at_rest: "at_rest chain_of_runs"
proof -
  have "unsettled_run ''b'' chain_of_runs" "unsettled_run ''c'' chain_of_runs" "\<not> marked ''a'' chain_of_runs"
    "\<not> marked ''b'' chain_of_runs" "paused_only (chain_waiter ''a'') chain_of_runs" "paused_only (chain_waiter ''b'') chain_of_runs"
    "waiters_ok chain_of_runs" "no_stops chain_of_runs" by code_simp+
  then show ?thesis
    by (auto simp: at_rest_def chain_waiters chain_waiter_def one_wait_each_def split: if_splits)
qed

theorem cancel_reaches_every_sub_workflow_witness:
  "let s = run_acts (\<lambda>_. ''e'') 5 [CancelIt ''a'' ''no more''] chain_of_runs
   in marked ''c'' s \<and> map_option (ex_status \<circ> exec) (get_run ''c'' (table s)) = Some ExecCancelled
      \<and> map_option (ex_status \<circ> exec) (get_run ''d'' (table s)) = Some ExecRunning"
proof -
  have "(''a'', ''b'') \<in> waits_for chain_of_runs" "(''b'', ''c'') \<in> waits_for chain_of_runs"
    by (simp_all add: waits_for_def chain_waiters chain_waiter_def)
  then have "(''a'', ''c'') \<in> (waits_for chain_of_runs)\<^sup>*" by (meson rtrancl.simps)
  from cancel_reaches_every_sub_workflow [OF chain_at_rest this, of "\<lambda>_. ''e''" 5 "''no more''"]
  have "marked ''c'' (run_acts (\<lambda>_. ''e'') 5 [CancelIt ''a'' ''no more''] chain_of_runs)" .
  moreover have "map_option (ex_status \<circ> exec) (get_run ''c'' (table (run_acts (\<lambda>_. ''e'') 5 [CancelIt ''a'' ''no more''] chain_of_runs))) = Some ExecCancelled"
    "map_option (ex_status \<circ> exec) (get_run ''d'' (table (run_acts (\<lambda>_. ''e'') 5 [CancelIt ''a'' ''no more''] chain_of_runs))) = Some ExecRunning"
    by code_simp+
  ultimately show ?thesis by (simp add: Let_def)
qed


theorem sweep_keeps_who_waits_witness:
  "let s = set_entry ''c'' (settled_at 5) (set_entry ''d'' (settled_at 5) chain_of_runs);
       s' = snd (sweepSettledRuns 90 small_retention s)
   in get_run ''c'' (table s') = get_run ''c'' (table s) \<and> get_run ''c'' (table s) \<noteq> None \<and> get_run ''d'' (table s') = None"
proof -
  let ?s = "set_entry ''c'' (settled_at 5) (set_entry ''d'' (settled_at 5) chain_of_runs)"
  obtain n s' where sw: "sweepSettledRuns 90 small_retention ?s = (n, s')" by fastforce
  have k: "keys_distinct (table ?s)" by code_simp
  have w: "chain_waiter ''b'' \<in> set (waiters_of ''c'' ?s)" by (simp add: chain_waiters)
  have "get_run ''d'' (table (snd (sweepSettledRuns 90 small_retention ?s))) = None" "get_run ''c'' (table ?s) \<noteq> None" by code_simp+
  then show ?thesis using sweep_keeps_who_waits [OF k w sw] sw by (simp add: Let_def)
qed

end
