(* ===== verification/Wait_Registry.thy ===== *)
theory Wait_Registry
  imports Wait_Task "HOL-Library.Multiset"
begin

text \<open>
  The waits the engine holds armed: \<open>processWaitingExecutions\<close>, \<open>armWaitLocked\<close>,
  \<open>disarmWaitLocked\<close>, \<open>expireWait\<close>, \<open>resumeWait\<close> and \<open>pausedAtWait\<close> of \<open>workflow/internal/engine/engine.go\<close> and
  \<open>claimWaits\<close> of \<open>cancel.go\<close>. Each runs under \<open>waitingMu\<close>, so it is one operation on the table,
  and operations of different goroutines interleave as a list of operations does.
\<close>

subsection \<open>The table of waits\<close>

text \<open>A \<open>WaitingExecution\<close> is known by its pointer, \<open>we_ref\<close>.\<close>

record WaitingExecution =
  we_ref :: nat
  we_execution :: string
  we_workflow :: string
  we_task :: string
  we_config :: "WaitConfig option"
  we_index :: nat

text \<open>What the operations read of a run: whether it is dry, whether its context has ended, its tasks' waits.\<close>

record armed_run =
  ar_dryRun :: bool
  ar_ctxDone :: bool
  ar_waits :: "string \<Rightarrow> WaitState option"

text \<open>
  \<open>armedWaits\<close> is a set in the code; here a list, the last armed first. \<open>waitingExecutions\<close> has
  no empty entry in the code, so an absent one reads as the empty list. \<open>timers\<close> are the
  deadlines of the timers that run; one that was stopped may have fired already.
\<close>

record wait_table =
  armedWaits :: "WaitingExecution list"
  waitingExecutions :: "string \<Rightarrow> WaitingExecution list"
  timers :: "nat \<Rightarrow> time option"
  wait_runs :: "string \<Rightarrow> armed_run option"
  waits_stopped :: bool

definition event_of :: "WaitingExecution \<Rightarrow> string" where
  "event_of w = (case we_config w of None \<Rightarrow> '''' | Some c \<Rightarrow> wc_event c)"

definition run_ctxDone :: "string \<Rightarrow> wait_table \<Rightarrow> bool" where
  "run_ctxDone x s = (case wait_runs s x of None \<Rightarrow> False | Some r \<Rightarrow> ar_ctxDone r)"

definition wait_state :: "WaitingExecution \<Rightarrow> wait_table \<Rightarrow> (bool \<times> WaitState) option" where
  "wait_state w s =
     (case wait_runs s (we_execution w) of
        None \<Rightarrow> None
      | Some r \<Rightarrow> map_option (\<lambda>st. (ar_dryRun r, st)) (ar_waits r (we_task w)))"

definition set_wait :: "WaitingExecution \<Rightarrow> WaitState \<Rightarrow> wait_table \<Rightarrow> wait_table" where
  "set_wait w st s =
     (case wait_runs s (we_execution w) of
        None \<Rightarrow> s
      | Some r \<Rightarrow> s\<lparr>wait_runs := (wait_runs s)(we_execution w \<mapsto> r\<lparr>ar_waits := (ar_waits r)(we_task w \<mapsto> st)\<rparr>)\<rparr>)"

subsection \<open>Operations\<close>

definition armWaitLocked :: "WaitingExecution \<Rightarrow> time \<Rightarrow> wait_table \<Rightarrow> string \<times> wait_table" where
  "armWaitLocked w deadline s =
     (if run_ctxDone (we_execution w) s then (''cancelled'', s)
      else if waits_stopped s then (''stopped'', s)
      else
        let s1 = s\<lparr>armedWaits := w # armedWaits s\<rparr>;
            s2 = (if IsDelay (we_config w) then s1
                  else s1\<lparr>waitingExecutions :=
                    (waitingExecutions s1)(event_of w := waitingExecutions s1 (event_of w) @ [w])\<rparr>)
        in ('''', if deadline = 0 then s2 else s2\<lparr>timers := (timers s2)(we_ref w \<mapsto> deadline)\<rparr>))"

definition disarmWaitLocked :: "WaitingExecution \<Rightarrow> wait_table \<Rightarrow> wait_table" where
  "disarmWaitLocked w s =
     s\<lparr>armedWaits := filter (\<lambda>v. v \<noteq> w) (armedWaits s), timers := (timers s)(we_ref w := None)\<rparr>"

definition removeWaitingExecution :: "WaitingExecution list \<Rightarrow> WaitingExecution \<Rightarrow> WaitingExecution list" where
  "removeWaitingExecution list w = filter (\<lambda>v. v \<noteq> w) list"

definition unindex :: "WaitingExecution \<Rightarrow> wait_table \<Rightarrow> wait_table" where
  "unindex w s =
     (if IsDelay (we_config w) then s
      else s\<lparr>waitingExecutions :=
        (waitingExecutions s)(event_of w := removeWaitingExecution (waitingExecutions s (event_of w)) w)\<rparr>)"

text \<open>The waits kept for the next event and those the event satisfied. The clock is read anew for each wait.\<close>

fun process_loop ::
  "golib \<Rightarrow> (nat \<Rightarrow> time) \<Rightarrow> Event \<Rightarrow> WaitingExecution list \<Rightarrow> wait_table
   \<Rightarrow> WaitingExecution list \<times> WaitingExecution list \<times> wait_table" where
  "process_loop L now event [] s = ([], [], s)"
| "process_loop L now event (w # ws) s =
     (if w \<notin> set (armedWaits s) then process_loop L now event ws s
      else
        (case wait_state w s of
           None \<Rightarrow> process_loop L now event ws s
         | Some (dry, st) \<Rightarrow>
             if ev_dryRun event \<and> \<not> dry
             then (case process_loop L now event ws s of (keep, resume, s') \<Rightarrow> (w # keep, resume, s'))
             else
               (case ProcessEvent L (now (we_ref w)) event st of
                  (Inr True, st') \<Rightarrow>
                    (case process_loop L now event ws (disarmWaitLocked w (set_wait w st' s)) of
                       (keep, resume, s') \<Rightarrow> (keep, w # resume, s'))
                | (_, st') \<Rightarrow>
                    (case process_loop L now event ws (set_wait w st' s) of
                       (keep, resume, s') \<Rightarrow> (w # keep, resume, s')))))"

definition processWaitingExecutions ::
  "golib \<Rightarrow> (nat \<Rightarrow> time) \<Rightarrow> Event \<Rightarrow> wait_table \<Rightarrow> WaitingExecution list \<times> wait_table" where
  "processWaitingExecutions L now event s =
     (if waitingExecutions s (ev_type event) = [] then ([], s)
      else
        (case process_loop L now event (waitingExecutions s (ev_type event)) s of
           (keep, resume, s') \<Rightarrow>
             (resume, s'\<lparr>waitingExecutions := (waitingExecutions s')(ev_type event := keep)\<rparr>)))"

text \<open>Whether the timer that fired goes on to resume the run.\<close>

definition expireWait :: "WaitingExecution \<Rightarrow> wait_table \<Rightarrow> bool \<times> wait_table" where
  "expireWait w s =
     (if w \<notin> set (armedWaits s) then (False, s)
      else
        let s' = unindex w (disarmWaitLocked w s)
        in (case wait_state w s' of
              None \<Rightarrow> (False, s')
            | Some (_, st) \<Rightarrow> (True, set_wait w (Expire (we_config w) st) s')))"

definition claimWaits :: "string \<Rightarrow> wait_table \<Rightarrow> WaitingExecution list \<times> wait_table" where
  "claimWaits x s =
     (let claimed = filter (\<lambda>w. we_execution w = x) (armedWaits s)
      in (claimed, fold (\<lambda>w s. unindex w (disarmWaitLocked w s)) claimed s))"

text \<open>The unsettled runs that have a wait armed.\<close>

definition pausedAtWait :: "string list \<Rightarrow> wait_table \<Rightarrow> string list" where
  "pausedAtWait unsettled s = filter (\<lambda>x. x \<in> we_execution ` set (armedWaits s)) unsettled"

text \<open>A wait settled by an event or a timer: nothing to do, a run given up on because the engine stops, or one that goes on.\<close>

datatype resumption = NoSuchRun | GivenUpAtStop | GoesOn nat

definition resumeWait :: "WaitingExecution \<Rightarrow> wait_table \<Rightarrow> resumption" where
  "resumeWait w s =
     (if wait_runs s (we_execution w) = None then NoSuchRun
      else if waits_stopped s then GivenUpAtStop
      else GoesOn (we_index w))"
subsection \<open>How the parts of the table change\<close>

definition wait_key :: "WaitingExecution \<Rightarrow> string \<times> string" where
  "wait_key w = (we_execution w, we_task w)"

lemma set_wait_frame [simp]:
  "armedWaits (set_wait w st s) = armedWaits s"
  "waitingExecutions (set_wait w st s) = waitingExecutions s"
  "timers (set_wait w st s) = timers s"
  "waits_stopped (set_wait w st s) = waits_stopped s"
  "run_ctxDone x (set_wait w st s) = run_ctxDone x s"
  "wait_runs (set_wait w st s) x = None \<longleftrightarrow> wait_runs s x = None"
  by (auto simp: set_wait_def run_ctxDone_def split: option.splits)

lemma set_wait_state:
  "wait_key v \<noteq> wait_key w \<Longrightarrow> wait_state v (set_wait w st s) = wait_state v s"
  "wait_state w s = Some (d, st0) \<Longrightarrow> wait_state w (set_wait w st s) = Some (d, st)"
  by (auto simp: set_wait_def wait_state_def wait_key_def split: option.splits)

lemma set_wait_known: "wait_state v s \<noteq> None \<Longrightarrow> wait_state v (set_wait w st s) \<noteq> None"
  by (auto simp: set_wait_def wait_state_def split: option.splits)

lemma disarm_frame [simp]:
  "wait_state v (disarmWaitLocked w s) = wait_state v s"
  "waitingExecutions (disarmWaitLocked w s) = waitingExecutions s"
  "armedWaits (disarmWaitLocked w s) = filter (\<lambda>v. v \<noteq> w) (armedWaits s)"
  "timers (disarmWaitLocked w s) = (timers s)(we_ref w := None)"
  "waits_stopped (disarmWaitLocked w s) = waits_stopped s"
  "wait_runs (disarmWaitLocked w s) = wait_runs s"
  "run_ctxDone x (disarmWaitLocked w s) = run_ctxDone x s"
  by (simp_all add: disarmWaitLocked_def wait_state_def run_ctxDone_def)

lemma unindex_frame [simp]:
  "wait_state v (unindex w s) = wait_state v s"
  "armedWaits (unindex w s) = armedWaits s"
  "timers (unindex w s) = timers s"
  "waits_stopped (unindex w s) = waits_stopped s"
  "wait_runs (unindex w s) = wait_runs s"
  "run_ctxDone x (unindex w s) = run_ctxDone x s"
  by (simp_all add: unindex_def wait_state_def run_ctxDone_def)

lemma unindex_index:
  "waitingExecutions (unindex w s) e
     = (if \<not> IsDelay (we_config w) \<and> event_of w = e then filter (\<lambda>v. v \<noteq> w) (waitingExecutions s e)
        else waitingExecutions s e)"
  by (auto simp: unindex_def removeWaitingExecution_def)

subsection \<open>A consistent table\<close>

text \<open>
  What the engine relies on between operations: every armed wait is of a run the table holds and
  of a task that has not been waited for before, it is listed under its event once, unless it is
  a delay, nothing else is listed, and a timer runs for it exactly when it has a deadline.
\<close>

definition armed_timer :: "wait_table \<Rightarrow> WaitingExecution \<Rightarrow> bool" where
  "armed_timer s w \<longleftrightarrow>
     (case wait_state w s of None \<Rightarrow> False
      | Some (_, st) \<Rightarrow> timers s (we_ref w) = (if ws_timeout st = 0 then None else Some (ws_timeout st)))"

definition consistent :: "wait_table \<Rightarrow> bool" where
  "consistent s \<longleftrightarrow>
     distinct (map we_ref (armedWaits s)) \<and> distinct (map wait_key (armedWaits s))
     \<and> (\<forall>e. distinct (waitingExecutions s e)
          \<and> set (waitingExecutions s e) = {w \<in> set (armedWaits s). \<not> IsDelay (we_config w) \<and> event_of w = e})
     \<and> (\<forall>w \<in> set (armedWaits s). armed_timer s w)
     \<and> (\<forall>r. r \<notin> we_ref ` set (armedWaits s) \<longrightarrow> timers s r = None)"

lemma armed_timer_known: "armed_timer s w \<Longrightarrow> wait_state w s \<noteq> None"
  by (auto simp: armed_timer_def split: option.splits)

lemma armed_known: "consistent s \<Longrightarrow> w \<in> set (armedWaits s) \<Longrightarrow> wait_state w s \<noteq> None"
  by (rule armed_timer_known) (simp add: consistent_def)

lemma armed_unique:
  assumes "consistent s" and "v \<in> set (armedWaits s)" and "w \<in> set (armedWaits s)" and "v \<noteq> w"
  shows "we_ref v \<noteq> we_ref w" and "wait_key v \<noteq> wait_key w"
  using assms by (auto simp: consistent_def distinct_map dest: inj_onD)

subsection \<open>What an event does\<close>

text \<open>Whether the event may be shown to the wait, whether it satisfies it, and the wait's state after it.\<close>

definition may_see :: "Event \<Rightarrow> bool \<Rightarrow> bool" where
  "may_see event dry \<longleftrightarrow> \<not> (ev_dryRun event \<and> \<not> dry)"

definition satisfies :: "golib \<Rightarrow> (nat \<Rightarrow> time) \<Rightarrow> Event \<Rightarrow> wait_table \<Rightarrow> WaitingExecution \<Rightarrow> bool" where
  "satisfies L now event s w \<longleftrightarrow>
     (case wait_state w s of None \<Rightarrow> False
      | Some (dry, st) \<Rightarrow> may_see event dry \<and> fst (ProcessEvent L (now (we_ref w)) event st) = Inr True)"

definition state_after :: "golib \<Rightarrow> (nat \<Rightarrow> time) \<Rightarrow> Event \<Rightarrow> wait_table \<Rightarrow> WaitingExecution \<Rightarrow> (bool \<times> WaitState) option" where
  "state_after L now event s w =
     (case wait_state w s of None \<Rightarrow> None
      | Some (dry, st) \<Rightarrow>
          Some (dry, if may_see event dry then snd (ProcessEvent L (now (we_ref w)) event st) else st))"

lemma process_step:
  assumes "w \<in> set (armedWaits s)" and "wait_state w s = Some (dry, st)"
  obtains (sat) st' where "satisfies L now event s w" "state_after L now event s w = Some (dry, st')"
      "process_loop L now event (w # ws) s =
        (case process_loop L now event ws (disarmWaitLocked w (set_wait w st' s)) of (keep, resume, s') \<Rightarrow> (keep, w # resume, s'))"
    | (kept) s1 where "\<not> satisfies L now event s w" "s1 = s \<and> state_after L now event s w = Some (dry, st)
        \<or> (\<exists>st'. s1 = set_wait w st' s \<and> state_after L now event s w = Some (dry, st'))"
      "process_loop L now event (w # ws) s =
        (case process_loop L now event ws s1 of (keep, resume, s') \<Rightarrow> (w # keep, resume, s'))"
proof (cases "may_see event dry")
  case False
  then show ?thesis
    using assms by (intro kept [of s]) (simp_all add: satisfies_def state_after_def may_see_def)
next
  case True
  obtain res st' where p: "ProcessEvent L (now (we_ref w)) event st = (res, st')" by fastforce
  show ?thesis
  proof (cases "res = Inr True")
    case yes: True
    then show ?thesis
      using True assms p by (intro sat [of st']) (auto simp: satisfies_def state_after_def may_see_def)
  next
    case no: False
    then show ?thesis
      using True assms p
      by (intro kept [of "set_wait w st' s"])
        (auto simp: satisfies_def state_after_def may_see_def split: sum.splits bool.splits)
  qed
qed
definition loop_leaves ::
  "golib \<Rightarrow> (nat \<Rightarrow> time) \<Rightarrow> Event \<Rightarrow> WaitingExecution list \<Rightarrow> wait_table \<Rightarrow> wait_table \<Rightarrow> bool" where
  "loop_leaves L now event ws s s' \<longleftrightarrow>
     armedWaits s' = filter (\<lambda>v. v \<notin> set ws \<or> \<not> satisfies L now event s v) (armedWaits s)
     \<and> waitingExecutions s' = waitingExecutions s
     \<and> (\<forall>v. wait_key v \<notin> wait_key ` set ws \<longrightarrow> wait_state v s' = wait_state v s)
     \<and> (\<forall>v \<in> set ws. wait_state v s' = state_after L now event s v)
     \<and> timers s' = (\<lambda>r. if \<exists>v \<in> set ws. satisfies L now event s v \<and> we_ref v = r then None else timers s r)
     \<and> waits_stopped s' = waits_stopped s
     \<and> (\<forall>x. run_ctxDone x s' = run_ctxDone x s \<and> (wait_runs s' x = None \<longleftrightarrow> wait_runs s x = None))"

lemma same_state_same_answer:
  "wait_state v s' = wait_state v s \<Longrightarrow> satisfies L now event s' v = satisfies L now event s v"
  "wait_state v s' = wait_state v s \<Longrightarrow> state_after L now event s' v = state_after L now event s v"
  by (simp_all add: satisfies_def state_after_def)

lemma other_waits_untouched:
  assumes "loop_leaves L now event [w] s s1" and "wait_key w \<notin> wait_key ` set ws" and "v \<in> set ws"
  shows "wait_state v s1 = wait_state v s"
proof -
  have "wait_key v \<noteq> wait_key w" using imageI [OF assms(3), of wait_key] assms(2) by auto
  then show ?thesis using assms(1) by (simp add: loop_leaves_def)
qed

lemma loop_leaves_step:
  assumes w: "wait_key w \<notin> wait_key ` set ws" and s1: "loop_leaves L now event [w] s s1" and s': "loop_leaves L now event ws s1 s'"
  shows "loop_leaves L now event (w # ws) s s'"
proof -
  have other: "wait_state v s1 = wait_state v s" if "v \<in> set ws" for v
    using other_waits_untouched [OF s1 w that] .
  have sat: "satisfies L now event s1 v = satisfies L now event s v" if "v \<in> set ws" for v
    using same_state_same_answer(1) [OF other [OF that]] .
  have st: "state_after L now event s1 v = state_after L now event s v" if "v \<in> set ws" for v
    using same_state_same_answer(2) [OF other [OF that]] .
  have "wait_state w s' = state_after L now event s w" using s1 s' w by (simp add: loop_leaves_def)
  moreover have "armedWaits s' = filter (\<lambda>v. v \<notin> set (w # ws) \<or> \<not> satisfies L now event s v) (armedWaits s)"
    using s1 s' sat by (auto simp: loop_leaves_def intro!: filter_cong)
  moreover have "timers s' = (\<lambda>r. if \<exists>v \<in> set (w # ws). satisfies L now event s v \<and> we_ref v = r then None else timers s r)"
    using s1 s' sat by (auto simp: loop_leaves_def fun_eq_iff)
  ultimately show ?thesis using s1 s' st by (simp add: loop_leaves_def)
qed

lemma process_loop_spec:
  assumes "distinct (map wait_key ws)" and "set ws \<subseteq> set (armedWaits s)" and "\<forall>w \<in> set ws. wait_state w s \<noteq> None"
  shows "\<exists>s'. process_loop L now event ws s
      = (filter (\<lambda>w. \<not> satisfies L now event s w) ws, filter (satisfies L now event s) ws, s')
    \<and> loop_leaves L now event ws s s'"
  using assms
proof (induction ws arbitrary: s)
  case Nil
  then show ?case by (auto simp: loop_leaves_def)
next
  case (Cons w ws)
  have w: "wait_key w \<notin> wait_key ` set ws" "w \<notin> set ws" "w \<in> set (armedWaits s)" using Cons.prems by auto
  obtain dry st where st: "wait_state w s = Some (dry, st)" using Cons.prems by auto
  have go: ?case if one: "loop_leaves L now event [w] s s1" and loop: "process_loop L now event (w # ws) s =
      (case process_loop L now event ws s1 of (keep, resume, s') \<Rightarrow>
         if satisfies L now event s w then (keep, w # resume, s') else (w # keep, resume, s'))" for s1
  proof -
    have other: "wait_state v s1 = wait_state v s" if "v \<in> set ws" for v
      using other_waits_untouched [OF one w(1) that] .
    have sat: "satisfies L now event s1 v = satisfies L now event s v" if "v \<in> set ws" for v
      using same_state_same_answer(1) [OF other [OF that]] .
    have "set ws \<subseteq> set (armedWaits s1)" using one Cons.prems w(2) by (auto simp: loop_leaves_def)
    then obtain s' where s': "process_loop L now event ws s1
        = (filter (\<lambda>w. \<not> satisfies L now event s1 w) ws, filter (satisfies L now event s1) ws, s')"
      "loop_leaves L now event ws s1 s'"
      using Cons.IH [of s1] Cons.prems other by auto
    show ?case
      using loop s'(1) sat loop_leaves_step [OF w(1) one s'(2)] by (auto cong: filter_cong)
  qed
  from w(3) st show ?case
  proof (cases rule: process_step [of w s dry st L now event ws])
    case (sat st')
    have "loop_leaves L now event [w] s (disarmWaitLocked w (set_wait w st' s))"
      using sat st by (auto simp: loop_leaves_def set_wait_state wait_key_def fun_eq_iff intro!: filter_cong)
    then show ?thesis using sat(1,3) by (intro go) simp_all
  next
    case (kept s1)
    have "loop_leaves L now event [w] s s1"
      using kept(1,2) st by (auto simp: loop_leaves_def set_wait_state wait_key_def filter_id_conv)
    then show ?thesis using kept(1,3) by (intro go) simp_all
  qed
qed
definition listens :: "Event \<Rightarrow> WaitingExecution \<Rightarrow> bool" where
  "listens event w \<longleftrightarrow> \<not> IsDelay (we_config w) \<and> event_of w = ev_type event"

lemma listed: "consistent s \<Longrightarrow> w \<in> set (waitingExecutions s (ev_type event)) \<longleftrightarrow> w \<in> set (armedWaits s) \<and> listens event w"
  by (auto simp: consistent_def listens_def)

lemma process_spec:
  assumes c: "consistent s" and p: "processWaitingExecutions L now event s = (resumed, s')"
  shows "resumed = filter (satisfies L now event s) (waitingExecutions s (ev_type event))"
    and "waitingExecutions s' =
      (waitingExecutions s)(ev_type event := filter (\<lambda>w. \<not> satisfies L now event s w) (waitingExecutions s (ev_type event)))"
    and "loop_leaves L now event (waitingExecutions s (ev_type event)) s (s'\<lparr>waitingExecutions := waitingExecutions s\<rparr>)"
proof -
  let ?ws = "waitingExecutions s (ev_type event)"
  have "distinct ?ws" "set ?ws \<subseteq> set (armedWaits s)" "\<forall>w \<in> set ?ws. wait_state w s \<noteq> None"
    using c armed_timer_known by (auto simp: consistent_def)
  moreover have "distinct (map wait_key ?ws)"
    using calculation(1,2) c by (auto simp: distinct_map consistent_def intro: inj_on_subset)
  ultimately obtain s1 where s1: "process_loop L now event ?ws s
      = (filter (\<lambda>w. \<not> satisfies L now event s w) ?ws, filter (satisfies L now event s) ?ws, s1)"
    "loop_leaves L now event ?ws s s1"
    using process_loop_spec by blast
  have i: "waitingExecutions s1 = waitingExecutions s" using s1(2) by (simp add: loop_leaves_def)
  have "s1 = s" if "?ws = []" using s1(1) that by simp
  then have r: "resumed = filter (satisfies L now event s) ?ws"
    "s' = s1\<lparr>waitingExecutions := (waitingExecutions s)(ev_type event := filter (\<lambda>w. \<not> satisfies L now event s w) ?ws)\<rparr>"
    using p s1(1) i by (simp_all add: processWaitingExecutions_def fun_upd_idem split: if_splits)
  show "resumed = filter (satisfies L now event s) ?ws" by (rule r(1))
  show "waitingExecutions s' = (waitingExecutions s)(ev_type event := filter (\<lambda>w. \<not> satisfies L now event s w) ?ws)"
    by (simp add: r(2))
  have "s'\<lparr>waitingExecutions := waitingExecutions s\<rparr> = s1" using i by (simp add: r(2))
  then show "loop_leaves L now event ?ws s (s'\<lparr>waitingExecutions := waitingExecutions s\<rparr>)" using s1(2) by simp
qed

lemma wait_state_index [simp]: "wait_state w (s\<lparr>waitingExecutions := f\<rparr>) = wait_state w s"
  by (simp add: wait_state_def)

lemma process_armed:
  assumes c: "consistent s" and p: "processWaitingExecutions L now event s = (resumed, s')"
  shows "armedWaits s' = filter (\<lambda>v. v \<notin> set resumed) (armedWaits s)"
    and "set resumed = {w \<in> set (armedWaits s). listens event w \<and> satisfies L now event s w}"
    and "w \<in> set (armedWaits s) \<Longrightarrow>
      wait_state w s' = (if listens event w then state_after L now event s w else wait_state w s)"
proof -
  note sp = process_spec [OF c p]
  let ?ws = "waitingExecutions s (ev_type event)"
  show r: "set resumed = {w \<in> set (armedWaits s). listens event w \<and> satisfies L now event s w}"
    using listed [OF c] by (auto simp: sp(1))
  show "armedWaits s' = filter (\<lambda>v. v \<notin> set resumed) (armedWaits s)"
    using sp(3) listed [OF c, of _ event] by (auto simp: loop_leaves_def r intro!: filter_cong)
  assume w: "w \<in> set (armedWaits s)"
  show "wait_state w s' = (if listens event w then state_after L now event s w else wait_state w s)"
  proof (cases "listens event w")
    case True
    then show ?thesis using sp(3) listed [OF c] w by (simp add: loop_leaves_def)
  next
    case False
    have "wait_key w \<notin> wait_key ` set ?ws"
    proof
      assume "wait_key w \<in> wait_key ` set ?ws"
      then obtain v where v: "v \<in> set ?ws" "wait_key w = wait_key v" by (rule imageE)
      then have "v \<in> set (armedWaits s)" "listens event v" using listed [OF c] by simp_all
      then show False using armed_unique(2) [OF c w, of v] v(2) False by auto
    qed
    then show ?thesis using sp(3) False by (simp add: loop_leaves_def)
  qed
qed

lemma ProcessEvent_deadline: "ws_timeout (snd (ProcessEvent L now e w)) = ws_timeout w"
  using settings_event [of L now e w] by (simp add: settings_def)

lemma process_consistent:
  assumes c: "consistent s" and p: "processWaitingExecutions L now event s = (resumed, s')"
  shows "consistent s'"
proof -
  note sp = process_spec [OF c p] and ar = process_armed [OF c p]
  let ?ws = "waitingExecutions s (ev_type event)"
  have "armed_timer s' w" if w: "w \<in> set (armedWaits s')" for w
  proof -
    have a: "w \<in> set (armedWaits s)" "w \<notin> set resumed" using w by (simp_all add: ar(1))
    have "armed_timer s w" using a(1) c by (simp add: consistent_def)
    then obtain dry st where st: "wait_state w s = Some (dry, st)" "timers s (we_ref w) = (if ws_timeout st = 0 then None else Some (ws_timeout st))"
      by (auto simp: armed_timer_def split: option.splits)
    have "timers s' (we_ref w) = timers s (we_ref w)"
    proof -
      have "\<not> (\<exists>v \<in> set ?ws. satisfies L now event s v \<and> we_ref v = we_ref w)"
      proof
        assume "\<exists>v \<in> set ?ws. satisfies L now event s v \<and> we_ref v = we_ref w"
        then obtain v where v: "v \<in> set ?ws" "satisfies L now event s v" "we_ref v = we_ref w" by blast
        then have "v \<in> set (armedWaits s)" "v \<in> set resumed" using listed [OF c] by (simp_all add: sp(1))
        then show False using armed_unique(1) [OF c a(1), of v] v(3) a(2) by auto
      qed
      then show ?thesis using sp(3) by (auto simp: loop_leaves_def)
    qed
    then show ?thesis
      using st ar(3) [OF a(1)] by (auto simp: armed_timer_def state_after_def ProcessEvent_deadline)
  qed
  moreover have "distinct (waitingExecutions s' e) \<and> set (waitingExecutions s' e)
      = {w \<in> set (armedWaits s'). \<not> IsDelay (we_config w) \<and> event_of w = e}" for e
  proof -
    have "distinct (waitingExecutions s e)" "set (waitingExecutions s e)
      = {w \<in> set (armedWaits s). \<not> IsDelay (we_config w) \<and> event_of w = e}" using c by (simp_all add: consistent_def)
    then show ?thesis by (auto simp: sp(2) ar(1,2) listens_def)
  qed
  moreover have "timers s' r = None" if r: "r \<notin> we_ref ` set (armedWaits s')" for r
  proof (cases "r \<in> we_ref ` set resumed")
    case True
    then show ?thesis using sp(3) by (auto simp: loop_leaves_def sp(1))
  next
    case False
    then have "r \<notin> we_ref ` set (armedWaits s)" using r by (auto simp: ar(1))
    then have "timers s r = None" using c by (simp add: consistent_def)
    then show ?thesis using sp(3) by (auto simp: loop_leaves_def)
  qed
  ultimately show ?thesis
    using c by (simp add: consistent_def ar(1) distinct_map_filter)
qed
subsection \<open>What the other operations do\<close>

lemma take_consistent:
  assumes c: "consistent s" and w: "w \<in> set (armedWaits s)"
  shows "consistent (unindex w (disarmWaitLocked w s))"
proof -
  let ?s = "unindex w (disarmWaitLocked w s)"
  have "armed_timer ?s v" if "v \<in> set (armedWaits ?s)" for v
  proof -
    have v: "v \<in> set (armedWaits s)" "v \<noteq> w" using that by simp_all
    then show ?thesis using armed_unique(1) [OF c v(1) w v(2)] c by (simp add: consistent_def armed_timer_def split: option.splits)
  qed
  moreover have "distinct (waitingExecutions ?s e) \<and> set (waitingExecutions ?s e)
      = {v \<in> set (armedWaits ?s). \<not> IsDelay (we_config v) \<and> event_of v = e}" for e
  proof -
    have "distinct (waitingExecutions s e)" "set (waitingExecutions s e)
      = {v \<in> set (armedWaits s). \<not> IsDelay (we_config v) \<and> event_of v = e}" using c by (simp_all add: consistent_def)
    then show ?thesis by (auto simp: unindex_index)
  qed
  moreover have "timers ?s r = None" if "r \<notin> we_ref ` set (armedWaits ?s)" for r
    using that c by (cases "r = we_ref w") (auto simp: consistent_def image_iff)
  ultimately show ?thesis using c by (simp add: consistent_def distinct_map_filter)
qed

lemma set_wait_consistent:
  assumes "consistent s" and "\<And>st0 d. wait_state w s = Some (d, st0) \<Longrightarrow> ws_timeout st0 = ws_timeout st \<or> w \<notin> set (armedWaits s)"
    and "w \<notin> set (armedWaits s) \<Longrightarrow> wait_key w \<notin> wait_key ` set (armedWaits s)"
  shows "consistent (set_wait w st s)"
proof -
  have "armed_timer (set_wait w st s) v" if v: "v \<in> set (armedWaits s)" for v
  proof -
    have a: "armed_timer s v" using assms(1) v by (simp add: consistent_def)
    show ?thesis
    proof (cases "wait_key v = wait_key w")
      case True
      then have "v = w" using armed_unique(2) [OF assms(1) v] assms(3) v by (metis image_eqI)
      then show ?thesis using a assms(2) v by (auto simp: armed_timer_def set_wait_state(2) split: option.splits)
    next
      case False
      then show ?thesis using a by (auto simp: armed_timer_def set_wait_state(1) split: option.splits prod.splits)
    qed
  qed
  then show ?thesis using assms(1) by (simp add: consistent_def)
qed

lemma expire_spec:
  assumes c: "consistent s" and w: "w \<in> set (armedWaits s)" and st: "wait_state w s = Some (d, st)"
  shows "\<exists>s'. expireWait w s = (True, s') \<and> consistent s' \<and> armedWaits s' = filter (\<lambda>v. v \<noteq> w) (armedWaits s)
    \<and> wait_state w s' = Some (d, Expire (we_config w) st)
    \<and> waits_stopped s' = waits_stopped s \<and> (\<forall>x. run_ctxDone x s' = run_ctxDone x s \<and> (wait_runs s' x = None \<longleftrightarrow> wait_runs s x = None))"
proof -
  let ?s = "unindex w (disarmWaitLocked w s)"
  have "wait_key w \<notin> wait_key ` set (armedWaits ?s)" using armed_unique(2) [OF c w] by auto
  then have "consistent (set_wait w (Expire (we_config w) st) ?s)"
    using take_consistent [OF c w] by (intro set_wait_consistent) simp_all
  then show ?thesis using w st by (simp add: expireWait_def Let_def set_wait_state(2))
qed

lemma claim_fold:
  assumes "consistent s" and "distinct ws" and "set ws \<subseteq> set (armedWaits s)"
  defines "s' \<equiv> fold (\<lambda>w s. unindex w (disarmWaitLocked w s)) ws s"
  shows "consistent s' \<and> armedWaits s' = filter (\<lambda>v. v \<notin> set ws) (armedWaits s)
    \<and> waits_stopped s' = waits_stopped s \<and> wait_runs s' = wait_runs s \<and> (\<forall>x. run_ctxDone x s' = run_ctxDone x s)"
  using assms(1-3) unfolding s'_def
proof (induction ws arbitrary: s)
  case (Cons w ws)
  let ?s = "unindex w (disarmWaitLocked w s)"
  have "consistent ?s" using Cons.prems take_consistent by simp
  moreover have "set ws \<subseteq> set (armedWaits ?s)" using Cons.prems by auto
  ultimately show ?case using Cons.IH [of ?s] Cons.prems by (auto simp: conj_commute intro!: filter_cong)
qed simp

lemma claim_spec:
  assumes c: "consistent s" and k: "claimWaits x s = (ws, s')"
  shows "ws = filter (\<lambda>w. we_execution w = x) (armedWaits s) \<and> consistent s'
    \<and> armedWaits s' = filter (\<lambda>w. we_execution w \<noteq> x) (armedWaits s)
    \<and> waits_stopped s' = waits_stopped s \<and> wait_runs s' = wait_runs s \<and> (\<forall>x. run_ctxDone x s' = run_ctxDone x s)"
proof -
  let ?ws = "filter (\<lambda>w. we_execution w = x) (armedWaits s)"
  have "distinct ?ws" using c by (simp add: consistent_def distinct_map)
  from claim_fold [OF c this] k show ?thesis by (auto simp: claimWaits_def Let_def intro!: filter_cong)
qed
subsection \<open>Any interleaving\<close>

text \<open>
  The operations of the engine's goroutines on the table. A run that reaches a wait its task has
  no state of gets the state and is armed, as \<open>handleWaitTask\<close> does; \<open>EndContext\<close> is the
  first step of \<open>abandonRun\<close>, \<open>Claim\<close> the one that takes the run's waits; a run is evicted by
  the sweep.
\<close>

datatype wait_op =
    Begin string bool
  | Arm WaitingExecution WaitState
  | Show "nat \<Rightarrow> time" Event
  | Fire WaitingExecution
  | EndContext string
  | Claim string
  | StopWaits
  | Evict string

definition begin_waits :: "string \<Rightarrow> bool \<Rightarrow> wait_table \<Rightarrow> wait_table" where
  "begin_waits x dry s =
     (if wait_runs s x \<noteq> None then s
      else s\<lparr>wait_runs := (wait_runs s)(x \<mapsto> \<lparr>ar_dryRun = dry, ar_ctxDone = False, ar_waits = (\<lambda>_. None)\<rparr>)\<rparr>)"

definition end_context :: "string \<Rightarrow> wait_table \<Rightarrow> wait_table" where
  "end_context x s =
     (case wait_runs s x of None \<Rightarrow> s | Some r \<Rightarrow> s\<lparr>wait_runs := (wait_runs s)(x \<mapsto> r\<lparr>ar_ctxDone := True\<rparr>)\<rparr>)"

definition start_wait :: "WaitingExecution \<Rightarrow> WaitState \<Rightarrow> wait_table \<Rightarrow> string \<times> wait_table" where
  "start_wait w st s =
     (case wait_runs s (we_execution w) of
        None \<Rightarrow> (''no run'', s)
      | Some r \<Rightarrow>
          if ar_waits r (we_task w) \<noteq> None then (''entered before'', s)
          else armWaitLocked w (ws_timeout st) (set_wait w st s))"

text \<open>The waits the operation arms, those it hands to a taker, and the table after it.\<close>

definition wait_op :: "golib \<Rightarrow> wait_op \<Rightarrow> wait_table \<Rightarrow> WaitingExecution list \<times> WaitingExecution list \<times> wait_table" where
  "wait_op L a s =
     (case a of
        Begin x dry \<Rightarrow> ([], [], begin_waits x dry s)
      | Arm w st \<Rightarrow> (case start_wait w st s of (refused, s') \<Rightarrow> (if refused = '''' then [w] else [], [], s'))
      | Show now e \<Rightarrow> (case processWaitingExecutions L now e s of (resumed, s') \<Rightarrow> ([], resumed, s'))
      | Fire w \<Rightarrow> (case expireWait w s of (mine, s') \<Rightarrow> ([], if mine then [w] else [], s'))
      | EndContext x \<Rightarrow> ([], [], end_context x s)
      | Claim x \<Rightarrow> (case claimWaits x s of (claimed, s') \<Rightarrow> ([], claimed, s'))
      | StopWaits \<Rightarrow> ([], [], s\<lparr>waits_stopped := True\<rparr>)
      | Evict x \<Rightarrow> ([], [], s\<lparr>wait_runs := (wait_runs s)(x := None)\<rparr>))"

fun wait_ops :: "golib \<Rightarrow> wait_op list \<Rightarrow> wait_table \<Rightarrow> WaitingExecution list \<times> WaitingExecution list \<times> wait_table" where
  "wait_ops L [] s = ([], [], s)"
| "wait_ops L (a # as) s =
     (case wait_op L a s of (armed, handed, s1) \<Rightarrow>
        (case wait_ops L as s1 of (armed', handed', s') \<Rightarrow> (armed @ armed', handed @ handed', s')))"

text \<open>
  A new wait is a new pointer, and the sweep evicts settled runs only: none of those is paused,
  since a paused run is settled by whoever has claimed its waits.
\<close>

definition possible :: "wait_op \<Rightarrow> wait_table \<Rightarrow> bool" where
  "possible a s =
     (case a of Arm w st \<Rightarrow> we_ref w \<notin> we_ref ` set (armedWaits s)
      | Evict x \<Rightarrow> x \<notin> we_execution ` set (armedWaits s)
      | _ \<Rightarrow> True)"

fun all_possible :: "golib \<Rightarrow> wait_op list \<Rightarrow> wait_table \<Rightarrow> bool" where
  "all_possible L [] s \<longleftrightarrow> True"
| "all_possible L (a # as) s \<longleftrightarrow> possible a s \<and> all_possible L as (snd (snd (wait_op L a s)))"

definition no_waits :: wait_table where
  "no_waits = \<lparr>armedWaits = [], waitingExecutions = (\<lambda>_. []), timers = (\<lambda>_. None), wait_runs = (\<lambda>_. None), waits_stopped = False\<rparr>"

lemma no_waits_consistent: "consistent no_waits"
  by (simp add: no_waits_def consistent_def)

lemma armed_timer_same:
  "wait_state w s' = wait_state w s \<Longrightarrow> timers s' = timers s \<Longrightarrow> armed_timer s' w = armed_timer s w"
  by (auto simp: armed_timer_def split: option.splits prod.splits)

lemma same_task_same_state: "wait_key v = wait_key w \<Longrightarrow> wait_state v s = wait_state w s"
  by (auto simp: wait_state_def wait_key_def split: option.splits)

text \<open>A table whose runs differ only where no armed wait looks is as consistent.\<close>

lemma same_armed_consistent:
  assumes "consistent s" and "armedWaits s' = armedWaits s" and "waitingExecutions s' = waitingExecutions s"
    and "timers s' = timers s" and "\<forall>w \<in> set (armedWaits s). wait_state w s' = wait_state w s"
  shows "consistent s'"
proof -
  have "armed_timer s' w" if "w \<in> set (armedWaits s)" for w
    using that assms armed_timer_same [of w s' s] by (simp add: consistent_def)
  then show ?thesis using assms(1-4) by (simp add: consistent_def)
qed

lemma start_wait_consistent:
  assumes c: "consistent s" and f: "we_ref w \<notin> we_ref ` set (armedWaits s)" and a: "start_wait w st s = (refused, s')"
  shows "consistent s' \<and> armedWaits s' = (if refused = '''' then w # armedWaits s else armedWaits s)"
proof (cases "wait_runs s (we_execution w)")
  case None
  then show ?thesis using a c by (auto simp: start_wait_def)
next
  case (Some r)
  show ?thesis
  proof (cases "ar_waits r (we_task w)")
    case known: (Some _)
    then show ?thesis using a c Some by (auto simp: start_wait_def)
  next
    case None
    have none: "wait_state w s = None" using Some None by (simp add: wait_state_def)
    have key: "wait_key w \<notin> wait_key ` set (armedWaits s)"
    proof
      assume "wait_key w \<in> wait_key ` set (armedWaits s)"
      then obtain v where v: "v \<in> set (armedWaits s)" "wait_key w = wait_key v" by (rule imageE)
      then have "wait_state v s = None" using none same_task_same_state [of w v s] by simp
      then show False using armed_known [OF c v(1)] by simp
    qed
    let ?s = "set_wait w st s"
    have c1: "consistent ?s" using c none key by (intro set_wait_consistent) simp_all
    have st: "wait_state w ?s = Some (ar_dryRun r, st)" using Some by (simp add: wait_state_def set_wait_def)
    have arm: "armWaitLocked w (ws_timeout st) ?s = (refused, s')" using a Some None by (simp add: start_wait_def)
    show ?thesis
    proof (cases "refused = ''''")
      case False
      then have "s' = ?s" using arm by (auto simp: armWaitLocked_def Let_def split: if_splits)
      moreover have "refused \<noteq> ''''" using False .
      ultimately show ?thesis using c1 by simp
    next
      case True
      have s': "armedWaits s' = w # armedWaits s" "\<And>v. wait_state v s' = wait_state v ?s"
        "waitingExecutions s' = (if IsDelay (we_config w) then waitingExecutions s
           else (waitingExecutions s)(event_of w := waitingExecutions s (event_of w) @ [w]))"
        "timers s' = (if ws_timeout st = 0 then timers s else (timers s)(we_ref w \<mapsto> ws_timeout st))"
        using arm True by (auto simp: armWaitLocked_def Let_def wait_state_def split: if_splits)
      have "armed_timer s' v" if v: "v \<in> set (armedWaits s')" for v
      proof (cases "v = w")
        case True
        then show ?thesis using st s'(2,4) c f by (auto simp: armed_timer_def consistent_def)
      next
        case False
        then have old: "v \<in> set (armedWaits s)" using v by (simp add: s'(1))
        then have "we_ref v \<noteq> we_ref w" using f by (metis imageI)
        then show ?thesis using old c1 s'(2,4) by (auto simp: armed_timer_def consistent_def split: option.splits)
      qed
      moreover have "distinct (waitingExecutions s' e) \<and> set (waitingExecutions s' e)
          = {v \<in> set (armedWaits s'). \<not> IsDelay (we_config v) \<and> event_of v = e}" for e
      proof -
        have "distinct (waitingExecutions s e)" "set (waitingExecutions s e)
          = {v \<in> set (armedWaits s). \<not> IsDelay (we_config v) \<and> event_of v = e}" using c by (simp_all add: consistent_def)
        moreover have "w \<notin> set (armedWaits s)" using f by auto
        ultimately show ?thesis by (auto simp: s'(1,3))
      qed
      moreover have "timers s' r = None" if "r \<notin> we_ref ` set (armedWaits s')" for r
        using that c by (auto simp: s'(1,4) consistent_def)
      moreover have "distinct (map we_ref (armedWaits s'))" "distinct (map wait_key (armedWaits s'))"
        using c f key by (simp_all add: s'(1) consistent_def)
      ultimately show ?thesis using True s'(1) by (simp add: consistent_def)
    qed
  qed
qed

lemma without_one: "distinct ws \<Longrightarrow> w \<in> set ws \<Longrightarrow> mset ws = add_mset w (mset (filter (\<lambda>v. v \<noteq> w) ws))"
proof -
  assume "distinct ws" "w \<in> set ws"
  then have "set ws = set (w # filter (\<lambda>v. v \<noteq> w) ws)" "distinct (w # filter (\<lambda>v. v \<noteq> w) ws)" by auto
  then have "mset ws = mset (w # filter (\<lambda>v. v \<noteq> w) ws)"
    using \<open>distinct ws\<close> set_eq_iff_mset_eq_distinct by blast
  then show ?thesis by simp
qed

lemma begin_waits_frame [simp]:
  "armedWaits (begin_waits x dry s) = armedWaits s"
  "waitingExecutions (begin_waits x dry s) = waitingExecutions s"
  "timers (begin_waits x dry s) = timers s"
  by (simp_all add: begin_waits_def)

lemma end_context_frame [simp]:
  "armedWaits (end_context x s) = armedWaits s"
  "waitingExecutions (end_context x s) = waitingExecutions s"
  "timers (end_context x s) = timers s"
  "wait_state w (end_context x s) = wait_state w s"
  by (simp_all add: end_context_def wait_state_def split: option.splits)

lemma begin_waits_state: "wait_state w s \<noteq> None \<Longrightarrow> wait_state w (begin_waits x dry s) = wait_state w s"
  by (auto simp: begin_waits_def wait_state_def split: option.splits)

lemma evict_state: "we_execution w \<noteq> x \<Longrightarrow> wait_state w (s\<lparr>wait_runs := (wait_runs s)(x := None)\<rparr>) = wait_state w s"
  by (simp add: wait_state_def)

lemma wait_op_sound:
  assumes c: "consistent s" and p: "possible a s" and o': "wait_op L a s = (armed, handed, s')"
  shows "consistent s' \<and> mset handed + mset (armedWaits s') = mset armed + mset (armedWaits s)"
proof (cases a)
  case (Begin x dry)
  have "consistent (begin_waits x dry s)"
    by (rule same_armed_consistent [OF c]) (simp_all add: begin_waits_state armed_known [OF c])
  then show ?thesis using o' by (auto simp: wait_op_def Begin)
next
  case (Arm w st)
  obtain refused where r: "start_wait w st s = (refused, s')" "armed = (if refused = '''' then [w] else [])" "handed = []"
    using o' by (auto simp: wait_op_def Arm split: prod.splits)
  have "we_ref w \<notin> we_ref ` set (armedWaits s)" using p by (simp add: possible_def Arm)
  from start_wait_consistent [OF c this r(1)] show ?thesis by (simp add: r(2,3))
next
  case (Show now e)
  then have k: "processWaitingExecutions L now e s = (handed, s')" "armed = []" using o' by (simp_all add: wait_op_def split: prod.splits)
  note ar = process_armed [OF c k(1)]
  have "distinct handed" using c process_spec(1) [OF c k(1)] by (simp add: consistent_def)
  moreover have "distinct (armedWaits s)" using c by (simp add: consistent_def distinct_map)
  moreover have "set handed \<subseteq> set (armedWaits s)" by (auto simp: ar(2))
  ultimately have "mset (filter (\<lambda>v. v \<in> set handed) (armedWaits s)) = mset handed"
    by (intro set_eq_iff_mset_eq_distinct [THEN iffD1]) auto
  then have "mset (armedWaits s) = mset handed + mset (filter (\<lambda>v. v \<notin> set handed) (armedWaits s))"
    using multiset_partition [of "mset (armedWaits s)" "\<lambda>v. v \<in> set handed"] by (simp add: mset_filter)
  then show ?thesis using process_consistent [OF c k(1)] k(2) by (simp add: ar(1))
next
  case (Fire w)
  show ?thesis
  proof (cases "w \<in> set (armedWaits s)")
    case True
    obtain d st where st: "wait_state w s = Some (d, st)" using armed_known [OF c True] by auto
    obtain s1 where s1: "expireWait w s = (True, s1)" "consistent s1" "armedWaits s1 = filter (\<lambda>v. v \<noteq> w) (armedWaits s)"
      using expire_spec [OF c True st] by blast
    have "mset (armedWaits s) = add_mset w (mset (filter (\<lambda>v. v \<noteq> w) (armedWaits s)))"
      using without_one [OF _ True] c by (simp only: consistent_def distinct_map)
    then show ?thesis using s1 o' by (auto simp: wait_op_def Fire)
  next
    case False
    then show ?thesis using o' c Fire by (simp add: wait_op_def expireWait_def)
  qed
next
  case (EndContext x)
  have "consistent (end_context x s)" by (rule same_armed_consistent [OF c]) simp_all
  then show ?thesis using o' by (auto simp: wait_op_def EndContext)
next
  case (Claim x)
  then have k: "claimWaits x s = (handed, s')" "armed = []" using o' by (simp_all add: wait_op_def split: prod.splits)
  show ?thesis
    using claim_spec [OF c k(1)] k(2) multiset_partition [of "mset (armedWaits s)" "\<lambda>w. we_execution w = x"]
    by (simp add: mset_filter)
next
  case StopWaits
  have "consistent (s\<lparr>waits_stopped := True\<rparr>)"
    by (rule same_armed_consistent [OF c]) (simp_all add: wait_state_def)
  then show ?thesis using o' by (auto simp: wait_op_def StopWaits)
next
  case (Evict x)
  have "we_execution w \<noteq> x" if "w \<in> set (armedWaits s)" for w using p that by (auto simp: possible_def Evict)
  then have "consistent (s\<lparr>wait_runs := (wait_runs s)(x := None)\<rparr>)"
    by (intro same_armed_consistent [OF c]) (simp_all add: evict_state)
  then show ?thesis using o' by (auto simp: wait_op_def Evict)
qed
lemma wait_ops_sound:
  "consistent s \<Longrightarrow> all_possible L as s \<Longrightarrow> wait_ops L as s = (armed, handed, s') \<Longrightarrow>
   consistent s' \<and> mset handed + mset (armedWaits s') = mset armed + mset (armedWaits s)"
proof (induction as arbitrary: s armed handed)
  case (Cons a as)
  obtain x y s1 where one: "wait_op L a s = (x, y, s1)" by (cases "wait_op L a s") auto
  obtain x' y' where rest: "wait_ops L as s1 = (x', y', s')" "armed = x @ x'" "handed = y @ y'"
    using Cons.prems(3) one by (auto split: prod.splits)
  note s1 = wait_op_sound [OF Cons.prems(1) _ one]
  have "consistent s' \<and> mset y' + mset (armedWaits s') = mset x' + mset (armedWaits s1)"
    using Cons.IH [of s1 x' y'] s1 Cons.prems(2) one rest(1) by simp
  then show ?case using s1 Cons.prems(2) by (simp add: rest(2,3) ac_simps) (metis union_assoc union_commute)
qed simp

lemma wait_ops_append:
  "wait_ops L (as @ bs) s =
     (case wait_ops L as s of (x, y, s1) \<Rightarrow> case wait_ops L bs s1 of (x', y', s') \<Rightarrow> (x @ x', y @ y', s'))"
  by (induction as arbitrary: s) (auto split: prod.splits)

lemma all_possible_append:
  "all_possible L (as @ bs) s \<longleftrightarrow> all_possible L as s \<and> all_possible L bs (snd (snd (wait_ops L as s)))"
  by (induction as arbitrary: s) (auto split: prod.splits)

text \<open>A run whose context has ended, or that the table does not hold, arms no wait until it is begun anew.\<close>

definition dead :: "string \<Rightarrow> wait_table \<Rightarrow> bool" where
  "dead x s \<longleftrightarrow> run_ctxDone x s \<or> wait_runs s x = None"

definition paused_waits :: "string \<Rightarrow> wait_table \<Rightarrow> WaitingExecution set" where
  "paused_waits x s = {w \<in> set (armedWaits s). we_execution w = x}"

lemma start_wait_dead:
  assumes "dead x s" and "start_wait w st s = (refused, s')"
  shows "dead x s' \<and> paused_waits x s' \<subseteq> paused_waits x s"
proof (cases "we_execution w = x")
  case True
  have "s' = s \<or> s' = set_wait w st s"
    using assms by (auto simp: start_wait_def armWaitLocked_def dead_def True run_ctxDone_def Let_def
        set_wait_def split: option.splits if_splits)
  then show ?thesis using assms(1) set_wait_frame(6) [of w st s x] by (auto simp: dead_def paused_waits_def simp del: set_wait_frame(6))
next
  case False
  have "paused_waits x s' \<subseteq> paused_waits x s" "run_ctxDone x s' = run_ctxDone x s" "wait_runs s' x = None \<longleftrightarrow> wait_runs s x = None"
    using assms False by (auto simp: start_wait_def armWaitLocked_def paused_waits_def run_ctxDone_def Let_def
        set_wait_def split: option.splits if_splits)
  then show ?thesis using assms(1) by (simp add: dead_def)
qed
lemma wait_op_dead:
  assumes c: "consistent s" and p: "possible a s" and d: "dead x s" and b: "\<forall>dry. a \<noteq> Begin x dry"
    and o': "wait_op L a s = (armed, handed, s')"
  shows "dead x s' \<and> paused_waits x s' \<subseteq> paused_waits x s"
proof (cases a)
  case (Begin y dry)
  have "wait_runs (begin_waits y dry s) x = wait_runs s x" using b Begin by (auto simp: begin_waits_def)
  then show ?thesis using d o' by (auto simp: wait_op_def Begin dead_def run_ctxDone_def paused_waits_def)
next
  case (Arm w st)
  then show ?thesis using start_wait_dead [OF d] o' by (auto simp: wait_op_def split: prod.splits)
next
  case (Show now e)
  then have k: "processWaitingExecutions L now e s = (handed, s')" using o' by (simp add: wait_op_def split: prod.splits)
  have "run_ctxDone x s' = run_ctxDone x s \<and> (wait_runs s' x = None \<longleftrightarrow> wait_runs s x = None)"
    using process_spec(3) [OF c k] by (simp add: loop_leaves_def run_ctxDone_def)
  then show ?thesis using d process_armed(1) [OF c k] by (auto simp: dead_def paused_waits_def)
next
  case (Fire w)
  show ?thesis
  proof (cases "w \<in> set (armedWaits s)")
    case True
    obtain d' st where st: "wait_state w s = Some (d', st)" using armed_known [OF c True] by auto
    from expire_spec [OF c True st] o' d show ?thesis by (auto simp: wait_op_def Fire dead_def paused_waits_def)
  next
    case False
    then show ?thesis using o' d Fire by (simp add: wait_op_def expireWait_def)
  qed
next
  case (EndContext y)
  have "dead x (end_context y s)"
    using d by (auto simp: end_context_def dead_def run_ctxDone_def split: option.splits)
  then show ?thesis using o' by (auto simp: wait_op_def EndContext paused_waits_def)
next
  case (Claim y)
  then have k: "claimWaits y s = (handed, s')" using o' by (simp add: wait_op_def split: prod.splits)
  show ?thesis using claim_spec [OF c k] d by (auto simp: dead_def paused_waits_def)
next
  case StopWaits
  then show ?thesis using o' d by (auto simp: wait_op_def dead_def run_ctxDone_def paused_waits_def)
next
  case (Evict y)
  then show ?thesis
    using o' d by (cases "x = y") (auto simp: wait_op_def dead_def run_ctxDone_def paused_waits_def)
qed

lemma wait_ops_dead:
  "consistent s \<Longrightarrow> all_possible L as s \<Longrightarrow> dead x s \<Longrightarrow> \<forall>dry. Begin x dry \<notin> set as \<Longrightarrow>
   dead x (snd (snd (wait_ops L as s))) \<and> paused_waits x (snd (snd (wait_ops L as s))) \<subseteq> paused_waits x s"
proof (induction as arbitrary: s)
  case (Cons a as)
  obtain y z s1 where one: "wait_op L a s = (y, z, s1)" by (cases "wait_op L a s") auto
  have p: "possible a s" using Cons.prems(2) by simp
  have "dead x s1 \<and> paused_waits x s1 \<subseteq> paused_waits x s"
    using Cons.prems(4) by (intro wait_op_dead [OF Cons.prems(1) p Cons.prems(3) _ one]) auto
  moreover have "consistent s1" using wait_op_sound [OF Cons.prems(1) p one] by simp
  ultimately show ?case using Cons.IH [of s1] Cons.prems one by (auto split: prod.splits)
qed simp

subsection \<open>Properties\<close>

text \<open>
  C28. Whatever way the goroutines of the engine interleave, every wait that was armed is handed
  over exactly once, to the event that satisfies it, to its timer or to whoever abandons its run,
  or else is still armed; and a wait still armed is listed under its event, unless it is a
  delay, and has a timer running if it has a deadline.
\<close>

theorem every_wait_has_one_taker:
  assumes "all_possible L as no_waits" and "wait_ops L as no_waits = (armed, handed, s)"
  shows "mset armed = mset handed + mset (armedWaits s)
    \<and> (\<forall>w \<in> set (armedWaits s). (\<not> IsDelay (we_config w) \<longrightarrow> w \<in> set (waitingExecutions s (event_of w))) \<and> armed_timer s w)"
  using wait_ops_sound [OF no_waits_consistent assms] by (simp add: consistent_def no_waits_def)

text \<open>
  A run that is cancelled, or given up on by a stop, is never left paused: once its context
  has ended and then its waits were claimed, it has no wait armed, whatever happened before,
  between and after, so that nothing is left waiting to resume it.
\<close>

theorem abandoned_run_has_no_wait:
  assumes "all_possible L (as @ EndContext x # bs @ Claim x # cs) no_waits"
    and "\<forall>dry. Begin x dry \<notin> set (bs @ cs)"
    and "wait_ops L (as @ EndContext x # bs @ Claim x # cs) no_waits = (armed, handed, s)"
  shows "x \<notin> we_execution ` set (armedWaits s)"
proof -
  define t where "t as s = snd (snd (wait_ops L as s))" for as s
  have t: "t (as @ bs) s = t bs (t as s)" "t (a # as) s = t as (snd (snd (wait_op L a s)))" for a as bs s
    by (auto simp: t_def wait_ops_append split: prod.splits)
  note pos = assms(1) [unfolded all_possible_append all_possible.simps, folded t_def]
  have sound: "consistent (t as s)" if "consistent s" "all_possible L as s" for as s
    using that wait_ops_sound [OF that] unfolding t_def by (metis prod.collapse)
  have s0: "consistent (t as no_waits)" using sound no_waits_consistent pos by blast
  define s1 where "s1 = end_context x (t as no_waits)"
  have op1: "wait_op L (EndContext x) (t as no_waits) = ([], [], s1)" by (simp add: wait_op_def s1_def)
  have "consistent s1" using wait_op_sound [OF s0 _ op1] by (simp add: possible_def)
  moreover have d1: "dead x s1"
    by (auto simp: s1_def end_context_def dead_def run_ctxDone_def split: option.splits)
  moreover have p1: "all_possible L bs s1" using pos op1 by simp
  ultimately have s2: "consistent (t bs s1)" "dead x (t bs s1)"
    using sound wait_ops_dead [of s1 L bs x] assms(2) by (auto simp: t_def)
  obtain ws s3 where cl: "claimWaits x (t bs s1) = (ws, s3)" by fastforce
  have op3: "wait_op L (Claim x) (t bs s1) = ([], ws, s3)" by (simp add: wait_op_def cl)
  have s3: "consistent s3" "paused_waits x s3 = {}" "dead x s3"
    using claim_spec [OF s2(1) cl] s2(2) by (auto simp: paused_waits_def dead_def)
  have p3: "all_possible L cs s3" using pos op1 op3 by simp
  have "paused_waits x (t cs s3) \<subseteq> paused_waits x s3"
    using wait_ops_dead [OF s3(1) p3 s3(3)] assms(2) by (simp add: t_def)
  moreover have "s = t (as @ EndContext x # bs @ Claim x # cs) no_waits" using assms(3) by (simp add: t_def)
  moreover have "t (as @ EndContext x # bs @ Claim x # cs) no_waits = t cs s3" using op1 op3 by (simp add: t)
  ultimately show ?thesis using s3(2) by (auto simp: paused_waits_def)
qed

text \<open>
  C29. An event resumes exactly the waits listening for it that it satisfies, a real run's never
  on a dry run's event; every other wait stays armed, and each wait the event was shown to
  has counted it.
\<close>

theorem event_resumes_what_it_satisfies:
  assumes "all_possible L as no_waits" and "wait_ops L as no_waits = (armed, handed, s)"
    and "processWaitingExecutions L now event s = (resumed, s')"
  shows "distinct resumed
    \<and> set resumed = {w \<in> set (armedWaits s). listens event w \<and> satisfies L now event s w}
    \<and> set (armedWaits s') = set (armedWaits s) - set resumed
    \<and> (\<forall>w \<in> set (armedWaits s).
        wait_state w s' = (if listens event w then state_after L now event s w else wait_state w s))"
proof -
  have c: "consistent s" using wait_ops_sound [OF no_waits_consistent assms(1,2)] by simp
  show ?thesis
    using process_armed [OF c assms(3)] process_spec(1) [OF c assms(3)] c by (auto simp: consistent_def)
qed
subsection \<open>Runs that wait\<close>

definition follow_wait :: WaitConfig where
  "follow_wait = \<lparr>wc_type = WaitTypeEvent, wc_event = ''follow'', wc_conditions = [], wc_aggregation = None,
     wc_timeout = Some 60000000000, wc_onTimeout = OnTimeoutContinue, wc_durationMs = 0\<rparr>"

definition follow_state :: WaitState where
  "follow_state = the (InitWaitState (wait_task follow_wait) (\<lambda>_. 1))"

definition waiting_run :: "string \<Rightarrow> nat \<Rightarrow> WaitingExecution" where
  "waiting_run x n = \<lparr>we_ref = n, we_execution = x, we_workflow = ''w'', we_task = ''t'', we_config = Some follow_wait, we_index = 0\<rparr>"

definition two_runs :: "wait_op list" where
  "two_runs = [Begin ''r'' False, Begin ''s'' True, Arm (waiting_run ''r'' 1) follow_state, Arm (waiting_run ''s'' 2) follow_state]"

definition follow_shown :: wait_op where "follow_shown = Show (\<lambda>_. 5) (sample_event ''follow'' [])"

lemma two_runs_possible:
  "all_possible ascii_lib (two_runs @ [Fire (waiting_run ''s'' 2), follow_shown, Fire (waiting_run ''r'' 1)]) no_waits"
  by code_simp

theorem every_wait_has_one_taker_witness:
  "\<exists>s. wait_ops ascii_lib (two_runs @ [Fire (waiting_run ''s'' 2), follow_shown, Fire (waiting_run ''r'' 1)]) no_waits
      = ([waiting_run ''r'' 1, waiting_run ''s'' 2], [waiting_run ''s'' 2, waiting_run ''r'' 1], s)
    \<and> armedWaits s = []"
proof -
  let ?as = "two_runs @ [Fire (waiting_run ''s'' 2), follow_shown, Fire (waiting_run ''r'' 1)]"
  obtain armed handed s where o': "wait_ops ascii_lib ?as no_waits = (armed, handed, s)" by (metis prod.exhaust)
  have "fst (wait_ops ascii_lib ?as no_waits) = [waiting_run ''r'' 1, waiting_run ''s'' 2]"
    "fst (snd (wait_ops ascii_lib ?as no_waits)) = [waiting_run ''s'' 2, waiting_run ''r'' 1]" by code_simp+
  then show ?thesis using every_wait_has_one_taker [OF two_runs_possible o'] o' by simp
qed

theorem abandoned_run_has_no_wait_witness:
  "\<exists>s. snd (snd (wait_ops ascii_lib (two_runs @ EndContext ''r'' # [Arm (waiting_run ''r'' 3) follow_state]
      @ Claim ''r'' # [Arm (waiting_run ''r'' 4) follow_state]) no_waits)) = s
    \<and> ''r'' \<notin> we_execution ` set (armedWaits s) \<and> ''s'' \<in> we_execution ` set (armedWaits s)"
proof -
  let ?as = "two_runs @ EndContext ''r'' # [Arm (waiting_run ''r'' 3) follow_state]
      @ Claim ''r'' # [Arm (waiting_run ''r'' 4) follow_state]"
  obtain armed handed s where o': "wait_ops ascii_lib ?as no_waits = (armed, handed, s)" by (metis prod.exhaust)
  have p: "all_possible ascii_lib ?as no_waits" by code_simp
  have "\<forall>dry. Begin ''r'' dry \<notin> set ([Arm (waiting_run ''r'' 3) follow_state] @ [Arm (waiting_run ''r'' 4) follow_state])" by simp
  from abandoned_run_has_no_wait [OF p this o'] have "''r'' \<notin> we_execution ` set (armedWaits s)" .
  moreover have "''s'' \<in> we_execution ` set (armedWaits (snd (snd (wait_ops ascii_lib ?as no_waits))))" by code_simp
  ultimately show ?thesis using o' by simp
qed

theorem event_resumes_what_it_satisfies_witness:
  "\<exists>s resumed s'. wait_ops ascii_lib two_runs no_waits = ([waiting_run ''r'' 1, waiting_run ''s'' 2], [], s)
    \<and> processWaitingExecutions ascii_lib (\<lambda>_. 5) ((sample_event ''follow'' [])\<lparr>ev_dryRun := True\<rparr>) s = (resumed, s')
    \<and> set resumed = {waiting_run ''s'' 2} \<and> set (armedWaits s') = {waiting_run ''r'' 1}"
proof -
  let ?e = "(sample_event ''follow'' [])\<lparr>ev_dryRun := True\<rparr>"
  obtain armed handed s where o': "wait_ops ascii_lib two_runs no_waits = (armed, handed, s)" by (metis prod.exhaust)
  obtain resumed s' where r: "processWaitingExecutions ascii_lib (\<lambda>_. 5) ?e s = (resumed, s')" by fastforce
  have p: "all_possible ascii_lib two_runs no_waits" by code_simp
  have "fst (wait_ops ascii_lib two_runs no_waits) = [waiting_run ''r'' 1, waiting_run ''s'' 2]"
    "fst (snd (wait_ops ascii_lib two_runs no_waits)) = []"
    "armedWaits (snd (snd (wait_ops ascii_lib two_runs no_waits))) = [waiting_run ''s'' 2, waiting_run ''r'' 1]"
    "fst (processWaitingExecutions ascii_lib (\<lambda>_. 5) ?e (snd (snd (wait_ops ascii_lib two_runs no_waits)))) = [waiting_run ''s'' 2]"
    by code_simp+
  then show ?thesis
    using event_resumes_what_it_satisfies [OF p o' r] o' r by (auto simp: waiting_run_def)
qed

end
