(* ===== verification/Database_Cells.thy ===== *)
theory Database_Cells
  imports Functions
begin

text \<open>
  The columns of a database and the cells written to them: \<open>db/app/services/database_columns.go\<close> and
  \<open>database_values.go\<close>. Texts are byte strings, as in Go.
\<close>

subsection \<open>Text\<close>

text \<open>\<open>utf8.DecodeRuneInString\<close>: the number of bytes of the first rune, or nothing where it is not valid.\<close>

definition byte :: "char \<Rightarrow> int" where "byte c = of_char c"

definition tail_byte :: "char \<Rightarrow> bool" where "tail_byte c \<longleftrightarrow> 128 \<le> byte c \<and> byte c \<le> 191"

definition rune_bytes :: "string \<Rightarrow> nat option" where
  "rune_bytes s =
     (case s of
        [] \<Rightarrow> None
      | a # r \<Rightarrow>
          if byte a < 128 then Some 1
          else if byte a < 194 then None
          else if byte a < 224 then
            (case r of b # _ \<Rightarrow> if tail_byte b then Some 2 else None | _ \<Rightarrow> None)
          else if byte a < 240 then
            (case r of b # c # _ \<Rightarrow>
               if tail_byte b \<and> tail_byte c \<and> (byte a = 224 \<longrightarrow> 160 \<le> byte b) \<and> (byte a = 237 \<longrightarrow> byte b \<le> 159)
               then Some 3 else None | _ \<Rightarrow> None)
          else if byte a < 245 then
            (case r of b # c # d # _ \<Rightarrow>
               if tail_byte b \<and> tail_byte c \<and> tail_byte d \<and> (byte a = 240 \<longrightarrow> 144 \<le> byte b) \<and> (byte a = 244 \<longrightarrow> byte b \<le> 143)
               then Some 4 else None | _ \<Rightarrow> None)
          else None)"

text \<open>\<open>utf8.RuneCountInString\<close>: an invalid byte counts as one. The length is fuel enough, since each rune takes a byte.\<close>

fun rune_count :: "nat \<Rightarrow> string \<Rightarrow> nat" where
  "rune_count 0 s = 0"
| "rune_count (Suc n) s =
     (if s = [] then 0 else Suc (rune_count n (drop (case rune_bytes s of None \<Rightarrow> 1 | Some k \<Rightarrow> k) s)))"

definition RuneCountInString :: "string \<Rightarrow> nat" where
  "RuneCountInString s = rune_count (length s) s"

fun valid_runes :: "nat \<Rightarrow> string \<Rightarrow> bool" where
  "valid_runes 0 s \<longleftrightarrow> True"
| "valid_runes (Suc n) s \<longleftrightarrow>
     s = [] \<or> (case rune_bytes s of None \<Rightarrow> False | Some k \<Rightarrow> valid_runes n (drop k s))"

definition ValidString :: "string \<Rightarrow> bool" where
  "ValidString s \<longleftrightarrow> valid_runes (length s) s"

definition has_nul :: "string \<Rightarrow> bool" where
  "has_nul s \<longleftrightarrow> char_of (0::int) \<in> set s"

subsection \<open>Dates\<close>

definition leap_year :: "int \<Rightarrow> bool" where
  "leap_year y \<longleftrightarrow> y mod 4 = 0 \<and> (y mod 100 \<noteq> 0 \<or> y mod 400 = 0)"

definition days_in :: "int \<Rightarrow> int \<Rightarrow> int" where
  "days_in y m = (if m = 2 then (if leap_year y then 29 else 28) else if m \<in> {4, 6, 9, 11} then 30 else 31)"

definition valid_date :: "int \<times> int \<times> int \<Rightarrow> bool" where
  "valid_date ymd \<longleftrightarrow> (case ymd of (y, m, d) \<Rightarrow> 1 \<le> m \<and> m \<le> 12 \<and> 1 \<le> d \<and> d \<le> days_in y m)"

text \<open>\<open>time.Parse\<close> and \<open>Format\<close> with the layout \<open>2006-01-02\<close>: four digits, two and two; a longer year is printed in full.\<close>

definition parse_date :: "string \<Rightarrow> (int \<times> int \<times> int) option" where
  "parse_date s =
     (if length s = 10 \<and> s ! 4 = CHR ''-'' \<and> s ! 7 = CHR ''-'' \<and> list_all is_digit (take 4 s)
         \<and> list_all is_digit (take 2 (drop 5 s)) \<and> list_all is_digit (drop 8 s)
      then (let ymd = (digits_val (take 4 s), digits_val (take 2 (drop 5 s)), digits_val (drop 8 s))
            in if valid_date ymd then Some ymd else None)
      else None)"

definition two_digits :: "int \<Rightarrow> string" where
  "two_digits n = [digit_char (n div 10), digit_char (n mod 10)]"

definition year_text :: "int \<Rightarrow> string" where
  "year_text y =
     (if 0 \<le> y \<and> y < 10000 then two_digits (y div 100) @ two_digits (y mod 100)
      else if - 10000 < y \<and> y < 0 then ''-'' @ two_digits ((- y) div 100) @ two_digits ((- y) mod 100)
      else itoa y)"

definition format_date :: "int \<times> int \<times> int \<Rightarrow> string" where
  "format_date ymd = (case ymd of (y, m, d) \<Rightarrow> year_text y @ ''-'' @ two_digits m @ ''-'' @ two_digits d)"

subsection \<open>Columns\<close>

record DatabaseColumnOption =
  option_value :: string
  option_label :: string

record DatabaseColumn =
  col_id :: string
  col_label :: string
  col_type :: string
  col_public :: bool
  col_options :: "DatabaseColumnOption list"

record DatabaseLimits =
  MaxColumns :: nat
  MaxRecords :: nat
  MaxPageSize :: nat

definition DefaultDatabaseLimits :: DatabaseLimits where
  "DefaultDatabaseLimits = \<lparr>MaxColumns = 32, MaxRecords = 10000, MaxPageSize = 100\<rparr>"

definition maxDatabaseColumnLabel :: nat where "maxDatabaseColumnLabel = 100"
definition maxDatabaseSelectOptions :: nat where "maxDatabaseSelectOptions = 50"
definition maxDatabaseTextLength :: nat where "maxDatabaseTextLength = 5000"
definition maxDatabaseURLLength :: nat where "maxDatabaseURLLength = 2048"

lemmas database_limits = maxDatabaseColumnLabel_def maxDatabaseSelectOptions_def maxDatabaseTextLength_def maxDatabaseURLLength_def

definition databaseColumnTypes :: "string list" where
  "databaseColumnTypes = [''text'', ''number'', ''boolean'', ''date'', ''url'', ''select'']"

definition id_char :: "char \<Rightarrow> bool" where
  "id_char c \<longleftrightarrow> (CHR ''A'' \<le> c \<and> c \<le> CHR ''Z'') \<or> (CHR ''a'' \<le> c \<and> c \<le> CHR ''z'') \<or> is_digit c \<or> c = CHR ''_'' \<or> c = CHR ''-''"

definition databaseColumnIDPattern :: "string \<Rightarrow> bool" where
  "databaseColumnIDPattern s \<longleftrightarrow> 1 \<le> length s \<and> length s \<le> 64 \<and> list_all id_char s"

datatype label_error = LabelNUL | LabelLength

datatype column_error =
    BadColumnID
  | BadColumnLabel label_error
  | BadColumnType
  | OptionsOffSelect
  | BadOptionCount
  | BadOptionValue
  | OptionRepeats string
  | BadOptionLabel label_error

definition checkDatabaseLabel :: "string \<Rightarrow> label_error option" where
  "checkDatabaseLabel s =
     (if has_nul s then Some LabelNUL
      else if RuneCountInString s = 0 \<or> maxDatabaseColumnLabel < RuneCountInString s then Some LabelLength
      else None)"

fun check_options :: "DatabaseColumnOption list \<Rightarrow> string list \<Rightarrow> column_error option" where
  "check_options [] seen = None"
| "check_options (x # xs) seen =
     (if \<not> databaseColumnIDPattern (option_value x) then Some BadOptionValue
      else if option_value x \<in> set seen then Some (OptionRepeats (option_value x))
      else (case checkDatabaseLabel (option_label x) of
              Some e \<Rightarrow> Some (BadOptionLabel e)
            | None \<Rightarrow> check_options xs (option_value x # seen)))"

definition checkDatabaseColumn :: "DatabaseColumn \<Rightarrow> column_error option" where
  "checkDatabaseColumn c =
     (if \<not> databaseColumnIDPattern (col_id c) \<or> all_digits (col_id c) then Some BadColumnID
      else (case checkDatabaseLabel (col_label c) of
              Some e \<Rightarrow> Some (BadColumnLabel e)
            | None \<Rightarrow>
                if col_type c \<notin> set databaseColumnTypes then Some BadColumnType
                else if col_type c \<noteq> ''select'' then (if col_options c \<noteq> [] then Some OptionsOffSelect else None)
                else if col_options c = [] \<or> maxDatabaseSelectOptions < length (col_options c) then Some BadOptionCount
                else check_options (col_options c) []))"

datatype settings_error =
    SettingsNotObject
  | ColumnsNotList
  | TooManyColumns nat
  | BadColumn nat column_error
  | ColumnRepeats nat string

fun check_columns :: "nat \<Rightarrow> DatabaseColumn list \<Rightarrow> string list \<Rightarrow> settings_error option" where
  "check_columns i [] seen = None"
| "check_columns i (c # cs) seen =
     (case checkDatabaseColumn c of
        Some e \<Rightarrow> Some (BadColumn (i + 1) e)
      | None \<Rightarrow> if col_id c \<in> set seen then Some (ColumnRepeats (i + 1) (col_id c))
                else check_columns (i + 1) cs (col_id c # seen))"

text \<open>\<open>decoded\<close> is what the JSON decoder makes of the settings: no object, no list of columns, or the columns, none if the setting is absent.\<close>

definition parseDatabaseColumns ::
  "(settings_error, DatabaseColumn list) res \<Rightarrow> DatabaseLimits \<Rightarrow> (settings_error, DatabaseColumn list) res" where
  "parseDatabaseColumns decoded limits =
     (case decoded of
        Inl e \<Rightarrow> Inl e
      | Inr columns \<Rightarrow>
          if MaxColumns limits < length columns then Inl (TooManyColumns (MaxColumns limits))
          else (case check_columns 0 columns [] of Some e \<Rightarrow> Inl e | None \<Rightarrow> Inr columns))"
subsection \<open>Cells\<close>

text \<open>
  What of the standard library is not written out here: \<open>strconv.ParseFloat\<close> on a text that is not
  a plain decimal (a hexadecimal number, an infinity or \<open>nan\<close>), the date in UTC that \<open>time.Parse\<close>
  makes of an RFC 3339 text, and the scheme and host \<open>url.Parse\<close> finds.
\<close>

record textlib =
  case_lib :: golib
  parse_other_float :: "string \<Rightarrow> f64 option"
  rfc3339_utc_date :: "string \<Rightarrow> (int \<times> int \<times> int) option"
  url_parse :: "string \<Rightarrow> (string \<times> string) option"

datatype databaseValueMode = databaseValuesTyped | databaseValuesText

datatype cell_problem =
    MustBeText
  | MustBeNumber
  | MustBeBoolean
  | HasNULOrInvalid
  | TextTooLong
  | MustBeDate
  | MustBeLink
  | MustBeOption
  | MustNotBeText

datatype cell_error = NoSuchColumn string | InvalidCell string cell_problem

definition invalidCell :: "DatabaseColumn \<Rightarrow> cell_problem \<Rightarrow> (cell_error, 'a) res" where
  "invalidCell column p = Inl (InvalidCell (col_label column) p)"

definition hasOption :: "DatabaseColumn \<Rightarrow> string \<Rightarrow> bool" where
  "hasOption column v \<longleftrightarrow> v \<in> option_value ` set (col_options column)"

definition isWebURL :: "textlib \<Rightarrow> string \<Rightarrow> bool" where
  "isWebURL T s \<longleftrightarrow>
     (if maxDatabaseURLLength < length s then False
      else (case url_parse T s of
              None \<Rightarrow> False
            | Some (scheme, host) \<Rightarrow> scheme \<in> {''http'', ''https''} \<and> host \<noteq> ''''))"

definition checkTextCell :: "textlib \<Rightarrow> DatabaseColumn \<Rightarrow> string \<Rightarrow> (cell_error, val) res" where
  "checkTextCell T column s =
     (if has_nul s \<or> \<not> ValidString s then invalidCell column HasNULOrInvalid
      else if col_type column = ''text'' then
        (if maxDatabaseTextLength < RuneCountInString s then invalidCell column TextTooLong else Inr (VStr s))
      else if col_type column = ''date'' then
        (if parse_date s = None then invalidCell column MustBeDate else Inr (VStr s))
      else if col_type column = ''url'' then
        (if \<not> isWebURL T s then invalidCell column MustBeLink else Inr (VStr s))
      else if col_type column = ''select'' then
        (if \<not> hasOption column s then invalidCell column MustBeOption else Inr (VStr s))
      else invalidCell column MustNotBeText)"

definition coerceTypedCell :: "textlib \<Rightarrow> DatabaseColumn \<Rightarrow> val \<Rightarrow> (cell_error, val) res" where
  "coerceTypedCell T column v =
     (if v = VNil then Inr VNil
      else if col_type column = ''number'' then
        (case v of VFloat x \<Rightarrow> Inr (VFloat x) | _ \<Rightarrow> invalidCell column MustBeNumber)
      else if col_type column = ''boolean'' then
        (case v of VBool b \<Rightarrow> Inr (VBool b) | _ \<Rightarrow> invalidCell column MustBeBoolean)
      else (case v of VStr s \<Rightarrow> checkTextCell T column s | _ \<Rightarrow> invalidCell column MustBeText))"

definition parse_number :: "textlib \<Rightarrow> string \<Rightarrow> f64 option" where
  "parse_number T s = (if decimalNumber s then parse_float s else parse_other_float T s)"

definition coerceTextCell :: "textlib \<Rightarrow> DatabaseColumn \<Rightarrow> string \<Rightarrow> (cell_error, val) res" where
  "coerceTextCell T column s =
     (if s = '''' then Inr VNil
      else if col_type column = ''number'' then
        (case parse_number T (trim_space s) of
           None \<Rightarrow> invalidCell column MustBeNumber
         | Some x \<Rightarrow> if is_inf x \<or> is_nan x then invalidCell column MustBeNumber else Inr (VFloat x))
      else if col_type column = ''boolean'' then
        (let t = to_lower (case_lib T) (trim_space s)
         in if t = ''true'' then Inr (VBool True)
            else if t = ''false'' then Inr (VBool False)
            else invalidCell column MustBeBoolean)
      else if col_type column = ''date'' then
        (case rfc3339_utc_date T (trim_space s) of
           Some ymd \<Rightarrow> Inr (VStr (format_date ymd))
         | None \<Rightarrow> checkTextCell T column (trim_space s))
      else if col_type column \<in> {''url'', ''select''} then checkTextCell T column (trim_space s)
      else checkTextCell T column s)"

text \<open>A later column of the same id would replace an earlier one.\<close>

definition column_by_id :: "DatabaseColumn list \<Rightarrow> string \<Rightarrow> DatabaseColumn option" where
  "column_by_id columns i = find (\<lambda>c. col_id c = i) (rev columns)"

definition coerce_value ::
  "textlib \<Rightarrow> DatabaseColumn list \<Rightarrow> databaseValueMode \<Rightarrow> string \<times> val \<Rightarrow> (cell_error, string \<times> val) res" where
  "coerce_value T columns mode iv =
     (case column_by_id columns (fst iv) of
        None \<Rightarrow> Inl (NoSuchColumn (fst iv))
      | Some column \<Rightarrow>
          bind_res
            (case mode of
               databaseValuesText \<Rightarrow>
                 (case snd iv of VStr s \<Rightarrow> coerceTextCell T column s | _ \<Rightarrow> invalidCell column MustBeText)
             | databaseValuesTyped \<Rightarrow> coerceTypedCell T column (snd iv))
            (\<lambda>cell. Inr (fst iv, cell)))"

definition coerceValues ::
  "textlib \<Rightarrow> DatabaseColumn list \<Rightarrow> obj \<Rightarrow> databaseValueMode \<Rightarrow> (cell_error, obj) res" where
  "coerceValues T columns raw mode = traverse (coerce_value T columns mode) raw"

definition publicValues :: "DatabaseColumn list \<Rightarrow> obj \<Rightarrow> obj" where
  "publicValues columns values =
     concat (map (\<lambda>c. if \<not> col_public c then [] else (case map_of values (col_id c) of None \<Rightarrow> [] | Some v \<Rightarrow> [(col_id c, v)])) columns)"
subsection \<open>Dates read back\<close>

lemma digit_char_digit_val: "is_digit c \<Longrightarrow> digit_char (digit_val c) = c"
  by (simp add: digit_char_def digit_val_def)

lemma digits_val_two: "digits_val [a, b] = 10 * digit_val a + digit_val b"
  by (simp add: digits_val_def)

lemma digits_val_four: "digits_val [a, b, c, d] = 100 * digits_val [a, b] + digits_val [c, d]"
  by (simp add: digits_val_def)

lemma two_digits_val:
  assumes "is_digit a" and "is_digit b"
  shows "two_digits (digits_val [a, b]) = [a, b]" and "0 \<le> digits_val [a, b]" and "digits_val [a, b] < 100"
proof -
  have "0 \<le> digit_val a" "digit_val a < 10" "0 \<le> digit_val b" "digit_val b < 10"
    using digit_val_nonneg assms by auto
  then have "(10 * digit_val a + digit_val b) div 10 = digit_val a" "(10 * digit_val a + digit_val b) mod 10 = digit_val b"
    "0 \<le> 10 * digit_val a + digit_val b" "10 * digit_val a + digit_val b < 100" by presburger+
  then show "two_digits (digits_val [a, b]) = [a, b]" "0 \<le> digits_val [a, b]" "digits_val [a, b] < 100"
    using assms by (simp_all add: two_digits_def digits_val_two digit_char_digit_val)
qed

lemma two_digits_read:
  assumes "0 \<le> n" and "n < 100"
  shows "digits_val (two_digits n) = n" and "list_all is_digit (two_digits n)"
proof -
  have "0 \<le> n div 10" "n div 10 < 10" "0 \<le> n mod 10" "n mod 10 < 10" using assms by presburger+
  then show "digits_val (two_digits n) = n" "list_all is_digit (two_digits n)"
    by (simp_all add: two_digits_def digits_val_two)
qed

lemma two_digits_length [simp]: "length (two_digits n) = 2"
  by (simp add: two_digits_def)

lemma date_text_cases:
  assumes "length s = 10"
  obtains a b c d e f g h i j where "s = [a, b, c, d, e, f, g, h, i, j]"
  using assms that by (auto simp: length_Suc_conv numeral_eq_Suc)

lemma parse_date_ten:
  "parse_date [a, b, c, d, e, f, g, h, i, j] =
     (if e = CHR ''-'' \<and> h = CHR ''-'' \<and> is_digit a \<and> is_digit b \<and> is_digit c \<and> is_digit d
         \<and> is_digit f \<and> is_digit g \<and> is_digit i \<and> is_digit j
         \<and> valid_date (digits_val [a, b, c, d], digits_val [f, g], digits_val [i, j])
      then Some (digits_val [a, b, c, d], digits_val [f, g], digits_val [i, j]) else None)"
  by (simp add: parse_date_def Let_def)

lemma hundreds:
  assumes "0 \<le> (p::int)" "p < 100" "0 \<le> q" "q < 100"
  shows "(100 * p + q) div 100 = p" "(100 * p + q) mod 100 = q" "0 \<le> 100 * p + q" "100 * p + q < 10000"
  using assms by simp_all

lemma format_parse:
  assumes "parse_date s = Some ymd"
  shows "format_date ymd = s \<and> valid_date ymd \<and> 0 \<le> fst ymd \<and> fst ymd < 10000"
proof -
  have "length s = 10" using assms by (simp add: parse_date_def split: if_splits)
  then obtain a b c d e f g h i j where s: "s = [a, b, c, d, e, f, g, h, i, j]" by (rule date_text_cases)
  have "parse_date [a, b, c, d, e, f, g, h, i, j] \<noteq> None" using assms s by simp
  then have q: "e = CHR ''-'' \<and> h = CHR ''-'' \<and> is_digit a \<and> is_digit b \<and> is_digit c \<and> is_digit d
      \<and> is_digit f \<and> is_digit g \<and> is_digit i \<and> is_digit j
      \<and> valid_date (digits_val [a, b, c, d], digits_val [f, g], digits_val [i, j])"
    unfolding parse_date_ten by (rule contrapos_np) (rule if_not_P)
  then have "parse_date s = Some (digits_val [a, b, c, d], digits_val [f, g], digits_val [i, j])"
    unfolding s parse_date_ten by (rule if_P)
  then have m: "ymd = (digits_val [a, b, c, d], digits_val [f, g], digits_val [i, j])" using assms by (simp only: option.inject)
  have p: "e = CHR ''-''" "h = CHR ''-''" "is_digit a" "is_digit b" "is_digit c" "is_digit d" "is_digit f" "is_digit g"
    "is_digit i" "is_digit j" "valid_date ymd"
    using q m by (simp_all only:)
  have y: "digits_val [a, b, c, d] div 100 = digits_val [a, b]" "digits_val [a, b, c, d] mod 100 = digits_val [c, d]"
    "0 \<le> digits_val [a, b, c, d]" "digits_val [a, b, c, d] < 10000"
    using hundreds [OF two_digits_val(2,3) [OF p(3,4)] two_digits_val(2,3) [OF p(5,6)]] by (simp_all only: digits_val_four)
  have "format_date ymd = s"
    using y two_digits_val(1) [OF p(3,4)] two_digits_val(1) [OF p(5,6)] two_digits_val(1) [OF p(7,8)] two_digits_val(1) [OF p(9,10)]
    by (simp add: format_date_def year_text_def s m p(1,2))
  then show ?thesis using p(11) y(3,4) m by (simp only: fst_conv)
qed

lemma days_in_two_digits: "days_in y m < 100"
  by (simp add: days_in_def)

lemma parse_format:
  assumes "valid_date (y, m, d)" and "0 \<le> y" and "y < 10000"
  shows "parse_date (format_date (y, m, d)) = Some (y, m, d)"
proof -
  have md: "0 \<le> m" "m < 100" "0 \<le> d" "d < 100" using assms(1) days_in_two_digits [of y m] by (auto simp: valid_date_def)
  have y: "0 \<le> y div 100" "y div 100 < 100" "0 \<le> y mod 100" "y mod 100 < 100" "100 * (y div 100) + y mod 100 = y"
    using assms(2,3) by presburger+
  obtain a b where ab: "two_digits (y div 100) = [a, b]" by (simp add: two_digits_def)
  obtain c e where ce: "two_digits (y mod 100) = [c, e]" by (simp add: two_digits_def)
  obtain f g where fg: "two_digits m = [f, g]" by (simp add: two_digits_def)
  obtain i j where ij: "two_digits d = [i, j]" by (simp add: two_digits_def)
  have t: "format_date (y, m, d) = [a, b, c, e, CHR ''-'', f, g, CHR ''-'', i, j]"
    using assms(2,3) by (simp add: format_date_def year_text_def ab ce fg ij)
  have v: "digits_val [a, b, c, e] = y" "digits_val [f, g] = m" "digits_val [i, j] = d"
    using two_digits_read(1) [OF y(1,2)] two_digits_read(1) [OF y(3,4)] two_digits_read(1) [OF md(1,2)]
      two_digits_read(1) [OF md(3,4)] y(5) by (simp_all add: digits_val_four ab ce fg ij)
  have "list_all is_digit [a, b, c, e]" "list_all is_digit [f, g]" "list_all is_digit [i, j]"
    using two_digits_read(2) [OF y(1,2)] two_digits_read(2) [OF y(3,4)] two_digits_read(2) [OF md(1,2)]
      two_digits_read(2) [OF md(3,4)] by (simp_all add: ab ce fg ij)
  then show ?thesis using v assms(1) by (simp add: t parse_date_ten)
qed

text \<open>ASCII text is valid and holds no NUL unless it says so.\<close>

lemma ascii_valid: "list_all (\<lambda>c. byte c < 128) s \<Longrightarrow> valid_runes (length s) s"
  by (induction s) (simp_all add: rune_bytes_def)

lemma date_text_clean:
  assumes "parse_date s \<noteq> None"
  shows "ValidString s" and "\<not> has_nul s"
proof -
  obtain ymd where "parse_date s = Some ymd" using assms by blast
  then have "length s = 10" by (simp add: parse_date_def split: if_splits)
  then obtain a b c d e f g h i j where s: "s = [a, b, c, d, e, f, g, h, i, j]" by (rule date_text_cases)
  have p: "list_all (\<lambda>c. is_digit c \<or> c = CHR ''-'') s"
    using assms by (simp add: s parse_date_ten split: if_splits)
  have "byte c < 128 \<and> byte c \<noteq> 0" if "is_digit c \<or> c = CHR ''-''" for c
    using that by (auto simp: byte_def is_digit_iff_int)
  then have q: "list_all (\<lambda>c. byte c < 128 \<and> byte c \<noteq> 0) s" using p by (simp add: list_all_iff)
  then have "list_all (\<lambda>c. byte c < 128) s" by (simp add: list_all_iff)
  then show "ValidString s" unfolding ValidString_def by (rule ascii_valid)
  have "byte (char_of (0::int)) = 0" by (simp add: byte_def)
  then show "\<not> has_nul s" using q unfolding has_nul_def list_all_iff by metis
qed

subsection \<open>What is stored\<close>

definition cell_ok :: "textlib \<Rightarrow> DatabaseColumn \<Rightarrow> val \<Rightarrow> bool" where
  "cell_ok T column v \<longleftrightarrow>
     v = VNil
     \<or> col_type column = ''number'' \<and> (\<exists>x. v = VFloat x \<and> \<not> is_inf x \<and> \<not> is_nan x)
     \<or> col_type column = ''boolean'' \<and> (\<exists>b. v = VBool b)
     \<or> col_type column = ''date'' \<and> (\<exists>ymd. v = VStr (format_date ymd) \<and> valid_date ymd)
     \<or> (\<exists>s. v = VStr s \<and> ValidString s \<and> \<not> has_nul s
          \<and> (col_type column = ''text'' \<and> RuneCountInString s \<le> maxDatabaseTextLength
             \<or> col_type column = ''url'' \<and> isWebURL T s
             \<or> col_type column = ''select'' \<and> hasOption column s))"

text \<open>A JSON document holds no infinite number and no NaN.\<close>

definition finite_numbers :: "obj \<Rightarrow> bool" where
  "finite_numbers raw \<longleftrightarrow> (\<forall>(i, v) \<in> set raw. \<forall>x. v = VFloat x \<longrightarrow> \<not> is_inf x \<and> \<not> is_nan x)"

lemma check_columns_types: "check_columns n cs seen = None \<Longrightarrow> c \<in> set cs \<Longrightarrow> col_type c \<in> set databaseColumnTypes"
  by (induction cs arbitrary: n seen) (auto simp: checkDatabaseColumn_def split: option.splits if_splits)

lemma check_columns_distinct:
  "check_columns n cs seen = None \<Longrightarrow> distinct (map col_id cs) \<and> set (map col_id cs) \<inter> set seen = {}"
proof (induction cs arbitrary: n seen)
  case (Cons c cs)
  then show ?case
    using Cons.IH [of "n + 1" "col_id c # seen"] by (auto split: option.splits if_splits)
qed simp

lemma parsed_columns:
  assumes "parseDatabaseColumns decoded limits = Inr columns"
  shows "distinct (map col_id columns)" and "c \<in> set columns \<Longrightarrow> col_type c \<in> set databaseColumnTypes"
proof -
  have "check_columns 0 columns [] = None"
    using assms by (auto simp: parseDatabaseColumns_def split: sum.splits if_splits option.splits)
  then show "distinct (map col_id columns)" "c \<in> set columns \<Longrightarrow> col_type c \<in> set databaseColumnTypes"
    using check_columns_distinct check_columns_types by blast+
qed

lemma find_in: "find P xs = Some x \<Longrightarrow> x \<in> set xs \<and> P x"
  by (induction xs) (auto split: if_splits)

lemma column_by_id_in: "column_by_id columns i = Some c \<Longrightarrow> c \<in> set columns \<and> col_id c = i"
  using find_in [of "\<lambda>c. col_id c = i" "rev columns" c] by (simp add: column_by_id_def)

lemma checkTextCell_ok: "checkTextCell T column s = Inr v \<Longrightarrow> v = VStr s \<and> cell_ok T column v"
  by (auto simp: checkTextCell_def cell_ok_def invalidCell_def dest!: format_parse split: if_splits)

lemma coerceTypedCell_ok:
  "coerceTypedCell T column v = Inr w \<Longrightarrow> (\<And>x. v = VFloat x \<Longrightarrow> \<not> is_inf x \<and> \<not> is_nan x) \<Longrightarrow> cell_ok T column w"
  by (auto simp: coerceTypedCell_def cell_ok_def invalidCell_def split: if_splits val.splits dest: checkTextCell_ok)

lemma coerceTextCell_ok:
  assumes "coerceTextCell T column s = Inr w" and "\<And>ymd. rfc3339_utc_date T (trim_space s) = Some ymd \<Longrightarrow> valid_date ymd"
  shows "cell_ok T column w"
proof -
  have ok: "checkTextCell T column t = Inr w \<Longrightarrow> cell_ok T column w" for t using checkTextCell_ok by blast
  show ?thesis
    using assms ok
    by (auto simp: coerceTextCell_def Let_def invalidCell_def split: if_splits option.splits) (auto simp: cell_ok_def)
qed

lemma coerce_value_ok:
  assumes "coerce_value T columns mode iv = Inr jw" and "finite_numbers [iv]"
    and "\<forall>s ymd. rfc3339_utc_date T s = Some ymd \<longrightarrow> valid_date ymd"
  shows "fst jw = fst iv \<and> (\<exists>c \<in> set columns. column_by_id columns (fst iv) = Some c \<and> col_id c = fst iv \<and> cell_ok T c (snd jw))"
proof -
  obtain c where c: "column_by_id columns (fst iv) = Some c" using assms(1) by (auto simp: coerce_value_def split: option.splits)
  have "cell_ok T c (snd jw) \<and> fst jw = fst iv"
  proof (cases mode)
    case databaseValuesTyped
    then show ?thesis
      using assms(1,2) c by (auto simp: coerce_value_def res_simps finite_numbers_def case_prod_unfold intro: coerceTypedCell_ok)
  next
    case databaseValuesText
    then obtain s where "snd iv = VStr s" "coerceTextCell T c s = Inr (snd jw)" "fst jw = fst iv"
      using assms(1) c by (auto simp: coerce_value_def res_simps invalidCell_def split: val.splits)
    then show ?thesis using coerceTextCell_ok assms(3) by blast
  qed
  then show ?thesis using column_by_id_in [OF c] c by blast
qed

lemma traverse_Inr_list: "traverse f xs = Inr ys \<longleftrightarrow> list_all2 (\<lambda>x y. f x = Inr y) xs ys"
  by (induction xs arbitrary: ys) (auto simp: res_simps list_all2_Cons1)

lemma list_all2_pairs:
  "list_all2 (\<lambda>x y. fst y = fst x \<and> Q y) xs ys \<Longrightarrow> map fst ys = map fst xs \<and> (\<forall>y \<in> set ys. Q y)"
  by (induction rule: list_all2_induct) auto

lemma parsed_column_unique:
  assumes "parseDatabaseColumns decoded limits = Inr columns" and "c \<in> set columns" and "c' \<in> set columns" and "col_id c' = col_id c"
  shows "c' = c"
  using parsed_columns(1) [OF assms(1)] assms(2-4) by (simp add: distinct_map inj_on_def)

text \<open>
  C32. Whatever is written to a database, by the dashboard or as text by a workflow, each stored cell
  belongs to exactly one column of the database and has the type of that column: a finite number, a
  boolean, a calendar date, a text within its length, a web link, one of the options, or nothing.
\<close>

theorem stored_cells_have_their_type:
  assumes "parseDatabaseColumns decoded limits = Inr columns" and "coerceValues T columns raw mode = Inr values"
    and "finite_numbers raw" and "\<forall>s ymd. rfc3339_utc_date T s = Some ymd \<longrightarrow> valid_date ymd"
  shows "map fst values = map fst raw
    \<and> (\<forall>(i, v) \<in> set values. \<exists>c \<in> set columns. col_id c = i \<and> cell_ok T c v \<and> (\<forall>c' \<in> set columns. col_id c' = i \<longrightarrow> c' = c))"
proof -
  let ?Q = "\<lambda>y. \<exists>c \<in> set columns. col_id c = fst y \<and> cell_ok T c (snd y) \<and> (\<forall>c' \<in> set columns. col_id c' = fst y \<longrightarrow> c' = c)"
  have l: "list_all2 (\<lambda>x y. coerce_value T columns mode x = Inr y) raw values"
    using assms(2) by (simp add: coerceValues_def traverse_Inr_list)
  have "list_all2 (\<lambda>x y. fst y = fst x \<and> ?Q y) raw values"
  proof (rule list.rel_mono_strong [OF l])
    fix x y assume x: "x \<in> set raw" "coerce_value T columns mode x = Inr y"
    have "finite_numbers [x]" using assms(3) x(1) by (auto simp: finite_numbers_def)
    from coerce_value_ok [OF x(2) this assms(4)]
    obtain c where c: "fst y = fst x" "c \<in> set columns" "col_id c = fst x" "cell_ok T c (snd y)" by (elim conjE bexE)
    have i: "col_id c = fst y" using c(1,3) by (simp only:)
    moreover have "\<forall>c' \<in> set columns. col_id c' = fst y \<longrightarrow> c' = c"
      using parsed_column_unique [OF assms(1) c(2)] i by simp
    ultimately show "fst y = fst x \<and> ?Q y" using c i by (intro conjI bexI [of _ c])
  qed
  then have "map fst values = map fst raw \<and> (\<forall>y \<in> set values. ?Q y)"
    by (rule list_all2_pairs)
  then show ?thesis by (simp add: case_prod_unfold)
qed

definition members_column :: DatabaseColumn where
  "members_column = \<lparr>col_id = ''since'', col_label = ''Since'', col_type = ''date'', col_public = True, col_options = []\<rparr>"

definition plain_textlib :: "golib \<Rightarrow> textlib" where
  "plain_textlib L = \<lparr>case_lib = L, parse_other_float = \<lambda>_. None,
     rfc3339_utc_date = \<lambda>s. if s = ''2024-02-29T23:30:00-01:00'' then Some (2024, 3, 1) else None, url_parse = \<lambda>_. None\<rparr>"

lemma members_column_parsed: "parseDatabaseColumns (Inr [members_column]) DefaultDatabaseLimits = Inr [members_column]"
  by code_simp

lemma members_moment: "trim_space ''2024-02-29T23:30:00-01:00'' = ''2024-02-29T23:30:00-01:00''"
  by code_simp

lemma members_day: "format_date (2024, 3, 1) = ''2024-03-01''"
  by code_simp

lemma members_row:
  "coerceValues (plain_textlib L) [members_column] [(''since'', VStr ''2024-02-29T23:30:00-01:00'')] databaseValuesText
     = Inr [(''since'', VStr ''2024-03-01'')]"
  by (simp add: coerceValues_def coerce_value_def column_by_id_def members_column_def coerceTextCell_def plain_textlib_def
      res_simps members_moment members_day)

lemma members_dates: "rfc3339_utc_date (plain_textlib L) s = Some ymd \<Longrightarrow> ymd = (2024, 3, 1)"
  by (simp add: plain_textlib_def split: if_splits)

theorem stored_cells_have_their_type_witness:
  "\<exists>c \<in> set [members_column]. cell_ok (plain_textlib ascii_lib) c (VStr ''2024-03-01'')"
proof -
  have v: "valid_date (2024, 3, 1)" by code_simp
  then have "\<forall>s ymd. rfc3339_utc_date (plain_textlib ascii_lib) s = Some ymd \<longrightarrow> valid_date ymd" using members_dates by metis
  from stored_cells_have_their_type [OF members_column_parsed members_row _ this]
  show ?thesis by (simp add: finite_numbers_def)
qed

subsection \<open>Writing back what is stored\<close>

text \<open>
  The dashboard sends a stored cell back as it read it. What was accepted once is accepted unchanged,
  unless a moment's date in UTC has a year that four digits cannot write.
\<close>

definition writable_dates :: "textlib \<Rightarrow> bool" where
  "writable_dates T \<longleftrightarrow> (\<forall>s y m d. rfc3339_utc_date T s = Some (y, m, d) \<longrightarrow> valid_date (y, m, d) \<and> 0 \<le> y \<and> y < 10000)"

lemma checkTextCell_again: "checkTextCell T c s = Inr v \<Longrightarrow> v = VStr s \<and> coerceTypedCell T c v = Inr v"
  by (auto simp: checkTextCell_def coerceTypedCell_def invalidCell_def split: if_splits)

lemma coerceTypedCell_again: "coerceTypedCell T c v = Inr w \<Longrightarrow> coerceTypedCell T c w = Inr w"
  by (auto simp: coerceTypedCell_def invalidCell_def split: if_splits val.splits dest: checkTextCell_again)

lemma date_cell_again:
  assumes "writable_dates T" and "rfc3339_utc_date T s = Some ymd" and "col_type c = ''date''"
  shows "coerceTypedCell T c (VStr (format_date ymd)) = Inr (VStr (format_date ymd))"
proof -
  obtain y m d where ymd: "ymd = (y, m, d)" by (rule prod_cases3)
  have "valid_date (y, m, d)" "0 \<le> y" "y < 10000" using assms(1,2) by (auto simp: writable_dates_def ymd)
  then have p: "parse_date (format_date ymd) = Some ymd" unfolding ymd by (rule parse_format)
  then have "ValidString (format_date ymd)" "\<not> has_nul (format_date ymd)"
    using date_text_clean [of "format_date ymd"] by simp_all
  then show ?thesis using p assms(3) by (simp add: coerceTypedCell_def checkTextCell_def)
qed

lemma coerceTextCell_again:
  assumes "writable_dates T" and "coerceTextCell T c s = Inr w"
  shows "coerceTypedCell T c w = Inr w"
proof -
  have ok: "coerceTypedCell T c w = Inr w" if "checkTextCell T c t = Inr w" for t
    using checkTextCell_again [OF that] by (rule conjunct2)
  show ?thesis
  proof (cases "s = ''''")
    case True
    then show ?thesis using assms(2) by (simp add: coerceTextCell_def coerceTypedCell_def)
  next
    case False
    consider "col_type c = ''number''" | "col_type c = ''boolean''" | "col_type c = ''date''"
      | "col_type c \<noteq> ''number''" "col_type c \<noteq> ''boolean''" "col_type c \<noteq> ''date''" by satx
    then show ?thesis
    proof cases
      case 1
      obtain x where "w = VFloat x"
        using assms(2) False 1 by (auto simp: coerceTextCell_def invalidCell_def split: option.splits if_splits)
      then show ?thesis using 1 by (simp add: coerceTypedCell_def)
    next
      case 2
      obtain b where "w = VBool b"
        using assms(2) False 2 by (auto simp: coerceTextCell_def Let_def invalidCell_def split: if_splits)
      then show ?thesis using 2 by (simp add: coerceTypedCell_def)
    next
      case 3
      show ?thesis
      proof (cases "rfc3339_utc_date T (trim_space s)")
        case None
        then have "checkTextCell T c (trim_space s) = Inr w" using assms(2) False 3 by (simp add: coerceTextCell_def)
        then show ?thesis by (rule ok)
      next
        case (Some ymd)
        then have "w = VStr (format_date ymd)" using assms(2) False 3 by (simp add: coerceTextCell_def)
        then show ?thesis using date_cell_again [OF assms(1) Some 3] by simp
      qed
    next
      case 4
      then have "checkTextCell T c (if col_type c \<in> {''url'', ''select''} then trim_space s else s) = Inr w"
        using assms(2) False unfolding if_distrib [of "checkTextCell T c"] by (simp only: coerceTextCell_def if_False)
      then show ?thesis by (rule ok)
    qed
  qed
qed

lemma coerce_value_again:
  assumes "writable_dates T" and "coerce_value T columns mode iv = Inr jw"
  shows "coerce_value T columns databaseValuesTyped jw = Inr jw"
proof -
  obtain c where c: "column_by_id columns (fst iv) = Some c" using assms(2) by (auto simp: coerce_value_def split: option.splits)
  have "coerceTypedCell T c (snd jw) = Inr (snd jw) \<and> fst jw = fst iv"
  proof (cases mode)
    case databaseValuesTyped
    then show ?thesis using assms(2) c by (auto simp: coerce_value_def res_simps dest: coerceTypedCell_again)
  next
    case databaseValuesText
    then obtain s where "snd iv = VStr s" "coerceTextCell T c s = Inr (snd jw)" "fst jw = fst iv"
      using assms(2) c by (auto simp: coerce_value_def res_simps invalidCell_def split: val.splits)
    then show ?thesis using coerceTextCell_again assms(1) by simp
  qed
  then show ?thesis using c by (cases jw) (simp add: coerce_value_def res_simps)
qed



text \<open>
  A moment in the last hours of the year 9999, west of Greenwich, is a day of the year 10000 in UTC:
  its cell is stored in a form the column then refuses.
\<close>

lemma far_date_is_refused:
  assumes "col_type c = ''date''" and "rfc3339_utc_date T (trim_space s) = Some (10000, 1, 1)" and "s \<noteq> ''''"
  shows "coerceTextCell T c s = Inr (VStr ''10000-01-01'')"
    and "coerceTypedCell T c (VStr ''10000-01-01'') = Inl (InvalidCell (col_label c) MustBeDate)"
proof -
  have "format_date (10000, 1, 1) = ''10000-01-01''" by code_simp
  then show "coerceTextCell T c s = Inr (VStr ''10000-01-01'')" using assms by (simp add: coerceTextCell_def)
  have "ValidString ''10000-01-01''" "\<not> has_nul ''10000-01-01''" "parse_date ''10000-01-01'' = None" by code_simp+
  then show "coerceTypedCell T c (VStr ''10000-01-01'') = Inl (InvalidCell (col_label c) MustBeDate)"
    using assms(1) by (simp add: coerceTypedCell_def checkTextCell_def invalidCell_def)
qed

subsection \<open>Public cells\<close>

lemma publicValues_in:
  "(i, v) \<in> set (publicValues columns values) \<longleftrightarrow> (\<exists>c \<in> set columns. col_public c \<and> col_id c = i) \<and> map_of values i = Some v"
proof -
  have "(i, v) \<in> set (if \<not> col_public c then [] else (case map_of values (col_id c) of None \<Rightarrow> [] | Some w \<Rightarrow> [(col_id c, w)]))
    \<longleftrightarrow> col_public c \<and> col_id c = i \<and> map_of values i = Some v" for c
    by (auto split: option.splits)
  moreover have "(i, v) \<in> set (concat (map f columns)) \<longleftrightarrow> (\<exists>c \<in> set columns. (i, v) \<in> set (f c))" for f by simp
  ultimately show ?thesis by (simp only: publicValues_def) blast
qed

end
