(* ===== verification/Segment_Condition.thy ===== *)
theory Segment_Condition
  imports Float64 Go_Strings "HOL-Library.List_Lexorder"
begin

text \<open>
  The conditions of viewer segments, \<open>db/app/services/segment_condition.go\<close>: what is saved, what is
  compiled from it, which facts it reads and what it decides on a viewer's values. The JSON of an
  operand is what its decoder makes of it; \<open>time.ParseDuration\<close> is an argument.
\<close>

subsection \<open>Saved and compiled conditions\<close>

text \<open>
  The raw operand of an atom: absent, \<open>null\<close>, a number that fits a \<open>float64\<close>, a string, or any other
  JSON. A nil slice differs from an empty one, as the code tells them apart.
\<close>

datatype operand = NoOperand | NullOperand | NumOperand f64 | StrOperand string | OtherOperand

datatype segmentConditionJSON =
  SegmentNode (node_all: "segmentConditionJSON list option") (node_any: "segmentConditionJSON list option")
    (node_not: "segmentConditionJSON option") (node_fact: string) (node_op: string) (node_value: operand)

datatype atom_operand = NumIs f64 | StrIs string | DurationIs int | NoneIs

record segmentAtom =
  sa_fact :: string
  sa_op :: string
  sa_operand :: atom_operand

datatype segmentCondition =
    SegAll "segmentCondition list"
  | SegAny "segmentCondition list"
  | SegNot segmentCondition
  | SegAtom segmentAtom

datatype segment_error =
    NotOneKind nat
  | NoConditions string
  | InChild string nat segment_error
  | InNot segment_error
  | NoFact
  | NoOp string
  | UnknownOp string string
  | TakesNoValue string string
  | NeedsDuration string string
  | NeedsPositiveDuration string string
  | NeedsNumber string string
  | NeedsValue string string
  | NeedsNumberOrString string string

definition ordering_ops :: "string list" where "ordering_ops = [''gt'', ''gte'', ''lt'', ''lte'']"
definition equality_ops :: "string list" where "equality_ops = [''eq'', ''ne'']"
definition presence_ops :: "string list" where "presence_ops = [''exists'', ''not_exists'']"
definition age_ops :: "string list" where "age_ops = [''within'', ''older_than'']"

lemmas segment_ops = ordering_ops_def equality_ops_def presence_ops_def age_ops_def

definition compileSegmentAtom ::
  "(string \<Rightarrow> int option) \<Rightarrow> string \<Rightarrow> string \<Rightarrow> operand \<Rightarrow> (segment_error, segmentAtom) res" where
  "compileSegmentAtom parse_duration fid op v =
     (let atom = (\<lambda>x. Inr \<lparr>sa_fact = fid, sa_op = op, sa_operand = x\<rparr>) in
      if fid = '''' then Inl NoFact
      else if op \<in> set presence_ops then (if v \<noteq> NoOperand then Inl (TakesNoValue fid op) else atom NoneIs)
      else if op \<in> set age_ops then
        (case v of
           StrOperand text \<Rightarrow>
             (case parse_duration text of
                None \<Rightarrow> Inl (NeedsDuration fid op)
              | Some d \<Rightarrow> if d \<le> 0 then Inl (NeedsPositiveDuration fid op) else atom (DurationIs d))
         | _ \<Rightarrow> Inl (NeedsDuration fid op))
      else if op \<in> set ordering_ops then (case v of NumOperand x \<Rightarrow> atom (NumIs x) | _ \<Rightarrow> Inl (NeedsNumber fid op))
      else if op \<in> set equality_ops then
        (case v of
           NumOperand x \<Rightarrow> atom (NumIs x)
         | StrOperand s \<Rightarrow> atom (StrIs s)
         | OtherOperand \<Rightarrow> Inl (NeedsNumberOrString fid op)
         | _ \<Rightarrow> Inl (NeedsValue fid op))
      else if op = '''' then Inl (NoOp fid)
      else Inl (UnknownOp fid op))"

definition kinds :: "segmentConditionJSON \<Rightarrow> nat" where
  "kinds n =
     of_bool (node_all n \<noteq> None) + of_bool (node_any n \<noteq> None) + of_bool (node_not n \<noteq> None)
     + of_bool (node_fact n \<noteq> '''' \<or> node_op n \<noteq> '''' \<or> node_value n \<noteq> NoOperand)"

text \<open>The children of a list are compiled in turn, the first that fails named by its position.\<close>

function (sequential) compileSegmentCondition ::
  "(string \<Rightarrow> int option) \<Rightarrow> segmentConditionJSON \<Rightarrow> (segment_error, segmentCondition) res"
  and compile_children ::
  "(string \<Rightarrow> int option) \<Rightarrow> string \<Rightarrow> nat \<Rightarrow> segmentConditionJSON list \<Rightarrow> (segment_error, segmentCondition list) res" where
  "compileSegmentCondition pd (SegmentNode al an nt fid op v) =
     (if kinds (SegmentNode al an nt fid op v) \<noteq> 1 then Inl (NotOneKind (kinds (SegmentNode al an nt fid op v)))
      else (case al of
              Some cs \<Rightarrow>
                if cs = [] then Inl (NoConditions ''all'')
                else bind_res (compile_children pd ''all'' 0 cs) (\<lambda>xs. Inr (SegAll xs))
            | None \<Rightarrow>
          (case an of
              Some cs \<Rightarrow>
                if cs = [] then Inl (NoConditions ''any'')
                else bind_res (compile_children pd ''any'' 0 cs) (\<lambda>xs. Inr (SegAny xs))
            | None \<Rightarrow>
          (case nt of
              Some c \<Rightarrow>
                (case compileSegmentCondition pd c of Inl e \<Rightarrow> Inl (InNot e) | Inr x \<Rightarrow> Inr (SegNot x))
            | None \<Rightarrow> bind_res (compileSegmentAtom pd fid op v) (\<lambda>a. Inr (SegAtom a))))))"
| "compile_children pd name i [] = Inr []"
| "compile_children pd name i (c # cs) =
     (case compileSegmentCondition pd c of
        Inl e \<Rightarrow> Inl (InChild name i e)
      | Inr x \<Rightarrow> bind_res (compile_children pd name (i + 1) cs) (\<lambda>xs. Inr (x # xs)))"
  by pat_completeness auto
termination
  by (relation "measure (\<lambda>x. case x of Inl (pd, n) \<Rightarrow> size n | Inr (pd, name, i, cs) \<Rightarrow> size_list size cs)") auto

subsection \<open>What a condition reads\<close>

fun seg_atoms :: "segmentCondition \<Rightarrow> segmentAtom list" where
  "seg_atoms (SegAll cs) = concat (map seg_atoms cs)"
| "seg_atoms (SegAny cs) = concat (map seg_atoms cs)"
| "seg_atoms (SegNot c) = seg_atoms c"
| "seg_atoms (SegAtom a) = [a]"

definition condition_facts :: "segmentCondition \<Rightarrow> string list" where
  "condition_facts c = remdups_adj (sort (map sa_fact (seg_atoms c)))"

definition timeRelative :: "segmentCondition \<Rightarrow> bool" where
  "timeRelative c \<longleftrightarrow> (\<exists>a \<in> set (seg_atoms c). sa_op a \<in> set age_ops)"

definition is_string_atom :: "segmentAtom \<Rightarrow> bool" where
  "is_string_atom a \<longleftrightarrow> (case sa_operand a of StrIs _ \<Rightarrow> True | _ \<Rightarrow> False)"

datatype fact_problem = NotAFact string | ComparesNumbers string | ReadsTimestamp string | OperandKind string

definition numeric_kind :: "string \<Rightarrow> bool" where "numeric_kind k \<longleftrightarrow> k = ''number'' \<or> k = ''timestamp''"

definition checkKind :: "segmentAtom \<Rightarrow> string \<Rightarrow> fact_problem option" where
  "checkKind a kind =
     (if sa_op a \<in> set ordering_ops then (if \<not> numeric_kind kind then Some (ComparesNumbers (sa_fact a)) else None)
      else if sa_op a \<in> set age_ops then (if kind \<noteq> ''timestamp'' then Some (ReadsTimestamp (sa_fact a)) else None)
      else if sa_op a \<in> set equality_ops then
        (if is_string_atom a = numeric_kind kind then Some (OperandKind (sa_fact a)) else None)
      else None)"

text \<open>Every problem is reported; the condition fits the facts when there is none.\<close>

definition checkFacts :: "segmentCondition \<Rightarrow> (string \<Rightarrow> string option) \<Rightarrow> fact_problem list" where
  "checkFacts c kind_of =
     concat (map (\<lambda>a. case kind_of (sa_fact a) of
                        None \<Rightarrow> [NotAFact (sa_fact a)]
                      | Some k \<Rightarrow> (case checkKind a k of None \<Rightarrow> [] | Some p \<Rightarrow> [p]))
        (seg_atoms c))"

subsection \<open>What a condition decides\<close>

record factReading =
  fr_num :: "f64 option"
  fr_str :: "string option"

definition reading_equals :: "segmentAtom \<Rightarrow> factReading \<Rightarrow> bool" where
  "reading_equals a r \<longleftrightarrow>
     (case sa_operand a of
        StrIs s \<Rightarrow> fr_str r = Some s
      | NumIs x \<Rightarrow> (case fr_num r of None \<Rightarrow> False | Some n \<Rightarrow> f_eq n x)
      | _ \<Rightarrow> (case fr_num r of None \<Rightarrow> False | Some n \<Rightarrow> f_eq n f_zero))"

definition operand_num :: "segmentAtom \<Rightarrow> f64" where
  "operand_num a = (case sa_operand a of NumIs x \<Rightarrow> x | _ \<Rightarrow> f_zero)"

definition operand_ms :: "segmentAtom \<Rightarrow> int" where
  "operand_ms a = (case sa_operand a of DurationIs d \<Rightarrow> d div 1000000 | _ \<Rightarrow> 0)"

text \<open>\<open>now\<close> is \<open>UnixMilli\<close>.\<close>

definition evaluateAtom :: "segmentAtom \<Rightarrow> factReading option \<Rightarrow> int \<Rightarrow> bool" where
  "evaluateAtom a value now =
     (let present = (case value of None \<Rightarrow> False | Some r \<Rightarrow> fr_num r \<noteq> None \<or> fr_str r \<noteq> None);
          eq = (case value of None \<Rightarrow> False | Some r \<Rightarrow> reading_equals a r)
      in if sa_op a = ''exists'' then present
         else if sa_op a = ''not_exists'' then \<not> present
         else if sa_op a = ''eq'' then present \<and> eq
         else if sa_op a = ''ne'' then \<not> present \<or> \<not> eq
         else (case Option.bind value fr_num of
                 None \<Rightarrow> False
               | Some n \<Rightarrow>
                   if sa_op a = ''gt'' then f_lt (operand_num a) n
                   else if sa_op a = ''gte'' then f_le (operand_num a) n
                   else if sa_op a = ''lt'' then f_lt n (operand_num a)
                   else if sa_op a = ''lte'' then f_le n (operand_num a)
                   else if sa_op a = ''within'' then f_le (f_sub (f_of_int now) n) (f_of_int (operand_ms a))
                   else if sa_op a = ''older_than'' then f_lt (f_of_int (operand_ms a)) (f_sub (f_of_int now) n)
                   else False))"

fun evaluate :: "segmentCondition \<Rightarrow> (string \<Rightarrow> factReading option) \<Rightarrow> int \<Rightarrow> bool" where
  "evaluate (SegAll cs) values now = list_all (\<lambda>c. evaluate c values now) cs"
| "evaluate (SegAny cs) values now = list_ex (\<lambda>c. evaluate c values now) cs"
| "evaluate (SegNot c) values now = (\<not> evaluate c values now)"
| "evaluate (SegAtom a) values now = evaluateAtom a (values (sa_fact a)) now"
subsection \<open>A condition depends on the facts it reads\<close>

lemma condition_facts_set [simp]: "set (condition_facts c) = sa_fact ` set (seg_atoms c)"
  by (simp add: condition_facts_def)

lemma remdups_adj_strict: "sorted xs \<Longrightarrow> sorted_wrt (<) (remdups_adj (xs :: 'a :: linorder list))"
proof (induction xs rule: remdups_adj.induct)
  case (3 x y xs)
  then show ?case by (cases "x = y") (auto simp: less_le)
qed simp_all

lemma condition_facts_sorted: "sorted_wrt (<) (condition_facts c)"
  unfolding condition_facts_def by (rule remdups_adj_strict) simp

lemma evaluateAtom_timeless: "sa_op a \<notin> set age_ops \<Longrightarrow> evaluateAtom a r now = evaluateAtom a r now'"
  by (simp add: evaluateAtom_def Let_def age_ops_def split: option.splits)

lemma timeRelative_simps [simp]:
  "timeRelative (SegAll cs) \<longleftrightarrow> list_ex timeRelative cs"
  "timeRelative (SegAny cs) \<longleftrightarrow> list_ex timeRelative cs"
  "timeRelative (SegNot c) \<longleftrightarrow> timeRelative c"
  "timeRelative (SegAtom a) \<longleftrightarrow> sa_op a \<in> set age_ops"
  by (simp_all add: timeRelative_def list_ex_iff)

lemma list_all_cong_on: "(\<And>x. x \<in> set xs \<Longrightarrow> P x = Q x) \<Longrightarrow> list_all P xs = list_all Q xs"
  by (simp add: list_all_iff)

lemma list_ex_cong_on: "(\<And>x. x \<in> set xs \<Longrightarrow> P x = Q x) \<Longrightarrow> list_ex P xs = list_ex Q xs"
  by (simp add: list_ex_iff)

lemma evaluate_frame:
  assumes "\<forall>a \<in> set (seg_atoms c). v (sa_fact a) = v' (sa_fact a)" and "timeRelative c \<longrightarrow> now = now'"
  shows "evaluate c v now = evaluate c v' now'"
  using assms
proof (induction c)
  case (SegAll cs)
  have "evaluate x v now = evaluate x v' now'" if "x \<in> set cs" for x
    using SegAll that by (auto simp: list_ex_iff)
  then show ?case by (simp only: evaluate.simps) (rule list_all_cong_on)
next
  case (SegAny cs)
  have "evaluate x v now = evaluate x v' now'" if "x \<in> set cs" for x
    using SegAny that by (auto simp: list_ex_iff)
  then show ?case by (simp only: evaluate.simps) (rule list_ex_cong_on)
next
  case (SegAtom a)
  then show ?case using evaluateAtom_timeless [of a _ now now'] by (cases "sa_op a \<in> set age_ops") auto
qed simp

lemma absent_reading: "evaluateAtom a None now \<longleftrightarrow> sa_op a = ''not_exists'' \<or> sa_op a = ''ne''"
  by (auto simp: evaluateAtom_def)

subsection \<open>What compiles\<close>

definition operand_fits :: "string \<Rightarrow> atom_operand \<Rightarrow> bool" where
  "operand_fits op x \<longleftrightarrow>
     op \<in> set presence_ops \<and> x = NoneIs
     \<or> op \<in> set age_ops \<and> (\<exists>d > 0. x = DurationIs d)
     \<or> op \<in> set ordering_ops \<and> (\<exists>n. x = NumIs n)
     \<or> op \<in> set equality_ops \<and> ((\<exists>n. x = NumIs n) \<or> (\<exists>s. x = StrIs s))"

fun segment_ok :: "segmentCondition \<Rightarrow> bool" where
  "segment_ok (SegAll cs) \<longleftrightarrow> cs \<noteq> [] \<and> list_all segment_ok cs"
| "segment_ok (SegAny cs) \<longleftrightarrow> cs \<noteq> [] \<and> list_all segment_ok cs"
| "segment_ok (SegNot c) \<longleftrightarrow> segment_ok c"
| "segment_ok (SegAtom a) \<longleftrightarrow> sa_fact a \<noteq> '''' \<and> operand_fits (sa_op a) (sa_operand a)"

lemma compileSegmentAtom_ok: "compileSegmentAtom pd fid op v = Inr a \<Longrightarrow> segment_ok (SegAtom a)"
  by (auto simp: compileSegmentAtom_def Let_def operand_fits_def split: if_splits operand.splits option.splits)

lemma compile_cases:
  assumes "compileSegmentCondition pd (SegmentNode al an nt fid op v) = Inr c"
  obtains (All) ns xs where "al = Some ns" "ns \<noteq> []" "compile_children pd ''all'' 0 ns = Inr xs" "c = SegAll xs"
  | (Any) ns xs where "al = None" "an = Some ns" "ns \<noteq> []" "compile_children pd ''any'' 0 ns = Inr xs" "c = SegAny xs"
  | (Not) n x where "al = None" "an = None" "nt = Some n" "compileSegmentCondition pd n = Inr x" "c = SegNot x"
  | (Atom) a where "al = None" "an = None" "nt = None" "compileSegmentAtom pd fid op v = Inr a" "c = SegAtom a"
proof (cases al)
  case (Some ns)
  then show ?thesis using All [of ns] assms by (simp add: res_simps split: if_splits) blast
next
  case al: None
  show ?thesis
  proof (cases an)
    case (Some ns)
    then show ?thesis using Any [of ns] assms al by (simp add: res_simps split: if_splits) blast
  next
    case an: None
    show ?thesis
    proof (cases nt)
      case (Some n)
      then show ?thesis using Not [of n] assms al an by (simp split: if_splits sum.splits)
    next
      case None
      then show ?thesis using Atom assms al an by (simp add: res_simps split: if_splits) blast
    qed
  qed
qed

lemma compiled_ok_both:
  shows "\<forall>pd c. compileSegmentCondition pd n = Inr c \<longrightarrow> segment_ok c"
proof (induction n)
  case (SegmentNode al an nt fid op v)
  have ch: "list_all segment_ok xs \<and> length xs = length ns"
    if "\<forall>n \<in> set ns. \<forall>pd c. compileSegmentCondition pd n = Inr c \<longrightarrow> segment_ok c" "compile_children pd name i ns = Inr xs"
    for ns pd name i xs
    using that
  proof (induction ns arbitrary: i xs)
    case (Cons n ns)
    then obtain x ys where "compileSegmentCondition pd n = Inr x" "compile_children pd name (i + 1) ns = Inr ys" "xs = x # ys"
      by (auto simp: res_simps split: sum.splits)
    then show ?case using Cons.IH [of "i + 1" ys] Cons.prems(1) by simp
  qed simp
  show ?case
  proof (intro allI impI)
    fix pd c assume "compileSegmentCondition pd (SegmentNode al an nt fid op v) = Inr c"
    then show "segment_ok c"
    proof (cases rule: compile_cases)
      case (All ns xs)
      then show ?thesis using ch [of ns pd "''all''" 0 xs] SegmentNode(1) by auto
    next
      case (Any ns xs)
      then show ?thesis using ch [of ns pd "''any''" 0 xs] SegmentNode(2) by auto
    next
      case (Not m x)
      then show ?thesis using SegmentNode(3) by auto
    next
      case (Atom a)
      then show ?thesis using compileSegmentAtom_ok by simp
    qed
  qed
qed

lemma compiled_ok: "compileSegmentCondition pd n = Inr c \<Longrightarrow> segment_ok c"
  using compiled_ok_both by blast

text \<open>
  What a segment's condition decides depends on the values of the facts it lists and nothing else,
  and on the time only if it is marked as relative to it.
\<close>

theorem segment_reads_its_facts:
  assumes "\<forall>f \<in> set (condition_facts c). v f = v' f" and "timeRelative c \<longrightarrow> now = now'"
  shows "evaluate c v now = evaluate c v' now'"
  using evaluate_frame [of c v v' now now'] assms by simp

definition regulars :: segmentConditionJSON where
  "regulars = SegmentNode (Some
     [SegmentNode None None None ''u:fact:chats'' ''gte'' (NumOperand (f_of_int 10)),
      SegmentNode None None (Some (SegmentNode None None None ''u:fact:rank'' ''eq'' (StrOperand ''bot''))) '''' '''' NoOperand])
     None None '''' '''' NoOperand"

definition regulars_condition :: segmentCondition where
  "regulars_condition =
     SegAll [SegAtom \<lparr>sa_fact = ''u:fact:chats'', sa_op = ''gte'', sa_operand = NumIs (f_of_int 10)\<rparr>,
             SegNot (SegAtom \<lparr>sa_fact = ''u:fact:rank'', sa_op = ''eq'', sa_operand = StrIs ''bot''\<rparr>)]"

lemma regulars_compile: "compileSegmentCondition (\<lambda>_. None) regulars = Inr regulars_condition"
  by (simp add: regulars_def regulars_condition_def kinds_def compileSegmentAtom_def segment_ops)

lemma regulars_facts: "condition_facts regulars_condition = [''u:fact:chats'', ''u:fact:rank'']"
  by code_simp

theorem segment_reads_its_facts_witness:
  "evaluate regulars_condition [''u:fact:chats'' \<mapsto> \<lparr>fr_num = Some (f_of_int 12), fr_str = None\<rparr>] 0
   = evaluate regulars_condition
       [''u:fact:chats'' \<mapsto> \<lparr>fr_num = Some (f_of_int 12), fr_str = None\<rparr>, ''u:fact:x'' \<mapsto> \<lparr>fr_num = None, fr_str = Some ''y''\<rparr>] 7"
proof (rule segment_reads_its_facts)
  show "\<forall>f \<in> set (condition_facts regulars_condition).
      [''u:fact:chats'' \<mapsto> \<lparr>fr_num = Some (f_of_int 12), fr_str = None\<rparr>] f
      = [''u:fact:chats'' \<mapsto> \<lparr>fr_num = Some (f_of_int 12), fr_str = None\<rparr>, ''u:fact:x'' \<mapsto> \<lparr>fr_num = None, fr_str = Some ''y''\<rparr>] f"
    by (simp only: regulars_facts) simp
  have "\<not> timeRelative regulars_condition" by (simp add: regulars_condition_def age_ops_def)
  then show "timeRelative regulars_condition \<longrightarrow> (0::int) = 7" by simp
qed

subsection \<open>Conditions that fit their facts\<close>

lemma checkFacts_fits:
  assumes "checkFacts c kind_of = []" and "a \<in> set (seg_atoms c)"
  shows "\<exists>k. kind_of (sa_fact a) = Some k \<and> checkKind a k = None"
proof -
  have "(case kind_of (sa_fact a) of None \<Rightarrow> [NotAFact (sa_fact a)]
     | Some k \<Rightarrow> (case checkKind a k of None \<Rightarrow> [] | Some p \<Rightarrow> [p])) = []"
    using assms unfolding checkFacts_def by auto
  then show ?thesis by (auto split: option.splits)
qed

text \<open>On a stored time that is a number, \<open>older_than\<close> decides the opposite of \<open>within\<close>.\<close>

lemma within_or_older:
  assumes "sa_op a = ''within''" and "fr_num r = Some n" and "\<not> is_nan n" and "\<not> is_inf n"
  shows "evaluateAtom (a\<lparr>sa_op := ''older_than''\<rparr>) (Some r) now \<longleftrightarrow> \<not> evaluateAtom a (Some r) now"
proof -
  have "\<not> is_nan (f_of_int k)" for k by (simp add: f_of_int_def f_of_rat_def round_f64_def Let_def)
  moreover have "\<not> is_nan (f_sub (f_of_int now) n)"
    using assms(3,4) by (cases n; cases "f_of_int now") (auto simp: f_sub_def f_of_int_def f_of_rat_def round_f64_def Let_def split: if_splits)
  ultimately have "f_lt (f_of_int (operand_ms a)) (f_sub (f_of_int now) n) \<longleftrightarrow> \<not> f_le (f_sub (f_of_int now) n) (f_of_int (operand_ms a))"
    using f_trichotomy f_lt_asym f_lt_not_eq f_eq_sym unfolding f_le_def by metis
  then show ?thesis using assms(1,2) by (simp add: evaluateAtom_def operand_ms_def)
qed

end
