(* ===== verification/Fact_Fold.thy ===== *)
theory Fact_Fold
  imports Float64 Go_Strings "HOL-Library.List_Lexorder" "HOL-Library.AList"
begin

text \<open>
  The values of viewer facts, \<open>db/database/repository/viewer_fact_repository.go\<close>: how an event's deltas
  are folded into the stored values, once per event. A transaction is one operation on the tables;
  the row locks that make it one, and the failures of the database itself, are not modelled.
\<close>

subsection \<open>Tables\<close>

type_synonym viewer = "string \<times> string"

record FactValueState =
  fs_num :: "f64 option"
  fs_str :: "string option"
  fs_at :: "int option"

text \<open>The key of a value: its fact, its viewer and its window, the empty one for life. A row holds the value and the viewer's name.\<close>

type_synonym value_key = "string \<times> viewer \<times> string"

record deltaDefinition =
  dd_revision :: int
  dd_windowKind :: string
  dd_valueKind :: string
  dd_fn :: string

record StreamSession =
  ss_id :: string
  ss_started :: int
  ss_live :: bool

record fact_db =
  definitions :: "string \<Rightarrow> deltaDefinition option"
  fact_values :: "(value_key \<times> FactValueState \<times> string option) list"
  applied_events :: "(string \<times> string) set"
  stream_sessions :: "StreamSession list"

definition unix_milli :: "int \<Rightarrow> int" where "unix_milli t = t div 1000000"

subsection \<open>Sessions\<close>

record SessionRef =
  sr_id :: string
  sr_started :: int

fun latest :: "StreamSession list \<Rightarrow> StreamSession option" where
  "latest [] = None"
| "latest (s # ss) =
     (case latest ss of None \<Rightarrow> Some s | Some t \<Rightarrow> if ss_started s < ss_started t then Some t else Some s)"

definition SessionAt :: "StreamSession list \<Rightarrow> int \<Rightarrow> string \<Rightarrow> SessionRef" where
  "SessionAt ss instant stamp =
     (case latest [s \<leftarrow> ss. ss_started s \<le> instant] of
        Some s \<Rightarrow> \<lparr>sr_id = ss_id s, sr_started = ss_started s\<rparr>
      | None \<Rightarrow> \<lparr>sr_id = stamp, sr_started = instant\<rparr>)"

definition PreviousSessionID :: "StreamSession list \<Rightarrow> string \<Rightarrow> int \<Rightarrow> string" where
  "PreviousSessionID ss current instant =
     (let row = find (\<lambda>s. ss_id s = current) ss;
          bound = (case row of Some s \<Rightarrow> ss_started s | None \<Rightarrow> instant)
      in case latest [s \<leftarrow> ss. ss_started s < bound \<and> (row \<noteq> None \<longrightarrow> ss_id s \<noteq> current) \<and> ss_live s] of
           Some s \<Rightarrow> ss_id s
         | None \<Rightarrow> '''')"

subsection \<open>One fold\<close>

record FactFold =
  ff_op :: string
  ff_num :: "f64 option"
  ff_str :: "string option"
  ff_occurredAt :: int
  ff_session :: string
  ff_sessionStartedAt :: int
  ff_previous :: string

definition countsNewSession :: "FactFold \<Rightarrow> FactValueState option \<Rightarrow> bool" where
  "countsNewSession f before =
     (case before of
        None \<Rightarrow> True
      | Some b \<Rightarrow>
          if fs_str b = Some (ff_session f) then False
          else (case fs_at b of None \<Rightarrow> True | Some t \<Rightarrow> t \<le> unix_milli (ff_sessionStartedAt f)))"

definition fold_number :: "FactFold \<Rightarrow> f64 option" where
  "fold_number f = (case ff_num f of None \<Rightarrow> None | Some x \<Rightarrow> if is_nan x \<or> is_inf x then None else Some x)"

definition beforeNum :: "FactValueState option \<Rightarrow> f64" where
  "beforeNum before = (case Option.bind before fs_num of None \<Rightarrow> f_zero | Some x \<Rightarrow> x)"

definition numberState :: "f64 \<Rightarrow> int \<Rightarrow> FactValueState" where
  "numberState n instant = \<lparr>fs_num = Some n, fs_str = None, fs_at = Some instant\<rparr>"

definition later_at :: "FactValueState option \<Rightarrow> int \<Rightarrow> int" where
  "later_at before instant = (case Option.bind before fs_at of None \<Rightarrow> instant | Some t \<Rightarrow> max t instant)"

text \<open>\<open>min\<close>, \<open>max\<close> and the first and last times: the number alone, or what the code picks of it and the stored one.\<close>

definition fold_pick :: "(f64 \<Rightarrow> f64 \<Rightarrow> f64) \<Rightarrow> f64 \<Rightarrow> int \<Rightarrow> FactValueState option \<Rightarrow> FactValueState" where
  "fold_pick pick n instant before =
     (case Option.bind before fs_num of
        None \<Rightarrow> numberState n (later_at before instant)
      | Some m \<Rightarrow> numberState (pick m n) (later_at before instant))"

definition fold_last :: "FactFold \<Rightarrow> FactValueState option \<Rightarrow> FactValueState option" where
  "fold_last f before =
     (let eventAt = unix_milli (ff_occurredAt f) in
      if (ff_num f = None) = (ff_str f = None) then None
      else if ff_num f \<noteq> None \<and> fold_number f = None then None
      else (case before of
              Some b \<Rightarrow>
                (case fs_at b of
                   Some t \<Rightarrow> if eventAt < t then Some b
                             else Some \<lparr>fs_num = ff_num f, fs_str = ff_str f, fs_at = Some eventAt\<rparr>
                 | None \<Rightarrow> Some \<lparr>fs_num = ff_num f, fs_str = ff_str f, fs_at = Some eventAt\<rparr>)
            | None \<Rightarrow> Some \<lparr>fs_num = ff_num f, fs_str = ff_str f, fs_at = Some eventAt\<rparr>))"

definition fold_session :: "FactFold \<Rightarrow> FactValueState option \<Rightarrow> FactValueState option" where
  "fold_session f before =
     (if ff_session f = '''' then None
      else if \<not> countsNewSession f before then before
      else (let continues = ff_op f = ''sessions''
                  \<or> (ff_previous f \<noteq> '''' \<and> Option.bind before fs_str = Some (ff_previous f))
            in Some \<lparr>fs_num = Some (if continues then f_add (beforeNum before) (f_of_int 1) else f_of_int 1),
                 fs_str = Some (ff_session f), fs_at = Some (unix_milli (ff_sessionStartedAt f))\<rparr>))"

text \<open>The value after the fold, or nothing where the code refuses the delta.\<close>

definition FactFold_Apply :: "FactFold \<Rightarrow> FactValueState option \<Rightarrow> FactValueState option" where
  "FactFold_Apply f before =
     (let eventAt = unix_milli (ff_occurredAt f);
          pick = (\<lambda>g. case fold_number f of None \<Rightarrow> None | Some n \<Rightarrow> Some (fold_pick g n eventAt before))
      in if ff_op f = ''count'' then Some (numberState (f_add (beforeNum before) (f_of_int 1)) (later_at before eventAt))
         else if ff_op f = ''sum'' then
           (case fold_number f of
              None \<Rightarrow> None
            | Some n \<Rightarrow> Some (numberState (f_add (beforeNum before) n) (later_at before eventAt)))
         else if ff_op f = ''min'' then pick f_min
         else if ff_op f = ''max'' then pick f_max
         else if ff_op f = ''last'' then fold_last f before
         else if ff_op f = ''first_at'' then Some (fold_pick f_min (f_of_int eventAt) eventAt before)
         else if ff_op f = ''last_at'' then Some (fold_pick f_max (f_of_int eventAt) eventAt before)
         else if ff_op f \<in> {''sessions'', ''session_streak''} then fold_session f before
         else None)"

text \<open>Two states are the same value when their number and their text are.\<close>

definition equal_floats :: "f64 option \<Rightarrow> f64 option \<Rightarrow> bool" where
  "equal_floats a b \<longleftrightarrow> (case (a, b) of (Some x, Some y) \<Rightarrow> f_eq x y | (None, None) \<Rightarrow> True | _ \<Rightarrow> False)"

definition equalState :: "FactValueState option \<Rightarrow> FactValueState option \<Rightarrow> bool" where
  "equalState a b \<longleftrightarrow>
     (case (a, b) of
        (Some x, Some y) \<Rightarrow> equal_floats (fs_num x) (fs_num y) \<and> fs_str x = fs_str y
      | (None, None) \<Rightarrow> True
      | _ \<Rightarrow> False)"

subsection \<open>One delta\<close>

record FactDelta =
  fd_fact :: string
  fd_revision :: int
  fd_viewer :: viewer
  fd_subjectName :: "string option"
  fd_op :: string
  fd_num :: "f64 option"
  fd_str :: "string option"

record FactBatch =
  fb_source :: string
  fb_event :: string
  fb_occurredAt :: int
  fb_stamp :: string
  fb_skipDedupe :: bool
  fb_deltas :: "FactDelta list"

record FactChange =
  fc_fact :: string
  fc_viewer :: viewer
  fc_window :: string
  fc_subjectName :: "string option"
  fc_before :: "FactValueState option"
  fc_after :: FactValueState

record FactApplyResult =
  Applied :: bool
  Changes :: "FactChange list"
  Dropped :: nat
  Invalid :: nat
  Skipped :: nat

definition check_delta :: "deltaDefinition \<Rightarrow> FactDelta \<Rightarrow> bool" where
  "check_delta d delta \<longleftrightarrow>
     fd_op delta = dd_fn d
     \<and> (case fd_num delta of None \<Rightarrow> True | Some x \<Rightarrow> \<not> is_nan x \<and> \<not> is_inf x)
     \<and> (dd_fn d \<in> {''sum'', ''min'', ''max''} \<longrightarrow> fd_num delta \<noteq> None \<and> fd_str delta = None)
     \<and> (dd_fn d = ''last'' \<longrightarrow>
          (fd_num delta = None) \<noteq> (fd_str delta = None)
          \<and> (fd_num delta \<noteq> None) = (dd_valueKind d = ''number''))"

datatype deltaOutcome = deltaFolded | deltaSkipped | deltaInvalid

definition needs_session :: "deltaDefinition \<Rightarrow> FactDelta \<Rightarrow> bool" where
  "needs_session d delta \<longleftrightarrow> dd_windowKind d = ''session'' \<or> fd_op delta \<in> {''sessions'', ''session_streak''}"

definition batch_session :: "FactBatch \<Rightarrow> fact_db \<Rightarrow> SessionRef" where
  "batch_session b db = SessionAt (stream_sessions db) (fb_occurredAt b) (fb_stamp b)"

definition window_of :: "FactBatch \<Rightarrow> fact_db \<Rightarrow> deltaDefinition \<Rightarrow> string" where
  "window_of b db d = (if dd_windowKind d = ''session'' then sr_id (batch_session b db) else '''')"

definition delta_fold :: "FactBatch \<Rightarrow> fact_db \<Rightarrow> deltaDefinition \<Rightarrow> FactDelta \<Rightarrow> FactValueState option \<Rightarrow> FactFold" where
  "delta_fold b db d delta before =
     (let session = (if needs_session d delta then batch_session b db else \<lparr>sr_id = '''', sr_started = 0\<rparr>);
          f = \<lparr>ff_op = fd_op delta, ff_num = fd_num delta, ff_str = fd_str delta, ff_occurredAt = fb_occurredAt b,
               ff_session = sr_id session, ff_sessionStartedAt = sr_started session, ff_previous = ''''\<rparr>
      in if fd_op delta = ''session_streak'' \<and> countsNewSession f before \<and> before \<noteq> None
         then f\<lparr>ff_previous := PreviousSessionID (stream_sessions db) (sr_id (batch_session b db)) (fb_occurredAt b)\<rparr>
         else f)"

definition applyDelta ::
  "FactBatch \<Rightarrow> deltaDefinition \<Rightarrow> FactDelta \<Rightarrow> fact_db \<Rightarrow> (deltaOutcome \<times> FactChange option) \<times> fact_db" where
  "applyDelta b d delta db =
     (if needs_session d delta \<and> sr_id (batch_session b db) = '''' then ((deltaSkipped, None), db)
      else
        let key = (fd_fact delta, fd_viewer delta, window_of b db d);
            row = map_of (fact_values db) key;
            before = Option.map_option fst row;
            stored = Option.bind row snd
        in case FactFold_Apply (delta_fold b db d delta before) before of
             None \<Rightarrow> ((deltaInvalid, None), db)
           | Some after \<Rightarrow>
               let name = (if fd_subjectName delta \<noteq> None then fd_subjectName delta else stored);
                   db' = db\<lparr>fact_values := AList.update key (after, name) (fact_values db)\<rparr>
               in if equalState before (Some after)
                  then ((deltaFolded, None),
                        if Option.bind before fs_at = fs_at after \<and> name = stored then db else db')
                  else ((deltaFolded, Some \<lparr>fc_fact = fd_fact delta, fc_viewer = fd_viewer delta,
                           fc_window = window_of b db d, fc_subjectName = name, fc_before = before, fc_after = after\<rparr>), db'))"

subsection \<open>A batch\<close>

definition delta_key :: "FactDelta \<Rightarrow> string list" where
  "delta_key d = [fd_fact d, fst (fd_viewer d), snd (fd_viewer d)]"

definition sameViewerFact :: "FactDelta \<Rightarrow> FactDelta \<Rightarrow> bool" where
  "sameViewerFact a b \<longleftrightarrow> fd_fact a = fd_fact b \<and> fd_viewer a = fd_viewer b"

definition apply_delta_step ::
  "FactBatch \<Rightarrow> FactDelta option \<Rightarrow> FactDelta \<Rightarrow> FactApplyResult \<times> fact_db \<Rightarrow> FactApplyResult \<times> fact_db" where
  "apply_delta_step b previous delta rd =
     (case rd of (r, db) \<Rightarrow>
        case definitions db (fd_fact delta) of
          None \<Rightarrow> (r\<lparr>Dropped := Dropped r + 1\<rparr>, db)
        | Some d \<Rightarrow>
            if dd_revision d \<noteq> fd_revision delta then (r\<lparr>Dropped := Dropped r + 1\<rparr>, db)
            else if (case previous of None \<Rightarrow> False | Some p \<Rightarrow> sameViewerFact p delta) then (r\<lparr>Invalid := Invalid r + 1\<rparr>, db)
            else if \<not> check_delta d delta then (r\<lparr>Invalid := Invalid r + 1\<rparr>, db)
            else (case applyDelta b d delta db of
                    ((deltaSkipped, _), db') \<Rightarrow> (r\<lparr>Skipped := Skipped r + 1\<rparr>, db')
                  | ((deltaInvalid, _), db') \<Rightarrow> (r\<lparr>Invalid := Invalid r + 1\<rparr>, db')
                  | ((deltaFolded, None), db') \<Rightarrow> (r, db')
                  | ((deltaFolded, Some c), db') \<Rightarrow> (r\<lparr>Changes := Changes r @ [c]\<rparr>, db')))"

fun apply_deltas ::
  "FactBatch \<Rightarrow> FactDelta option \<Rightarrow> FactDelta list \<Rightarrow> FactApplyResult \<times> fact_db \<Rightarrow> FactApplyResult \<times> fact_db" where
  "apply_deltas b previous [] rd = rd"
| "apply_deltas b previous (d # ds) rd = apply_deltas b (Some d) ds (apply_delta_step b previous d rd)"

datatype batch_error = OccurredAtRequired | SourceAndEventRequired

text \<open>Go's zero time, in nanoseconds since 1970.\<close>

definition zero_time :: int where "zero_time = - 62135596800 * 1000000000"

definition ApplyThen :: "FactBatch \<Rightarrow> fact_db \<Rightarrow> (batch_error, FactApplyResult \<times> fact_db) res" where
  "ApplyThen b db =
     (let r0 = \<lparr>Applied = False, Changes = [], Dropped = 0, Invalid = 0, Skipped = 0\<rparr> in
      if fb_occurredAt b = zero_time then Inl OccurredAtRequired
      else if \<not> fb_skipDedupe b \<and> (fb_source b = '''' \<or> fb_event b = '''') then Inl SourceAndEventRequired
      else if \<not> fb_skipDedupe b \<and> (fb_source b, fb_event b) \<in> applied_events db then Inr (r0, db)
      else
        let db1 = (if fb_skipDedupe b then db
                   else db\<lparr>applied_events := insert (fb_source b, fb_event b) (applied_events db)\<rparr>)
        in Inr (apply_deltas b None (sort_key delta_key (fb_deltas b)) (r0\<lparr>Applied := True\<rparr>, db1)))"

subsection \<open>What a batch changes\<close>

definition stored_value :: "fact_db \<Rightarrow> value_key \<Rightarrow> FactValueState option" where
  "stored_value db k = Option.map_option fst (map_of (fact_values db) k)"

text \<open>Values a reader cannot tell apart: the same, or equal as the code compares them.\<close>

definition same_value :: "FactValueState option \<Rightarrow> FactValueState option \<Rightarrow> bool" where
  "same_value a b \<longleftrightarrow> a = b \<or> equalState a b"

definition change_key :: "FactChange \<Rightarrow> value_key" where
  "change_key c = (fc_fact c, fc_viewer c, fc_window c)"

definition order_key :: "string \<Rightarrow> viewer \<Rightarrow> string list" where
  "order_key f v = [f, fst v, snd v]"

lemma order_key_inj: "order_key f v = order_key g w \<longleftrightarrow> f = g \<and> v = w"
  by (auto simp: order_key_def prod_eq_iff)

lemma delta_key_order: "delta_key d = order_key (fd_fact d) (fd_viewer d)"
  by (simp add: delta_key_def order_key_def)

lemma sameViewerFact_iff: "sameViewerFact a b \<longleftrightarrow> delta_key a = delta_key b"
  by (simp add: sameViewerFact_def delta_key_order order_key_inj)

text \<open>What one delta may do to the tables and the changes it reports.\<close>

definition delta_effect ::
  "FactBatch \<Rightarrow> FactDelta \<Rightarrow> fact_db \<Rightarrow> FactChange option \<Rightarrow> fact_db \<Rightarrow> bool" where
  "delta_effect b delta db change db' \<longleftrightarrow>
     definitions db' = definitions db \<and> stream_sessions db' = stream_sessions db
     \<and> (\<forall>f v w. \<not> (f = fd_fact delta \<and> v = fd_viewer delta) \<longrightarrow> stored_value db' (f, v, w) = stored_value db (f, v, w))
     \<and> (case change of
          None \<Rightarrow> \<forall>k. same_value (stored_value db k) (stored_value db' k)
        | Some c \<Rightarrow>
            fc_fact c = fd_fact delta \<and> fc_viewer c = fd_viewer delta
            \<and> (\<exists>d. definitions db (fd_fact delta) = Some d \<and> fc_window c = window_of b db d)
            \<and> fc_before c = stored_value db (change_key c) \<and> stored_value db' (change_key c) = Some (fc_after c)
            \<and> \<not> equalState (fc_before c) (Some (fc_after c))
            \<and> (\<forall>k. k \<noteq> change_key c \<longrightarrow> stored_value db' k = stored_value db k))"

lemma stored_update:
  "stored_value (db\<lparr>fact_values := AList.update k (x, n) (fact_values db)\<rparr>) k' = (if k' = k then Some x else stored_value db k')"
  by (simp add: stored_value_def update_conv')

lemma applyDelta_effect:
  assumes "definitions db (fd_fact delta) = Some d" and "applyDelta b d delta db = ((out, change), db')"
  shows "delta_effect b delta db change db'"
proof -
  let ?k = "(fd_fact delta, fd_viewer delta, window_of b db d)"
  let ?before = "stored_value db ?k"
  have same: "delta_effect b delta db None db" by (simp add: delta_effect_def same_value_def)
  show ?thesis
  proof (cases "needs_session d delta \<and> sr_id (batch_session b db) = ''''")
    case True
    then show ?thesis using assms(2) same by (simp add: applyDelta_def)
  next
    case False
    show ?thesis
    proof (cases "FactFold_Apply (delta_fold b db d delta ?before) ?before")
      case None
      then show ?thesis using assms(2) same False by (simp add: applyDelta_def Let_def stored_value_def)
    next
      case (Some after)
      define name where "name = (if fd_subjectName delta \<noteq> None then fd_subjectName delta
        else Option.bind (map_of (fact_values db) ?k) snd)"
      define db1 where "db1 = db\<lparr>fact_values := AList.update ?k (after, name) (fact_values db)\<rparr>"
      have v: "stored_value db1 k = (if k = ?k then Some after else stored_value db k)" for k
        by (simp add: db1_def stored_update)
      have e: "applyDelta b d delta db =
          (if equalState ?before (Some after)
           then ((deltaFolded, None), if Option.bind ?before fs_at = fs_at after \<and> name = Option.bind (map_of (fact_values db) ?k) snd then db else db1)
           else ((deltaFolded, Some \<lparr>fc_fact = fd_fact delta, fc_viewer = fd_viewer delta, fc_window = window_of b db d,
                    fc_subjectName = name, fc_before = ?before, fc_after = after\<rparr>), db1))"
        using False Some by (auto simp: applyDelta_def Let_def stored_value_def name_def db1_def)
      have d1: "definitions db1 = definitions db" "stream_sessions db1 = stream_sessions db" by (simp_all add: db1_def)
      show ?thesis
      proof (cases "equalState ?before (Some after)")
        case True
        have "delta_effect b delta db None db1" using True d1 v by (auto simp: delta_effect_def same_value_def)
        then show ?thesis using assms(2) e True same by (auto split: if_splits)
      next
        case False
        then have "change = Some \<lparr>fc_fact = fd_fact delta, fc_viewer = fd_viewer delta, fc_window = window_of b db d,
                    fc_subjectName = name, fc_before = ?before, fc_after = after\<rparr>" "db' = db1"
          using assms(2) by (simp_all add: e)
        then show ?thesis using assms(1) False d1 v by (simp add: delta_effect_def change_key_def)
      qed
    qed
  qed
qed

definition beyond :: "FactDelta option \<Rightarrow> string list \<Rightarrow> bool" where
  "beyond previous k \<longleftrightarrow> (case previous of None \<Rightarrow> True | Some p \<Rightarrow> delta_key p < k)"

text \<open>The state between two deltas of a sorted batch.\<close>

definition batch_inv :: "FactBatch \<Rightarrow> fact_db \<Rightarrow> FactDelta option \<Rightarrow> FactChange list \<Rightarrow> fact_db \<Rightarrow> bool" where
  "batch_inv b db0 previous cs db \<longleftrightarrow>
     definitions db = definitions db0 \<and> stream_sessions db = stream_sessions db0
     \<and> distinct (map (\<lambda>c. order_key (fc_fact c) (fc_viewer c)) cs)
     \<and> (\<forall>c \<in> set cs. \<not> beyond previous (order_key (fc_fact c) (fc_viewer c))
          \<and> (\<exists>d. definitions db0 (fc_fact c) = Some d \<and> fc_window c = window_of b db0 d)
          \<and> fc_before c = stored_value db0 (change_key c) \<and> stored_value db (change_key c) = Some (fc_after c)
          \<and> \<not> equalState (fc_before c) (Some (fc_after c)))
     \<and> (\<forall>k. k \<notin> change_key ` set cs \<longrightarrow> same_value (stored_value db0 k) (stored_value db k))
     \<and> (\<forall>f v w. beyond previous (order_key f v) \<longrightarrow> stored_value db (f, v, w) = stored_value db0 (f, v, w))"

lemma batch_inv_away:
  "batch_inv b db0 previous cs db \<Longrightarrow> beyond previous (order_key f v) \<Longrightarrow> stored_value db (f, v, w) = stored_value db0 (f, v, w)"
  unfolding batch_inv_def by blast

lemma batch_inv_same:
  "batch_inv b db0 previous cs db \<Longrightarrow> k \<notin> change_key ` set cs \<Longrightarrow> same_value (stored_value db0 k) (stored_value db k)"
  unfolding batch_inv_def by blast

lemma delta_effect_away:
  "delta_effect b delta db change db' \<Longrightarrow> \<not> (f = fd_fact delta \<and> v = fd_viewer delta) \<Longrightarrow>
     stored_value db' (f, v, w) = stored_value db (f, v, w)"
  unfolding delta_effect_def by blast

lemma delta_effect_None: "delta_effect b delta db None db' \<Longrightarrow> same_value (stored_value db k) (stored_value db' k)"
  unfolding delta_effect_def option.case by blast

lemma delta_effect_Some:
  assumes "delta_effect b delta db (Some c) db'"
  shows "fc_fact c = fd_fact delta" "fc_viewer c = fd_viewer delta"
    "\<exists>d. definitions db (fd_fact delta) = Some d \<and> fc_window c = window_of b db d"
    "fc_before c = stored_value db (change_key c)" "stored_value db' (change_key c) = Some (fc_after c)"
    "\<not> equalState (fc_before c) (Some (fc_after c))"
    "k \<noteq> change_key c \<Longrightarrow> stored_value db' k = stored_value db k"
  using assms unfolding delta_effect_def option.case by blast+

lemma batch_inv_skip:
  assumes "batch_inv b db0 previous cs db" and "\<And>k. beyond (Some d) k \<Longrightarrow> beyond previous k"
  shows "batch_inv b db0 (Some d) cs db"
  using assms unfolding batch_inv_def by blast

lemma window_of_sessions: "stream_sessions db = stream_sessions db0 \<Longrightarrow> window_of b db d = window_of b db0 d"
  by (simp add: window_of_def batch_session_def)

lemma batch_inv_effect:
  assumes inv: "batch_inv b db0 previous cs db" and eff: "delta_effect b d db change db'"
    and new: "beyond previous (delta_key d)" and up: "\<And>k. beyond (Some d) k \<Longrightarrow> beyond previous k"
  shows "batch_inv b db0 (Some d) (cs @ (case change of None \<Rightarrow> [] | Some c \<Rightarrow> [c])) db'"
proof -
  have old: "change_key c \<noteq> (fd_fact d, fd_viewer d, w)" if "c \<in> set cs" for c w
    using inv that new by (auto simp: batch_inv_def change_key_def delta_key_order)
  have far: "\<not> beyond (Some d) (delta_key d)" by (simp add: beyond_def)
  have here: "stored_value db (fd_fact d, fd_viewer d, w) = stored_value db0 (fd_fact d, fd_viewer d, w)" for w
    using batch_inv_away [OF inv] new by (simp only: delta_key_order)
  have tables: "definitions db' = definitions db0" "stream_sessions db' = stream_sessions db0"
    "stream_sessions db = stream_sessions db0" "definitions db = definitions db0"
    using inv eff by (simp_all add: batch_inv_def delta_effect_def)
  have away: "stored_value db' (f, v, w) = stored_value db0 (f, v, w)" if "beyond (Some d) (order_key f v)" for f v w
  proof -
    have "\<not> (f = fd_fact d \<and> v = fd_viewer d)" using that far by (auto simp: delta_key_order)
    then have "stored_value db' (f, v, w) = stored_value db (f, v, w)" by (rule delta_effect_away [OF eff])
    then show ?thesis using batch_inv_away [OF inv up [OF that]] by simp
  qed
  have kept: "stored_value db' (change_key c) = stored_value db (change_key c)" if "c \<in> set cs" for c
  proof -
    have "\<not> (fc_fact c = fd_fact d \<and> fc_viewer c = fd_viewer d)" using old [OF that] by (auto simp: change_key_def)
    then show ?thesis unfolding change_key_def by (rule delta_effect_away [OF eff])
  qed
  have cs: "\<forall>c \<in> set cs. \<not> beyond (Some d) (order_key (fc_fact c) (fc_viewer c))
          \<and> (\<exists>e. definitions db0 (fc_fact c) = Some e \<and> fc_window c = window_of b db0 e)
          \<and> fc_before c = stored_value db0 (change_key c) \<and> stored_value db' (change_key c) = Some (fc_after c)
          \<and> \<not> equalState (fc_before c) (Some (fc_after c))"
    using inv up kept unfolding batch_inv_def by metis
  show ?thesis
  proof (cases change)
    case None
    have "same_value (stored_value db0 k) (stored_value db' k)" if "k \<notin> change_key ` set cs" for k
    proof (cases k)
      case (fields f v w)
      show ?thesis
      proof (cases "f = fd_fact d \<and> v = fd_viewer d")
        case True
        then show ?thesis using delta_effect_None [of b d db db' k] eff None here [of w] fields by simp
      next
        case False
        then have "stored_value db' k = stored_value db k" unfolding fields by (rule delta_effect_away [OF eff])
        then show ?thesis using batch_inv_same [OF inv that] by simp
      qed
    qed
    then show ?thesis using tables inv cs away None by (simp add: batch_inv_def)
  next
    case (Some c)
    note c = delta_effect_Some [OF eff [unfolded Some]]
    obtain e where e: "definitions db0 (fc_fact c) = Some e" "fc_window c = window_of b db0 e"
      using c(1,3) tables window_of_sessions [OF tables(3)] by auto
    have "fc_before c = stored_value db0 (change_key c)" using c here by (simp add: change_key_def)
    moreover have "order_key (fc_fact c) (fc_viewer c) \<notin> set (map (\<lambda>c. order_key (fc_fact c) (fc_viewer c)) cs)"
      using inv new c(1,2) by (auto simp: batch_inv_def delta_key_order)
    moreover have "same_value (stored_value db0 k) (stored_value db' k)" if "k \<notin> change_key ` set (cs @ [c])" for k
      using that c(7) [of k] batch_inv_same [OF inv, of k] by simp
    moreover have "\<not> beyond (Some d) (order_key (fc_fact c) (fc_viewer c))" using far c(1,2) by (simp add: delta_key_order)
    ultimately show ?thesis using tables inv cs away c(5,6) e by (simp add: batch_inv_def Some)
  qed
qed

lemma beyond_mono:
  assumes "case previous of None \<Rightarrow> True | Some p \<Rightarrow> delta_key p \<le> delta_key d" and "beyond (Some d) k"
  shows "beyond previous k"
proof (cases previous)
  case (Some p)
  then show ?thesis using assms order.strict_trans1 [of "delta_key p" "delta_key d" k] by (simp add: beyond_def)
qed (simp add: beyond_def)

lemma step_inv:
  assumes inv: "batch_inv b db0 previous (Changes r) db"
    and ord: "case previous of None \<Rightarrow> True | Some p \<Rightarrow> delta_key p \<le> delta_key d"
    and step: "apply_delta_step b previous d (r, db) = (r', db')"
  shows "batch_inv b db0 (Some d) (Changes r') db'"
proof -
  note up = beyond_mono [OF ord]
  have skip: "batch_inv b db0 (Some d) (Changes r) db" using batch_inv_skip [OF inv up] .
  show ?thesis
  proof (cases "definitions db (fd_fact d)")
    case None
    then show ?thesis using step skip by (auto simp: apply_delta_step_def)
  next
    case (Some e)
    let ?dup = "case previous of None \<Rightarrow> False | Some p \<Rightarrow> sameViewerFact p d"
    show ?thesis
    proof (cases "dd_revision e \<noteq> fd_revision d \<or> ?dup \<or> \<not> check_delta e d")
      case True
      then show ?thesis using step skip Some by (auto simp: apply_delta_step_def split: if_splits)
    next
      case False
      then have new: "beyond previous (delta_key d)"
        using ord by (auto simp: beyond_def sameViewerFact_iff less_le split: option.splits)
      obtain out change db2 where a: "applyDelta b e d db = ((out, change), db2)" by (metis prod.collapse)
      have res: "batch_inv b db0 (Some d) (Changes r @ (case change of None \<Rightarrow> [] | Some c \<Rightarrow> [c])) db2"
        using batch_inv_effect [OF inv applyDelta_effect [OF Some a] new up] .
      have none: "change = None" if "out \<noteq> deltaFolded"
        using a that by (auto simp: applyDelta_def Let_def split: if_splits option.splits)
      show ?thesis
        using step res none Some False a
        by (auto simp: apply_delta_step_def split: deltaOutcome.splits option.splits)
    qed
  qed
qed

lemma apply_deltas_inv:
  assumes "batch_inv b db0 previous (Changes r) db" and "sorted (map delta_key ds)"
    and "\<forall>d \<in> set ds. case previous of None \<Rightarrow> True | Some p \<Rightarrow> delta_key p \<le> delta_key d"
    and "apply_deltas b previous ds (r, db) = (r', db')"
  shows "\<exists>p. batch_inv b db0 p (Changes r') db'"
  using assms
proof (induction ds arbitrary: previous r db)
  case (Cons d ds)
  obtain r1 db1 where s: "apply_delta_step b previous d (r, db) = (r1, db1)" by (metis prod.collapse)
  have "batch_inv b db0 (Some d) (Changes r1) db1" using step_inv [OF Cons.prems(1) _ s] Cons.prems(3) by simp
  then show ?case using Cons.IH [of "Some d" r1 db1] Cons.prems(2,4) s by simp
qed auto

lemma batch_inv_init: "batch_inv b db None [] db"
  by (simp add: batch_inv_def same_value_def)

lemma batch_inv_applied: "batch_inv b (db\<lparr>applied_events := A\<rparr>) p cs db' \<longleftrightarrow> batch_inv b db p cs db'"
  by (simp add: batch_inv_def stored_value_def window_of_def batch_session_def)

lemma ApplyThen_inv:
  assumes "ApplyThen b db = Inr (r, db')"
  shows "\<exists>p. batch_inv b db p (Changes r) db'"
proof (cases "\<not> fb_skipDedupe b \<and> (fb_source b, fb_event b) \<in> applied_events db")
  case True
  then have "Changes r = []" "db' = db" using assms by (auto simp: ApplyThen_def Let_def split: if_splits)
  then show ?thesis using batch_inv_init by auto
next
  case False
  define db1 where "db1 = (if fb_skipDedupe b then db
    else db\<lparr>applied_events := insert (fb_source b, fb_event b) (applied_events db)\<rparr>)"
  define r0 where "r0 = \<lparr>Applied = True, Changes = [], Dropped = 0, Invalid = 0, Skipped = 0\<rparr>"
  have "apply_deltas b None (sort_key delta_key (fb_deltas b)) (r0, db1) = (r, db')"
    using assms False by (auto simp: ApplyThen_def Let_def db1_def r0_def split: if_splits)
  moreover have "batch_inv b db1 None (Changes r0) db1" using batch_inv_init by (simp add: r0_def)
  ultimately have "\<exists>p. batch_inv b db1 p (Changes r) db'"
    using apply_deltas_inv [of b db1 None r0 db1 "sort_key delta_key (fb_deltas b)" r db'] by simp
  then show ?thesis by (cases "fb_skipDedupe b") (simp_all add: db1_def batch_inv_applied)
qed

lemma distinct_map_order_key:
  "distinct (map (\<lambda>c. order_key (fc_fact c) (fc_viewer c)) cs) = distinct (map (\<lambda>c. (fc_fact c, fc_viewer c)) cs)"
  by (induction cs) (auto simp: order_key_inj)

text \<open>
  C34. The changes a batch reports are exactly what it changed: at most one of each fact of each viewer,
  with the value stored before and the one stored after, which differ; every other value is as it was.
\<close>

theorem changes_are_what_changed:
  assumes "ApplyThen b db = Inr (r, db')"
  shows "distinct (map (\<lambda>c. (fc_fact c, fc_viewer c)) (Changes r))
    \<and> (\<forall>c \<in> set (Changes r). fc_before c = stored_value db (change_key c) \<and> Some (fc_after c) = stored_value db' (change_key c)
         \<and> \<not> equalState (fc_before c) (Some (fc_after c)))
    \<and> (\<forall>k. k \<notin> change_key ` set (Changes r) \<longrightarrow> same_value (stored_value db k) (stored_value db' k))"
proof -
  obtain p where inv: "batch_inv b db p (Changes r) db'" using ApplyThen_inv [OF assms] by blast
  have d: "distinct (map (\<lambda>c. (fc_fact c, fc_viewer c)) (Changes r))"
    using inv by (simp add: batch_inv_def distinct_map_order_key)
  have c: "\<forall>c \<in> set (Changes r). fc_before c = stored_value db (change_key c) \<and> Some (fc_after c) = stored_value db' (change_key c)
         \<and> \<not> equalState (fc_before c) (Some (fc_after c))"
    using inv unfolding batch_inv_def by metis
  show ?thesis using d c batch_inv_same [OF inv] by (intro conjI allI impI)
qed

text \<open>Two viewers chat in a session; one delta is out of date and one repeats another.\<close>

definition chat_db :: fact_db where
  "chat_db = \<lparr>definitions = [''u:fact:chats'' \<mapsto> \<lparr>dd_revision = 2, dd_windowKind = ''session'', dd_valueKind = ''number'', dd_fn = ''count''\<rparr>],
     fact_values = [], applied_events = {}, stream_sessions = [\<lparr>ss_id = ''s1'', ss_started = 0, ss_live = True\<rparr>]\<rparr>"

definition chat_delta :: "string \<Rightarrow> int \<Rightarrow> FactDelta" where
  "chat_delta viewer revision = \<lparr>fd_fact = ''u:fact:chats'', fd_revision = revision, fd_viewer = (''twitch'', viewer),
     fd_subjectName = None, fd_op = ''count'', fd_num = None, fd_str = None\<rparr>"

definition chat_batch :: FactBatch where
  "chat_batch = \<lparr>fb_source = ''twitch'', fb_event = ''e1'', fb_occurredAt = 5000000, fb_stamp = '''', fb_skipDedupe = False,
     fb_deltas = [chat_delta ''b'' 2, chat_delta ''a'' 2, chat_delta ''a'' 2, chat_delta ''c'' 1]\<rparr>"

definition chat_result :: "FactApplyResult \<times> fact_db" where
  "chat_result = (case ApplyThen chat_batch chat_db of Inr rd \<Rightarrow> rd | Inl _ \<Rightarrow> (\<lparr>Applied = False, Changes = [], Dropped = 0, Invalid = 0, Skipped = 0\<rparr>, chat_db))"

lemma chat_applied: "map change_key (Changes (fst chat_result)) = [(''u:fact:chats'', (''twitch'', ''a''), ''s1''), (''u:fact:chats'', (''twitch'', ''b''), ''s1'')]"
  "Dropped (fst chat_result) = 1" "Invalid (fst chat_result) = 1"
  by code_simp+

lemma chat_inr: "ApplyThen chat_batch chat_db = Inr chat_result"
proof -
  have "\<exists>rd. ApplyThen chat_batch chat_db = Inr rd"
    by (simp add: ApplyThen_def chat_batch_def chat_db_def Let_def zero_time_def)
  then show ?thesis by (auto simp: chat_result_def)
qed

theorem changes_are_what_changed_witness:
  "distinct (map (\<lambda>c. (fc_fact c, fc_viewer c)) (Changes (fst chat_result))) \<and> length (Changes (fst chat_result)) = 2
    \<and> same_value (stored_value chat_db (''u:fact:chats'', (''twitch'', ''c''), ''s1''))
          (stored_value (snd chat_result) (''u:fact:chats'', (''twitch'', ''c''), ''s1''))"
proof -
  have "ApplyThen chat_batch chat_db = Inr (fst chat_result, snd chat_result)" using chat_inr by simp
  note t = changes_are_what_changed [OF this]
  have l: "length (Changes (fst chat_result)) = 2" using arg_cong [OF chat_applied(1), of length] by simp
  have s: "change_key ` set (Changes (fst chat_result)) = {(''u:fact:chats'', (''twitch'', ''a''), ''s1''), (''u:fact:chats'', (''twitch'', ''b''), ''s1'')}"
    using arg_cong [OF chat_applied(1), of set] by simp
  have "same_value (stored_value chat_db k) (stored_value (snd chat_result) k)"
    if "k = (''u:fact:chats'', (''twitch'', ''c''), ''s1'')" for k
    using t that unfolding s by simp
  then show ?thesis using t l by blast
qed

fun apply_batches :: "FactBatch list \<Rightarrow> fact_db \<Rightarrow> fact_db" where
  "apply_batches [] db = db"
| "apply_batches (b # bs) db = apply_batches bs (case ApplyThen b db of Inl _ \<Rightarrow> db | Inr (r, db') \<Rightarrow> db')"

lemma applyDelta_applied: "applyDelta b d delta db = (x, db') \<Longrightarrow> applied_events db' = applied_events db"
  by (auto simp: applyDelta_def Let_def split: if_splits option.splits)

lemma step_applied: "applied_events (snd (apply_delta_step b previous d rd)) = applied_events (snd rd)"
proof (cases rd)
  case (Pair r db)
  have "applied_events (snd (applyDelta b e d db)) = applied_events db" for e
    using applyDelta_applied [of b e d db] by (metis prod.collapse)
  then show ?thesis
    by (auto simp: apply_delta_step_def Pair split: option.splits prod.splits deltaOutcome.splits) (metis snd_conv)+
qed

lemma deltas_applied: "applied_events (snd (apply_deltas b previous ds rd)) = applied_events (snd rd)"
  by (induction ds arbitrary: previous rd) (simp_all add: step_applied)

lemma ApplyThen_applied:
  assumes "ApplyThen b db = Inr (r, db')"
  shows "applied_events db \<subseteq> applied_events db'" "\<not> fb_skipDedupe b \<Longrightarrow> (fb_source b, fb_event b) \<in> applied_events db'"
proof -
  let ?r0 = "\<lparr>Applied = True, Changes = [], Dropped = 0, Invalid = 0, Skipped = 0\<rparr>"
  let ?db1 = "if fb_skipDedupe b then db else db\<lparr>applied_events := insert (fb_source b, fb_event b) (applied_events db)\<rparr>"
  have "applied_events db \<subseteq> applied_events db' \<and> (\<not> fb_skipDedupe b \<longrightarrow> (fb_source b, fb_event b) \<in> applied_events db')"
  proof (cases "\<not> fb_skipDedupe b \<and> (fb_source b, fb_event b) \<in> applied_events db")
    case True
    then show ?thesis using assms by (auto simp: ApplyThen_def Let_def split: if_splits)
  next
    case False
    then have "apply_deltas b None (sort_key delta_key (fb_deltas b)) (?r0, ?db1) = (r, db')"
      using assms by (auto simp: ApplyThen_def Let_def split: if_splits)
    then have "applied_events db' = applied_events ?db1"
      using deltas_applied [of b None "sort_key delta_key (fb_deltas b)" "(?r0, ?db1)"] by simp
    then show ?thesis by auto
  qed
  then show "applied_events db \<subseteq> applied_events db'" "\<not> fb_skipDedupe b \<Longrightarrow> (fb_source b, fb_event b) \<in> applied_events db'"
    by auto
qed

lemma batches_applied: "applied_events db \<subseteq> applied_events (apply_batches bs db)"
proof (induction bs arbitrary: db)
  case (Cons b bs)
  have "applied_events db \<subseteq> applied_events (case ApplyThen b db of Inl _ \<Rightarrow> db | Inr (r, db') \<Rightarrow> db')"
    using ApplyThen_applied(1) [of b db] by (auto split: sum.splits)
  then show ?case using Cons.IH by (metis apply_batches.simps(2) order_trans)
qed simp



end
