(* ===== verification/Segment_Members.thy ===== *)
theory Segment_Members
  imports Segment_Condition Fact_Fold "HOL-Library.Word"
begin

text \<open>
  Who is in a viewer segment, \<open>db/app/services/viewer_segment_service.go\<close> with the membership table of
  \<open>db/database/repository/viewer_segment_repository.go\<close> and the request of \<open>viewer_fact_service.go\<close>: what an event's changed facts do to the
  memberships of the viewers they belong to, the edges announced, and filling a segment from the
  stored values. Whether a fact is active is an argument: it depends on the registered triggers.
\<close>

subsection \<open>Facts and readings\<close>

record segmentFact =
  sf_valueKind :: string
  sf_windowKind :: string
  sf_active :: bool

definition loadSegmentFacts :: "(string \<Rightarrow> bool) \<Rightarrow> fact_db \<Rightarrow> string \<Rightarrow> segmentFact option" where
  "loadSegmentFacts active db f =
     Option.map_option (\<lambda>d. \<lparr>sf_valueKind = dd_valueKind d, sf_windowKind = dd_windowKind d, sf_active = active f\<rparr>) (definitions db f)"

definition segmentFrozen :: "segmentCondition \<Rightarrow> string list \<Rightarrow> (string \<Rightarrow> segmentFact option) \<Rightarrow> bool" where
  "segmentFrozen c ids facts \<longleftrightarrow>
     list_ex (\<lambda>i. case facts i of None \<Rightarrow> True | Some f \<Rightarrow> \<not> sf_active f) ids
     \<or> checkFacts c (\<lambda>i. Option.map_option sf_valueKind (facts i)) \<noteq> []"

definition segmentWindow :: "string list \<Rightarrow> (string \<Rightarrow> segmentFact option) \<Rightarrow> string" where
  "segmentWindow ids facts =
     (if list_ex (\<lambda>i. case facts i of None \<Rightarrow> False | Some f \<Rightarrow> sf_windowKind f = ''session'') ids then ''session'' else ''lifetime'')"

definition factWindowKey :: "segmentFact \<Rightarrow> string \<Rightarrow> string" where
  "factWindowKey f session = (if sf_windowKind f = ''session'' then session else '''')"

definition readingOf :: "FactValueState option \<Rightarrow> factReading option" where
  "readingOf state = Option.map_option (\<lambda>s. \<lparr>fr_num = fs_num s, fr_str = fs_str s\<rparr>) state"

text \<open>A row of \<open>FactValues\<close>: of one of the facts, in the lifetime window or the session's.\<close>

definition FactValues ::
  "fact_db \<Rightarrow> string list \<Rightarrow> string \<Rightarrow> viewer option \<Rightarrow> (value_key \<times> FactValueState \<times> string option) list" where
  "FactValues db ids session who =
     [(k, row) \<leftarrow> fact_values db.
        fst k \<in> set ids \<and> snd (snd k) \<in> set ('''' # (if session \<noteq> '''' then [session] else []))
        \<and> (case who of None \<Rightarrow> True | Some v \<Rightarrow> fst (snd k) = v)]"

definition readable_row :: "(string \<Rightarrow> segmentFact option) \<Rightarrow> string \<Rightarrow> value_key \<Rightarrow> bool" where
  "readable_row facts session k \<longleftrightarrow>
     (case facts (fst k) of None \<Rightarrow> False | Some f \<Rightarrow> sf_active f \<and> snd (snd k) = factWindowKey f session)"

text \<open>The readings of one viewer, and the viewers that have one.\<close>

definition readingsByViewer ::
  "(value_key \<times> FactValueState \<times> string option) list \<Rightarrow> (string \<Rightarrow> segmentFact option) \<Rightarrow> string \<Rightarrow> viewer \<Rightarrow> string
   \<Rightarrow> factReading option" where
  "readingsByViewer rows facts session who f =
     readingOf (Option.map_option fst (map_of
       [((fst k), s) . (k, s) \<leftarrow> rows, readable_row facts session k \<and> fst (snd k) = who] f))"

definition viewersWithReadings ::
  "(value_key \<times> FactValueState \<times> string option) list \<Rightarrow> (string \<Rightarrow> segmentFact option) \<Rightarrow> string \<Rightarrow> viewer list" where
  "viewersWithReadings rows facts session = remdups [fst (snd k) . (k, s) \<leftarrow> rows, readable_row facts session k]"
subsection \<open>Segments and memberships\<close>

text \<open>A stored condition is held compiled; \<open>sd_reads\<close> is the segment's rows of \<open>segment_facts\<close>.\<close>

record SegmentDefinition =
  sd_id :: string
  sd_condition :: segmentCondition
  sd_reads :: "string list"
  sd_windowKind :: string
  sd_timeRelative :: bool
  sd_stale :: bool

text \<open>The membership of a viewer in a segment: its window and when the viewer entered.\<close>

type_synonym members = "((string \<times> viewer) \<times> (string \<times> int)) list"

definition Enter :: "string \<times> viewer \<Rightarrow> string \<Rightarrow> int \<Rightarrow> members \<Rightarrow> bool \<times> members" where
  "Enter k window entered mem =
     (case map_of mem k of
        Some (w, e) \<Rightarrow> if w = window then (False, mem) else (True, AList.update k (window, entered) mem)
      | None \<Rightarrow> (True, AList.update k (window, entered) mem))"

definition Leave :: "string \<times> viewer \<Rightarrow> members \<Rightarrow> bool \<times> members" where
  "Leave k mem = (map_of mem k \<noteq> None, AList.delete k mem)"

subsection \<open>Edges\<close>

datatype segment_edge = SubjectViewerSegmentEntered | SubjectViewerSegmentLeft

datatype plain_value = PlainNull | PlainNum f64 | PlainStr string

definition plainReading :: "factReading option \<Rightarrow> string \<Rightarrow> plain_value" where
  "plainReading r kind =
     (case r of
        None \<Rightarrow> PlainNull
      | Some x \<Rightarrow>
          if kind = ''string'' then (case fr_str x of None \<Rightarrow> PlainNull | Some s \<Rightarrow> PlainStr s)
          else (case fr_num x of None \<Rightarrow> PlainNull | Some n \<Rightarrow> PlainNum n))"

definition parseCanonicalID :: "string \<Rightarrow> (string \<times> string \<times> string) option" where
  "parseCanonicalID s =
     (case split_on (CHR '':'') s of
        [a, b, c] \<Rightarrow> if a = '''' \<or> b = '''' \<or> c = '''' then None else Some (a, b, c)
      | _ \<Rightarrow> None)"

record segmentEdgeEvent =
  ed_edge :: segment_edge
  ed_segment :: string
  ed_viewer :: viewer
  ed_viewerName :: string
  ed_session :: string
  ed_facts :: "((string \<times> string) \<times> (plain_value \<times> plain_value)) list"
  ed_source :: string
  ed_event :: string
  ed_extensions :: "(string \<times> string) list"

definition edgeExtensions :: "viewer \<Rightarrow> string \<Rightarrow> (string \<times> string) list" where
  "edgeExtensions v session = (''platform'', fst v) # (if session \<noteq> '''' then [(''sessionid'', session)] else [])"

subsection \<open>What an event does to one viewer\<close>

record segmentApply =
  sa_db :: fact_db
  sa_facts :: "string \<Rightarrow> segmentFact option"
  sa_batch :: FactBatch
  sa_now :: int
  sa_announce :: bool

definition eventSession :: "segmentApply \<Rightarrow> string" where
  "eventSession a = sr_id (batch_session (sa_batch a) (sa_db a))"

definition sessionCurrent :: "segmentApply \<Rightarrow> bool" where
  "sessionCurrent a \<longleftrightarrow>
     eventSession a \<noteq> ''''
     \<and> eventSession a = sr_id (SessionAt (stream_sessions (sa_db a)) (max (sa_now a) (fb_occurredAt (sa_batch a))) (fb_stamp (sa_batch a)))"

definition edgeEvent ::
  "segmentApply \<Rightarrow> segment_edge \<Rightarrow> SegmentDefinition \<Rightarrow> viewer \<Rightarrow> string \<Rightarrow> (string \<Rightarrow> factReading option)
   \<Rightarrow> (string \<Rightarrow> factReading option) \<Rightarrow> segmentEdgeEvent" where
  "edgeEvent a edge s v name before after =
     \<lparr>ed_edge = edge, ed_segment = sd_id s, ed_viewer = v, ed_viewerName = name, ed_session = eventSession a,
      ed_facts = concat (map (\<lambda>f. case parseCanonicalID f of
           None \<Rightarrow> []
         | Some (owner, kind, slug) \<Rightarrow>
             if kind \<noteq> ''fact'' then []
             else (let k = (case sa_facts a f of None \<Rightarrow> '''' | Some x \<Rightarrow> sf_valueKind x)
                   in [((owner, slug), (plainReading (before f) k, plainReading (after f) k))])) (sd_reads s)),
      ed_source = fb_source (sa_batch a), ed_event = fb_event (sa_batch a),
      ed_extensions = edgeExtensions v (eventSession a)\<rparr>"

definition affected_segments :: "segmentApply \<Rightarrow> FactChange list \<Rightarrow> SegmentDefinition list \<Rightarrow> SegmentDefinition list" where
  "affected_segments a changes live =
     [s \<leftarrow> live. list_ex (\<lambda>f. f \<in> fc_fact ` set changes) (sd_reads s)
        \<and> (segmentWindow (sd_reads s) (sa_facts a) = ''session'' \<longrightarrow> sessionCurrent a)]"

definition pass_session :: "segmentApply \<Rightarrow> SegmentDefinition list \<Rightarrow> string" where
  "pass_session a affected =
     (if list_ex (\<lambda>s. segmentWindow (sd_reads s) (sa_facts a) = ''session'') affected then eventSession a else '''')"

definition needed_facts :: "SegmentDefinition list \<Rightarrow> string list" where
  "needed_facts affected = remdups_adj (sort (concat (map sd_reads affected)))"

definition readings_after :: "segmentApply \<Rightarrow> viewer \<Rightarrow> SegmentDefinition list \<Rightarrow> string \<Rightarrow> factReading option" where
  "readings_after a v affected =
     (let session = pass_session a affected
      in readingsByViewer (FactValues (sa_db a) (needed_facts affected) session (Some v)) (sa_facts a) session v)"

text \<open>The readings before: those after, with each change of a current window undone.\<close>

definition undo_change ::
  "segmentApply \<Rightarrow> string \<Rightarrow> FactChange \<Rightarrow> (string \<Rightarrow> factReading option) \<Rightarrow> string \<Rightarrow> factReading option" where
  "undo_change a session c r =
     (case sa_facts a (fc_fact c) of
        None \<Rightarrow> r
      | Some f \<Rightarrow> if fc_window c \<noteq> factWindowKey f session then r else r(fc_fact c := readingOf (fc_before c)))"

definition readings_before ::
  "segmentApply \<Rightarrow> FactChange list \<Rightarrow> viewer \<Rightarrow> SegmentDefinition list \<Rightarrow> string \<Rightarrow> factReading option" where
  "readings_before a changes v affected =
     fold (undo_change a (pass_session a affected)) changes (readings_after a v affected)"

definition viewer_name :: "FactChange list \<Rightarrow> string" where
  "viewer_name changes =
     (case find (\<lambda>c. fc_subjectName c \<noteq> None \<and> fc_subjectName c \<noteq> Some '''') changes of
        None \<Rightarrow> '''' | Some c \<Rightarrow> the (fc_subjectName c))"

definition segment_window_key :: "segmentApply \<Rightarrow> string \<Rightarrow> SegmentDefinition \<Rightarrow> string" where
  "segment_window_key a session s = (if segmentWindow (sd_reads s) (sa_facts a) = ''session'' then session else '''')"

text \<open>One segment of the loop: the membership moved, and the edge to announce. \<open>stored\<close> are the rows read before the loop.\<close>

definition move_member ::
  "segmentApply \<Rightarrow> viewer \<Rightarrow> string \<Rightarrow> (string \<times> int) option \<Rightarrow> bool \<Rightarrow> SegmentDefinition \<Rightarrow> members
   \<Rightarrow> segment_edge option \<times> members" where
  "move_member a v windowKey row isIn s mem =
     (let k = (sd_id s, v);
          member = (case row of None \<Rightarrow> False | Some (w, e) \<Rightarrow> w = windowKey);
          (edge1, mem1) =
            (if isIn \<and> \<not> member
             then (case Enter k windowKey (fb_occurredAt (sa_batch a)) mem of
                     (entered, m) \<Rightarrow> (if entered then Some SubjectViewerSegmentEntered else None, m))
             else (None, mem))
      in if \<not> isIn \<and> row \<noteq> None
         then (case Leave k mem1 of (left, m) \<Rightarrow> (if left \<and> member then Some SubjectViewerSegmentLeft else edge1, m))
         else (edge1, mem1))"

definition segment_step ::
  "segmentApply \<Rightarrow> viewer \<Rightarrow> string \<Rightarrow> string \<Rightarrow> (string \<Rightarrow> factReading option) \<Rightarrow> (string \<Rightarrow> factReading option) \<Rightarrow> members
   \<Rightarrow> SegmentDefinition \<Rightarrow> segmentEdgeEvent list \<times> members \<Rightarrow> segmentEdgeEvent list \<times> members" where
  "segment_step a v name session before after stored s em =
     (let now = unix_milli (fb_occurredAt (sa_batch a));
          isIn = evaluate (sd_condition s) after now;
          (edge, mem) = move_member a v (segment_window_key a session s) (map_of stored (sd_id s, v)) isIn s (snd em);
          wasIn = evaluate (sd_condition s) before now;
          edge' = (if \<not> sd_timeRelative s then edge
                   else if \<not> wasIn \<and> isIn then Some SubjectViewerSegmentEntered
                   else if wasIn \<and> \<not> isIn then Some SubjectViewerSegmentLeft
                   else None)
      in case edge' of
           None \<Rightarrow> (fst em, mem)
         | Some e \<Rightarrow> if sa_announce a then (fst em @ [edgeEvent a e s v name before after], mem) else (fst em, mem))"

definition viewer_pass ::
  "segmentApply \<Rightarrow> FactChange list \<Rightarrow> SegmentDefinition list \<Rightarrow> viewer
   \<Rightarrow> segmentEdgeEvent list \<times> members \<Rightarrow> segmentEdgeEvent list \<times> members" where
  "viewer_pass a all_changes live v em =
     (let changes = [c \<leftarrow> all_changes. fc_viewer c = v];
          affected = affected_segments a changes live
      in if affected = [] then em
         else fold (segment_step a v (viewer_name changes) (pass_session a affected) (readings_before a changes v affected)
                (readings_after a v affected) (snd em)) affected em)"

subsection \<open>What an event does to everyone\<close>

text \<open>\<open>ViewerLockKey\<close> is FNV-1a on 64 bits, read as signed.\<close>

definition fnv1a :: "string \<Rightarrow> 64 word" where
  "fnv1a s = foldl (\<lambda>h c. (xor h (of_char c)) * 1099511628211) 14695981039346656037 s"

definition ViewerLockKey :: "viewer \<Rightarrow> int" where
  "ViewerLockKey v = sint (fnv1a (fst v @ ''|'' @ snd v))"

text \<open>The viewers of the changes, in the order their locks are taken.\<close>

definition locked_viewers :: "FactChange list \<Rightarrow> viewer list" where
  "locked_viewers changes =
     sort_key ViewerLockKey (sort_key (\<lambda>v. [fst v, snd v]) (remdups (map fc_viewer changes)))"

definition live_segments :: "segmentApply \<Rightarrow> FactChange list \<Rightarrow> SegmentDefinition list \<Rightarrow> SegmentDefinition list" where
  "live_segments a changes segments =
     [s \<leftarrow> segments. list_ex (\<lambda>f. f \<in> fc_fact ` set changes) (sd_reads s)
        \<and> \<not> segmentFrozen (sd_condition s) (sd_reads s) (sa_facts a)]"

definition diffSegments ::
  "segmentApply \<Rightarrow> FactChange list \<Rightarrow> SegmentDefinition list \<Rightarrow> members \<Rightarrow> segmentEdgeEvent list \<times> members" where
  "diffSegments a changes segments mem =
     fold (viewer_pass a changes (live_segments a changes segments)) (locked_viewers changes) ([], mem)"

text \<open>The apply with the diff as its hook, as \<open>ApplyFactDeltas\<close> makes it; a silent one is a backfill.\<close>

definition apply_with_segments ::
  "(string \<Rightarrow> bool) \<Rightarrow> int \<Rightarrow> SegmentDefinition list \<Rightarrow> FactBatch \<Rightarrow> fact_db \<Rightarrow> members
   \<Rightarrow> (batch_error, FactApplyResult \<times> fact_db \<times> segmentEdgeEvent list \<times> members) res" where
  "apply_with_segments active now segments b db mem =
     bind_res (ApplyThen b db)
       (\<lambda>(r, db'). if Changes r = [] then Inr (r, db', [], mem)
          else let a = \<lparr>sa_db = db', sa_facts = loadSegmentFacts active db', sa_batch = b, sa_now = now, sa_announce = \<not> fb_skipDedupe b\<rparr>
               in (case diffSegments a (Changes r) segments mem of (edges, mem') \<Rightarrow> Inr (r, db', edges, mem')))"
text \<open>The request, checked before the batch is made of it.\<close>

definition maxFactPlatformLength :: nat where "maxFactPlatformLength = 50"
definition maxFactSubjectLength :: nat where "maxFactSubjectLength = 100"
definition maxFactEventIDLength :: nat where "maxFactEventIDLength = 255"
definition maxFactSessionLength :: nat where "maxFactSessionLength = 100"

definition ValidFactAggregate :: "string \<Rightarrow> bool" where
  "ValidFactAggregate fn \<longleftrightarrow>
     fn \<in> {''count'', ''sum'', ''min'', ''max'', ''last'', ''first_at'', ''last_at'', ''sessions'', ''session_streak''}"

datatype delta_problem =
    FactIdRequired | RevisionTooLow | PlatformRequired | PlatformTooLong | SubjectRequired | SubjectTooLong | NameTooLong
  | UnknownAggregate string

definition validateFactDelta :: "FactDelta \<Rightarrow> delta_problem option" where
  "validateFactDelta d =
     (if fd_fact d = '''' then Some FactIdRequired
      else if fd_revision d < 1 then Some RevisionTooLow
      else if fst (fd_viewer d) = '''' then Some PlatformRequired
      else if maxFactPlatformLength < length (fst (fd_viewer d)) then Some PlatformTooLong
      else if snd (fd_viewer d) = '''' then Some SubjectRequired
      else if maxFactSubjectLength < length (snd (fd_viewer d)) then Some SubjectTooLong
      else if (case fd_subjectName d of None \<Rightarrow> False | Some n \<Rightarrow> maxFactSubjectLength < length n) then Some NameTooLong
      else if \<not> ValidFactAggregate (fd_op d) then Some (UnknownAggregate (fd_op d))
      else None)"

record ApplyFactDeltasRequest =
  rq_occurredAt :: "int option"
  rq_source :: string
  rq_event :: string
  rq_stamp :: string
  rq_silent :: bool
  rq_deltas :: "FactDelta list"

datatype request_error =
    RequiresOccurredAt | RequiresSource | RequiresEvent | SourceTooLong | EventTooLong | StampTooLong
  | BadDelta nat delta_problem
  | SilentManyFacts
  | ApplyFails batch_error

fun check_deltas :: "bool \<Rightarrow> string \<Rightarrow> nat \<Rightarrow> FactDelta list \<Rightarrow> request_error option" where
  "check_deltas silent first i [] = None"
| "check_deltas silent first i (d # ds) =
     (case validateFactDelta d of
        Some p \<Rightarrow> Some (BadDelta i p)
      | None \<Rightarrow> if silent \<and> fd_fact d \<noteq> first then Some SilentManyFacts else check_deltas silent first (i + 1) ds)"

definition ApplyFactDeltas ::
  "(string \<Rightarrow> bool) \<Rightarrow> int \<Rightarrow> SegmentDefinition list \<Rightarrow> ApplyFactDeltasRequest \<Rightarrow> fact_db \<Rightarrow> members
   \<Rightarrow> (request_error, FactApplyResult \<times> fact_db \<times> segmentEdgeEvent list \<times> members) res" where
  "ApplyFactDeltas active now segments rq db mem =
     (case rq_occurredAt rq of
        None \<Rightarrow> Inl RequiresOccurredAt
      | Some t \<Rightarrow>
          if \<not> rq_silent rq \<and> rq_source rq = '''' then Inl RequiresSource
          else if \<not> rq_silent rq \<and> rq_event rq = '''' then Inl RequiresEvent
          else if maxFactEventIDLength < length (rq_source rq) then Inl SourceTooLong
          else if maxFactEventIDLength < length (rq_event rq) then Inl EventTooLong
          else if maxFactSessionLength < length (rq_stamp rq) then Inl StampTooLong
          else (case check_deltas (rq_silent rq) (case rq_deltas rq of [] \<Rightarrow> '''' | d # _ \<Rightarrow> fd_fact d) 0 (rq_deltas rq) of
                  Some e \<Rightarrow> Inl e
                | None \<Rightarrow>
                    (case apply_with_segments active now segments
                       \<lparr>fb_source = rq_source rq, fb_event = rq_event rq, fb_occurredAt = t, fb_stamp = rq_stamp rq,
                        fb_skipDedupe = rq_silent rq, fb_deltas = rq_deltas rq\<rparr> db mem of
                       Inl e \<Rightarrow> Inl (ApplyFails e)
                     | Inr x \<Rightarrow> Inr x)))"

subsection \<open>Filling a segment\<close>

definition segment_members :: "string \<Rightarrow> members \<Rightarrow> (viewer \<times> string) list" where
  "segment_members i mem = [(snd k, w) . (k, w, e) \<leftarrow> mem, fst k = i]"

definition fill_session :: "fact_db \<Rightarrow> int \<Rightarrow> string \<Rightarrow> string" where
  "fill_session db now window = (if window = ''session'' then sr_id (SessionAt (stream_sessions db) now '''') else '''')"

definition qualifying ::
  "fact_db \<Rightarrow> (string \<Rightarrow> segmentFact option) \<Rightarrow> int \<Rightarrow> SegmentDefinition \<Rightarrow> string \<Rightarrow> string \<Rightarrow> viewer list" where
  "qualifying db facts now s window session =
     (if window = ''lifetime'' \<or> session \<noteq> '''' then
        (let rows = FactValues db (sd_reads s) session None
         in [v \<leftarrow> viewersWithReadings rows facts session.
               evaluate (sd_condition s) (readingsByViewer rows facts session v) (unix_milli now)])
      else [])"

text \<open>
  Entering moves a row of another window; \<open>current\<close> holds the qualifying members with whether their row
  is of the session's window.
\<close>

definition fillSegment ::
  "(string \<Rightarrow> bool) \<Rightarrow> int \<Rightarrow> fact_db \<Rightarrow> SegmentDefinition \<Rightarrow> members \<Rightarrow> bool \<times> SegmentDefinition \<times> members" where
  "fillSegment active now db s mem =
     (let facts = loadSegmentFacts active db in
      if segmentFrozen (sd_condition s) (sd_reads s) facts then (False, s\<lparr>sd_stale := True\<rparr>, mem)
      else
        let window = segmentWindow (sd_reads s) facts;
            session = fill_session db now window;
            q = qualifying db facts now s window session;
            existing = segment_members (sd_id s) mem;
            leave = [v . (v, w) \<leftarrow> existing, v \<notin> set q];
            enter = sort_key (\<lambda>v. fst v @ [char_of (0::int)] @ snd v) [v \<leftarrow> q. (v, session) \<notin> set existing];
            mem1 = fold (\<lambda>v m. snd (Enter (sd_id s, v) session now m)) enter mem;
            mem2 = fold (\<lambda>v m. snd (Leave (sd_id s, v) m)) leave mem1
        in (True, s\<lparr>sd_windowKind := window, sd_stale := False\<rparr>, mem2))"

subsection \<open>Readings of one viewer\<close>

definition viewer_reading :: "fact_db \<Rightarrow> (string \<Rightarrow> segmentFact option) \<Rightarrow> string \<Rightarrow> viewer \<Rightarrow> string \<Rightarrow> factReading option" where
  "viewer_reading db facts session v f =
     (case facts f of
        None \<Rightarrow> None
      | Some sf \<Rightarrow> if sf_active sf then readingOf (stored_value db (f, v, factWindowKey sf session)) else None)"

lemma rows_lookup:
  assumes "facts f = Some sf" and "sf_active sf"
  shows "map_of [((fst k), s) . (k, s) \<leftarrow> rows, readable_row facts session k \<and> fst (snd k) = v] f
    = map_of rows (f, v, factWindowKey sf session)"
proof (induction rows)
  case (Cons x rows)
  obtain g u w s where x: "x = ((g, u, w), s)" by (metis prod.collapse)
  have "readable_row facts session (f, u, w) \<longleftrightarrow> w = factWindowKey sf session"
    using assms(1,2) by (simp add: readable_row_def)
  then show ?case using Cons by (cases "g = f") (auto simp: x)
qed simp
lemma rows_lookup_none:
  assumes "\<forall>sf. facts f = Some sf \<longrightarrow> \<not> sf_active sf"
  shows "map_of [((fst k), s) . (k, s) \<leftarrow> rows, readable_row facts session k \<and> fst (snd k) = v] f = None"
proof (induction rows)
  case (Cons x rows)
  obtain g u w s where x: "x = ((g, u, w), s)" by (metis prod.collapse)
  have "\<not> readable_row facts session (f, u, w)" using assms by (auto simp: readable_row_def split: option.splits)
  then show ?case using Cons by (cases "g = f") (auto simp: x)
qed simp

lemma map_of_filter_key: "map_of [(k, s) \<leftarrow> al. P k] k = (if P k then map_of al k else None)"
  by (induction al) auto

lemma FactValues_lookup:
  "map_of (FactValues db ids session who) (f, v, w) =
     (if f \<in> set ids \<and> (w = '''' \<or> (session \<noteq> '''' \<and> w = session)) \<and> (case who of None \<Rightarrow> True | Some u \<Rightarrow> v = u)
      then map_of (fact_values db) (f, v, w) else None)"
  unfolding FactValues_def
  by (subst map_of_filter_key) (auto split: option.splits)

lemma factWindowKey_in: "factWindowKey sf session = '''' \<or> factWindowKey sf session = session"
  by (simp add: factWindowKey_def)

lemma readings_are:
  assumes "f \<in> set ids" and "who = None \<or> who = Some v"
  shows "readingsByViewer (FactValues db ids session who) facts session v f = viewer_reading db facts session v f"
proof (cases "\<exists>sf. facts f = Some sf \<and> sf_active sf")
  case True
  then obtain sf where sf: "facts f = Some sf" "sf_active sf" by blast
  have "map_of (FactValues db ids session who) (f, v, factWindowKey sf session) = map_of (fact_values db) (f, v, factWindowKey sf session)"
    using assms factWindowKey_in [of sf session] unfolding FactValues_lookup by auto
  then show ?thesis
    unfolding readingsByViewer_def rows_lookup [of facts f sf, OF sf]
    by (simp add: viewer_reading_def sf stored_value_def)
next
  case False
  then have n: "\<forall>sf. facts f = Some sf \<longrightarrow> \<not> sf_active sf" by blast
  show ?thesis
    unfolding readingsByViewer_def rows_lookup_none [of facts f, OF n]
    using n by (auto simp: viewer_reading_def readingOf_def split: option.splits)
qed

text \<open>A lifetime segment reads the same in every session.\<close>

lemma lifetime_reading:
  assumes "segmentWindow ids facts \<noteq> ''session''" and "f \<in> set ids"
  shows "viewer_reading db facts session v f = viewer_reading db facts session' v f"
  using assms
  by (auto simp: segmentWindow_def viewer_reading_def factWindowKey_def list_ex_iff split: if_splits option.splits)

subsection \<open>Equal values read alike\<close>

definition same_reading :: "factReading option \<Rightarrow> factReading option \<Rightarrow> bool" where
  "same_reading a b \<longleftrightarrow>
     a = b \<or> (\<exists>x y. a = Some x \<and> b = Some y \<and> equal_floats (fr_num x) (fr_num y) \<and> fr_str x = fr_str y)"

lemma same_value_reading: "same_value a b \<Longrightarrow> same_reading (readingOf a) (readingOf b)"
  by (auto simp: same_value_def same_reading_def equalState_def readingOf_def split: option.splits)

lemma f_eq_cong: "f_eq x y \<Longrightarrow> f_eq x z = f_eq y z"
  by (cases x; cases y; cases z) auto

lemma f_lt_cong: "f_eq x y \<Longrightarrow> f_lt x z = f_lt y z" "f_eq x y \<Longrightarrow> f_lt z x = f_lt z y"
  by (cases x; cases y; cases z; auto)+

lemma f_le_cong: "f_eq x y \<Longrightarrow> f_le x z = f_le y z" "f_eq x y \<Longrightarrow> f_le z x = f_le z y"
  unfolding f_le_def using f_lt_cong f_eq_cong f_eq_sym by metis+

lemma same_reading_atom:
  assumes "same_reading a b" and "sa_op t \<notin> set age_ops"
  shows "evaluateAtom t a now = evaluateAtom t b now"
proof (cases "a = b")
  case False
  then obtain x y where ab: "a = Some x" "b = Some y" "equal_floats (fr_num x) (fr_num y)" "fr_str x = fr_str y"
    using assms(1) by (auto simp: same_reading_def)
  show ?thesis
  proof (cases "fr_num x")
    case None
    then have "fr_num y = None" using ab(3) by (auto simp: equal_floats_def split: option.splits)
    then have "x = y" using None ab(4) by simp
    then show ?thesis using ab by simp
  next
    case (Some m)
    then obtain n where n: "fr_num y = Some n" "f_eq m n" using ab(3) by (auto simp: equal_floats_def split: option.splits)
    have e: "reading_equals t x = reading_equals t y"
      using Some n ab(4) f_eq_cong [OF n(2)] by (simp add: reading_equals_def split: atom_operand.splits)
    show ?thesis
      using assms(2) Some n e f_lt_cong [OF n(2)] f_le_cong [OF n(2)]
      by (simp add: evaluateAtom_def ab age_ops_def)
  qed
qed simp

lemma evaluate_same:
  assumes "\<not> timeRelative c" and "\<forall>f \<in> set (condition_facts c). same_reading (v f) (v' f)"
  shows "evaluate c v now = evaluate c v' now'"
  using assms
proof (induction c)
  case (SegAll cs)
  have "evaluate x v now = evaluate x v' now'" if "x \<in> set cs" for x
    using SegAll that by (auto simp: list_ex_iff)
  then show ?case by (simp only: evaluate.simps) (rule list_all_cong_on)
next
  case (SegAny cs)
  have "evaluate x v now = evaluate x v' now'" if "x \<in> set cs" for x
    using SegAny that by (auto simp: list_ex_iff)
  then show ?case by (simp only: evaluate.simps) (rule list_ex_cong_on)
next
  case (SegAtom a)
  then show ?case
    using same_reading_atom [of "v (sa_fact a)" "v' (sa_fact a)" a now] evaluateAtom_timeless [of a "v' (sa_fact a)" now now'] by simp
qed simp
subsection \<open>Moving one membership\<close>

definition member_in :: "members \<Rightarrow> string \<Rightarrow> viewer \<Rightarrow> string \<Rightarrow> bool" where
  "member_in mem i v w \<longleftrightarrow> (case map_of mem (i, v) of None \<Rightarrow> False | Some (w', e) \<Rightarrow> w' = w)"

definition member_edge :: "bool \<Rightarrow> bool \<Rightarrow> segment_edge option" where
  "member_edge was now_in =
     (if now_in \<and> \<not> was then Some SubjectViewerSegmentEntered else if was \<and> \<not> now_in then Some SubjectViewerSegmentLeft else None)"

lemma move_member_result:
  assumes "move_member a v w row isIn s mem = (edge, mem')" and "row = map_of mem (sd_id s, v)"
  shows "edge = member_edge (member_in mem (sd_id s) v w) isIn" "member_in mem' (sd_id s) v w = isIn"
    "\<not> isIn \<Longrightarrow> map_of mem' (sd_id s, v) = None" "k \<noteq> (sd_id s, v) \<Longrightarrow> map_of mem' k = map_of mem k"
proof -
  have "edge = member_edge (member_in mem (sd_id s) v w) isIn \<and> member_in mem' (sd_id s) v w = isIn
    \<and> (\<not> isIn \<longrightarrow> map_of mem' (sd_id s, v) = None) \<and> (k \<noteq> (sd_id s, v) \<longrightarrow> map_of mem' k = map_of mem k)"
  proof (cases "map_of mem (sd_id s, v)")
    case None
    then show ?thesis using assms
      by (cases isIn) (auto simp: move_member_def Let_def Enter_def member_in_def member_edge_def update_conv')
  next
    case (Some we)
    obtain w' e where "we = (w', e)" by (rule prod.exhaust)
    then show ?thesis using assms Some
      by (cases isIn; cases "w' = w")
        (auto simp: move_member_def Let_def Enter_def Leave_def member_in_def member_edge_def update_conv' delete_conv')
  qed
  then show "edge = member_edge (member_in mem (sd_id s) v w) isIn" "member_in mem' (sd_id s) v w = isIn"
    "\<not> isIn \<Longrightarrow> map_of mem' (sd_id s, v) = None" "k \<noteq> (sd_id s, v) \<Longrightarrow> map_of mem' k = map_of mem k" by blast+
qed

text \<open>The edge one segment announces for a viewer, from the rows stored before.\<close>

definition segment_edges ::
  "segmentApply \<Rightarrow> viewer \<Rightarrow> string \<Rightarrow> string \<Rightarrow> (string \<Rightarrow> factReading option) \<Rightarrow> (string \<Rightarrow> factReading option) \<Rightarrow> members
   \<Rightarrow> SegmentDefinition \<Rightarrow> segmentEdgeEvent list" where
  "segment_edges a v name session before after stored s =
     (let now = unix_milli (fb_occurredAt (sa_batch a));
          isIn = evaluate (sd_condition s) after now;
          was = (if sd_timeRelative s then evaluate (sd_condition s) before now
                 else member_in stored (sd_id s) v (segment_window_key a session s))
      in case member_edge was isIn of
           None \<Rightarrow> []
         | Some e \<Rightarrow> if sa_announce a then [edgeEvent a e s v name before after] else [])"

lemma segment_step_result:
  assumes "map_of (snd em) (sd_id s, v) = map_of stored (sd_id s, v)"
  shows "fst (segment_step a v name session before after stored s em) = fst em @ segment_edges a v name session before after stored s"
    "member_in (snd (segment_step a v name session before after stored s em)) (sd_id s) v (segment_window_key a session s)
      = evaluate (sd_condition s) after (unix_milli (fb_occurredAt (sa_batch a)))"
    "k \<noteq> (sd_id s, v) \<Longrightarrow> map_of (snd (segment_step a v name session before after stored s em)) k = map_of (snd em) k"
proof -
  let ?in = "evaluate (sd_condition s) after (unix_milli (fb_occurredAt (sa_batch a)))"
  let ?w = "segment_window_key a session s"
  obtain edge mem' where m: "move_member a v ?w (map_of stored (sd_id s, v)) ?in s (snd em) = (edge, mem')" by (metis prod.collapse)
  note r = move_member_result [OF m assms [symmetric]]
  have mem: "snd (segment_step a v name session before after stored s em) = mem'"
    using m by (auto simp: segment_step_def Let_def split: option.splits)
  have same: "member_in (snd em) (sd_id s) v ?w = member_in stored (sd_id s) v ?w" using assms by (simp add: member_in_def)
  show "fst (segment_step a v name session before after stored s em) = fst em @ segment_edges a v name session before after stored s"
    using m r(1) unfolding same segment_step_def segment_edges_def Let_def
    by (auto simp: member_edge_def split: option.splits)
  show "member_in (snd (segment_step a v name session before after stored s em)) (sd_id s) v ?w = ?in"
    using r(2) mem by simp
  show "k \<noteq> (sd_id s, v) \<Longrightarrow> map_of (snd (segment_step a v name session before after stored s em)) k = map_of (snd em) k"
    using r(4) mem by simp
qed

lemma memb_imp_not_same: "x \<in> A \<Longrightarrow> y \<notin> A \<Longrightarrow> x \<noteq> y"
  by blast

lemma segment_loop:
  assumes "distinct (map sd_id xs)" and "\<forall>s \<in> set xs. map_of (snd em) (sd_id s, v) = map_of stored (sd_id s, v)"
  shows "fst (fold (segment_step a v name session before after stored) xs em)
      = fst em @ concat (map (segment_edges a v name session before after stored) xs)
    \<and> (\<forall>s \<in> set xs. member_in (snd (fold (segment_step a v name session before after stored) xs em)) (sd_id s) v (segment_window_key a session s)
          = evaluate (sd_condition s) after (unix_milli (fb_occurredAt (sa_batch a))))
    \<and> (\<forall>k. k \<notin> (\<lambda>s. (sd_id s, v)) ` set xs \<longrightarrow>
          map_of (snd (fold (segment_step a v name session before after stored) xs em)) k = map_of (snd em) k)"
  using assms
proof (induction xs arbitrary: em)
  case (Cons s xs)
  let ?em1 = "segment_step a v name session before after stored s em"
  let ?em2 = "fold (segment_step a v name session before after stored) xs ?em1"
  have st: "map_of (snd em) (sd_id s, v) = map_of stored (sd_id s, v)" using Cons.prems(2) by simp
  note one = segment_step_result [OF st]
  have "\<forall>t \<in> set xs. map_of (snd ?em1) (sd_id t, v) = map_of stored (sd_id t, v)"
  proof
    fix t assume t: "t \<in> set xs"
    then have "sd_id t \<in> sd_id ` set xs" by (rule imageI)
    moreover have "sd_id s \<notin> sd_id ` set xs" using Cons.prems(1) by simp
    ultimately have "sd_id t \<noteq> sd_id s" by (rule memb_imp_not_same)
    then have "(sd_id t, v) \<noteq> (sd_id s, v)" by simp
    then show "map_of (snd ?em1) (sd_id t, v) = map_of stored (sd_id t, v)" using one(3) Cons.prems(2) t by simp
  qed
  with Cons.IH [of ?em1] Cons.prems(1)
  have ih: "fst ?em2 = fst ?em1 @ concat (map (segment_edges a v name session before after stored) xs)"
    "\<forall>t \<in> set xs. member_in (snd ?em2) (sd_id t) v (segment_window_key a session t)
          = evaluate (sd_condition t) after (unix_milli (fb_occurredAt (sa_batch a)))"
    "\<forall>k. k \<notin> (\<lambda>t. (sd_id t, v)) ` set xs \<longrightarrow> map_of (snd ?em2) k = map_of (snd ?em1) k" by auto
  have "(sd_id s, v) \<notin> (\<lambda>t. (sd_id t, v)) ` set xs" using Cons.prems(1) by auto
  then have "map_of (snd ?em2) (sd_id s, v) = map_of (snd ?em1) (sd_id s, v)" using ih(3) by blast
  then have m: "member_in (snd ?em2) (sd_id s) v (segment_window_key a session s)
      = evaluate (sd_condition s) after (unix_milli (fb_occurredAt (sa_batch a)))"
    using one(2) by (simp add: member_in_def)
  have u: "map_of (snd ?em2) k = map_of (snd em) k" if "k \<notin> (\<lambda>t. (sd_id t, v)) ` set (s # xs)" for k
  proof -
    have k: "k \<noteq> (sd_id s, v)" "k \<notin> (\<lambda>t. (sd_id t, v)) ` set xs" using that by auto
    have "map_of (snd ?em2) k = map_of (snd ?em1) k" using ih(3) k(2) by blast
    also have "\<dots> = map_of (snd em) k" by (rule one(3) [OF k(1)])
    finally show ?thesis .
  qed
  have f: "fold (segment_step a v name session before after stored) (s # xs) em = ?em2" by simp
  have e: "fst ?em2 = fst em @ concat (map (segment_edges a v name session before after stored) (s # xs))"
    using ih(1) one(1) by simp
  have i: "\<forall>t \<in> set (s # xs). member_in (snd ?em2) (sd_id t) v (segment_window_key a session t)
          = evaluate (sd_condition t) after (unix_milli (fb_occurredAt (sa_batch a)))"
    using ih(2) m by simp
  show ?case unfolding f using e i u by blast
qed simp

subsection \<open>One viewer\<close>

definition own_changes :: "FactChange list \<Rightarrow> viewer \<Rightarrow> FactChange list" where
  "own_changes all_changes v = [c \<leftarrow> all_changes. fc_viewer c = v]"

definition viewer_edges ::
  "segmentApply \<Rightarrow> FactChange list \<Rightarrow> SegmentDefinition list \<Rightarrow> viewer \<Rightarrow> members \<Rightarrow> segmentEdgeEvent list" where
  "viewer_edges a all_changes live v mem =
     (let changes = own_changes all_changes v;
          affected = affected_segments a changes live
      in concat (map (segment_edges a v (viewer_name changes) (pass_session a affected) (readings_before a changes v affected)
           (readings_after a v affected) mem) affected))"

definition current_reading :: "segmentApply \<Rightarrow> viewer \<Rightarrow> string \<Rightarrow> factReading option" where
  "current_reading a = viewer_reading (sa_db a) (sa_facts a) (eventSession a)"

abbreviation event_ms :: "segmentApply \<Rightarrow> int" where
  "event_ms a \<equiv> unix_milli (fb_occurredAt (sa_batch a))"

lemma needed_facts_set: "set (needed_facts xs) = (\<Union>s \<in> set xs. set (sd_reads s))"
  by (simp add: needed_facts_def)

lemma affected_reading:
  assumes "s \<in> set affected" and "f \<in> set (sd_reads s)"
  shows "readings_after a v affected f = current_reading a v f"
proof -
  have f: "f \<in> set (needed_facts affected)" using assms by (auto simp: needed_facts_set)
  have r: "readings_after a v affected f = viewer_reading (sa_db a) (sa_facts a) (pass_session a affected) v f"
    unfolding readings_after_def Let_def by (rule readings_are [OF f]) simp
  show ?thesis
  proof (cases "segmentWindow (sd_reads s) (sa_facts a) = ''session''")
    case True
    then have "pass_session a affected = eventSession a" using assms(1) by (auto simp: pass_session_def list_ex_iff)
    then show ?thesis by (simp add: r current_reading_def)
  next
    case False
    show ?thesis unfolding r current_reading_def by (rule lifetime_reading [OF False assms(2)])
  qed
qed

lemma affected_window:
  "s \<in> set affected \<Longrightarrow> segment_window_key a (pass_session a affected) s = segment_window_key a (eventSession a) s"
  by (auto simp: segment_window_key_def pass_session_def list_ex_iff)

lemma affected_distinct: "distinct (map sd_id live) \<Longrightarrow> distinct (map sd_id (affected_segments a changes live))"
  by (simp add: affected_segments_def distinct_map_filter)

lemma affected_live: "s \<in> set (affected_segments a changes live) \<Longrightarrow> s \<in> set live"
  by (simp add: affected_segments_def)

lemma viewer_pass_result:
  assumes "distinct (map sd_id live)" and "\<forall>s \<in> set live. sd_reads s = condition_facts (sd_condition s)"
  shows "fst (viewer_pass a all_changes live v em) = fst em @ viewer_edges a all_changes live v (snd em)"
    "s \<in> set (affected_segments a (own_changes all_changes v) live) \<Longrightarrow>
       member_in (snd (viewer_pass a all_changes live v em)) (sd_id s) v (segment_window_key a (eventSession a) s)
       = evaluate (sd_condition s) (current_reading a v) (event_ms a)"
    "k \<notin> (\<lambda>s. (sd_id s, v)) ` set (affected_segments a (own_changes all_changes v) live) \<Longrightarrow>
       map_of (snd (viewer_pass a all_changes live v em)) k = map_of (snd em) k"
proof -
  let ?ch = "own_changes all_changes v"
  let ?aff = "affected_segments a ?ch live"
  let ?step = "segment_step a v (viewer_name ?ch) (pass_session a ?aff) (readings_before a ?ch v ?aff) (readings_after a v ?aff) (snd em)"
  have p: "viewer_pass a all_changes live v em = fold ?step ?aff em"
    unfolding viewer_pass_def own_changes_def Let_def by (cases "affected_segments a [c \<leftarrow> all_changes. fc_viewer c = v] live") auto
  have l: "fst (fold ?step ?aff em) = fst em @ concat (map (segment_edges a v (viewer_name ?ch) (pass_session a ?aff)
        (readings_before a ?ch v ?aff) (readings_after a v ?aff) (snd em)) ?aff)
    \<and> (\<forall>s \<in> set ?aff. member_in (snd (fold ?step ?aff em)) (sd_id s) v (segment_window_key a (pass_session a ?aff) s)
          = evaluate (sd_condition s) (readings_after a v ?aff) (event_ms a))
    \<and> (\<forall>k. k \<notin> (\<lambda>s. (sd_id s, v)) ` set ?aff \<longrightarrow> map_of (snd (fold ?step ?aff em)) k = map_of (snd em) k)"
    by (rule segment_loop [OF affected_distinct [OF assms(1)]]) simp
  show "fst (viewer_pass a all_changes live v em) = fst em @ viewer_edges a all_changes live v (snd em)"
    using l unfolding p viewer_edges_def Let_def by (rule conjunct1)
  show "map_of (snd (viewer_pass a all_changes live v em)) k = map_of (snd em) k"
    if "k \<notin> (\<lambda>s. (sd_id s, v)) ` set ?aff"
    using l that unfolding p by blast
  show "member_in (snd (viewer_pass a all_changes live v em)) (sd_id s) v (segment_window_key a (eventSession a) s)
       = evaluate (sd_condition s) (current_reading a v) (event_ms a)" if s: "s \<in> set ?aff"
  proof -
    have "member_in (snd (fold ?step ?aff em)) (sd_id s) v (segment_window_key a (pass_session a ?aff) s)
          = evaluate (sd_condition s) (readings_after a v ?aff) (event_ms a)" using l s by blast
    moreover have "evaluate (sd_condition s) (readings_after a v ?aff) (event_ms a)
        = evaluate (sd_condition s) (current_reading a v) (event_ms a)"
    proof (rule evaluate_frame)
      show "\<forall>t \<in> set (seg_atoms (sd_condition s)). readings_after a v ?aff (sa_fact t) = current_reading a v (sa_fact t)"
        using affected_reading [OF s] assms(2) affected_live [OF s] by simp
    qed simp
    ultimately show ?thesis unfolding p using affected_window [OF s] by simp
  qed
qed
subsection \<open>All viewers\<close>

lemma segment_edges_cong:
  "map_of m (sd_id s, v) = map_of m' (sd_id s, v) \<Longrightarrow>
     segment_edges a v name session before after m s = segment_edges a v name session before after m' s"
  by (simp only: segment_edges_def member_in_def)

lemma viewer_edges_cong:
  assumes "\<And>i. map_of m (i, v) = map_of m' (i, v)"
  shows "viewer_edges a ch live v m = viewer_edges a ch live v m'"
proof -
  have "segment_edges a v n se be af m = segment_edges a v n se be af m'" for n se be af
    by (rule ext) (rule segment_edges_cong [OF assms])
  then show ?thesis by (simp only: viewer_edges_def)
qed

lemma viewer_pass_other:
  assumes "distinct (map sd_id live)" and "\<forall>s \<in> set live. sd_reads s = condition_facts (sd_condition s)"
    and "v \<noteq> u \<or> i \<notin> sd_id ` set (affected_segments a (own_changes ch v) live)"
  shows "map_of (snd (viewer_pass a ch live u em)) (i, v) = map_of (snd em) (i, v)"
proof (rule viewer_pass_result(3) [OF assms(1,2)])
  show "(i, v) \<notin> (\<lambda>s. (sd_id s, u)) ` set (affected_segments a (own_changes ch u) live)"
    using assms(3) by auto
qed

lemma diff_other:
  assumes "distinct (map sd_id live)" and "\<forall>s \<in> set live. sd_reads s = condition_facts (sd_condition s)"
    and "v \<notin> set vs \<or> i \<notin> sd_id ` set (affected_segments a (own_changes ch v) live)"
  shows "map_of (snd (fold (viewer_pass a ch live) vs em)) (i, v) = map_of (snd em) (i, v)"
  using assms(3)
proof (induction vs arbitrary: em)
  case (Cons u vs)
  have "map_of (snd (fold (viewer_pass a ch live) vs (viewer_pass a ch live u em))) (i, v)
      = map_of (snd (viewer_pass a ch live u em)) (i, v)"
    by (rule Cons.IH) (use Cons.prems in auto)
  also have "\<dots> = map_of (snd em) (i, v)"
    by (rule viewer_pass_other [OF assms(1,2)]) (use Cons.prems in auto)
  finally show ?case by simp
qed simp

lemma diff_member:
  assumes "distinct (map sd_id live)" and "\<forall>s \<in> set live. sd_reads s = condition_facts (sd_condition s)"
    and "distinct vs" and "v \<in> set vs" and "s \<in> set (affected_segments a (own_changes ch v) live)"
  shows "member_in (snd (fold (viewer_pass a ch live) vs em)) (sd_id s) v (segment_window_key a (eventSession a) s)
       = evaluate (sd_condition s) (current_reading a v) (event_ms a)"
  using assms(3,4)
proof (induction vs arbitrary: em)
  case (Cons u vs)
  show ?case
  proof (cases "v = u")
    case True
    then have "v \<notin> set vs" using Cons.prems(1) by simp
    then have "map_of (snd (fold (viewer_pass a ch live) vs (viewer_pass a ch live u em))) (sd_id s, v)
        = map_of (snd (viewer_pass a ch live u em)) (sd_id s, v)"
      by (intro diff_other [OF assms(1,2)] disjI1)
    then show ?thesis
      using viewer_pass_result(2) [OF assms(1,2), where a = a and all_changes = ch and v = v and em = em, OF assms(5)] True
      by (simp add: member_in_def)
  next
    case False
    then show ?thesis using Cons by simp
  qed
qed simp

lemma diff_edges:
  assumes "distinct (map sd_id live)" and "\<forall>s \<in> set live. sd_reads s = condition_facts (sd_condition s)" and "distinct vs"
  shows "fst (fold (viewer_pass a ch live) vs em) = fst em @ concat (map (\<lambda>v. viewer_edges a ch live v (snd em)) vs)"
  using assms(3)
proof (induction vs arbitrary: em)
  case (Cons u vs)
  have m: "map (\<lambda>v. viewer_edges a ch live v (snd (viewer_pass a ch live u em))) vs = map (\<lambda>v. viewer_edges a ch live v (snd em)) vs"
  proof (rule map_cong [OF refl])
    fix w assume "w \<in> set vs"
    then have "w \<noteq> u" using Cons.prems by auto
    then show "viewer_edges a ch live w (snd (viewer_pass a ch live u em)) = viewer_edges a ch live w (snd em)"
      by (intro viewer_edges_cong viewer_pass_other [OF assms(1,2)] disjI1)
  qed
  have "distinct vs" using Cons.prems by simp
  from Cons.IH [OF this, of "viewer_pass a ch live u em", unfolded m]
  show ?case using viewer_pass_result(1) [OF assms(1,2), where a = a and all_changes = ch and v = u and em = em] by simp
qed simp

lemma locked_viewers_set: "set (locked_viewers ch) = fc_viewer ` set ch" "distinct (locked_viewers ch)"
  by (simp_all add: locked_viewers_def)

definition segments_ok :: "SegmentDefinition list \<Rightarrow> bool" where
  "segments_ok segments \<longleftrightarrow>
     distinct (map sd_id segments)
     \<and> (\<forall>s \<in> set segments. sd_reads s = condition_facts (sd_condition s) \<and> sd_timeRelative s = timeRelative (sd_condition s))"

definition the_apply :: "(string \<Rightarrow> bool) \<Rightarrow> int \<Rightarrow> FactBatch \<Rightarrow> fact_db \<Rightarrow> segmentApply" where
  "the_apply active now b db =
     \<lparr>sa_db = db, sa_facts = loadSegmentFacts active db, sa_batch = b, sa_now = now, sa_announce = \<not> fb_skipDedupe b\<rparr>"

text \<open>
  A membership agrees with the stored values: the viewer is a member, in the window of the segment,
  exactly when the condition holds of the viewer's values in the event's session.
\<close>

definition in_step :: "segmentApply \<Rightarrow> members \<Rightarrow> SegmentDefinition \<Rightarrow> viewer \<Rightarrow> bool" where
  "in_step a mem s v \<longleftrightarrow>
     member_in mem (sd_id s) v (segment_window_key a (eventSession a) s)
     = evaluate (sd_condition s) (current_reading a v) (event_ms a)"

lemma apply_unfold:
  assumes "apply_with_segments active now segments b db mem = Inr (r, db', edges, mem')"
  shows "ApplyThen b db = Inr (r, db')"
    "(edges, mem') = (if Changes r = [] then ([], mem) else diffSegments (the_apply active now b db') (Changes r) segments mem)"
  using assms by (auto simp: apply_with_segments_def the_apply_def res_simps split: if_splits prod.splits)

lemma live_distinct: "segments_ok segments \<Longrightarrow> distinct (map sd_id (live_segments a ch segments))"
  by (simp add: segments_ok_def live_segments_def distinct_map_filter)

lemma live_reads: "segments_ok segments \<Longrightarrow> \<forall>s \<in> set (live_segments a ch segments). sd_reads s = condition_facts (sd_condition s)"
  by (simp add: segments_ok_def live_segments_def)

lemma segment_of_id:
  assumes "segments_ok segments" and "s \<in> set segments" and "t \<in> set segments" and "sd_id t = sd_id s"
  shows "t = s"
  using assms unfolding segments_ok_def distinct_map by (metis inj_onD)

lemma affected_iff:
  assumes "segments_ok segments" and "s \<in> set segments"
  shows "sd_id s \<in> sd_id ` set (affected_segments a (own_changes ch v) (live_segments a ch segments)) \<longleftrightarrow>
    s \<in> set (affected_segments a (own_changes ch v) (live_segments a ch segments))"
proof
  assume "sd_id s \<in> sd_id ` set (affected_segments a (own_changes ch v) (live_segments a ch segments))"
  then obtain t where t: "t \<in> set (affected_segments a (own_changes ch v) (live_segments a ch segments))" "sd_id t = sd_id s" by auto
  then have "t \<in> set segments" by (simp add: affected_segments_def live_segments_def)
  then have "t = s" by (rule segment_of_id [OF assms _ t(2)])
  then show "s \<in> set (affected_segments a (own_changes ch v) (live_segments a ch segments))" using t(1) by simp
qed simp

lemma apply_tables:
  assumes "ApplyThen b db = Inr (r, db')"
  shows "definitions db' = definitions db" "stream_sessions db' = stream_sessions db"
  using ApplyThen_inv [OF assms] by (auto simp: batch_inv_def)

lemma same_tables:
  assumes "definitions db' = definitions db" and "stream_sessions db' = stream_sessions db"
  shows "loadSegmentFacts active db' = loadSegmentFacts active db"
    "eventSession (the_apply active now b db') = eventSession (the_apply active now b db)"
    "sessionCurrent (the_apply active now b db') = sessionCurrent (the_apply active now b db)"
    "segment_window_key (the_apply active now b db') w s = segment_window_key (the_apply active now b db) w s"
proof -
  show l: "loadSegmentFacts active db' = loadSegmentFacts active db" using assms(1) by (simp add: loadSegmentFacts_def fun_eq_iff)
  show "eventSession (the_apply active now b db') = eventSession (the_apply active now b db)"
    "sessionCurrent (the_apply active now b db') = sessionCurrent (the_apply active now b db)"
    "segment_window_key (the_apply active now b db') w s = segment_window_key (the_apply active now b db) w s"
    using assms(2) l
    by (simp_all add: eventSession_def sessionCurrent_def batch_session_def the_apply_def segment_window_key_def)
qed

lemma the_apply_simps [simp]:
  "sa_db (the_apply active now b db) = db" "sa_facts (the_apply active now b db) = loadSegmentFacts active db"
  "sa_batch (the_apply active now b db) = b" "sa_announce (the_apply active now b db) = (\<not> fb_skipDedupe b)"
  by (simp_all add: the_apply_def)

lemma diff_unaffected:
  assumes "segments_ok segments" and "s \<in> set segments"
    and "s \<notin> set (affected_segments a (own_changes ch v) (live_segments a ch segments))"
  shows "map_of (snd (diffSegments a ch segments mem)) (sd_id s, v) = map_of mem (sd_id s, v)"
proof -
  have "map_of (snd (fold (viewer_pass a ch (live_segments a ch segments)) (locked_viewers ch) ([], mem))) (sd_id s, v)
      = map_of (snd ([] :: segmentEdgeEvent list, mem)) (sd_id s, v)"
    by (rule diff_other [OF live_distinct [OF assms(1)] live_reads [OF assms(1)]]) (use assms affected_iff in blast)
  then show ?thesis by (simp add: diffSegments_def)
qed

lemma diff_affected:
  assumes "segments_ok segments" and "s \<in> set (affected_segments a (own_changes ch v) (live_segments a ch segments))"
  shows "in_step a (snd (diffSegments a ch segments mem)) s v"
proof -
  obtain c where "c \<in> set ch" "fc_viewer c = v"
    using assms(2) by (auto simp: affected_segments_def own_changes_def list_ex_iff)
  then have "v \<in> set (locked_viewers ch)" by (auto simp: locked_viewers_set)
  from diff_member [OF live_distinct [OF assms(1)] live_reads [OF assms(1)] locked_viewers_set(2) this assms(2)]
  show ?thesis by (simp add: in_step_def diffSegments_def)
qed

lemma changed_is_affected:
  assumes "s \<in> set segments" and "c \<in> set ch" and "fc_viewer c = v" and "fc_fact c \<in> set (sd_reads s)"
    and "\<not> segmentFrozen (sd_condition s) (sd_reads s) (sa_facts a)"
    and "segmentWindow (sd_reads s) (sa_facts a) = ''session'' \<longrightarrow> sessionCurrent a"
  shows "s \<in> set (affected_segments a (own_changes ch v) (live_segments a ch segments))"
  using assms by (auto simp: affected_segments_def live_segments_def own_changes_def list_ex_iff)

text \<open>Without a change to a fact of the viewer that the condition reads, what it decides is as before.\<close>

lemma unread_changes:
  assumes app: "ApplyThen b db = Inr (r, db')" and "\<not> timeRelative c"
    and none: "\<forall>d \<in> set (Changes r). \<not> (fc_viewer d = v \<and> fc_fact d \<in> set (condition_facts c))"
  shows "evaluate c (viewer_reading db' (loadSegmentFacts active db') session v) now
    = evaluate c (viewer_reading db (loadSegmentFacts active db) session v) now"
proof -
  obtain p where inv: "batch_inv b db p (Changes r) db'" using ApplyThen_inv [OF app] by blast
  note facts = same_tables(1) [OF apply_tables [OF app]]
  have "same_reading (viewer_reading db (loadSegmentFacts active db) session v f) (viewer_reading db' (loadSegmentFacts active db') session v f)"
    if f: "f \<in> set (condition_facts c)" for f
  proof -
    have "(f, v, w) \<notin> change_key ` set (Changes r)" for w
    proof
      assume "(f, v, w) \<in> change_key ` set (Changes r)"
      then obtain d where d: "d \<in> set (Changes r)" "change_key d = (f, v, w)" by (metis imageE)
      then have "fc_viewer d = v \<and> fc_fact d = f" by (simp add: change_key_def)
      then show False using none f d(1) by blast
    qed
    then have "same_value (stored_value db (f, v, w)) (stored_value db' (f, v, w))" for w
      by (rule batch_inv_same [OF inv])
    then have "same_reading (readingOf (stored_value db (f, v, w))) (readingOf (stored_value db' (f, v, w)))" for w
      by (rule same_value_reading)
    moreover have "same_reading None None" by (simp add: same_reading_def)
    ultimately show ?thesis unfolding viewer_reading_def facts by (simp split: option.split)
  qed
  then show ?thesis using evaluate_same [OF assms(2)] by metis
qed

subsection \<open>An example\<close>

text \<open>The chatters of the session, met by the two viewers of \<open>chat_batch\<close>.\<close>

definition chatty :: SegmentDefinition where
  "chatty = \<lparr>sd_id = ''u:segment:chatty'',
     sd_condition = SegAtom \<lparr>sa_fact = ''u:fact:chats'', sa_op = ''gte'', sa_operand = NumIs (f_of_int 1)\<rparr>,
     sd_reads = [''u:fact:chats''], sd_windowKind = ''session'', sd_timeRelative = False, sd_stale = False\<rparr>"

definition chatty_result :: "FactApplyResult \<times> fact_db \<times> segmentEdgeEvent list \<times> members" where
  "chatty_result =
     (fst chat_result, snd chat_result,
      diffSegments (the_apply (\<lambda>_. True) 5000000 chat_batch (snd chat_result)) (Changes (fst chat_result)) [chatty] [])"

lemma chatty_applied:
  "apply_with_segments (\<lambda>_. True) 5000000 [chatty] chat_batch chat_db [] = Inr chatty_result"
proof -
  have "Changes (fst chat_result) \<noteq> []" using chat_applied(1) by auto
  then show ?thesis
    using chat_inr by (simp add: apply_with_segments_def chatty_result_def the_apply_def case_prod_unfold)
qed

lemma chatty_ok: "segments_ok [chatty]"
  by (simp add: segments_ok_def chatty_def condition_facts_def age_ops_def)

lemma chatty_live: "\<not> segmentFrozen (sd_condition chatty) (sd_reads chatty) (loadSegmentFacts (\<lambda>_. True) chat_db)"
  by code_simp

lemma chatty_current: "sessionCurrent (the_apply (\<lambda>_. True) 5000000 chat_batch chat_db)"
  by code_simp

lemma chatty_timeless: "\<not> timeRelative (sd_condition chatty)"
  by code_simp

lemma chatty_change: "\<exists>c \<in> set (Changes (fst chat_result)). fc_viewer c = (''twitch'', ''a'') \<and> fc_fact c \<in> set (sd_reads chatty)"
proof -
  have "(''u:fact:chats'', (''twitch'', ''a''), ''s1'') \<in> set (map change_key (Changes (fst chat_result)))"
    unfolding chat_applied(1) by simp
  then show ?thesis by (auto simp: change_key_def chatty_def)
qed

subsection \<open>Memberships and values\<close>


subsection \<open>What is announced\<close>

lemma filter_concat_none:
  "(\<And>x e. x \<in> set xs \<Longrightarrow> e \<in> set (f x) \<Longrightarrow> g e = k x) \<Longrightarrow> c \<notin> k ` set xs \<Longrightarrow> [e \<leftarrow> concat (map f xs). g e = c] = []"
  by (auto simp: filter_empty_conv)

lemma filter_concat_one:
  assumes "\<And>x e. x \<in> set xs \<Longrightarrow> e \<in> set (f x) \<Longrightarrow> g e = k x" and "distinct (map k xs)" and "y \<in> set xs"
  shows "[e \<leftarrow> concat (map f xs). g e = k y] = f y"
  using assms
proof (induction xs)
  case (Cons x xs)
  have fx: "[e \<leftarrow> f x. g e = k y] = (if k x = k y then f x else [])"
  proof -
    have "g e = k x" if "e \<in> set (f x)" for e using Cons.prems(1) [of x e] that by simp
    then show ?thesis by (cases "k x = k y") (auto simp: filter_empty_conv filter_id_conv)
  qed
  show ?case
  proof (cases "y = x")
    case True
    have "[e \<leftarrow> concat (map f xs). g e = k y] = []"
      by (rule filter_concat_none) (use Cons.prems True in auto)
    then show ?thesis using fx True by simp
  next
    case False
    then have y: "y \<in> set xs" using Cons.prems(3) by simp
    then have "k x \<noteq> k y" using Cons.prems(2) by (metis distinct.simps(2) image_eqI list.simps(9) set_map)
    then show ?thesis using fx Cons.IH [OF _ _ y] Cons.prems(1,2) by simp
  qed
qed simp

lemma segment_edges_of:
  "e \<in> set (segment_edges a v name session before after mem s) \<Longrightarrow> ed_segment e = sd_id s \<and> ed_viewer e = v"
  by (auto simp: segment_edges_def Let_def edgeEvent_def split: option.splits if_splits)

lemma viewer_edges_of: "e \<in> set (viewer_edges a ch live v mem) \<Longrightarrow> ed_viewer e = v"
  using segment_edges_of by (fastforce simp: viewer_edges_def Let_def)

lemma diff_edges_of:
  assumes ok: "segments_ok segments" and s: "s \<in> set segments" and "\<not> timeRelative (sd_condition s)" and "sa_announce a"
  shows "map ed_edge [e \<leftarrow> fst (diffSegments a ch segments mem). ed_viewer e = v \<and> ed_segment e = sd_id s]
    = (if s \<in> set (affected_segments a (own_changes ch v) (live_segments a ch segments))
       then (case member_edge (member_in mem (sd_id s) v (segment_window_key a (eventSession a) s))
                (evaluate (sd_condition s) (current_reading a v) (event_ms a)) of None \<Rightarrow> [] | Some e \<Rightarrow> [e])
       else [])"
proof -
  let ?live = "live_segments a ch segments"
  let ?aff = "affected_segments a (own_changes ch v) ?live"
  let ?edges = "segment_edges a v (viewer_name (own_changes ch v)) (pass_session a ?aff) (readings_before a (own_changes ch v) v ?aff)
           (readings_after a v ?aff) mem"
  have all: "fst (diffSegments a ch segments mem) = concat (map (\<lambda>u. viewer_edges a ch ?live u mem) (locked_viewers ch))"
    unfolding diffSegments_def diff_edges [OF live_distinct [OF ok] live_reads [OF ok] locked_viewers_set(2)] by simp
  have own: "[e \<leftarrow> fst (diffSegments a ch segments mem). ed_viewer e = v]
      = (if v \<in> set (locked_viewers ch) then viewer_edges a ch ?live v mem else [])"
  proof (cases "v \<in> set (locked_viewers ch)")
    case True
    have "[e \<leftarrow> concat (map (\<lambda>u. viewer_edges a ch ?live u mem) (locked_viewers ch)). ed_viewer e = v] = viewer_edges a ch ?live v mem"
      by (rule filter_concat_one [where k = "\<lambda>u. u"]) (use True locked_viewers_set(2) viewer_edges_of in auto)
    then show ?thesis using True all by simp
  next
    case False
    have "[e \<leftarrow> concat (map (\<lambda>u. viewer_edges a ch ?live u mem) (locked_viewers ch)). ed_viewer e = v] = []"
      by (rule filter_concat_none [where k = "\<lambda>u. u"]) (use False viewer_edges_of in auto)
    then show ?thesis using False all by simp
  qed
  have split: "[e \<leftarrow> es. ed_viewer e = v \<and> ed_segment e = sd_id s] = [e \<leftarrow> [e \<leftarrow> es. ed_viewer e = v]. ed_segment e = sd_id s]" for es
    by (simp add: conj_commute)
  have ve: "viewer_edges a ch ?live v mem = concat (map ?edges ?aff)" by (simp add: viewer_edges_def Let_def)
  show ?thesis
  proof (cases "s \<in> set ?aff")
    case True
    then obtain c where "c \<in> set ch" "fc_viewer c = v" by (auto simp: affected_segments_def own_changes_def list_ex_iff)
    then have "v \<in> set (locked_viewers ch)" by (auto simp: locked_viewers_set)
    then have "[e \<leftarrow> fst (diffSegments a ch segments mem). ed_viewer e = v \<and> ed_segment e = sd_id s]
        = [e \<leftarrow> concat (map ?edges ?aff). ed_segment e = sd_id s]" unfolding split own ve by simp
    also have "\<dots> = ?edges s"
      by (rule filter_concat_one [OF _ affected_distinct [OF live_distinct [OF ok]] True]) (use segment_edges_of in blast)
    finally have f: "[e \<leftarrow> fst (diffSegments a ch segments mem). ed_viewer e = v \<and> ed_segment e = sd_id s] = ?edges s" .
    have r: "sd_reads s = condition_facts (sd_condition s)" "\<not> sd_timeRelative s" using ok s assms(3) by (auto simp: segments_ok_def)
    have "evaluate (sd_condition s) (readings_after a v ?aff) (event_ms a) = evaluate (sd_condition s) (current_reading a v) (event_ms a)"
      by (rule evaluate_frame) (use affected_reading [OF True] r in simp_all)
    then show ?thesis using f r(2) True assms(4) affected_window [OF True]
      by (simp add: segment_edges_def Let_def edgeEvent_def split: option.split)
  next
    case False
    then have "sd_id s \<notin> sd_id ` set ?aff" using affected_iff [OF ok s] by blast
    then have "[e \<leftarrow> concat (map ?edges ?aff). ed_segment e = sd_id s] = []"
      by (intro filter_concat_none [where k = sd_id]) (use segment_edges_of in blast)
    then have "[e \<leftarrow> fst (diffSegments a ch segments mem). ed_viewer e = v \<and> ed_segment e = sd_id s] = []"
      unfolding split own ve by simp
    then show ?thesis using False by simp
  qed
qed


lemma chatty_none_before: "member_in [] (sd_id chatty) v w = False"
  by (simp add: member_in_def)


subsection \<open>A filled segment\<close>

lemma fold_Enter:
  "map_of (fold (\<lambda>v m. snd (Enter (i, v) w t m)) vs mem) (j, u)
     = (if j = i \<and> u \<in> set vs \<and> \<not> member_in mem i u w then Some (w, t) else map_of mem (j, u))"
proof (induction vs arbitrary: mem)
  case (Cons x vs)
  have one: "map_of (snd (Enter (i, x) w t mem)) (j, u)
      = (if j = i \<and> u = x \<and> \<not> member_in mem i u w then Some (w, t) else map_of mem (j, u))" for j u
    by (auto simp: Enter_def member_in_def update_conv' split: option.splits prod.splits)
  have m: "member_in (snd (Enter (i, x) w t mem)) i u w \<longleftrightarrow> u = x \<or> member_in mem i u w"
    by (auto simp: member_in_def one split: option.splits)
  show ?case by (auto simp: Cons.IH m one)
qed simp

lemma fold_Leave:
  "map_of (fold (\<lambda>v m. snd (Leave (i, v) m)) vs mem) (j, u) = (if j = i \<and> u \<in> set vs then None else map_of mem (j, u))"
  by (induction vs arbitrary: mem) (auto simp: Leave_def delete_conv')

lemma viewersWithReadings_iff:
  "v \<in> set (viewersWithReadings rows facts session) \<longleftrightarrow>
     (\<exists>x \<in> set rows. readable_row facts session (fst x) \<and> fst (snd (fst x)) = v)"
proof -
  have "v \<in> set [fst (snd k) . (k, s) \<leftarrow> rows, readable_row facts session k] \<longleftrightarrow>
     (\<exists>x \<in> set rows. readable_row facts session (fst x) \<and> fst (snd (fst x)) = v)"
    by (induction rows) auto
  then show ?thesis by (simp add: viewersWithReadings_def)
qed

lemma with_readings:
  "v \<in> set (viewersWithReadings (FactValues db ids session None) facts session)
     \<longleftrightarrow> (\<exists>f \<in> set ids. viewer_reading db facts session v f \<noteq> None)"
proof
  assume "v \<in> set (viewersWithReadings (FactValues db ids session None) facts session)"
  then obtain f w row where k: "((f, v, w), row) \<in> set (FactValues db ids session None)" "readable_row facts session (f, v, w)"
    unfolding viewersWithReadings_iff by (metis prod.collapse)
  then have f: "f \<in> set ids" and "((f, v, w), row) \<in> set (fact_values db)" by (auto simp: FactValues_def)
  then have "stored_value db (f, v, w) \<noteq> None"
    unfolding stored_value_def by (metis map_of_eq_None_iff imageI fst_conv option.map_disc_iff)
  then have "viewer_reading db facts session v f \<noteq> None"
    using k(2) by (auto simp: readable_row_def viewer_reading_def readingOf_def split: option.splits)
  with f show "\<exists>f \<in> set ids. viewer_reading db facts session v f \<noteq> None" by blast
next
  assume "\<exists>f \<in> set ids. viewer_reading db facts session v f \<noteq> None"
  then obtain f sf x where f: "f \<in> set ids" "facts f = Some sf" "sf_active sf" "stored_value db (f, v, factWindowKey sf session) = Some x"
    by (auto simp: viewer_reading_def readingOf_def split: option.splits if_splits)
  then obtain n where "map_of (fact_values db) (f, v, factWindowKey sf session) = Some (x, n)" by (auto simp: stored_value_def)
  then have "((f, v, factWindowKey sf session), (x, n)) \<in> set (fact_values db)" by (rule map_of_SomeD)
  then have "((f, v, factWindowKey sf session), (x, n)) \<in> set (FactValues db ids session None)"
    using f(1) factWindowKey_in [of sf session] by (auto simp: FactValues_def)
  moreover have "readable_row facts session (f, v, factWindowKey sf session)" using f(2,3) by (simp add: readable_row_def)
  ultimately show "v \<in> set (viewersWithReadings (FactValues db ids session None) facts session)"
    unfolding viewersWithReadings_iff by (metis fst_conv snd_conv)
qed

lemma existing_iff:
  assumes "distinct (map fst mem)"
  shows "(v, w) \<in> set (segment_members i mem) \<longleftrightarrow> member_in mem i v w"
proof -
  have "(v, w) \<in> set (segment_members i mem) \<longleftrightarrow> (\<exists>e. ((i, v), (w, e)) \<in> set mem)"
    unfolding segment_members_def by (induction mem) auto
  also have "\<dots> \<longleftrightarrow> (\<exists>e. map_of mem (i, v) = Some (w, e))" using map_of_eq_Some_iff [OF assms] by metis
  also have "\<dots> \<longleftrightarrow> member_in mem i v w" by (auto simp: member_in_def split: option.splits)
  finally show ?thesis .
qed

lemma keys_without: "v \<in> set [v . (v, w) \<leftarrow> xs, v \<notin> Q] \<longleftrightarrow> v \<notin> Q \<and> (\<exists>w. (v, w) \<in> set xs)"
  by (induction xs) auto

lemma qualifying_iff:
  assumes "sd_reads s = condition_facts (sd_condition s)"
  shows "v \<in> set (qualifying db facts now s window session) \<longleftrightarrow>
    (window = ''lifetime'' \<or> session \<noteq> '''') \<and> (\<exists>f \<in> set (sd_reads s). viewer_reading db facts session v f \<noteq> None)
    \<and> evaluate (sd_condition s) (viewer_reading db facts session v) (unix_milli now)"
proof -
  have "evaluate (sd_condition s) (readingsByViewer (FactValues db (sd_reads s) session None) facts session v) (unix_milli now)
      = evaluate (sd_condition s) (viewer_reading db facts session v) (unix_milli now)"
  proof (rule evaluate_frame)
    show "\<forall>t \<in> set (seg_atoms (sd_condition s)).
        readingsByViewer (FactValues db (sd_reads s) session None) facts session v (sa_fact t) = viewer_reading db facts session v (sa_fact t)"
    proof
      fix t assume "t \<in> set (seg_atoms (sd_condition s))"
      then have "sa_fact t \<in> set (sd_reads s)" using assms by simp
      then show "readingsByViewer (FactValues db (sd_reads s) session None) facts session v (sa_fact t)
          = viewer_reading db facts session v (sa_fact t)" by (rule readings_are) simp
    qed
  qed simp
  then show ?thesis using with_readings [of v db "sd_reads s" session facts] by (simp add: qualifying_def Let_def)
qed

text \<open>
  C38. Filling a segment makes its membership what the stored values say: a viewer is in it exactly when they
  have a value of a fact it reads and its condition holds of their values, and no row is left of anyone else.
\<close>

theorem filled_segment_follows_values:
  assumes fill: "fillSegment active now db s mem = (True, s', mem')"
    and reads: "sd_reads s = condition_facts (sd_condition s)" and keys: "distinct (map fst mem)"
    and facts: "facts = loadSegmentFacts active db" and session: "session = fill_session db now (sd_windowKind s')"
  shows "member_in mem' (sd_id s) v session
      = ((sd_windowKind s' = ''lifetime'' \<or> session \<noteq> '''') \<and> (\<exists>f \<in> set (sd_reads s). viewer_reading db facts session v f \<noteq> None)
         \<and> evaluate (sd_condition s) (viewer_reading db facts session v) (unix_milli now))
    \<and> (member_in mem' (sd_id s) v session \<or> map_of mem' (sd_id s, v) = None)"
proof -
  let ?window = "segmentWindow (sd_reads s) facts"
  have thawed: "\<not> segmentFrozen (sd_condition s) (sd_reads s) facts" using fill by (auto simp: fillSegment_def facts Let_def split: if_splits)
  have s': "sd_windowKind s' = ?window" using fill thawed by (auto simp: fillSegment_def facts Let_def)
  define q where "q = qualifying db facts now s ?window session"
  define leave where "leave = [v . (v, w) \<leftarrow> segment_members (sd_id s) mem, v \<notin> set q]"
  define enter where "enter = sort_key (\<lambda>v. fst v @ [char_of (0::int)] @ snd v) [v \<leftarrow> q. (v, session) \<notin> set (segment_members (sd_id s) mem)]"
  let ?mem1 = "fold (\<lambda>v m. snd (Enter (sd_id s, v) session now m)) enter mem"
  have mem': "mem' = fold (\<lambda>v m. snd (Leave (sd_id s, v) m)) leave ?mem1"
    using fill thawed by (simp add: fillSegment_def facts [symmetric] Let_def q_def leave_def enter_def session s')
  have en: "v \<in> set enter \<longleftrightarrow> v \<in> set q \<and> \<not> member_in mem (sd_id s) v session"
    using existing_iff [OF keys] by (simp add: enter_def)
  have le: "v \<in> set leave \<longleftrightarrow> v \<notin> set q \<and> map_of mem (sd_id s, v) \<noteq> None"
  proof -
    have "v \<in> set leave \<longleftrightarrow> v \<notin> set q \<and> (\<exists>w. (v, w) \<in> set (segment_members (sd_id s) mem))"
      unfolding leave_def by (rule keys_without)
    also have "(\<exists>w. (v, w) \<in> set (segment_members (sd_id s) mem)) \<longleftrightarrow> map_of mem (sd_id s, v) \<noteq> None"
      unfolding existing_iff [OF keys] by (auto simp: member_in_def split: option.splits)
    finally show ?thesis .
  qed
  have m: "map_of mem' (sd_id s, v) = (if v \<in> set leave then None
      else if v \<in> set enter \<and> \<not> member_in mem (sd_id s) v session then Some (session, now) else map_of mem (sd_id s, v))"
    unfolding mem' fold_Leave fold_Enter by simp
  have A: "member_in mem' (sd_id s) v session \<longleftrightarrow> v \<in> set q"
    using m en le by (auto simp: member_in_def split: option.splits if_splits)
  have B: "member_in mem' (sd_id s) v session \<or> map_of mem' (sd_id s, v) = None"
    using m en le by (auto simp: member_in_def split: option.splits if_splits)
  note qq = qualifying_iff [OF reads, of v db facts now ?window session, folded q_def]
  show ?thesis unfolding s' by (rule conjI [OF trans [OF A qq] B])
qed

definition chatty_fill :: "bool \<times> SegmentDefinition \<times> members" where
  "chatty_fill = fillSegment (\<lambda>_. True) 5000000 (snd chat_result) chatty []"

lemma chatty_filled: "fst chatty_fill" "sd_windowKind (fst (snd chatty_fill)) = ''session''"
  by code_simp+

lemma chatty_value:
  "viewer_reading (snd chat_result) (loadSegmentFacts (\<lambda>_. True) (snd chat_result)) ''s1'' (''twitch'', ''a'') ''u:fact:chats''
     = Some \<lparr>fr_num = Some (f_of_int 1), fr_str = None\<rparr>"
  by code_simp

lemma chatty_session: "fill_session (snd chat_result) 5000000 ''session'' = ''s1''"
  by code_simp

theorem filled_segment_follows_values_witness:
  "member_in (snd (snd chatty_fill)) ''u:segment:chatty'' (''twitch'', ''a'') ''s1''"
proof -
  have fill: "fillSegment (\<lambda>_. True) 5000000 (snd chat_result) chatty [] = (True, fst (snd chatty_fill), snd (snd chatty_fill))"
    using chatty_filled(1) by (simp add: chatty_fill_def prod_eq_iff)
  have reads: "sd_reads chatty = condition_facts (sd_condition chatty)" using chatty_ok by (simp add: segments_ok_def)
  have e: "evaluate (sd_condition chatty) (viewer_reading (snd chat_result) (loadSegmentFacts (\<lambda>_. True) (snd chat_result)) ''s1''
      (''twitch'', ''a'')) (unix_milli 5000000)"
    using chatty_value by (simp add: chatty_def evaluateAtom_def operand_num_def f_le_def f_eq_refl)
  have i: "sd_id chatty = ''u:segment:chatty''" "''u:fact:chats'' \<in> set (sd_reads chatty)" by (simp_all add: chatty_def)
  have "''s1'' = fill_session (snd chat_result) 5000000 (sd_windowKind (fst (snd chatty_fill)))"
    using chatty_session chatty_filled(2) by simp
  from filled_segment_follows_values [OF fill reads _ refl this, of "(''twitch'', ''a'')", THEN conjunct1]
  show ?thesis using e i chatty_value by (simp add: chatty_filled(2)) blast
qed

subsection \<open>Events of another session\<close>

text \<open>
  They move no membership of a session segment, not even when they change a lifetime fact the segment reads:
  the membership then disagrees with the values until the viewer's next event.
\<close>

lemma late_event_moves_no_session_member:
  assumes "segments_ok segments" and "s \<in> set segments"
    and app: "apply_with_segments active now segments b db mem = Inr (r, db', edges, mem')"
    and "segmentWindow (sd_reads s) (loadSegmentFacts active db) = ''session''" and "\<not> sessionCurrent (the_apply active now b db)"
  shows "map_of mem' (sd_id s, v) = map_of mem (sd_id s, v)"
proof -
  let ?a = "the_apply active now b db'"
  note u = apply_unfold [OF app]
  note same = same_tables [OF apply_tables [OF u(1)]]
  have "s \<notin> set (affected_segments ?a (own_changes (Changes r) v) (live_segments ?a (Changes r) segments))"
    using assms(4,5) same(1,3) by (simp add: affected_segments_def)
  from diff_unaffected [OF assms(1,2) this, of mem] u(2)
  show ?thesis by (cases "Changes r = []") (auto dest: arg_cong [of _ _ snd])
qed
subsection \<open>Bringing segments up to date\<close>

text \<open>After triggers came or went: a frozen segment is marked stale, a stale one that is frozen no more is filled.\<close>

definition reconcile_segment ::
  "(string \<Rightarrow> bool) \<Rightarrow> int \<Rightarrow> fact_db \<Rightarrow> SegmentDefinition \<Rightarrow> members \<Rightarrow> SegmentDefinition \<times> members" where
  "reconcile_segment active now db s mem =
     (if segmentFrozen (sd_condition s) (sd_reads s) (loadSegmentFacts active db) = sd_stale s then (s, mem)
      else snd (fillSegment active now db s mem))"

fun reconcileSegments ::
  "(string \<Rightarrow> bool) \<Rightarrow> int \<Rightarrow> fact_db \<Rightarrow> SegmentDefinition list \<Rightarrow> members \<Rightarrow> SegmentDefinition list \<times> members" where
  "reconcileSegments active now db [] mem = ([], mem)"
| "reconcileSegments active now db (s # ss) mem =
     (case reconcile_segment active now db s mem of (s', mem1) \<Rightarrow>
        case reconcileSegments active now db ss mem1 of (ss', mem2) \<Rightarrow> (s' # ss', mem2))"

text \<open>After a fact was revised: every segment that reads it is filled anew.\<close>

fun refillSegmentsReading ::
  "(string \<Rightarrow> bool) \<Rightarrow> int \<Rightarrow> fact_db \<Rightarrow> string \<Rightarrow> SegmentDefinition list \<Rightarrow> members \<Rightarrow> SegmentDefinition list \<times> members" where
  "refillSegmentsReading active now db f [] mem = ([], mem)"
| "refillSegmentsReading active now db f (s # ss) mem =
     (case (if f \<in> set (sd_reads s) then snd (fillSegment active now db s mem) else (s, mem)) of (s', mem1) \<Rightarrow>
        case refillSegmentsReading active now db f ss mem1 of (ss', mem2) \<Rightarrow> (s' # ss', mem2))"

lemma reconciled_stale:
  "sd_stale (fst (reconcile_segment active now db s mem))
     = segmentFrozen (sd_condition s) (sd_reads s) (loadSegmentFacts active db)"
  by (simp add: reconcile_segment_def fillSegment_def Let_def)

lemma reconciled_segments_stale:
  "map sd_stale (fst (reconcileSegments active now db ss mem))
     = map (\<lambda>s. segmentFrozen (sd_condition s) (sd_reads s) (loadSegmentFacts active db)) ss"
proof (induction ss arbitrary: mem)
  case (Cons s ss)
  then show ?case using reconciled_stale [of active now db s mem] by (simp add: case_prod_unfold)
qed simp

end
