(* ===== verification/Fact_Index.thy ===== *)
theory Fact_Index
  imports Condition_Tree Event_Match "HOL-Library.AList" "HOL-Library.Multiset"
begin

text \<open>
  The index of fact definitions, \<open>workflow/internal/facts/index.go\<close>: which sources listen for an event
  type, found by a map and a list of wildcard patterns, and the pool of the atoms their conditions share.
\<close>

subsection \<open>Definitions and sources\<close>

record Aggregate =
  ag_fn :: string
  ag_path :: string

record FactSource =
  so_trigger :: string
  so_pattern :: string
  so_identity :: string
  so_anonymous :: string
  so_name :: string
  so_where :: "tree option"
  so_value :: string

record FactDefinition =
  df_id :: string
  df_revision :: int
  df_aggregate :: Aggregate
  df_sources :: "FactSource list"
  df_status :: string

record compiledSource =
  cs_fact :: string
  cs_revision :: int
  cs_fn :: string
  cs_order :: nat
  cs_source :: FactSource
  cs_valuePath :: string
  cs_atomIDs :: "(tree \<times> nat) list"

record compiledAtom =
  ca_path :: string
  ca_op :: string
  ca_expected :: val
  ca_re :: "(string \<Rightarrow> bool) option"

text \<open>A wildcard group: its pattern, the pattern's tokens and its sources.\<close>

type_synonym wildcardSources = "string \<times> string list \<times> compiledSource list"

record fact_index =
  ix_exact :: "(string \<times> compiledSource list) list"
  ix_wildcard :: "wildcardSources list"
  ix_atoms :: "compiledAtom list"
  ix_patterns :: "string list"

text \<open>\<open>encoding/json\<close>: copying a tree through its text, and writing a value.\<close>

record jsonlib =
  json_tree :: "tree \<Rightarrow> tree option"
  json_text :: "val \<Rightarrow> string option"

definition knownAggregate :: "string \<Rightarrow> bool" where
  "knownAggregate fn \<longleftrightarrow>
     fn \<in> {''count'', ''sum'', ''min'', ''max'', ''last'', ''first_at'', ''last_at'', ''sessions'', ''session_streak''}"

definition aggregateReadsValue :: "string \<Rightarrow> bool" where
  "aggregateReadsValue fn \<longleftrightarrow> fn \<in> {''sum'', ''min'', ''max'', ''last''}"

definition isWildcard :: "string \<Rightarrow> bool" where
  "isWildcard pattern \<longleftrightarrow> list_ex (\<lambda>t. t = ''*'' \<or> t = ''>'') (split_on (CHR ''.'') pattern)"

datatype definition_error =
    NoDefinitionId
  | UnknownAggregateFn string
  | NoSources
  | NoEventPattern nat string
  | NoIdentityPath nat string
  | WhereNotCopied nat string
  | BadWhere nat string terr
  | NeedsValuePath nat string string

definition cloneTree :: "jsonlib \<Rightarrow> tree \<Rightarrow> tree option" where
  "cloneTree J t = json_tree J t"

definition clone_where :: "jsonlib \<Rightarrow> regexp \<Rightarrow> nat \<Rightarrow> FactSource \<Rightarrow> (definition_error, FactSource) res" where
  "clone_where J re i src =
     (case so_where src of
        None \<Rightarrow> Inr src
      | Some t \<Rightarrow>
          (case cloneTree J t of
             None \<Rightarrow> Inl (WhereNotCopied i (so_trigger src))
           | Some w \<Rightarrow>
               (case Validate re w of
                  Some e \<Rightarrow> Inl (BadWhere i (so_trigger src) e)
                | None \<Rightarrow> Inr (src\<lparr>so_where := Some w\<rparr>))))"

definition compile_source ::
  "jsonlib \<Rightarrow> regexp \<Rightarrow> FactDefinition \<Rightarrow> nat \<Rightarrow> nat \<Rightarrow> FactSource \<Rightarrow> (definition_error, compiledSource) res" where
  "compile_source J re def i order src =
     (if so_pattern src = '''' then Inl (NoEventPattern i (so_trigger src))
      else if so_identity src = '''' then Inl (NoIdentityPath i (so_trigger src))
      else bind_res (clone_where J re i src) (\<lambda>s.
        let valuePath = (if so_value s = '''' then ag_path (df_aggregate def) else so_value s);
            fn = ag_fn (df_aggregate def)
        in if aggregateReadsValue fn \<and> valuePath = '''' then Inl (NeedsValuePath i (so_trigger s) fn)
           else Inr \<lparr>cs_fact = df_id def, cs_revision = df_revision def, cs_fn = fn, cs_order = order, cs_source = s,
                     cs_valuePath = valuePath, cs_atomIDs = []\<rparr>))"

text \<open>The order advances with each source that compiles, also those of a definition that then fails.\<close>

fun compile_sources ::
  "jsonlib \<Rightarrow> regexp \<Rightarrow> FactDefinition \<Rightarrow> nat \<Rightarrow> nat \<Rightarrow> FactSource list \<Rightarrow> (definition_error, compiledSource list) res \<times> nat" where
  "compile_sources J re def i order [] = (Inr [], order)"
| "compile_sources J re def i order (src # srcs) =
     (case compile_source J re def i order src of
        Inl e \<Rightarrow> (Inl e, order)
      | Inr cs \<Rightarrow>
          (case compile_sources J re def (i + 1) (order + 1) srcs of
             (r, order') \<Rightarrow> (bind_res r (\<lambda>css. Inr (cs # css)), order')))"

definition compileDefinition ::
  "jsonlib \<Rightarrow> regexp \<Rightarrow> FactDefinition \<Rightarrow> nat \<Rightarrow> (definition_error, compiledSource list) res \<times> nat" where
  "compileDefinition J re def order =
     (if df_id def = '''' then (Inl NoDefinitionId, order)
      else if \<not> knownAggregate (ag_fn (df_aggregate def)) then (Inl (UnknownAggregateFn (ag_fn (df_aggregate def))), order)
      else if df_sources def = [] then (Inl NoSources, order)
      else compile_sources J re def 0 order (df_sources def))"

subsection \<open>The pool of atoms\<close>

text \<open>The atoms of a tree in the order \<open>poolAtoms\<close> meets them.\<close>

fun tree_atoms :: "tree \<Rightarrow> tree list" where
  "tree_atoms (Tree all any neg p op v) =
     (case all of
        Some ts \<Rightarrow> concat (map tree_atoms ts)
      | None \<Rightarrow> (case any of
          Some ts \<Rightarrow> concat (map tree_atoms ts)
        | None \<Rightarrow> (case neg of
            Some t \<Rightarrow> tree_atoms t
          | None \<Rightarrow> [Tree all any neg p op v])))"

definition nul :: char where "nul = CHR 0x00"

text \<open>A value that does not encode panics in the code; it does not happen to a copied tree.\<close>

definition atomKey :: "jsonlib \<Rightarrow> string \<Rightarrow> string \<Rightarrow> val \<Rightarrow> string" where
  "atomKey J path op v = path @ [nul] @ op @ [nul] @ (case json_text J v of None \<Rightarrow> '''' | Some s \<Rightarrow> s)"

text \<open>An atom without a canonical operator panics; a validated one has it.\<close>

definition canonical_op :: "tree \<Rightarrow> string" where
  "canonical_op t = (case Canonical (Op t) of None \<Rightarrow> '''' | Some c \<Rightarrow> c)"

definition new_atom :: "regexp \<Rightarrow> tree \<Rightarrow> compiledAtom" where
  "new_atom re t =
     \<lparr>ca_path = Path t, ca_op = canonical_op t, ca_expected = Expected t,
      ca_re = (if canonical_op t = ''regex'' then (case Expected t of VStr p \<Rightarrow> re p | _ \<Rightarrow> None) else None)\<rparr>"

record atom_pool =
  ap_atoms :: "compiledAtom list"
  ap_slots :: "(string \<times> nat) list"

definition pool_atom ::
  "jsonlib \<Rightarrow> regexp \<Rightarrow> tree \<Rightarrow> atom_pool \<times> (tree \<times> nat) list \<Rightarrow> atom_pool \<times> (tree \<times> nat) list" where
  "pool_atom J re t st =
     (case st of (p, ids) \<Rightarrow>
        let key = atomKey J (Path t) (canonical_op t) (Expected t) in
        case map_of (ap_slots p) key of
          Some slot \<Rightarrow> (p, (t, slot) # ids)
        | None \<Rightarrow>
            (\<lparr>ap_atoms = ap_atoms p @ [new_atom re t], ap_slots = (key, length (ap_atoms p)) # ap_slots p\<rparr>,
             (t, length (ap_atoms p)) # ids))"

definition poolAtoms :: "jsonlib \<Rightarrow> regexp \<Rightarrow> tree \<Rightarrow> atom_pool \<Rightarrow> atom_pool \<times> (tree \<times> nat) list" where
  "poolAtoms J re t p = fold (pool_atom J re) (tree_atoms t) (p, [])"

definition pool_source :: "jsonlib \<Rightarrow> regexp \<Rightarrow> compiledSource \<Rightarrow> atom_pool \<Rightarrow> compiledSource \<times> atom_pool" where
  "pool_source J re cs p =
     (case so_where (cs_source cs) of
        None \<Rightarrow> (cs, p)
      | Some t \<Rightarrow> (case poolAtoms J re t p of (p', ids) \<Rightarrow> (cs\<lparr>cs_atomIDs := ids\<rparr>, p')))"

subsection \<open>The index\<close>

definition add_exact :: "compiledSource \<Rightarrow> fact_index \<Rightarrow> fact_index" where
  "add_exact cs ix =
     (let p = so_pattern (cs_source cs) in
      case map_of (ix_exact ix) p of
        None \<Rightarrow> ix\<lparr>ix_exact := AList.update p [cs] (ix_exact ix), ix_patterns := ix_patterns ix @ [p]\<rparr>
      | Some css \<Rightarrow> ix\<lparr>ix_exact := AList.update p (css @ [cs]) (ix_exact ix)\<rparr>)"

definition add_wildcard :: "compiledSource \<Rightarrow> fact_index \<Rightarrow> fact_index" where
  "add_wildcard cs ix =
     (let p = so_pattern (cs_source cs) in
      if p \<in> fst ` set (ix_wildcard ix)
      then ix\<lparr>ix_wildcard := map (\<lambda>(q, toks, css). (q, toks, if q = p then css @ [cs] else css)) (ix_wildcard ix)\<rparr>
      else ix\<lparr>ix_wildcard := ix_wildcard ix @ [(p, split_on (CHR ''.'') p, [cs])], ix_patterns := ix_patterns ix @ [p]\<rparr>)"

definition add_source :: "compiledSource \<Rightarrow> fact_index \<Rightarrow> fact_index" where
  "add_source cs ix = (if isWildcard (so_pattern (cs_source cs)) then add_wildcard cs ix else add_exact cs ix)"

fun add_sources :: "jsonlib \<Rightarrow> regexp \<Rightarrow> compiledSource list \<Rightarrow> fact_index \<times> atom_pool \<Rightarrow> fact_index \<times> atom_pool" where
  "add_sources J re [] st = st"
| "add_sources J re (cs # css) (ix, p) =
     (case pool_source J re cs p of (cs', p') \<Rightarrow> add_sources J re css (add_source cs' ix, p'))"

fun build_loop ::
  "jsonlib \<Rightarrow> regexp \<Rightarrow> FactDefinition list \<Rightarrow> nat \<Rightarrow> fact_index \<times> atom_pool
   \<Rightarrow> (fact_index \<times> atom_pool) \<times> (string \<times> definition_error) list" where
  "build_loop J re [] order st = (st, [])"
| "build_loop J re (def # defs) order st =
     (if df_status def \<noteq> ''active'' then build_loop J re defs order st
      else (case compileDefinition J re def order of
              (Inl e, order') \<Rightarrow> (case build_loop J re defs order' st of (st', errs) \<Rightarrow> (st', (df_id def, e) # errs))
            | (Inr css, order') \<Rightarrow> build_loop J re defs order' (add_sources J re css st)))"

definition empty_index :: fact_index where
  "empty_index = \<lparr>ix_exact = [], ix_wildcard = [], ix_atoms = [], ix_patterns = []\<rparr>"

definition buildIndex :: "jsonlib \<Rightarrow> regexp \<Rightarrow> FactDefinition list \<Rightarrow> fact_index \<times> (string \<times> definition_error) list" where
  "buildIndex J re defs =
     (case build_loop J re defs 0 (empty_index, \<lparr>ap_atoms = [], ap_slots = []\<rparr>) of
        ((ix, p), errs) \<Rightarrow> (ix\<lparr>ix_atoms := ap_atoms p\<rparr>, errs))"

definition sourcesFor :: "fact_index \<Rightarrow> string \<Rightarrow> compiledSource list" where
  "sourcesFor ix eventType =
     (let exact = (case map_of (ix_exact ix) eventType of None \<Rightarrow> [] | Some css \<Rightarrow> css) in
      if ix_wildcard ix = [] then exact
      else
        let subject = split_on (CHR ''.'') eventType;
            groups = (if exact \<noteq> [] then [exact] else [])
              @ map (\<lambda>w. snd (snd w)) [w \<leftarrow> ix_wildcard ix. MatchesTokens (fst (snd w)) subject]
        in (case groups of [] \<Rightarrow> [] | [g] \<Rightarrow> g | _ \<Rightarrow> sort_key cs_order (concat groups)))"
subsection \<open>What the index holds\<close>

abbreviation pat :: "compiledSource \<Rightarrow> string" where "pat cs \<equiv> so_pattern (cs_source cs)"

lemma isWildcard_iff: "isWildcard p \<longleftrightarrow> \<not> wildcard_free (split_on (CHR ''.'') p)"
  by (auto simp: isWildcard_def wildcard_free_def list_ex_iff)

text \<open>The groups of an index on the sources \<open>S\<close>, in the order they were added.\<close>

definition index_inv :: "fact_index \<Rightarrow> compiledSource list \<Rightarrow> bool" where
  "index_inv ix S \<longleftrightarrow>
     (\<forall>p. map_of (ix_exact ix) p =
        (if \<not> isWildcard p \<and> p \<in> pat ` set S then Some [cs \<leftarrow> S. pat cs = p] else None))
     \<and> distinct (map fst (ix_wildcard ix))
     \<and> fst ` set (ix_wildcard ix) = {p \<in> pat ` set S. isWildcard p}
     \<and> (\<forall>w \<in> set (ix_wildcard ix). snd w = (split_on (CHR ''.'') (fst w), [cs \<leftarrow> S. pat cs = fst w]))
     \<and> distinct (ix_patterns ix) \<and> set (ix_patterns ix) = pat ` set S"

lemma index_inv_empty: "index_inv empty_index []"
  by (simp add: index_inv_def empty_index_def)

lemma fresh_pattern: "p \<notin> pat ` set S \<Longrightarrow> x \<in> set S \<Longrightarrow> pat x \<noteq> p"
  by auto

lemma index_inv_exact:
  assumes "index_inv ix S" and "\<not> isWildcard (pat cs)"
  shows "index_inv (add_exact cs ix) (S @ [cs])"
proof (cases "pat cs \<in> pat ` set S")
  case True
  then have "map_of (ix_exact ix) (pat cs) = Some [c \<leftarrow> S. pat c = pat cs]"
    using assms by (simp add: index_inv_def)
  then show ?thesis using assms True
    by (auto simp: index_inv_def add_exact_def Let_def update_conv')
next
  case False
  then have "map_of (ix_exact ix) (pat cs) = None" using assms by (simp add: index_inv_def)
  moreover have "[c \<leftarrow> S. pat c = pat cs] = []" using fresh_pattern [OF False] by (simp add: filter_empty_conv)
  ultimately show ?thesis using assms False fresh_pattern [OF False]
    unfolding index_inv_def add_exact_def Let_def by (auto simp: update_conv')
qed

definition grow_group :: "compiledSource \<Rightarrow> wildcardSources \<Rightarrow> wildcardSources" where
  "grow_group cs = (\<lambda>(q, toks, css). (q, toks, if q = pat cs then css @ [cs] else css))"

lemma grow_group_simps [simp]:
  "fst (grow_group cs w) = fst w"
  "snd (grow_group cs w) = (fst (snd w), if fst w = pat cs then snd (snd w) @ [cs] else snd (snd w))"
  by (simp_all add: grow_group_def split_beta)

lemma index_inv_wildcard:
  assumes inv: "index_inv ix S" and wild: "isWildcard (pat cs)"
  shows "index_inv (add_wildcard cs ix) (S @ [cs])"
proof (cases "pat cs \<in> pat ` set S")
  case True
  then have known: "pat cs \<in> fst ` set (ix_wildcard ix)" using inv wild by (simp add: index_inv_def)
  have step: "add_wildcard cs ix = ix\<lparr>ix_wildcard := map (grow_group cs) (ix_wildcard ix)\<rparr>"
    using known by (simp add: add_wildcard_def grow_group_def Let_def)
  have names: "map fst (map (grow_group cs) (ix_wildcard ix)) = map fst (ix_wildcard ix)" by simp
  then have keys: "fst ` set (map (grow_group cs) (ix_wildcard ix)) = fst ` set (ix_wildcard ix)"
    by (metis list.set_map)
  have grown: "pat ` set (S @ [cs]) = pat ` set S" using True by auto
  show ?thesis using inv wild
    unfolding step index_inv_def grown by (simp add: names keys del: set_map map_map) (auto simp: image_image)
next
  case False
  then have fresh: "pat cs \<notin> fst ` set (ix_wildcard ix)" using inv by (simp add: index_inv_def)
  have step: "add_wildcard cs ix
      = ix\<lparr>ix_wildcard := ix_wildcard ix @ [(pat cs, split_on (CHR ''.'') (pat cs), [cs])],
          ix_patterns := ix_patterns ix @ [pat cs]\<rparr>"
    using fresh by (simp add: add_wildcard_def Let_def)
  have "[c \<leftarrow> S. pat c = pat cs] = []" using fresh_pattern [OF False] by (simp add: filter_empty_conv)
  moreover have "pat cs \<noteq> fst w" if "w \<in> set (ix_wildcard ix)" for w using fresh that by auto
  ultimately show ?thesis using inv wild False fresh
    unfolding step index_inv_def by auto
qed

lemma index_inv_source: "index_inv ix S \<Longrightarrow> index_inv (add_source cs ix) (S @ [cs])"
  by (simp add: add_source_def index_inv_exact index_inv_wildcard)

subsection \<open>Looking up an event type\<close>

lemma mset_groups:
  "distinct ps \<Longrightarrow> mset (concat (map (\<lambda>p. [x \<leftarrow> S. f x = p]) ps)) = mset [x \<leftarrow> S. f x \<in> set ps]"
proof (induction ps)
  case (Cons p ps)
  have "mset [x \<leftarrow> S. f x = p] + mset [x \<leftarrow> S. f x \<in> set ps] = mset [x \<leftarrow> S. f x = p \<or> f x \<in> set ps]"
    using Cons.prems by (induction S) auto
  then show ?case using Cons by simp
qed simp

lemma sort_key_distinct:
  assumes "sorted (map f ys)" "distinct (map f ys)" "mset ys = mset xs"
  shows "sort_key f xs = ys"
proof (rule properties_for_sort_key [OF assms(3) _ assms(1)])
  fix k assume k: "k \<in> set ys"
  have one: "filter (\<lambda>y. f k = f y) zs = [k]" if "k \<in> set zs" "distinct (map f zs)" for zs
    using that by (induction zs) (auto simp: filter_empty_conv image_iff)
  have "distinct (map f xs)" using assms(2,3) by (metis mset_map mset_eq_imp_distinct_iff)
  with k assms show "filter (\<lambda>y. f k = f y) ys = filter (\<lambda>y. f k = f y) xs"
    by (simp add: one mset_eq_setD [OF assms(3)])
qed

definition matched_groups :: "fact_index \<Rightarrow> string \<Rightarrow> compiledSource list list" where
  "matched_groups ix ty =
     (let exact = (case map_of (ix_exact ix) ty of None \<Rightarrow> [] | Some css \<Rightarrow> css) in
      (if exact \<noteq> [] then [exact] else [])
      @ map (\<lambda>w. snd (snd w)) [w \<leftarrow> ix_wildcard ix. MatchesTokens (fst (snd w)) (split_on (CHR ''.'') ty)])"

lemma matched_groups_mset:
  assumes "index_inv ix S"
  shows "mset (concat (matched_groups ix ty)) = mset [cs \<leftarrow> S. Matches (pat cs) ty]"
proof -
  let ?wild = "[w \<leftarrow> ix_wildcard ix. MatchesTokens (fst (snd w)) (split_on (CHR ''.'') ty)]"
  let ?ps = "(if \<not> isWildcard ty \<and> ty \<in> pat ` set S then [ty] else []) @ map fst ?wild"
  let ?group = "\<lambda>p. [cs \<leftarrow> S. pat cs = p]"
  from assms have inv: "\<forall>w \<in> set (ix_wildcard ix). snd w = (split_on (CHR ''.'') (fst w), ?group (fst w))"
    "fst ` set (ix_wildcard ix) = {p \<in> pat ` set S. isWildcard p}"
    "distinct (map fst (ix_wildcard ix))"
    unfolding index_inv_def by blast+
  have exact: "map_of (ix_exact ix) ty = (if \<not> isWildcard ty \<and> ty \<in> pat ` set S then Some (?group ty) else None)"
    using assms unfolding index_inv_def by blast
  have wild: "map (\<lambda>w. snd (snd w)) ?wild = map ?group (map fst ?wild)"
    using inv(1) by auto
  have groups: "matched_groups ix ty = map ?group ?ps"
    unfolding matched_groups_def Let_def exact wild by (auto simp: filter_empty_conv)
  have "ty \<notin> fst ` set ?wild" if "\<not> isWildcard ty" using inv(2) that by auto
  then have dist: "distinct ?ps" using inv(3) by (auto simp: distinct_map_filter)
  have same: "pat cs \<in> set ?ps \<longleftrightarrow> Matches (pat cs) ty" if "cs \<in> set S" for cs
  proof (cases "isWildcard (pat cs)")
    case True
    then have "pat cs \<in> fst ` set (ix_wildcard ix)" using inv(2) that by auto
    then obtain w where w: "w \<in> set (ix_wildcard ix)" "fst w = pat cs" by auto
    have toks: "fst (snd v) = split_on (CHR ''.'') (fst v)" if "v \<in> set (ix_wildcard ix)" for v
      using inv(1) that by simp
    have "pat cs \<notin> set (if \<not> isWildcard ty \<and> ty \<in> pat ` set S then [ty] else [])" using True by auto
    moreover have "pat cs \<in> fst ` set ?wild \<longleftrightarrow> Matches (pat cs) ty"
    proof
      assume "pat cs \<in> fst ` set ?wild"
      then obtain v where v: "pat cs = fst v" "v \<in> set ?wild" by (rule imageE)
      then have "v \<in> set (ix_wildcard ix)" and "MatchesTokens (fst (snd v)) (split_on (CHR ''.'') ty)"
        unfolding set_filter by simp_all
      then show "Matches (pat cs) ty" using toks [of v] v(1) by (simp only: Matches_def MatchesTokens_def)
    next
      assume "Matches (pat cs) ty"
      then have "MatchesTokens (fst (snd w)) (split_on (CHR ''.'') ty)"
        using toks [OF w(1)] w(2) by (simp only: Matches_def MatchesTokens_def)
      then have "w \<in> set ?wild" using w(1) by simp
      then have "fst w \<in> fst ` set ?wild" by (rule imageI)
      then show "pat cs \<in> fst ` set ?wild" by (simp only: w(2))
    qed
    ultimately show ?thesis unfolding set_append set_map by blast
  next
    case False
    then have "pat cs \<notin> fst ` set (ix_wildcard ix)" using inv(2) by auto
    then show ?thesis using False that by (auto simp: isWildcard_iff Matches_exact)
  qed
  have "[cs \<leftarrow> S. pat cs \<in> set ?ps] = [cs \<leftarrow> S. Matches (pat cs) ty]" by (rule filter_cong [OF refl same])
  then show ?thesis unfolding groups by (simp only: mset_groups [OF dist])
qed

lemma sourcesFor_groups:
  "sourcesFor ix ty = (case matched_groups ix ty of [] \<Rightarrow> [] | [g] \<Rightarrow> g | _ \<Rightarrow> sort_key cs_order (concat (matched_groups ix ty)))"
  by (auto simp: sourcesFor_def matched_groups_def Let_def split: list.splits)

lemma sorted_filter_key: "sorted (map f S) \<Longrightarrow> distinct (map f S) \<Longrightarrow> mset ys = mset (filter P S) \<Longrightarrow> sort_key f ys = filter P S"
  by (rule sort_key_distinct) (simp_all add: sorted_filter distinct_map_filter)

text \<open>A group that is the only one is already in declaration order.\<close>

lemma matched_groups_sorted:
  assumes "index_inv ix S" and "g \<in> set (matched_groups ix ty)"
  shows "\<exists>P. g = filter P S"
proof -
  have "\<forall>w \<in> set (ix_wildcard ix). snd (snd w) = [cs \<leftarrow> S. pat cs = fst w]"
    using assms(1) by (simp add: index_inv_def)
  moreover have "map_of (ix_exact ix) ty \<in> {None, Some [cs \<leftarrow> S. pat cs = ty]}"
    using assms(1) by (simp add: index_inv_def)
  ultimately show ?thesis using assms(2)
    by (auto simp: matched_groups_def Let_def split: if_splits)
qed

lemma sourcesFor_inv:
  assumes inv: "index_inv ix S" and order: "sorted (map cs_order S)" "distinct (map cs_order S)"
  shows "sourcesFor ix ty = [cs \<leftarrow> S. Matches (pat cs) ty]"
proof -
  have all: "sort_key cs_order (concat (matched_groups ix ty)) = [cs \<leftarrow> S. Matches (pat cs) ty]"
    by (rule sorted_filter_key [OF order matched_groups_mset [OF inv]])
  show ?thesis
  proof (cases "\<exists>g. matched_groups ix ty = [g]")
    case True
    then obtain g where g: "matched_groups ix ty = [g]" by blast
    with matched_groups_sorted [OF inv, of g ty] obtain P where P: "g = filter P S" by auto
    have "sort_key cs_order g = g" unfolding P by (rule sorted_filter_key [OF order refl])
    then show ?thesis using all g by (simp add: sourcesFor_groups)
  next
    case False
    then show ?thesis using all by (auto simp: sourcesFor_groups split: list.splits)
  qed
qed
subsection \<open>Compiling\<close>

lemma compile_source_ok:
  assumes "compile_source J re def i order src = Inr cs"
  shows "cs_order cs = order" and "cs_atomIDs cs = []"
    and "so_where (cs_source cs) = Some t \<Longrightarrow> Validate re t = None \<and> (\<exists>t0. json_tree J t0 = Some t)"
    and "so_identity (cs_source cs) = so_identity src"
proof -
  have "cs_order cs = order \<and> cs_atomIDs cs = [] \<and> so_identity (cs_source cs) = so_identity src
      \<and> (so_where (cs_source cs) = Some t \<longrightarrow> Validate re t = None \<and> (\<exists>t0. json_tree J t0 = Some t))"
    using assms
    by (auto simp: compile_source_def clone_where_def cloneTree_def Let_def res_simps split: if_splits option.splits)
  then show "cs_order cs = order" "cs_atomIDs cs = []" "so_identity (cs_source cs) = so_identity src"
    "so_where (cs_source cs) = Some t \<Longrightarrow> Validate re t = None \<and> (\<exists>t0. json_tree J t0 = Some t)" by auto
qed

text \<open>A source as compiled: its condition was copied and validated, and no atom has a slot yet.\<close>

definition compiled_ok :: "jsonlib \<Rightarrow> regexp \<Rightarrow> string set \<Rightarrow> compiledSource \<Rightarrow> bool" where
  "compiled_ok J re ids cs \<longleftrightarrow>
     cs_atomIDs cs = [] \<and> so_identity (cs_source cs) \<in> ids
     \<and> (case so_where (cs_source cs) of
          None \<Rightarrow> True | Some t \<Rightarrow> Validate re t = None \<and> (\<exists>t0. json_tree J t0 = Some t))"

lemma compile_sources_ok:
  assumes "compile_sources J re def i order srcs = (r, order')"
  shows "order \<le> order'
    \<and> (\<forall>css. r = Inr css \<longrightarrow> map cs_order css = [order..<order'] \<and> (\<forall>cs \<in> set css. compiled_ok J re (so_identity ` set srcs) cs))"
  using assms
proof (induction srcs arbitrary: i order r order')
  case (Cons src srcs)
  show ?case
  proof (cases "compile_source J re def i order src")
    case (Inl e)
    then show ?thesis using Cons.prems by auto
  next
    case (Inr cs)
    obtain q o' where rest: "compile_sources J re def (i + 1) (order + 1) srcs = (q, o')" by force
    have "compiled_ok J re (so_identity ` set (src # srcs)) cs"
      using compile_source_ok [OF Inr] by (auto simp: compiled_ok_def split: option.splits)
    moreover have "compiled_ok J re (so_identity ` set srcs) c \<Longrightarrow> compiled_ok J re (so_identity ` set (src # srcs)) c" for c
      by (auto simp: compiled_ok_def)
    ultimately show ?thesis
      using Cons.prems Cons.IH [OF rest] Inr rest compile_source_ok(1) [OF Inr]
      by (auto simp: res_simps upt_conv_Cons)
  qed
qed auto

lemma compileDefinition_ok:
  assumes "compileDefinition J re def order = (r, order')"
  shows "order \<le> order'"
    and "r = Inr css \<Longrightarrow> map cs_order css = [order..<order'] \<and> (\<forall>cs \<in> set css. compiled_ok J re (so_identity ` set (df_sources def)) cs)"
  using assms compile_sources_ok [of J re def 0 order "df_sources def" r order']
  by (auto simp: compileDefinition_def split: if_splits)

text \<open>The sources of the active definitions that compile, as declared.\<close>

fun declared :: "jsonlib \<Rightarrow> regexp \<Rightarrow> FactDefinition list \<Rightarrow> nat \<Rightarrow> compiledSource list" where
  "declared J re [] order = []"
| "declared J re (def # defs) order =
     (if df_status def \<noteq> ''active'' then declared J re defs order
      else (case compileDefinition J re def order of
              (r, order') \<Rightarrow> (case r of Inl e \<Rightarrow> [] | Inr css \<Rightarrow> css) @ declared J re defs order'))"

definition ranked :: "nat \<Rightarrow> compiledSource list \<Rightarrow> bool" where
  "ranked order css \<longleftrightarrow> sorted (map cs_order css) \<and> distinct (map cs_order css) \<and> (\<forall>cs \<in> set css. order \<le> cs_order cs)"

lemma ranked_append:
  assumes upt: "map cs_order xs = [a..<b]" and "ranked b ys" and "a \<le> b"
  shows "ranked a (xs @ ys)"
proof -
  have xs: "a \<le> cs_order x \<and> cs_order x < b" if "x \<in> set xs" for x
    using that arg_cong [OF upt, of set] by auto
  have ys: "b \<le> cs_order y" if "y \<in> set ys" for y using assms(2) that by (simp add: ranked_def)
  have "sorted (map cs_order xs)" "distinct (map cs_order xs)" unfolding upt by simp_all
  moreover have "cs_order x < cs_order y" if "x \<in> set xs" "y \<in> set ys" for x y
    using xs [OF that(1)] ys [OF that(2)] by simp
  ultimately show ?thesis using assms(2,3) xs ys unfolding ranked_def
    by (fastforce simp: sorted_append less_imp_le)
qed

lemma ranked_mono: "ranked b ys \<Longrightarrow> a \<le> b \<Longrightarrow> ranked a ys"
  by (auto simp: ranked_def)

lemma declared_order: "ranked order (declared J re defs order)"
proof (induction defs arbitrary: order)
  case (Cons def defs)
  show ?case
  proof (cases "df_status def = ''active''")
    case True
    obtain r order' where c: "compileDefinition J re def order = (r, order')" by force
    note le = compileDefinition_ok(1) [OF c]
    show ?thesis
    proof (cases r)
      case (Inl e)
      then show ?thesis using True c ranked_mono [OF Cons.IH le] by simp
    next
      case (Inr css)
      then have "map cs_order css = [order..<order']" using compileDefinition_ok(2) [OF c Inr] by blast
      from ranked_append [OF this Cons.IH le] show ?thesis using True c Inr by simp
    qed
  qed (use Cons.IH in simp)
qed (simp add: ranked_def)

lemma declared_ok:
  "cs \<in> set (declared J re defs order) \<Longrightarrow> compiled_ok J re (\<Union>def \<in> set defs. so_identity ` set (df_sources def)) cs"
proof (induction defs arbitrary: order)
  case (Cons def defs)
  obtain r order' where c: "compileDefinition J re def order = (r, order')" by force
  let ?ids = "\<lambda>ds. \<Union>def \<in> set ds. so_identity ` set (df_sources def)"
  have wider: "compiled_ok J re A cs \<Longrightarrow> A \<subseteq> B \<Longrightarrow> compiled_ok J re B cs" for A B
    by (auto simp: compiled_ok_def)
  consider (now) css where "r = Inr css" "cs \<in> set css" | (later) o2 where "cs \<in> set (declared J re defs o2)"
    using Cons.prems c by (auto split: if_splits sum.splits)
  then show ?case
  proof cases
    case now
    then have "compiled_ok J re (so_identity ` set (df_sources def)) cs"
      using compileDefinition_ok(2) [OF c now(1)] by blast
    then show ?thesis by (rule wider) simp
  next
    case later
    from Cons.IH [OF later] have "compiled_ok J re (?ids defs) cs" .
    then show ?thesis by (rule wider) auto
  qed
qed simp
subsection \<open>What a slot holds\<close>

definition key_of :: "jsonlib \<Rightarrow> tree \<Rightarrow> string" where
  "key_of J a = atomKey J (Path a) (canonical_op a) (Expected a)"

definition pool_inv :: "jsonlib \<Rightarrow> regexp \<Rightarrow> tree set \<Rightarrow> atom_pool \<Rightarrow> bool" where
  "pool_inv J re K p \<longleftrightarrow>
     (\<forall>key slot. map_of (ap_slots p) key = Some slot \<longrightarrow>
        slot < length (ap_atoms p) \<and> (\<exists>b \<in> K. key = key_of J b \<and> ap_atoms p ! slot = new_atom re b))"

definition keyed :: "jsonlib \<Rightarrow> atom_pool \<Rightarrow> (tree \<times> nat) list \<Rightarrow> tree \<Rightarrow> bool" where
  "keyed J p ids a \<longleftrightarrow> (\<exists>slot. map_of ids a = Some slot \<and> map_of (ap_slots p) (key_of J a) = Some slot)"

definition pool_le :: "atom_pool \<Rightarrow> atom_pool \<Rightarrow> bool" where
  "pool_le p p' \<longleftrightarrow> map_of (ap_slots p) \<subseteq>\<^sub>m map_of (ap_slots p')"

lemma keyed_mono: "keyed J p ids a \<Longrightarrow> pool_le p p' \<Longrightarrow> keyed J p' ids a"
  unfolding keyed_def pool_le_def map_le_def by (metis domI)

lemma pool_le_trans: "pool_le p q \<Longrightarrow> pool_le q r \<Longrightarrow> pool_le p r"
  unfolding pool_le_def by (rule map_le_trans)

lemma pool_le_refl [simp]: "pool_le p p"
  by (simp add: pool_le_def)

lemma pool_inv_mono: "pool_inv J re K p \<Longrightarrow> K \<subseteq> L \<Longrightarrow> pool_inv J re L p"
  unfolding pool_inv_def by blast

lemma pool_atom_step:
  assumes "pool_inv J re K p" and "pool_atom J re t (p, ids) = (p', ids')"
  shows "pool_inv J re (insert t K) p'" and "pool_le p p'" and "keyed J p' ids' t"
    and "keyed J p ids a \<Longrightarrow> keyed J p' ids' a"
proof -
  have all: "pool_inv J re (insert t K) p' \<and> pool_le p p' \<and> keyed J p' ids' t \<and> (\<forall>a. keyed J p ids a \<longrightarrow> keyed J p' ids' a)"
  proof (cases "map_of (ap_slots p) (key_of J t)")
    case None
    then have new: "p' = \<lparr>ap_atoms = ap_atoms p @ [new_atom re t], ap_slots = (key_of J t, length (ap_atoms p)) # ap_slots p\<rparr>"
      "ids' = (t, length (ap_atoms p)) # ids"
      using assms(2) by (simp_all add: pool_atom_def Let_def key_of_def)
    have "pool_inv J re (insert t K) p'"
      using assms(1) unfolding pool_inv_def new by (auto simp: nth_append less_Suc_eq)
    moreover have "pool_le p p'" using None unfolding new pool_le_def by (auto simp: map_le_def)
    moreover have "keyed J p' ids' t" by (simp add: new keyed_def)
    moreover have "keyed J p' ids' a" if "keyed J p ids a" for a
      using that None by (auto simp: new keyed_def)
    ultimately show ?thesis by blast
  next
    case (Some slot)
    then have old: "p' = p" "ids' = (t, slot) # ids" using assms(2) by (simp_all add: pool_atom_def Let_def key_of_def)
    have "pool_inv J re (insert t K) p'" unfolding old by (rule pool_inv_mono [OF assms(1)]) blast
    moreover have "keyed J p' ids' a" if "keyed J p ids a \<or> a = t" for a
      using that Some by (auto simp: old keyed_def)
    ultimately show ?thesis unfolding old(1) by simp
  qed
  then show "pool_inv J re (insert t K) p'" "pool_le p p'" "keyed J p' ids' t"
    "keyed J p ids a \<Longrightarrow> keyed J p' ids' a" by blast+
qed

lemma pool_atoms_fold:
  assumes "pool_inv J re K p" and "fold (pool_atom J re) ts (p, ids) = (p', ids')"
  shows "pool_inv J re (set ts \<union> K) p' \<and> pool_le p p' \<and> (\<forall>a. a \<in> set ts \<or> keyed J p ids a \<longrightarrow> keyed J p' ids' a)"
  using assms
proof (induction ts arbitrary: p ids K)
  case (Cons t ts)
  obtain q js where step: "pool_atom J re t (p, ids) = (q, js)" by force
  note s = pool_atom_step [OF Cons.prems(1) step]
  have rest: "fold (pool_atom J re) ts (q, js) = (p', ids')" using Cons.prems(2) step by simp
  from Cons.IH [OF s(1) rest]
  have IH: "pool_inv J re (set ts \<union> insert t K) p'" "pool_le q p'"
    "\<forall>a. a \<in> set ts \<or> keyed J q js a \<longrightarrow> keyed J p' ids' a" by blast+
  have "pool_inv J re (set (t # ts) \<union> K) p'" by (rule pool_inv_mono [OF IH(1)]) auto
  then show ?case using IH(2,3) s(2,3) s(4) pool_le_trans [OF s(2)] by auto
qed simp

text \<open>A source whose atoms all have a slot in the pool.\<close>

definition where_atoms :: "compiledSource \<Rightarrow> tree list" where
  "where_atoms cs = (case so_where (cs_source cs) of None \<Rightarrow> [] | Some t \<Rightarrow> tree_atoms t)"

definition pooled :: "jsonlib \<Rightarrow> atom_pool \<Rightarrow> compiledSource \<Rightarrow> bool" where
  "pooled J p cs \<longleftrightarrow> (\<forall>a \<in> set (where_atoms cs). keyed J p (cs_atomIDs cs) a)"

definition strip :: "compiledSource \<Rightarrow> compiledSource" where
  "strip cs = cs\<lparr>cs_atomIDs := []\<rparr>"

lemma pool_source_step:
  assumes "pool_inv J re K p" and "pool_source J re cs p = (cs', p')"
  shows "pool_inv J re (set (where_atoms cs) \<union> K) p' \<and> pool_le p p' \<and> pooled J p' cs' \<and> strip cs' = strip cs"
proof (cases "so_where (cs_source cs)")
  case None
  then show ?thesis using assms by (auto simp: pool_source_def where_atoms_def pooled_def)
next
  case (Some t)
  obtain q js where step: "fold (pool_atom J re) (tree_atoms t) (p, []) = (q, js)" by force
  have eqs: "p' = q" "cs' = cs\<lparr>cs_atomIDs := js\<rparr>" using assms(2) Some step by (simp_all add: pool_source_def poolAtoms_def)
  show ?thesis using pool_atoms_fold [OF assms(1) step] Some
    by (auto simp: eqs where_atoms_def pooled_def strip_def)
qed

lemma pooled_mono: "pooled J p cs \<Longrightarrow> pool_le p p' \<Longrightarrow> pooled J p' cs"
  unfolding pooled_def by (blast intro: keyed_mono)

definition built :: "jsonlib \<Rightarrow> regexp \<Rightarrow> compiledSource list \<Rightarrow> fact_index \<times> atom_pool \<Rightarrow> bool" where
  "built J re css st \<longleftrightarrow>
     (\<exists>S. map strip S = map strip css \<and> index_inv (fst st) S
        \<and> pool_inv J re (\<Union>cs \<in> set css. set (where_atoms cs)) (snd st) \<and> (\<forall>cs \<in> set S. pooled J (snd st) cs))"

lemma built_step:
  assumes "built J re made st" and "pool_source J re cs (snd st) = (cs', p')"
  shows "built J re (made @ [cs]) (add_source cs' (fst st), p')"
proof -
  from assms(1) obtain S where S: "map strip S = map strip made" "index_inv (fst st) S"
    "pool_inv J re (\<Union>cs \<in> set made. set (where_atoms cs)) (snd st)" "\<forall>cs \<in> set S. pooled J (snd st) cs"
    unfolding built_def by blast
  from pool_source_step [OF S(3) assms(2)]
  have p: "pool_inv J re (set (where_atoms cs) \<union> (\<Union>cs \<in> set made. set (where_atoms cs))) p'" "pool_le (snd st) p'"
    "pooled J p' cs'" "strip cs' = strip cs" by blast+
  have "pool_inv J re (\<Union>cs \<in> set (made @ [cs]). set (where_atoms cs)) p'"
    by (rule pool_inv_mono [OF p(1)]) auto
  moreover have "\<forall>cs \<in> set (S @ [cs']). pooled J p' cs" using S(4) p(2,3) pooled_mono by auto
  moreover have "map strip (S @ [cs']) = map strip (made @ [cs])" using S(1) p(4) by simp
  moreover have "index_inv (add_source cs' (fst st)) (S @ [cs'])" by (rule index_inv_source [OF S(2)])
  ultimately show ?thesis unfolding built_def fst_conv snd_conv by blast
qed

lemma built_sources: "built J re made st \<Longrightarrow> built J re (made @ css) (add_sources J re css st)"
proof (induction css arbitrary: "made" st)
  case (Cons cs css)
  obtain ix p where st: "st = (ix, p)" by force
  obtain cs' p' where s: "pool_source J re cs p = (cs', p')" by force
  from built_step [OF Cons.prems] s have "built J re (made @ [cs]) (add_source cs' ix, p')" by (simp add: st)
  from Cons.IH [OF this] show ?case by (simp add: st s)
qed simp

lemma built_loop: "built J re made st \<Longrightarrow> built J re (made @ declared J re defs order) (fst (build_loop J re defs order st))"
proof (induction defs arbitrary: "made" st order)
  case (Cons def defs)
  show ?case
  proof (cases "df_status def = ''active''")
    case True
    obtain r order' where c: "compileDefinition J re def order = (r, order')" by force
    show ?thesis
    proof (cases r)
      case (Inl e)
      then show ?thesis using True c Cons.IH [OF Cons.prems] by (simp add: split_beta)
    next
      case (Inr css)
      then show ?thesis using True c Cons.IH [OF built_sources [OF Cons.prems]] by simp
    qed
  qed (use Cons in simp)
qed simp
lemma buildIndex_built:
  obtains ix p where "fst (buildIndex J re defs) = ix\<lparr>ix_atoms := ap_atoms p\<rparr>" and "built J re (declared J re defs 0) (ix, p)"
proof -
  let ?st = "(empty_index, \<lparr>ap_atoms = [], ap_slots = []\<rparr>)"
  have "built J re [] ?st" by (simp add: built_def index_inv_empty pool_inv_def)
  from built_loop [OF this, of defs 0] have b: "built J re (declared J re defs 0) (fst (build_loop J re defs 0 ?st))" by simp
  obtain ix p errs where e: "build_loop J re defs 0 ?st = ((ix, p), errs)" by (metis prod.collapse)
  show thesis
  proof
    show "fst (buildIndex J re defs) = ix\<lparr>ix_atoms := ap_atoms p\<rparr>" by (simp add: buildIndex_def e)
    show "built J re (declared J re defs 0) (ix, p)" using b by (simp add: e)
  qed
qed

lemma strip_simps [simp]: "cs_order (strip cs) = cs_order cs" "cs_source (strip cs) = cs_source cs"
    "where_atoms (strip cs) = where_atoms cs"
  by (simp_all add: strip_def where_atoms_def)

lemma strip_declared: "map strip (declared J re defs order) = declared J re defs order"
proof -
  have "strip cs = cs" if "cs \<in> set (declared J re defs order)" for cs
    using declared_ok [OF that] by (simp add: compiled_ok_def strip_def)
  then show ?thesis by (simp add: map_idI)
qed

lemma stripped_ranked:
  assumes "map strip S = map strip T" and "ranked n T"
  shows "sorted (map cs_order S)" and "distinct (map cs_order S)"
proof -
  have "map cs_order S = map cs_order T" using arg_cong [OF assms(1), of "map cs_order"] by (simp add: comp_def)
  then show "sorted (map cs_order S)" "distinct (map cs_order S)" using assms(2) by (simp_all add: ranked_def)
qed

lemma index_inv_atoms [simp]: "index_inv (ix\<lparr>ix_atoms := A\<rparr>) S = index_inv ix S"
  by (simp add: index_inv_def)

lemma filter_strip: "[cs \<leftarrow> map strip S. Matches (pat cs) ty] = map strip [cs \<leftarrow> S. Matches (pat cs) ty]"
  by (induction S) auto

lemma indexed_sources:
  "map strip (sourcesFor (fst (buildIndex J re defs)) ty) = [cs \<leftarrow> declared J re defs 0. Matches (pat cs) ty]"
proof -
  obtain ix p where ix: "fst (buildIndex J re defs) = ix\<lparr>ix_atoms := ap_atoms p\<rparr>"
    and b: "built J re (declared J re defs 0) (ix, p)" by (rule buildIndex_built)
  from b obtain S where S: "map strip S = map strip (declared J re defs 0)" "index_inv ix S"
    unfolding built_def by auto
  have "sourcesFor (fst (buildIndex J re defs)) ty = [cs \<leftarrow> S. Matches (pat cs) ty]"
    unfolding ix by (rule sourcesFor_inv) (use S stripped_ranked [OF S(1) declared_order] in simp_all)
  then have "map strip (sourcesFor (fst (buildIndex J re defs)) ty) = [cs \<leftarrow> map strip S. Matches (pat cs) ty]"
    by (simp only: filter_strip)
  then show ?thesis unfolding S(1) strip_declared .
qed

text \<open>The slot an atom of an indexed source has holds an atom with the same key.\<close>

lemma indexed_atoms:
  assumes "cs \<in> set (sourcesFor (fst (buildIndex J re defs)) ty)" and "a \<in> set (where_atoms cs)"
  shows "\<exists>slot b d. map_of (cs_atomIDs cs) a = Some slot \<and> slot < length (ix_atoms (fst (buildIndex J re defs)))
    \<and> d \<in> set (declared J re defs 0) \<and> b \<in> set (where_atoms d) \<and> key_of J a = key_of J b
    \<and> ix_atoms (fst (buildIndex J re defs)) ! slot = new_atom re b"
proof -
  obtain ix p where ix: "fst (buildIndex J re defs) = ix\<lparr>ix_atoms := ap_atoms p\<rparr>"
    and b: "built J re (declared J re defs 0) (ix, p)" by (rule buildIndex_built)
  from b obtain S where S: "map strip S = map strip (declared J re defs 0)" "index_inv ix S"
    "pool_inv J re (\<Union>cs \<in> set (declared J re defs 0). set (where_atoms cs)) p" "\<forall>cs \<in> set S. pooled J p cs"
    unfolding built_def by auto
  have "sourcesFor (fst (buildIndex J re defs)) ty = [cs \<leftarrow> S. Matches (pat cs) ty]"
    unfolding ix by (rule sourcesFor_inv) (use S stripped_ranked [OF S(1) declared_order] in simp_all)
  then have "cs \<in> set S" using assms(1) by simp
  then have "keyed J p (cs_atomIDs cs) a" using S(4) assms(2) by (simp add: pooled_def)
  then obtain slot where slot: "map_of (cs_atomIDs cs) a = Some slot" "map_of (ap_slots p) (key_of J a) = Some slot"
    unfolding keyed_def by blast
  from slot(2) S(3) have "slot < length (ap_atoms p) \<and>
      (\<exists>b \<in> (\<Union>cs \<in> set (declared J re defs 0). set (where_atoms cs)). key_of J a = key_of J b \<and> ap_atoms p ! slot = new_atom re b)"
    unfolding pool_inv_def by blast
  then show ?thesis using slot(1) unfolding ix by auto
qed

text \<open>The patterns reported are those of the indexed sources, each once.\<close>

lemma index_patterns:
  "distinct (ix_patterns (fst (buildIndex J re defs)))
   \<and> set (ix_patterns (fst (buildIndex J re defs))) = pat ` set (declared J re defs 0)"
proof -
  obtain ix p where ix: "fst (buildIndex J re defs) = ix\<lparr>ix_atoms := ap_atoms p\<rparr>"
    and b: "built J re (declared J re defs 0) (ix, p)" by (rule buildIndex_built)
  from b obtain S where S: "map strip S = map strip (declared J re defs 0)" "index_inv ix S"
    unfolding built_def by auto
  have "pat ` set S = pat ` set (declared J re defs 0)"
    using arg_cong [OF S(1), of "\<lambda>x. pat ` set x"] by (simp add: image_image)
  then show ?thesis using S(2) unfolding ix index_inv_def by simp
qed

end
