(* ===== verification/Fact_Projection.thy ===== *)
theory Fact_Projection
  imports Fact_Index Workflow_Types
begin

text \<open>
  \<open>workflow/internal/facts/projector.go\<close>: from one event to the deltas the database folds. The projection
  of an event shares work between sources: an atom is decided once however many conditions read it, and the
  viewers at a path are read once. It is proved to send what deciding every source on its own would.

  A value \<open>json.Number\<close> does not occur in the model's event data, and the address of an atom in the tree that
  holds it is the atom itself, since equal atoms share a slot.
\<close>

subsection \<open>Deciding conditions with a memory\<close>

text \<open>\<open>EvaluateAtoms\<close> with a callback that has state, which is passed through the visits in order.\<close>

type_synonym 's atom_ask = "tree \<Rightarrow> 's \<Rightarrow> (terr, bool) res \<times> 's"

definition then_ask :: "(terr, bool) res \<times> 's \<Rightarrow> (bool \<Rightarrow> 's \<Rightarrow> (terr, bool) res \<times> 's) \<Rightarrow> (terr, bool) res \<times> 's" where
  "then_ask r f = (case fst r of Inl e \<Rightarrow> (Inl e, snd r) | Inr b \<Rightarrow> f b (snd r))"

fun EvaluateAtomsS :: "'s atom_ask \<Rightarrow> tree \<Rightarrow> 's \<Rightarrow> (terr, bool) res \<times> 's"
and eval_allS :: "'s atom_ask \<Rightarrow> tree list \<Rightarrow> 's \<Rightarrow> (terr, bool) res \<times> 's"
and eval_anyS :: "'s atom_ask \<Rightarrow> tree list \<Rightarrow> 's \<Rightarrow> (terr, bool) res \<times> 's" where
  "EvaluateAtomsS ask (Tree all any neg p op v) s =
     (case kind (Tree all any neg p op v) of
        Inl e \<Rightarrow> (Inl e, s)
      | Inr allNode \<Rightarrow> (case all of None \<Rightarrow> (Inr True, s) | Some ts \<Rightarrow> eval_allS ask ts s)
      | Inr anyNode \<Rightarrow> (case any of None \<Rightarrow> (Inr False, s) | Some ts \<Rightarrow> eval_anyS ask ts s)
      | Inr notNode \<Rightarrow>
          (case neg of None \<Rightarrow> (Inr True, s)
           | Some t \<Rightarrow> then_ask (EvaluateAtomsS ask t s) (\<lambda>ok s. (Inr (\<not> ok), s)))
      | Inr atomNode \<Rightarrow> ask (Tree all any neg p op v) s)"
| "eval_allS ask [] s = (Inr True, s)"
| "eval_allS ask (t # ts) s =
     then_ask (EvaluateAtomsS ask t s) (\<lambda>ok s. if \<not> ok then (Inr False, s) else eval_allS ask ts s)"
| "eval_anyS ask [] s = (Inr False, s)"
| "eval_anyS ask (t # ts) s =
     then_ask (EvaluateAtomsS ask t s) (\<lambda>ok s. if ok then (Inr True, s) else eval_anyS ask ts s)"

text \<open>
  A memory that answers each atom it knows as \<open>answer\<close> does gives every tree over those atoms the value
  \<open>EvaluateAtoms\<close> gives it with \<open>answer\<close>.
\<close>

locale remembering =
  fixes ask :: "'s atom_ask"
    and good :: "'s \<Rightarrow> bool"
    and known :: "tree \<Rightarrow> bool"
    and answer :: atom_eval
  assumes ask_answers: "good s \<Longrightarrow> known a \<Longrightarrow> fst (ask a s) = answer a \<and> good (snd (ask a s))"
begin

lemma all_answers:
  "good s \<Longrightarrow> (\<And>t s. t \<in> set ts \<Longrightarrow> good s \<Longrightarrow> fst (EvaluateAtomsS ask t s) = EvaluateAtoms answer t \<and> good (snd (EvaluateAtomsS ask t s)))
   \<Longrightarrow> fst (eval_allS ask ts s) = eval_all answer ts \<and> good (snd (eval_allS ask ts s))"
proof (induction ts arbitrary: s)
  case (Cons t ts)
  then show ?case using Cons.prems(2) [of t s] by (auto simp: then_ask_def split: sum.splits)
qed simp

lemma any_answers:
  "good s \<Longrightarrow> (\<And>t s. t \<in> set ts \<Longrightarrow> good s \<Longrightarrow> fst (EvaluateAtomsS ask t s) = EvaluateAtoms answer t \<and> good (snd (EvaluateAtomsS ask t s)))
   \<Longrightarrow> fst (eval_anyS ask ts s) = eval_any answer ts \<and> good (snd (eval_anyS ask ts s))"
proof (induction ts arbitrary: s)
  case (Cons t ts)
  then show ?case using Cons.prems(2) [of t s] by (auto simp: then_ask_def split: sum.splits)
qed simp

lemma tree_answers:
  "good s \<Longrightarrow> (\<And>a. a \<in> set (tree_atoms t) \<Longrightarrow> known a)
   \<Longrightarrow> fst (EvaluateAtomsS ask t s) = EvaluateAtoms answer t \<and> good (snd (EvaluateAtomsS ask t s))"
proof (induction t arbitrary: s)
  case (Tree all any neg p op v)
  let ?t = "Tree all any neg p op v"
  show ?case
  proof (cases "kind ?t")
    case (Inl e)
    then show ?thesis using Tree.prems by simp
  next
    case (Inr k)
    from kind_cases [OF Inr] show ?thesis
    proof (elim disjE conjE)
      assume c: "k = allNode" "all \<noteq> None" "any = None" "neg = None"
      then obtain ts where ts: "all = Some ts" by auto
      have "known a" if "a \<in> set (tree_atoms t)" "t \<in> set ts" for a t
        using Tree.prems(2) that by (auto simp: ts)
      then show ?thesis using all_answers [OF Tree.prems(1)] Tree.IH Inr c by (auto simp: ts)
    next
      assume c: "k = anyNode" "all = None" "any \<noteq> None" "neg = None"
      then obtain ts where ts: "any = Some ts" by auto
      have "known a" if "a \<in> set (tree_atoms t)" "t \<in> set ts" for a t
        using Tree.prems(2) that c by (auto simp: ts)
      then show ?thesis using any_answers [OF Tree.prems(1)] Tree.IH Inr c by (auto simp: ts)
    next
      assume c: "k = notNode" "all = None" "any = None" "neg \<noteq> None"
      then obtain t where t: "neg = Some t" by auto
      have IH: "fst (EvaluateAtomsS ask t s) = EvaluateAtoms answer t \<and> good (snd (EvaluateAtomsS ask t s))"
        using Tree.IH(3) [of t, OF _ Tree.prems(1)] Tree.prems(2) c by (auto simp: t)
      then show ?thesis using Inr c by (auto simp: t then_ask_def split: sum.splits)
    next
      assume c: "k = atomNode" "all = None" "any = None" "neg = None"
      then show ?thesis using ask_answers [OF Tree.prems(1)] Tree.prems(2) Inr by simp
    qed
  qed
qed

end
subsection \<open>Reading the event\<close>

text \<open>\<open>lookup\<close>: the value and whether it was there.\<close>

definition lookup :: "obj \<Rightarrow> string \<Rightarrow> val \<times> bool" where
  "lookup data path = (case ResolvePath (VMap data) path of Inl e \<Rightarrow> (VNil, False) | Inr v \<Rightarrow> (v, True))"

datatype atomResult = atomUndecided | atomFalse | atomTrue

datatype source_problem =
    WhereFailed terr
  | IdentityItem string nat val
  | IdentityType string val
  | NotNumber string string val
  | NotEncoded string

record subject =
  sb_id :: string
  sb_name :: string

definition regex_matches :: "(string \<Rightarrow> bool) \<Rightarrow> val \<Rightarrow> bool" where
  "regex_matches m actual = (case actual of VNil \<Rightarrow> False | VStr v \<Rightarrow> m v | v \<Rightarrow> m (fmt_v v))"

definition atom_result :: "regexp \<Rightarrow> obj \<Rightarrow> compiledAtom \<Rightarrow> (xerr, bool) res" where
  "atom_result re data a =
     (let actual = fst (lookup data (ca_path a)) in
      case ca_re a of
        Some m \<Rightarrow> Inr (regex_matches m actual)
      | None \<Rightarrow> EvaluateAtomValue re (ca_op a) actual (ca_expected a))"

text \<open>An atom's result for this event, decided the first time a source asks.\<close>

definition decide :: "regexp \<Rightarrow> compiledAtom list \<Rightarrow> obj \<Rightarrow> nat \<Rightarrow> atomResult list \<Rightarrow> (terr, bool) res \<times> atomResult list" where
  "decide re pool data slot atoms =
     (case atoms ! slot of
        atomTrue \<Rightarrow> (Inr True, atoms)
      | atomFalse \<Rightarrow> (Inr False, atoms)
      | atomUndecided \<Rightarrow>
          (case atom_result re data (pool ! slot) of
             Inl e \<Rightarrow> (Inl (AtomError e), atoms)
           | Inr matched \<Rightarrow> (Inr matched, atoms[slot := (if matched then atomTrue else atomFalse)])))"

text \<open>The callback of \<open>project\<close>. An atom without a slot panics, which is \<open>OperatorPanic\<close> here.\<close>

definition ask_pool :: "regexp \<Rightarrow> compiledAtom list \<Rightarrow> obj \<Rightarrow> compiledSource \<Rightarrow> atomResult list atom_ask" where
  "ask_pool re pool data cs a atoms =
     (case map_of (cs_atomIDs cs) a of
        None \<Rightarrow> (Inl (AtomError (OperatorPanic (Path a))), atoms)
      | Some slot \<Rightarrow> decide re pool data slot atoms)"

text \<open>The ids of a list: null and empty ones are passed over, another type fails the source.\<close>

fun read_ids :: "string \<Rightarrow> nat \<Rightarrow> val list \<Rightarrow> (source_problem, subject list) res" where
  "read_ids path i [] = Inr []"
| "read_ids path i (item # items) =
     (case item of
        VNil \<Rightarrow> read_ids path (Suc i) items
      | VStr s \<Rightarrow>
          if s = '''' then read_ids path (Suc i) items
          else bind_res (read_ids path (Suc i) items) (\<lambda>subs. Inr (\<lparr>sb_id = s, sb_name = ''''\<rparr> # subs))
      | v \<Rightarrow> Inl (IdentityItem path i v))"

definition readSubjects :: "obj \<Rightarrow> string \<Rightarrow> string \<Rightarrow> (source_problem, subject list) res" where
  "readSubjects data identityPath displayNamePath =
     (case lookup data identityPath of
        (raw, found) \<Rightarrow>
          if \<not> found \<or> raw = VNil then Inr []
          else (case raw of
                  VStr s \<Rightarrow>
                    if s = '''' then Inr []
                    else Inr [\<lparr>sb_id = s,
                               sb_name = (if displayNamePath = '''' then ''''
                                          else case fst (lookup data displayNamePath) of VStr n \<Rightarrow> n | _ \<Rightarrow> '''')\<rparr>]
                | VList items \<Rightarrow> read_ids identityPath 0 items
                | _ \<Rightarrow> Inl (IdentityType identityPath raw)))"

text \<open>What a delta carries: a number or a text, or nothing when the event has no value to aggregate.\<close>

definition timed_fn :: "string \<Rightarrow> bool" where
  "timed_fn f \<longleftrightarrow> f \<in> {''first_at'', ''last_at'', ''sessions'', ''session_streak''}"

definition UnixMilli :: "time \<Rightarrow> int" where "UnixMilli t = t div 1000000"

definition last_text :: "jsonlib \<Rightarrow> string \<Rightarrow> val \<Rightarrow> (source_problem, string) res" where
  "last_text J path v =
     (case v of
        VStr s \<Rightarrow> Inr s
      | VBool b \<Rightarrow> Inr (fmt_bool b)
      | _ \<Rightarrow> (case json_text J v of None \<Rightarrow> Inl (NotEncoded path) | Some s \<Rightarrow> Inr s))"

definition delta_value ::
  "jsonlib \<Rightarrow> obj \<Rightarrow> time \<Rightarrow> compiledSource \<Rightarrow> (source_problem, (f64 option \<times> string option) option) res" where
  "delta_value J data occurredAt cs =
     (if cs_fn cs = ''count'' then Inr (Some (Some (f_of_int 1), None))
      else if timed_fn (cs_fn cs) then Inr (Some (Some (f_of_int (UnixMilli occurredAt)), None))
      else (case lookup data (cs_valuePath cs) of
              (raw, found) \<Rightarrow>
                if \<not> found \<or> raw = VNil then Inr None
                else (case toFloat64 raw of
                        Some n \<Rightarrow> Inr (Some (Some n, None))
                      | None \<Rightarrow>
                          if cs_fn cs \<noteq> ''last'' then Inl (NotNumber (cs_fn cs) (cs_valuePath cs) raw)
                          else bind_res (last_text J (cs_valuePath cs) raw) (\<lambda>s. Inr (Some (None, Some s))))))"

subsection \<open>Projecting an event\<close>

text \<open>\<open>FactDelta\<close> and \<open>ApplyFactDeltasRequest\<close> of this package (\<open>types.go\<close>).\<close>

record ProjectedDelta =
  pd_fact :: string
  pd_revision :: int
  pd_platform :: string
  pd_subject :: string
  pd_name :: string
  pd_op :: string
  pd_num :: "f64 option"
  pd_str :: "string option"

record ApplyFactDeltasRequest =
  rq_source :: string
  rq_event :: string
  rq_occurredAt :: time
  rq_stamp :: string
  rq_deltas :: "ProjectedDelta list"

record SourceError =
  se_fact :: string
  se_revision :: int
  se_trigger :: string
  se_problem :: source_problem

record projection =
  pj_atoms :: "atomResult list"
  pj_identities :: "(string \<times> (source_problem, subject list) res) list"
  pj_seen :: "(string \<times> string) list"
  pj_deltas :: "ProjectedDelta list"

definition identity_key :: "FactSource \<Rightarrow> string" where
  "identity_key src = so_identity src @ [nul] @ so_name src"

definition subjects :: "obj \<Rightarrow> FactSource \<Rightarrow> projection \<Rightarrow> (source_problem, subject list) res \<times> projection" where
  "subjects data src pe =
     (case map_of (pj_identities pe) (identity_key src) of
        Some rd \<Rightarrow> (rd, pe)
      | None \<Rightarrow>
          let rd = readSubjects data (so_identity src) (so_name src)
          in (rd, pe\<lparr>pj_identities := (identity_key src, rd) # pj_identities pe\<rparr>))"

definition make_delta :: "Event \<Rightarrow> compiledSource \<Rightarrow> f64 option \<times> string option \<Rightarrow> subject \<Rightarrow> ProjectedDelta" where
  "make_delta ev cs v s =
     \<lparr>pd_fact = cs_fact cs, pd_revision = cs_revision cs, pd_platform = ev_platform ev, pd_subject = sb_id s,
      pd_name = sb_name s, pd_op = cs_fn cs, pd_num = fst v, pd_str = snd v\<rparr>"

text \<open>The loop over the subjects: a viewer's fact already in the batch is passed over.\<close>

fun add_subjects ::
  "Event \<Rightarrow> compiledSource \<Rightarrow> f64 option \<times> string option \<Rightarrow> subject list \<Rightarrow> projection \<Rightarrow> projection" where
  "add_subjects ev cs v [] pe = pe"
| "add_subjects ev cs v (s # ss) pe =
     (if (cs_fact cs, sb_id s) \<in> set (pj_seen pe) then add_subjects ev cs v ss pe
      else add_subjects ev cs v ss
             (pe\<lparr>pj_seen := (cs_fact cs, sb_id s) # pj_seen pe, pj_deltas := pj_deltas pe @ [make_delta ev cs v s]\<rparr>))"

definition where_matched ::
  "regexp \<Rightarrow> compiledAtom list \<Rightarrow> obj \<Rightarrow> compiledSource \<Rightarrow> projection \<Rightarrow> (terr, bool) res \<times> projection" where
  "where_matched re pool data cs pe =
     (case so_where (cs_source cs) of
        None \<Rightarrow> (Inr True, pe)
      | Some t \<Rightarrow>
          (case EvaluateAtomsS (ask_pool re pool data cs) t (pj_atoms pe) of
             (r, atoms) \<Rightarrow> (r, pe\<lparr>pj_atoms := atoms\<rparr>)))"

definition is_anonymous :: "obj \<Rightarrow> FactSource \<Rightarrow> bool" where
  "is_anonymous data src \<longleftrightarrow> so_anonymous src \<noteq> '''' \<and> fst (lookup data (so_anonymous src)) = VBool True"

definition project ::
  "jsonlib \<Rightarrow> regexp \<Rightarrow> compiledAtom list \<Rightarrow> Event \<Rightarrow> time \<Rightarrow> compiledSource \<Rightarrow> projection \<Rightarrow> source_problem option \<times> projection" where
  "project J re pool ev occurredAt cs pe =
     (case where_matched re pool (ev_data ev) cs pe of
        (Inl e, pe) \<Rightarrow> (Some (WhereFailed e), pe)
      | (Inr matched, pe) \<Rightarrow>
          if \<not> matched then (None, pe)
          else if is_anonymous (ev_data ev) (cs_source cs) then (None, pe)
          else (case subjects (ev_data ev) (cs_source cs) pe of
                  (Inl e, pe) \<Rightarrow> (Some e, pe)
                | (Inr subs, pe) \<Rightarrow>
                    if subs = [] then (None, pe)
                    else (case delta_value J (ev_data ev) occurredAt cs of
                            Inl e \<Rightarrow> (Some e, pe)
                          | Inr None \<Rightarrow> (None, pe)
                          | Inr (Some v) \<Rightarrow> (None, add_subjects ev cs v subs pe))))"

definition source_error :: "compiledSource \<Rightarrow> source_problem \<Rightarrow> SourceError" where
  "source_error cs e =
     \<lparr>se_fact = cs_fact cs, se_revision = cs_revision cs, se_trigger = so_trigger (cs_source cs), se_problem = e\<rparr>"

fun project_all ::
  "jsonlib \<Rightarrow> regexp \<Rightarrow> compiledAtom list \<Rightarrow> Event \<Rightarrow> time \<Rightarrow> compiledSource list \<Rightarrow> projection \<Rightarrow> SourceError list \<times> projection" where
  "project_all J re pool ev occurredAt [] pe = ([], pe)"
| "project_all J re pool ev occurredAt (cs # css) pe =
     (case project J re pool ev occurredAt cs pe of
        (err, pe) \<Rightarrow>
          (case project_all J re pool ev occurredAt css pe of
             (errs, pe) \<Rightarrow> ((case err of None \<Rightarrow> [] | Some e \<Rightarrow> [source_error cs e]) @ errs, pe)))"

definition apiSource :: string where "apiSource = ''api''"

text \<open>\<open>request\<close>: the batch, whether a definition listens for the event, and the sources that failed.\<close>

definition request ::
  "jsonlib \<Rightarrow> regexp \<Rightarrow> time \<Rightarrow> fact_index \<Rightarrow> Event \<Rightarrow> (ApplyFactDeltasRequest option \<times> bool) \<times> SourceError list" where
  "request J re now idx ev =
     (if ev_source ev = apiSource \<or> ev_dryRun ev \<or> ev_platform ev = '''' then ((None, False), [])
      else
        let srcs = sourcesFor idx (ev_type ev) in
        if srcs = [] then ((None, False), [])
        else
          let occurredAt = (if ev_time ev = 0 then now else ev_time ev);
              pe0 = \<lparr>pj_atoms = replicate (length (ix_atoms idx)) atomUndecided, pj_identities = [], pj_seen = [], pj_deltas = []\<rparr>
          in (case project_all J re (ix_atoms idx) ev occurredAt srcs pe0 of
                (errs, pe) \<Rightarrow>
                  if pj_deltas pe = [] then ((None, True), errs)
                  else ((Some \<lparr>rq_source = ev_source ev, rq_event = ev_id ev, rq_occurredAt = occurredAt,
                               rq_stamp = ev_sessionId ev, rq_deltas = pj_deltas pe\<rparr>, True), errs)))"

definition Request :: "jsonlib \<Rightarrow> regexp \<Rightarrow> time \<Rightarrow> fact_index \<Rightarrow> Event \<Rightarrow> ApplyFactDeltasRequest option \<times> SourceError list" where
  "Request J re now idx ev = (case request J re now idx ev of ((req, listened), errs) \<Rightarrow> (req, errs))"

text \<open>\<open>Replace\<close>, \<open>Load\<close> (with what the client lists), \<open>Patterns\<close>, and \<open>Project\<close> with the client's answer.\<close>

record Projector =
  pr_index :: fact_index

definition NewProjector :: Projector where
  "NewProjector = \<lparr>pr_index = empty_index\<rparr>"

definition Replace :: "jsonlib \<Rightarrow> regexp \<Rightarrow> FactDefinition list \<Rightarrow> Projector \<Rightarrow> Projector \<times> (string \<times> definition_error) list" where
  "Replace J re defs p = (case buildIndex J re defs of (idx, errs) \<Rightarrow> (p\<lparr>pr_index := idx\<rparr>, errs))"

definition LoadDefinitions ::
  "jsonlib \<Rightarrow> regexp \<Rightarrow> ('e, FactDefinition list) res \<Rightarrow> Projector \<Rightarrow> ('e + (string \<times> definition_error) list) \<times> Projector" where
  "LoadDefinitions J re listed p =
     (case listed of
        Inl e \<Rightarrow> (Inl e, p)
      | Inr defs \<Rightarrow> (case Replace J re defs p of (p', errs) \<Rightarrow> (Inr errs, p')))"

definition Patterns :: "Projector \<Rightarrow> string list" where
  "Patterns p = ix_patterns (pr_index p)"

definition ProjectEvent ::
  "jsonlib \<Rightarrow> regexp \<Rightarrow> time \<Rightarrow> (ApplyFactDeltasRequest \<Rightarrow> 'e option) \<Rightarrow> Projector \<Rightarrow> Event
   \<Rightarrow> ((bool \<times> 'e option) \<times> SourceError list) \<times> ApplyFactDeltasRequest option" where
  "ProjectEvent J re now send p ev =
     (case request J re now (pr_index p) ev of
        ((None, listened), errs) \<Rightarrow> (((listened, None), errs), None)
      | ((Some req, listened), errs) \<Rightarrow> (((listened, send req), errs), Some req))"
subsection \<open>The pool answers as the atoms do\<close>

definition atoms_ok :: "regexp \<Rightarrow> compiledAtom list \<Rightarrow> obj \<Rightarrow> atomResult list \<Rightarrow> bool" where
  "atoms_ok re pool data atoms \<longleftrightarrow>
     length atoms = length pool
     \<and> (\<forall>slot < length atoms. atoms ! slot = atomUndecided
          \<or> atom_result re data (pool ! slot) = Inr (atoms ! slot = atomTrue))"

lemma decide_ok:
  assumes "atoms_ok re pool data atoms" and "slot < length pool" and "atom_result re data (pool ! slot) = Inr b"
  shows "fst (decide re pool data slot atoms) = Inr b \<and> atoms_ok re pool data (snd (decide re pool data slot atoms))"
  using assms by (cases "atoms ! slot") (auto simp: decide_def atoms_ok_def nth_list_update)

lemma eval_switch_name: "eval_switch re op c a e = Inr b \<Longrightarrow> eval_switch re op' c a e = Inr b"
  by (auto simp: eval_switch_def split: if_splits)

lemma lookup_value: "fst (lookup data path) = value_at (VMap data) path"
  by (auto simp: lookup_def value_at_def split: sum.splits)

lemma canonical_value:
  assumes "Canonical op = Some c" and "EvaluateAtomValue re op actual expected = Inr b"
  shows "EvaluateAtomValue re c actual expected = Inr b"
proof -
  note c = assms(1) Canonical_idem [OF assms(1)]
  have sw: "eval_switch re op c actual expected = Inr b \<longrightarrow> eval_switch re c c actual expected = Inr b"
    using eval_switch_name by blast
  show ?thesis using assms(2) sw
    by (simp add: EvaluateAtomValue_def EvaluateOperator_def c split: if_splits option.splits)
qed

lemma regex_value:
  assumes "Canonical op = Some ''regex''" and "re p = Some m"
  shows "EvaluateAtomValue re op actual (VStr p) = Inr (regex_matches m actual)"
  using assms by (cases actual)
    (simp_all add: EvaluateAtomValue_def EvaluateOperator_def checkExpected_def presence_operators_def compilePattern_def
      eval_switch_def regexCheck_def regex_matches_def)

lemma atom_result_new:
  assumes "validateAtom re a = None"
  shows "atom_result re data (new_atom re a) = Inr (atom_true re (VMap data) a)"
proof -
  from assms obtain c where c: "Canonical (Op a) = Some c" "ValidateExpected re c (Expected a) = None"
    by (auto simp: validateAtom_def split: if_splits option.splits)
  obtain b where b: "EvaluateAtomValue re (Op a) (value_at (VMap data) (Path a)) (Expected a) = Inr b"
    using validateAtom_evaluates [OF assms] by blast
  show ?thesis
  proof (cases "c = ''regex''")
    case True
    then obtain p m where p: "Expected a = VStr p" "re p = Some m"
      using c(2) by (auto simp: ValidateExpected_def split: val.splits option.splits if_splits)
    have "EvaluateAtomValue re (Op a) (value_at (VMap data) (Path a)) (Expected a)
        = Inr (regex_matches m (value_at (VMap data) (Path a)))"
      unfolding p(1) by (rule regex_value) (use c True p in simp_all)
    then show ?thesis using c True p
      by (simp add: atom_result_def new_atom_def canonical_op_def lookup_value atom_true_def)
  next
    case False
    then show ?thesis using canonical_value [OF c(1) b] c b
      by (simp add: atom_result_def new_atom_def canonical_op_def lookup_value atom_true_def)
  qed
qed

text \<open>An atom whose slot holds it.\<close>

definition slot_ok :: "regexp \<Rightarrow> compiledAtom list \<Rightarrow> compiledSource \<Rightarrow> tree \<Rightarrow> bool" where
  "slot_ok re pool cs a \<longleftrightarrow>
     validateAtom re a = None
     \<and> (\<exists>slot. map_of (cs_atomIDs cs) a = Some slot \<and> slot < length pool \<and> pool ! slot = new_atom re a)"

interpretation memo: remembering "ask_pool re pool data cs" "atoms_ok re pool data" "slot_ok re pool cs"
    "evaluate_atom re (VMap data)" for re pool data cs
proof
  fix s a assume s: "atoms_ok re pool data s" and a: "slot_ok re pool cs a"
  then obtain slot where slot: "map_of (cs_atomIDs cs) a = Some slot" "slot < length pool" "pool ! slot = new_atom re a"
    and v: "validateAtom re a = None" unfolding slot_ok_def by blast
  have "atom_result re data (pool ! slot) = Inr (atom_true re (VMap data) a)" unfolding slot(3) by (rule atom_result_new [OF v])
  from decide_ok [OF s slot(2) this] direct.evaluate_valid [OF v, of "VMap data"] slot(1)
  show "fst (ask_pool re pool data cs a s) = evaluate_atom re (VMap data) a
      \<and> atoms_ok re pool data (snd (ask_pool re pool data cs a s))"
    by (simp add: ask_pool_def)
qed

lemma validated_atoms: "Validate re t = None \<Longrightarrow> a \<in> set (tree_atoms t) \<Longrightarrow> validateAtom re a = None"
proof (induction t)
  case (Tree all any neg p op v)
  then obtain k where k: "kind (Tree all any neg p op v) = Inr k" by (auto split: sum.splits)
  from kind_cases [OF k] show ?case
  proof (elim disjE conjE)
    assume c: "k = allNode" "all \<noteq> None" "any = None" "neg = None"
    then obtain ts where "all = Some ts" by auto
    then show ?thesis using Tree k c by (auto simp: validate_group_None split: if_splits)
  next
    assume c: "k = anyNode" "all = None" "any \<noteq> None" "neg = None"
    then obtain ts where "any = Some ts" by auto
    then show ?thesis using Tree k c by (auto simp: validate_group_None split: if_splits)
  next
    assume c: "k = notNode" "all = None" "any = None" "neg \<noteq> None"
    then obtain t where "neg = Some t" by auto
    then show ?thesis using Tree k c by (auto split: option.splits)
  next
    assume c: "k = atomNode" "all = None" "any = None" "neg = None"
    then show ?thesis using Tree k by simp
  qed
qed

subsection \<open>Keys\<close>

lemma split_first: "x \<notin> set a \<Longrightarrow> x \<notin> set c \<Longrightarrow> a @ x # b = c @ x # d \<Longrightarrow> a = c \<and> b = d"
proof (induction a arbitrary: c)
  case Nil
  then show ?case by (cases c) auto
next
  case (Cons y a)
  then show ?case by (cases c) auto
qed

lemma split_last: "x \<notin> set b \<Longrightarrow> x \<notin> set d \<Longrightarrow> a @ x # b = c @ x # d \<Longrightarrow> a = c \<and> b = d"
proof -
  assume x: "x \<notin> set b" "x \<notin> set d" and eq: "a @ x # b = c @ x # d"
  have "rev b @ x # rev a = rev d @ x # rev c" using arg_cong [OF eq, of rev] by simp
  then show ?thesis using split_first [of x "rev b" "rev d" "rev a" "rev c"] x by simp
qed

lemma canonical_names_clean: "c \<in> set canonical_names \<Longrightarrow> nul \<notin> set c"
  by (auto simp: canonical_names_def nul_def)

lemma canonical_op_clean: "nul \<notin> set (canonical_op a)"
  using canonical_names_clean [OF Canonical_range] by (cases "Canonical (Op a)") (auto simp: canonical_op_def)

lemma key_of_parts:
  assumes "json_text J (Expected a) = Some s" "nul \<notin> set s" "json_text J (Expected b) = Some u" "nul \<notin> set u"
    and "key_of J a = key_of J b"
  shows "Path a = Path b" and "canonical_op a = canonical_op b" and "s = u"
proof -
  have eq: "(Path a @ nul # canonical_op a) @ nul # s = (Path b @ nul # canonical_op b) @ nul # u"
    using assms by (simp add: key_of_def atomKey_def)
  from split_last [OF assms(2,4) eq] have "Path a @ nul # canonical_op a = Path b @ nul # canonical_op b" and "s = u" by auto
  with split_last [OF canonical_op_clean canonical_op_clean]
  show "Path a = Path b" "canonical_op a = canonical_op b" "s = u" by blast+
qed
subsection \<open>The projection as a walk over the sources\<close>

text \<open>The deltas of one source on its own: nothing shared, the condition evaluated as it stands.\<close>

definition source_deltas ::
  "jsonlib \<Rightarrow> regexp \<Rightarrow> Event \<Rightarrow> time \<Rightarrow> compiledSource \<Rightarrow> (source_problem, ProjectedDelta list) res" where
  "source_deltas J re ev occurredAt cs =
     bind_res
       (case so_where (cs_source cs) of
          None \<Rightarrow> Inr True
        | Some t \<Rightarrow> (case EvaluateTree re t (VMap (ev_data ev)) of Inl e \<Rightarrow> Inl (WhereFailed e) | Inr ok \<Rightarrow> Inr ok))
       (\<lambda>ok. if \<not> ok \<or> is_anonymous (ev_data ev) (cs_source cs) then Inr []
             else bind_res (readSubjects (ev_data ev) (so_identity (cs_source cs)) (so_name (cs_source cs)))
               (\<lambda>subs. if subs = [] then Inr []
                       else bind_res (delta_value J (ev_data ev) occurredAt cs)
                         (\<lambda>v. case v of None \<Rightarrow> Inr [] | Some v \<Rightarrow> Inr (map (make_delta ev cs v) subs))))"

definition pd_key :: "ProjectedDelta \<Rightarrow> string \<times> string" where
  "pd_key d = (pd_fact d, pd_subject d)"

text \<open>The first delta of each viewer's fact.\<close>

fun keep_first :: "(string \<times> string) set \<Rightarrow> ProjectedDelta list \<Rightarrow> ProjectedDelta list" where
  "keep_first seen [] = []"
| "keep_first seen (d # ds) =
     (if pd_key d \<in> seen then keep_first seen ds else d # keep_first (insert (pd_key d) seen) ds)"

lemma keep_first_append:
  "keep_first S (xs @ ys) = keep_first S xs @ keep_first (S \<union> pd_key ` set xs) ys"
  by (induction xs arbitrary: S) (auto simp: insert_absorb)

lemma keep_first_distinct: "distinct (map pd_key (keep_first S xs)) \<and> pd_key ` set (keep_first S xs) \<inter> S = {}"
proof (induction xs arbitrary: S)
  case (Cons d xs)
  then show ?case using Cons [of "insert (pd_key d) S"] Cons [of S] by auto
qed simp

lemma keep_first_subset: "set (keep_first S xs) \<subseteq> set xs"
  by (induction xs arbitrary: S) auto

definition direct_request ::
  "jsonlib \<Rightarrow> regexp \<Rightarrow> time \<Rightarrow> FactDefinition list \<Rightarrow> Event \<Rightarrow> (ApplyFactDeltasRequest option \<times> bool) \<times> SourceError list" where
  "direct_request J re now defs ev =
     (if ev_source ev = apiSource \<or> ev_dryRun ev \<or> ev_platform ev = '''' then ((None, False), [])
      else
        let srcs = [cs \<leftarrow> declared J re defs 0. Matches (so_pattern (cs_source cs)) (ev_type ev)] in
        if srcs = [] then ((None, False), [])
        else
          let occurredAt = (if ev_time ev = 0 then now else ev_time ev);
              results = map (\<lambda>cs. (cs, source_deltas J re ev occurredAt cs)) srcs;
              errs = concat (map (\<lambda>(cs, r). case r of Inl e \<Rightarrow> [source_error cs e] | Inr _ \<Rightarrow> []) results);
              deltas = keep_first {} (concat (map (\<lambda>(cs, r). case r of Inl _ \<Rightarrow> [] | Inr ds \<Rightarrow> ds) results))
          in ((if deltas = [] then None
               else Some \<lparr>rq_source = ev_source ev, rq_event = ev_id ev, rq_occurredAt = occurredAt,
                          rq_stamp = ev_sessionId ev, rq_deltas = deltas\<rparr>, True), errs))"

definition ids_ok :: "obj \<Rightarrow> (string \<times> (source_problem, subject list) res) list \<Rightarrow> bool" where
  "ids_ok data ids \<longleftrightarrow>
     (\<forall>i n rd. nul \<notin> set i \<longrightarrow> map_of ids (i @ nul # n) = Some rd \<longrightarrow> rd = readSubjects data i n)"

definition proj_ok :: "regexp \<Rightarrow> compiledAtom list \<Rightarrow> obj \<Rightarrow> projection \<Rightarrow> bool" where
  "proj_ok re pool data pe \<longleftrightarrow> atoms_ok re pool data (pj_atoms pe) \<and> ids_ok data (pj_identities pe)"

text \<open>A source the pool can answer for, with an identity path its cache key can be read back from.\<close>

definition source_ok :: "regexp \<Rightarrow> compiledAtom list \<Rightarrow> compiledSource \<Rightarrow> bool" where
  "source_ok re pool cs \<longleftrightarrow>
     nul \<notin> set (so_identity (cs_source cs)) \<and> (\<forall>a \<in> set (where_atoms cs). slot_ok re pool cs a)"

lemma subjects_ok:
  assumes "ids_ok data (pj_identities pe)" and "nul \<notin> set (so_identity src)"
  shows "\<exists>ids. subjects data src pe = (readSubjects data (so_identity src) (so_name src), pe\<lparr>pj_identities := ids\<rparr>) \<and> ids_ok data ids"
proof (cases "map_of (pj_identities pe) (identity_key src)")
  case None
  let ?ids = "(identity_key src, readSubjects data (so_identity src) (so_name src)) # pj_identities pe"
  have same: "i = so_identity src \<and> n = so_name src"
    if "nul \<notin> set i" "identity_key src = i @ nul # n" for i n
    using split_first [OF that(1) assms(2), of n "so_name src"] that(2) by (simp add: identity_key_def)
  have "ids_ok data ?ids"
    unfolding ids_ok_def
  proof (intro allI impI)
    fix i n rd assume "nul \<notin> set i" and "map_of ?ids (i @ nul # n) = Some rd"
    then show "rd = readSubjects data i n"
      using same [of i n] assms(1) by (auto simp: ids_ok_def split: if_splits)
  qed
  then show ?thesis using None by (auto simp: subjects_def Let_def)
next
  case (Some rd)
  then have "rd = readSubjects data (so_identity src) (so_name src)"
    using assms unfolding ids_ok_def identity_key_def by simp
  then have "subjects data src pe
      = (readSubjects data (so_identity src) (so_name src), pe\<lparr>pj_identities := pj_identities pe\<rparr>)"
    using Some by (simp add: subjects_def)
  then show ?thesis using assms(1) by blast
qed

lemma where_matched_ok:
  assumes "atoms_ok re pool data (pj_atoms pe)" and "\<forall>a \<in> set (where_atoms cs). slot_ok re pool cs a"
  shows "\<exists>atoms. where_matched re pool data cs pe
      = ((case so_where (cs_source cs) of None \<Rightarrow> Inr True | Some t \<Rightarrow> EvaluateTree re t (VMap data)), pe\<lparr>pj_atoms := atoms\<rparr>)
    \<and> atoms_ok re pool data atoms"
proof (cases "so_where (cs_source cs)")
  case None
  then have "where_matched re pool data cs pe = (Inr True, pe\<lparr>pj_atoms := pj_atoms pe\<rparr>)"
    by (simp add: where_matched_def)
  then show ?thesis using assms(1) unfolding None option.case by blast
next
  case (Some t)
  obtain r atoms where e: "EvaluateAtomsS (ask_pool re pool data cs) t (pj_atoms pe) = (r, atoms)" by force
  have "slot_ok re pool cs a" if "a \<in> set (tree_atoms t)" for a
    using assms(2) that Some by (simp add: where_atoms_def)
  note t = memo.tree_answers [where t = t, OF assms(1) this]
  have "where_matched re pool data cs pe = (EvaluateTree re t (VMap data), pe\<lparr>pj_atoms := atoms\<rparr>)"
    using t e Some by (simp add: where_matched_def EvaluateTree_def)
  then show ?thesis using t e unfolding Some option.case by auto
qed

lemma add_subjects_ok:
  "pj_deltas (add_subjects ev cs v subs pe) = pj_deltas pe @ keep_first (set (pj_seen pe)) (map (make_delta ev cs v) subs)
   \<and> set (pj_seen (add_subjects ev cs v subs pe)) = set (pj_seen pe) \<union> pd_key ` set (map (make_delta ev cs v) subs)
   \<and> pj_atoms (add_subjects ev cs v subs pe) = pj_atoms pe \<and> pj_identities (add_subjects ev cs v subs pe) = pj_identities pe"
proof (induction subs arbitrary: pe)
  case (Cons s subs)
  have "pd_key (make_delta ev cs v s) = (cs_fact cs, sb_id s)" by (simp add: pd_key_def make_delta_def)
  then show ?case using Cons by (auto simp: insert_absorb)
qed simp

definition deltas_in :: "(source_problem, ProjectedDelta list) res \<Rightarrow> ProjectedDelta list" where
  "deltas_in r = (case r of Inl _ \<Rightarrow> [] | Inr ds \<Rightarrow> ds)"

definition problem_in :: "(source_problem, ProjectedDelta list) res \<Rightarrow> source_problem option" where
  "problem_in r = (case r of Inl e \<Rightarrow> Some e | Inr _ \<Rightarrow> None)"

lemma project_ok:
  assumes "proj_ok re pool (ev_data ev) pe" and "source_ok re pool cs"
  shows "\<exists>pe'. project J re pool ev occurredAt cs pe = (problem_in (source_deltas J re ev occurredAt cs), pe')
    \<and> proj_ok re pool (ev_data ev) pe'
    \<and> pj_deltas pe' = pj_deltas pe @ keep_first (set (pj_seen pe)) (deltas_in (source_deltas J re ev occurredAt cs))
    \<and> set (pj_seen pe') = set (pj_seen pe) \<union> pd_key ` set (deltas_in (source_deltas J re ev occurredAt cs))"
proof -
  let ?w = "case so_where (cs_source cs) of None \<Rightarrow> Inr True | Some t \<Rightarrow> EvaluateTree re t (VMap (ev_data ev))"
  from where_matched_ok [of re pool "ev_data ev" pe cs] assms obtain atoms where
    w: "where_matched re pool (ev_data ev) cs pe = (?w, pe\<lparr>pj_atoms := atoms\<rparr>)" and a: "atoms_ok re pool (ev_data ev) atoms"
    unfolding proj_ok_def source_ok_def by blast
  from subjects_ok [of "ev_data ev" "pe\<lparr>pj_atoms := atoms\<rparr>" "cs_source cs"] assms obtain ids where
    s: "subjects (ev_data ev) (cs_source cs) (pe\<lparr>pj_atoms := atoms\<rparr>)
        = (readSubjects (ev_data ev) (so_identity (cs_source cs)) (so_name (cs_source cs)), pe\<lparr>pj_atoms := atoms, pj_identities := ids\<rparr>)"
    and i: "ids_ok (ev_data ev) ids"
    unfolding proj_ok_def source_ok_def by auto
  have ww: "(case so_where (cs_source cs) of None \<Rightarrow> Inr True
        | Some t \<Rightarrow> (case EvaluateTree re t (VMap (ev_data ev)) of Inl e \<Rightarrow> Inl (WhereFailed e) | Inr ok \<Rightarrow> Inr ok))
      = (case ?w of Inl e \<Rightarrow> Inl (WhereFailed e) | Inr ok \<Rightarrow> Inr ok)"
    by (simp split: option.splits)
  note defs = project_def w source_deltas_def ww problem_in_def deltas_in_def
  have ok1: "proj_ok re pool (ev_data ev) (pe\<lparr>pj_atoms := atoms\<rparr>)" using a assms(1) by (simp add: proj_ok_def)
  have ok2: "proj_ok re pool (ev_data ev) (pe\<lparr>pj_atoms := atoms, pj_identities := ids\<rparr>)" using a i by (simp add: proj_ok_def)
  show ?thesis
  proof (cases ?w)
    case (Inl e)
    then show ?thesis using ok1 by (simp add: defs)
  next
    case (Inr ok)
    show ?thesis
    proof (cases "\<not> ok \<or> is_anonymous (ev_data ev) (cs_source cs)")
      case True
      then show ?thesis using Inr ok1 by (auto simp: defs)
    next
      case False
      show ?thesis
      proof (cases "readSubjects (ev_data ev) (so_identity (cs_source cs)) (so_name (cs_source cs))")
        case (Inl e)
        then show ?thesis using Inr False ok2 s by (simp add: defs)
      next
        case subs: (Inr subs)
        show ?thesis
        proof (cases "delta_value J (ev_data ev) occurredAt cs")
          case (Inl e)
          then show ?thesis using Inr False ok2 s subs by (simp add: defs)
        next
          case v: (Inr v)
          then show ?thesis using Inr False ok2 s subs
            by (cases v) (auto simp: defs add_subjects_ok proj_ok_def)
        qed
      qed
    qed
  qed
qed

lemma project_all_ok:
  assumes "proj_ok re pool (ev_data ev) pe" and "\<forall>cs \<in> set css. source_ok re pool cs"
  shows "\<exists>pe'. project_all J re pool ev occurredAt css pe
      = (concat (map (\<lambda>cs. case problem_in (source_deltas J re ev occurredAt cs) of None \<Rightarrow> [] | Some e \<Rightarrow> [source_error cs e]) css), pe')
    \<and> pj_deltas pe' = pj_deltas pe @ keep_first (set (pj_seen pe)) (concat (map (\<lambda>cs. deltas_in (source_deltas J re ev occurredAt cs)) css))"
  using assms
proof (induction css arbitrary: pe)
  case (Cons cs css)
  from project_ok [OF Cons.prems(1), of cs J occurredAt] Cons.prems(2) obtain pe' where
    step: "project J re pool ev occurredAt cs pe = (problem_in (source_deltas J re ev occurredAt cs), pe')"
      "proj_ok re pool (ev_data ev) pe'"
      "pj_deltas pe' = pj_deltas pe @ keep_first (set (pj_seen pe)) (deltas_in (source_deltas J re ev occurredAt cs))"
      "set (pj_seen pe') = set (pj_seen pe) \<union> pd_key ` set (deltas_in (source_deltas J re ev occurredAt cs))" by auto
  from Cons.IH [OF step(2)] Cons.prems(2) obtain pe'' where
    rest: "project_all J re pool ev occurredAt css pe'
        = (concat (map (\<lambda>cs. case problem_in (source_deltas J re ev occurredAt cs) of None \<Rightarrow> [] | Some e \<Rightarrow> [source_error cs e]) css), pe'')"
      "pj_deltas pe'' = pj_deltas pe' @ keep_first (set (pj_seen pe')) (concat (map (\<lambda>cs. deltas_in (source_deltas J re ev occurredAt cs)) css))"
    by auto
  show ?case using rest step by (simp add: keep_first_append)
qed simp
text \<open>
  What the projector relies on of \<open>encoding/json\<close>: the value of a copied atom encodes, to a text without
  a NUL byte, and two that encode alike are equal.
\<close>

definition copies_encode :: "jsonlib \<Rightarrow> bool" where
  "copies_encode J \<longleftrightarrow>
     (\<forall>t0 t a. json_tree J t0 = Some t \<longrightarrow> a \<in> set (tree_atoms t) \<longrightarrow>
        (\<exists>s. json_text J (Expected a) = Some s \<and> nul \<notin> set s))
     \<and> (\<forall>t0 t a u0 u b. json_tree J t0 = Some t \<longrightarrow> a \<in> set (tree_atoms t) \<longrightarrow>
          json_tree J u0 = Some u \<longrightarrow> b \<in> set (tree_atoms u) \<longrightarrow>
          json_text J (Expected a) = json_text J (Expected b) \<longrightarrow> Expected a = Expected b)"

lemma declared_atom:
  assumes "cs \<in> set (declared J re defs order)" and "a \<in> set (where_atoms cs)"
  shows "validateAtom re a = None" and "\<exists>t0 t. json_tree J t0 = Some t \<and> a \<in> set (tree_atoms t)"
proof -
  from assms(2) obtain t where t: "so_where (cs_source cs) = Some t" "a \<in> set (tree_atoms t)"
    by (cases "so_where (cs_source cs)") (auto simp: where_atoms_def)
  with declared_ok [OF assms(1)] obtain t0 where v: "Validate re t = None" "json_tree J t0 = Some t"
    by (auto simp: compiled_ok_def)
  show "validateAtom re a = None" by (rule validated_atoms [OF v(1) t(2)])
  show "\<exists>t0 t. json_tree J t0 = Some t \<and> a \<in> set (tree_atoms t)" using v(2) t(2) by blast
qed

lemma new_atom_key:
  assumes J: "copies_encode J" and "json_tree J t0 = Some t" "a \<in> set (tree_atoms t)"
    and "json_tree J u0 = Some u" "b \<in> set (tree_atoms u)" and key: "key_of J a = key_of J b"
  shows "new_atom re b = new_atom re a"
proof -
  obtain s where s: "json_text J (Expected a) = Some s" "nul \<notin> set s"
    using J assms(2,3) unfolding copies_encode_def by blast
  obtain r where r: "json_text J (Expected b) = Some r" "nul \<notin> set r"
    using J assms(4,5) unfolding copies_encode_def by blast
  note parts = key_of_parts [OF s r key]
  have same: "json_text J (Expected a) = json_text J (Expected b)" unfolding s(1) r(1) parts(3) by (rule refl)
  have "Expected a = Expected b"
    using J assms(2-5) same unfolding copies_encode_def by blast
  then show ?thesis using parts by (simp add: new_atom_def)
qed

lemma indexed_source_ok:
  assumes J: "copies_encode J" and cs: "cs \<in> set (sourcesFor (fst (buildIndex J re defs)) ty)"
    and paths: "\<forall>def \<in> set defs. \<forall>src \<in> set (df_sources def). nul \<notin> set (so_identity src)"
  shows "source_ok re (ix_atoms (fst (buildIndex J re defs))) cs"
proof -
  let ?pool = "ix_atoms (fst (buildIndex J re defs))"
  have "strip cs \<in> set (map strip (sourcesFor (fst (buildIndex J re defs)) ty))" using cs by simp
  then have d: "strip cs \<in> set (declared J re defs 0)" unfolding indexed_sources by simp
  have "slot_ok re ?pool cs a" if a: "a \<in> set (where_atoms cs)" for a
  proof -
    have a': "a \<in> set (where_atoms (strip cs))" using a by simp
    from indexed_atoms [OF cs a] obtain slot b c where
      slot: "map_of (cs_atomIDs cs) a = Some slot" "slot < length ?pool" "?pool ! slot = new_atom re b"
      and b: "c \<in> set (declared J re defs 0)" "b \<in> set (where_atoms c)" "key_of J a = key_of J b" by blast
    obtain t0 t u0 u where trees: "json_tree J t0 = Some t" "a \<in> set (tree_atoms t)"
      "json_tree J u0 = Some u" "b \<in> set (tree_atoms u)"
      using declared_atom(2) [OF d a'] declared_atom(2) [OF b(1,2)] by blast
    have "?pool ! slot = new_atom re a" unfolding slot(3) by (rule new_atom_key [OF J trees b(3)])
    then show ?thesis using slot(1,2) declared_atom(1) [OF d a'] unfolding slot_ok_def by blast
  qed
  moreover have "nul \<notin> set (so_identity (cs_source cs))"
    using declared_ok [OF d] paths by (auto simp: compiled_ok_def)
  ultimately show ?thesis unfolding source_ok_def by blast
qed

lemma strip_deltas [simp]:
  "source_deltas J re ev occurredAt (strip cs) = source_deltas J re ev occurredAt cs"
  "source_error (strip cs) e = source_error cs e"
proof -
  have fields: "cs_fn (strip cs) = cs_fn cs" "cs_valuePath (strip cs) = cs_valuePath cs" by (simp_all add: strip_def)
  have "make_delta ev (strip cs) = make_delta ev cs" by (intro ext) (simp add: make_delta_def strip_def)
  moreover have "delta_value J (ev_data ev) occurredAt (strip cs) = delta_value J (ev_data ev) occurredAt cs"
    unfolding delta_value_def fields ..
  ultimately show "source_deltas J re ev occurredAt (strip cs) = source_deltas J re ev occurredAt cs"
    unfolding source_deltas_def strip_simps by (simp only:)
  show "source_error (strip cs) e = source_error cs e" by (simp add: source_error_def strip_def)
qed

lemma map_strip: "map strip A = B \<Longrightarrow> (\<And>cs. f (strip cs) = f cs) \<Longrightarrow> map f A = map f B"
  by (auto simp: comp_def)

lemma if_pair: "(if c then ((a, t), e) else ((b, t), e)) = ((if c then a else b, t), e)"
  by simp

lemma request_indexed:
  assumes J: "copies_encode J"
    and paths: "\<forall>def \<in> set defs. \<forall>src \<in> set (df_sources def). nul \<notin> set (so_identity src)"
  shows "request J re now (fst (buildIndex J re defs)) ev = direct_request J re now defs ev"
proof -
  let ?idx = "fst (buildIndex J re defs)"
  let ?at = "if ev_time ev = 0 then now else ev_time ev"
  let ?srcs = "sourcesFor ?idx (ev_type ev)"
  let ?css = "[cs \<leftarrow> declared J re defs 0. Matches (so_pattern (cs_source cs)) (ev_type ev)]"
  let ?pe0 = "\<lparr>pj_atoms = replicate (length (ix_atoms ?idx)) atomUndecided, pj_identities = [], pj_seen = [], pj_deltas = []\<rparr>"
  let ?f = "\<lambda>cs. case problem_in (source_deltas J re ev ?at cs) of None \<Rightarrow> [] | Some e \<Rightarrow> [source_error cs e]"
  let ?g = "\<lambda>cs. deltas_in (source_deltas J re ev ?at cs)"
  have srcs: "map strip ?srcs = ?css" by (rule indexed_sources)
  have ok: "\<forall>cs \<in> set ?srcs. source_ok re (ix_atoms ?idx) cs" using indexed_source_ok [OF J _ paths] by blast
  have "proj_ok re (ix_atoms ?idx) (ev_data ev) ?pe0" by (simp add: proj_ok_def atoms_ok_def ids_ok_def)
  from project_all_ok [OF this ok, of J ?at] obtain pe where
    all: "project_all J re (ix_atoms ?idx) ev ?at ?srcs ?pe0 = (concat (map ?f ?srcs), pe)"
      "pj_deltas pe = keep_first {} (concat (map ?g ?srcs))" by auto
  have f: "map ?f ?srcs = map ?f ?css" by (rule map_strip [OF srcs]) (simp only: strip_deltas)
  have g: "map ?g ?srcs = map ?g ?css" by (rule map_strip [OF srcs]) (simp only: strip_deltas)
  have empty: "?srcs = [] \<longleftrightarrow> ?css = []" unfolding srcs [symmetric] by simp
  have errs: "map (\<lambda>(cs, r). case r of Inl e \<Rightarrow> [source_error cs e] | Inr _ \<Rightarrow> []) (map (\<lambda>cs. (cs, source_deltas J re ev ?at cs)) ?css) = map ?f ?css"
    by (simp add: problem_in_def comp_def split: sum.splits)
  have dels: "map (\<lambda>(cs, r). case r of Inl _ \<Rightarrow> [] | Inr ds \<Rightarrow> ds) (map (\<lambda>cs. (cs, source_deltas J re ev ?at cs)) ?css) = map ?g ?css"
    by (simp add: deltas_in_def comp_def)
  show ?thesis
    unfolding request_def direct_request_def Let_def empty all prod.case errs dels f g by (simp only: if_pair)
qed
subsection \<open>What a batch holds\<close>

text \<open>A delta names a viewer and carries a number or a text, never both, and a text only for \<open>last\<close>.\<close>

definition delta_wf :: "ProjectedDelta \<Rightarrow> bool" where
  "delta_wf d \<longleftrightarrow> pd_subject d \<noteq> '''' \<and> (pd_num d = None) \<noteq> (pd_str d = None) \<and> (pd_op d \<noteq> ''last'' \<longrightarrow> pd_num d \<noteq> None)"

definition named :: "(source_problem, subject list) res \<Rightarrow> bool" where
  "named rd = (case rd of Inl _ \<Rightarrow> True | Inr subs \<Rightarrow> list_all (\<lambda>s. sb_id s \<noteq> '''') subs)"

definition batch_wf :: "projection \<Rightarrow> bool" where
  "batch_wf pe \<longleftrightarrow>
     distinct (map pd_key (pj_deltas pe)) \<and> (\<forall>d \<in> set (pj_deltas pe). pd_key d \<in> set (pj_seen pe))
     \<and> list_all delta_wf (pj_deltas pe) \<and> list_all (named \<circ> snd) (pj_identities pe)"

lemma read_ids_named: "named (read_ids path i items)"
proof (induction path i items rule: read_ids.induct)
  case (2 path i item items)
  then show ?case by (cases item) (auto simp: named_def bind_res_def split: sum.splits)
qed (simp add: named_def)

lemma readSubjects_named: "named (readSubjects data i n)"
  using read_ids_named by (auto simp: readSubjects_def named_def split: prod.splits val.splits if_splits)

lemma delta_value_wf:
  assumes "delta_value J data occurredAt cs = Inr (Some v)" and "sb_id s \<noteq> ''''"
  shows "delta_wf (make_delta ev cs v s)"
  using assms
  by (auto simp: delta_value_def delta_wf_def make_delta_def timed_fn_def res_simps split: if_splits prod.splits option.splits)

lemma add_subjects_wf:
  assumes "batch_wf pe" and "delta_value J data occurredAt cs = Inr (Some v)" and "list_all (\<lambda>s. sb_id s \<noteq> '''') subs"
  shows "batch_wf (add_subjects ev cs v subs pe)"
  using assms(1,3)
proof (induction subs arbitrary: pe)
  case (Cons s subs)
  have "pd_key (make_delta ev cs v s) = (cs_fact cs, sb_id s)" by (simp add: pd_key_def make_delta_def)
  then have "batch_wf (pe\<lparr>pj_seen := (cs_fact cs, sb_id s) # pj_seen pe, pj_deltas := pj_deltas pe @ [make_delta ev cs v s]\<rparr>)"
    if "(cs_fact cs, sb_id s) \<notin> set (pj_seen pe)"
    using that Cons.prems delta_value_wf [OF assms(2), of s ev] unfolding batch_wf_def by auto
  then show ?case using Cons by simp
qed simp

lemma subjects_wf:
  assumes "batch_wf pe" and "subjects data src pe = (rd, pe')"
  shows "named rd \<and> batch_wf pe'"
proof (cases "map_of (pj_identities pe) (identity_key src)")
  case None
  then show ?thesis using assms readSubjects_named by (auto simp: subjects_def Let_def batch_wf_def)
next
  case (Some r)
  then have "(identity_key src, r) \<in> set (pj_identities pe)" by (rule map_of_SomeD)
  then show ?thesis using assms Some by (auto simp: subjects_def batch_wf_def list_all_iff)
qed

lemma where_matched_wf: "batch_wf pe \<Longrightarrow> where_matched re pool data cs pe = (r, pe') \<Longrightarrow> batch_wf pe'"
  by (auto simp: where_matched_def batch_wf_def split: option.splits prod.splits)

lemma project_wf:
  assumes "batch_wf pe" and "project J re pool ev occurredAt cs pe = (err, pe')"
  shows "batch_wf pe'"
proof -
  obtain r p1 where w: "where_matched re pool (ev_data ev) cs pe = (r, p1)" by force
  note w1 = where_matched_wf [OF assms(1) w]
  obtain rd p2 where s: "subjects (ev_data ev) (cs_source cs) p1 = (rd, p2)" by force
  note s1 = subjects_wf [OF w1 s]
  have add: "batch_wf (add_subjects ev cs v subs p2)"
    if "rd = Inr subs" "delta_value J (ev_data ev) occurredAt cs = Inr (Some v)" for subs v
    using add_subjects_wf [OF _ that(2)] s1 that(1) by (simp add: named_def)
  show ?thesis using assms(2) w s w1 s1 add
    by (auto simp: project_def split: sum.splits if_splits option.splits)
qed

lemma project_all_wf:
  "batch_wf pe \<Longrightarrow> batch_wf (snd (project_all J re pool ev occurredAt css pe))"
proof (induction css arbitrary: pe)
  case (Cons cs css)
  obtain err p1 where "project J re pool ev occurredAt cs pe = (err, p1)" by force
  with project_wf [OF Cons.prems this] Cons.IH show ?case by (simp add: split_beta)
qed simp

subsection \<open>Properties\<close>

text \<open>
  C39. The batch the projector sends for an event, and the source errors it reports, are those of evaluating each
  matching source of each active definition on its own, in declaration order, each viewer's fact taking the first
  delta: pooling atoms between definitions, deciding each once and reading each identity path once changes nothing.
\<close>

theorem event_projects_each_source:
  assumes "copies_encode J"
    and "\<forall>def \<in> set defs. \<forall>src \<in> set (df_sources def). nul \<notin> set (so_identity src)"
  shows "request J re now (fst (buildIndex J re defs)) ev = direct_request J re now defs ev"
  by (rule request_indexed [OF assms])

text \<open>
  C40. Every batch the projector sends is one the database's contract allows: it is not empty, holds one delta at
  most for a fact of a viewer, and each delta names a viewer and carries exactly one of a number and a text, a
  text only for a fact that keeps the last value. No batch comes of a dry run or of the api's simulations.
\<close>

theorem batch_is_well_formed:
  assumes "request J re now idx ev = ((Some req, listened), errs)"
  shows "rq_deltas req \<noteq> [] \<and> distinct (map (\<lambda>d. (pd_fact d, pd_subject d)) (rq_deltas req))
    \<and> list_all delta_wf (rq_deltas req) \<and> \<not> ev_dryRun ev \<and> ev_source ev \<noteq> ''api''"
proof -
  let ?at = "if ev_time ev = 0 then now else ev_time ev"
  let ?pe0 = "\<lparr>pj_atoms = replicate (length (ix_atoms idx)) atomUndecided, pj_identities = [], pj_seen = [], pj_deltas = []\<rparr>"
  let ?pe = "snd (project_all J re (ix_atoms idx) ev ?at (sourcesFor idx (ev_type ev)) ?pe0)"
  have run: "\<not> ev_dryRun ev" "ev_source ev \<noteq> ''api''" and deltas: "rq_deltas req = pj_deltas ?pe" "pj_deltas ?pe \<noteq> []"
    using assms by (auto simp: request_def apiSource_def Let_def split: if_splits prod.splits)
  have "batch_wf ?pe" by (rule project_all_wf) (simp add: batch_wf_def)
  moreover have "pd_key = (\<lambda>d. (pd_fact d, pd_subject d))" by (intro ext) (simp add: pd_key_def)
  ultimately show ?thesis using run deltas by (simp add: batch_wf_def)
qed

subsection \<open>A batch as an example\<close>

text \<open>Conditions with text values only, which encode as they are.\<close>

definition plain_json :: jsonlib where
  "plain_json =
     \<lparr>json_tree = (\<lambda>t. if list_all (\<lambda>a. case Expected a of VStr s \<Rightarrow> nul \<notin> set s | _ \<Rightarrow> False) (tree_atoms t) then Some t else None),
      json_text = (\<lambda>v. case v of VStr s \<Rightarrow> Some s | _ \<Rightarrow> None)\<rparr>"

lemma plain_json_copy:
  assumes "json_tree plain_json t0 = Some t" and "a \<in> set (tree_atoms t)"
  shows "\<exists>s. Expected a = VStr s \<and> json_text plain_json (Expected a) = Some s \<and> nul \<notin> set s"
  using assms by (auto simp: plain_json_def list_all_iff split: if_splits val.splits dest!: bspec)

lemma plain_json_encodes: "copies_encode plain_json"
  unfolding copies_encode_def
proof (intro conjI allI impI)
  fix t0 t a assume "json_tree plain_json t0 = Some t" "a \<in> set (tree_atoms t)"
  then show "\<exists>s. json_text plain_json (Expected a) = Some s \<and> nul \<notin> set s" using plain_json_copy by blast
next
  fix t0 t a u0 u b
  assume t: "json_tree plain_json t0 = Some t" "a \<in> set (tree_atoms t)"
    and u: "json_tree plain_json u0 = Some u" "b \<in> set (tree_atoms u)"
    and same: "json_text plain_json (Expected a) = json_text plain_json (Expected b)"
  from plain_json_copy [OF t] plain_json_copy [OF u] same show "Expected a = Expected b" by auto
qed

definition chat_source :: "string \<Rightarrow> FactSource" where
  "chat_source p =
     \<lparr>so_trigger = ''chat'', so_pattern = p, so_identity = ''user'', so_anonymous = '''', so_name = ''name'',
      so_where = Some (atom ''channel'' ''eq'' (VStr ''main'')), so_value = ''''\<rparr>"

text \<open>Two facts count the messages of one channel, one of them through two patterns.\<close>

definition chat_facts :: "FactDefinition list" where
  "chat_facts =
     [\<lparr>df_id = ''chats'', df_revision = 1, df_aggregate = \<lparr>ag_fn = ''count'', ag_path = ''''\<rparr>,
       df_sources = [chat_source ''chat.*'', chat_source ''chat.message''], df_status = ''active''\<rparr>,
      \<lparr>df_id = ''seen'', df_revision = 1, df_aggregate = \<lparr>ag_fn = ''last_at'', ag_path = ''''\<rparr>,
       df_sources = [chat_source ''>''], df_status = ''active''\<rparr>]"

definition chat_event :: Event where
  "chat_event =
     \<lparr>ev_id = ''e1'', ev_type = ''chat.message'', ev_source = ''twitch'', ev_time = 7000000, ev_platform = ''twitch'',
      ev_sessionId = '''', ev_triggerId = '''', ev_triggeredBy = '''', ev_workflowChain = '''', ev_dryRun = False,
      ev_data = [(''channel'', VStr ''main''), (''user'', VStr ''u1''), (''name'', VStr ''Ada'')]\<rparr>"

theorem event_projects_each_source_witness:
  "request plain_json (\<lambda>_. None) 0 (fst (buildIndex plain_json (\<lambda>_. None) chat_facts)) chat_event
    = direct_request plain_json (\<lambda>_. None) 0 chat_facts chat_event"
  by (rule event_projects_each_source [OF plain_json_encodes]) (simp add: chat_facts_def chat_source_def nul_def)

lemma chat_request:
  "map_option (map pd_key \<circ> rq_deltas) (fst (fst (request plain_json (\<lambda>_. None) 0 (fst (buildIndex plain_json (\<lambda>_. None) chat_facts)) chat_event)))
    = Some [(''chats'', ''u1''), (''seen'', ''u1'')]"
  by code_simp

theorem batch_is_well_formed_witness:
  "\<exists>req listened errs. request plain_json (\<lambda>_. None) 0 (fst (buildIndex plain_json (\<lambda>_. None) chat_facts)) chat_event = ((Some req, listened), errs)
     \<and> distinct (map (\<lambda>d. (pd_fact d, pd_subject d)) (rq_deltas req)) \<and> list_all delta_wf (rq_deltas req)
     \<and> length (rq_deltas req) = 2"
proof -
  let ?r = "request plain_json (\<lambda>_. None) 0 (fst (buildIndex plain_json (\<lambda>_. None) chat_facts)) chat_event"
  obtain req where q: "fst (fst ?r) = Some req" "map pd_key (rq_deltas req) = [(''chats'', ''u1''), (''seen'', ''u1'')]"
    using chat_request by auto
  then have r: "?r = ((Some req, snd (fst ?r)), snd ?r)" by (metis prod.collapse)
  have "length (rq_deltas req) = 2" using arg_cong [OF q(2), of length] by simp
  with batch_is_well_formed [OF r] r show ?thesis by blast
qed

end
