(* ===== verification/Spec2Isabelle.thy ===== *)
theory Spec2Isabelle
  imports Event_Match Condition_Tree Resolver Graph_Order Wait_Task Run_Concurrency Resume Loop_Guard Run_Life
    Deliveries Registry Actions Dispatch Sub_Workflow Wait_Registry Database_Cells Segment_Members Fact_Projection
begin

text \<open>
  WoofX3 is an automation platform for live streams. Its workflow service (\<open>workflow/\<close>, in Go)
  takes events from a bus, decides which workflows they start, and runs the tasks of each workflow.
  The same service turns events into facts about viewers (what they did, how often, since when), which
  the database service (\<open>db/\<close>) folds into stored values and into memberships of segments of viewers.
  This library models the workflow service, the expression language its definitions are written in,
  the way from an event to a viewer's facts and segments, and the typed cells of the databases
  workflows write to, and proves what makes each of them correct.

  How the parts work together. A definition (\<open>Workflow_Types\<close>) is checked (\<open>Validation\<close>) and
  registered with its trigger (\<open>Registry\<close>, \<open>Triggers\<close>). An event from the bus, a schedule, a command
  or a manual request passes the window of recent deliveries (\<open>Deliveries\<close>), is matched against the
  triggers (\<open>Event_Match\<close>, \<open>Condition_Tree\<close>) and begins runs, those of ordered workflows in turn
  (\<open>Dispatch\<close>), unless the chain of runs that caused it is too long (\<open>Loop_Guard\<close>). A run executes the
  tasks in the order of its dependency graph (\<open>Dependency_Graph\<close>, \<open>Graph_Order\<close>) in a loop
  (\<open>Task_Loop\<close>) that settles conditions, excludes the branches not taken (\<open>Run_Branches\<close>), runs
  independent neighbours together (\<open>Concurrency\<close>, \<open>Run_Concurrency\<close>) and calls actions (\<open>Actions\<close>)
  whose parameters are resolved by the expression language (\<open>Resolver\<close>, \<open>Grammar\<close>, \<open>Functions\<close>,
  \<open>Paths\<close>). It may wait for events (\<open>Wait_Task\<close>, \<open>Wait_Registry\<close>) or for the run of another workflow
  (\<open>Sub_Workflow\<close>), be cancelled or stopped (\<open>Run_Control\<close>, \<open>Run_Life\<close>), and is kept in memory until
  it is swept (\<open>Run_Table\<close>). Its recorded steps can be run again (\<open>Replay\<close>, \<open>Resume\<close>). Beside the runs it
  starts, an event is projected onto deltas of facts (\<open>Fact_Index\<close>, \<open>Fact_Projection\<close>); the database
  folds them once per event (\<open>Fact_Fold\<close>) and moves the viewers whose values changed into and out of
  the segments whose conditions read them (\<open>Segment_Condition\<close>, \<open>Segment_Members\<close>).

  Foundations.

  \<^item> \<open>Prelude\<close>: results of fallible code as sums with \<open>Inl\<close> the error, list traversals that stop at the
    first error, and the collections \<open>res_simps\<close> and others the component proofs use.
  \<^item> \<open>Go_Strings\<close>: Go strings as byte strings and the functions of \<open>strings\<close> and \<open>strconv\<close> used.
  \<^item> \<open>Float64\<close>: \<open>float64\<close> as exact dyadic numbers with the two infinities and NaN; rounding to nearest
    even, comparison, and the conversions to and from \<open>int\<close> and text.
  \<^item> \<open>Go_Values\<close>: the dynamic values (\<open>any\<close>) workflow data is made of, and their conversions.

  The expression language, \<open>workflow/internal/expression\<close> and \<open>shared/common/golang/conditions\<close>.

  \<^item> \<open>Operators\<close>: the operator table, what an operator decides on two values, and the check of the
    expected value when a condition is saved. A saved condition never fails when it is evaluated, and
    integers up to 2^53 compare exactly.
  \<^item> \<open>Paths\<close>: reading a path in nested data; printing a structured path and reading it back agree.
  \<^item> \<open>Functions\<close>: the fixed functions; \<open>Grammar\<close>: tokens, the precedence parser and a printer. Parsing
    what was printed gives the tree back, and parsing ends on every text.
  \<^item> \<open>Resolver\<close>: interpolation of texts, values and arguments over data sources, some of them loaded on
    first use. However much is resolved, each of those is loaded successfully at most once.
  \<^item> \<open>Condition_Tree\<close>: conditions as data. The locale \<open>atom_evaluator\<close> holds what the tree needs of the
    evaluation of its leaves; the interpretation discharges it for the leaf evaluation of the code.

  Definitions and their order, \<open>workflow/internal/types\<close> and \<open>engine\<close>.

  \<^item> \<open>Workflow_Types\<close>: the records of \<open>types.go\<close>. \<open>Dependency_Graph\<close> is \<open>executor.go\<close> as written: edges
    of dependencies, of branches, and of the followers put after branches. \<open>Graph_Order\<close> proves which
    definitions it accepts, that each accepted one has an execution order, and what that order keeps.
  \<^item> \<open>Validation\<close>: every check of a definition, with a characterisation of what is accepted.
    \<open>Publish_Guard\<close>: the subjects a workflow may publish.
  \<^item> \<open>Triggers\<close>: the event and schedule registrars behind the locale \<open>registrar\<close> (registering and
    unregistering one workflow leaves the others alone), interpreted for both. \<open>Registry\<close> composes them.

  Runs, \<open>workflow/internal/engine\<close> and \<open>tasks\<close>.

  \<^item> \<open>Task_Loop\<close>: \<open>runExecution\<close>, \<open>runTasksFrom\<close> and the handlers of each kind of task. The loop goes
    over a finite list, so it is structural and needs no fuel; what an action answers, the clock and
    the identifiers drawn are arguments. \<open>Run_Branches\<close>, \<open>Concurrency\<close>, \<open>Reads\<close> and \<open>Run_Concurrency\<close> prove
    that no excluded task is run and that running neighbours together equals running them in turn.
  \<^item> \<open>Replay\<close> and \<open>Resume\<close>: the plan made of recorded steps restores the state of the run it repeats, and
    the run goes on from it as the first would have.
  \<^item> \<open>Actions\<close>: the registries of actions and task types, and dry runs. \<open>Loop_Guard\<close>: the chain of causes
    carried by events, at most eight runs long.
  \<^item> \<open>Wait_Task\<close>: one wait as a state machine. \<open>Wait_Registry\<close>: all waits of the engine, changed by event,
    timer, cancel and stop in any interleaving; each armed wait has one taker.
  \<^item> \<open>Run_Control\<close>: one run's cancellation state. The locale \<open>claim\<close> is the interface of everything that is
    claimed at most once, interpreted for settling, stopping, cancelling and stamping. \<open>Run_Life\<close>: the
    critical sections on one run as an inductive step relation, with its reachable states.
  \<^item> \<open>Sub_Workflow\<close>: parents waiting for children, over any sequence of settles, cancels and stops.
    \<open>Run_Table\<close>: what is evicted and when.
  \<^item> \<open>Event_Match\<close>, \<open>Deliveries\<close>, \<open>Dispatch\<close>: from a delivered event to the runs it starts. The ring buffer
    of deliveries refines the set of the last events let through.

  Facts and segments, \<open>workflow/internal/facts\<close>, \<open>db/app/services\<close> and \<open>db/database/repository\<close>.

  \<^item> \<open>Fact_Index\<close> (\<open>index.go\<close>): the fact definitions compiled into sources by event pattern and a pool of
    the atoms their conditions share. Looking an event type up finds the sources a walk over all of them
    would. \<open>Fact_Projection\<close> (\<open>projector.go\<close>): one event projected through the index. The locale
    \<open>remembering\<close> is the interface of a memory of decided atoms, interpreted on the code's pool; the batch
    is proved to be that of evaluating each source on its own.
  \<^item> \<open>Fact_Fold\<close> (\<open>viewer_fact_repository.go\<close>): the aggregates and the application of a batch, once per
    event; the changes it reports are what it changed.
  \<^item> \<open>Segment_Condition\<close> (\<open>segment_condition.go\<close>): saved conditions over facts, and what they read.
    \<open>Segment_Members\<close> (\<open>viewer_segment_service.go\<close>, \<open>viewer_segment_repository.go\<close>): the memberships an
    applied batch moves and announces, and filling and reconciling a segment. Memberships follow the
    stored values.

  Databases, \<open>db/app/services\<close>.

  \<^item> \<open>Database_Cells\<close>: column definitions and the conversion of cells; what is stored has the type of its
    column and is accepted again as it is.

  Conventions. A Go \<open>map\<close> whose order cannot be seen is a function or an association list with distinct
  keys; where the code ranges over one and the order shows, the list's order is that order and the
  theorem holds for every list. A mutex-guarded section is one step. Goroutines are steps that
  interleave; where a model runs one to its end at once its theory says so. Errors are values of a
  datatype per component; their wording is not modelled. An \<open>int\<close> is HOL's \<open>int\<close> where it counts things
  in memory; a text read as an \<open>int\<close> fails outside 64 bits, as \<open>strconv.Atoi\<close> does.

  Fuel. The tokenizer, the parser, the reader of interpolated texts and the rune counter take the
  length of their text as fuel: each step consumes a byte or a token. The parser's fuel is proved to
  suffice for every text, that of the recursions over a dependency graph (the number of its tasks, and
  of its edges) likewise. What follows when a run settles, across the runs that wait for one another,
  is a stack of acts that is proved to empty.

  Parameters, because their code is not under \<open>src/\<close> or is chosen by the caller: the handlers of
  actions, regular expressions, Unicode case mapping outside ASCII, the random source, the clock, the
  cron parser, RFC 3339 moments, the URL parser, the publishing of events, the JSON codec, and the
  facts looked up for a viewer. Each is an argument or a field of a record (\<open>golib\<close>, \<open>textlib\<close>,
  \<open>jsonlib\<close>), and every hypothesis about one is in the theorem that uses it.

  Not modelled: the Twirp and protobuf code under \<open>db/app/server\<close> and \<open>shared/clients\<close>, which is
  generated; the services under \<open>db/app/services\<close> and \<open>db/database/repository\<close> that turn calls into
  queries of a database, among them the saving and deleting of the definitions of facts and segments;
  migrations; the process runtime, logging and configuration under
  \<open>shared/common/golang\<close>; the build orchestrator, which runs external tools; and the parts of the
  product written in TypeScript and Rust. Within the workflow service the wiring of \<open>main.go\<close>, the
  clients of other services and the recorder of runs are calls without decisions of their own.
\<close>

end
